(* ===== verification/Prelude.thy ===== *)
theory Prelude
  imports Main "HOL-Library.Word" "HOL-Library.Multiset" "HOL-Library.Sublist"
begin

text \<open>
  Shared vocabulary of the development: names for the machine types, checked memory
  accesses, C strings, limb vectors and the generic lemmas the components use.

  A C array or buffer is a list. Reading or writing outside of it is undefined in C; the
  model makes that visible: \<open>load\<close>, \<open>store\<close> and \<open>blit\<close> return \<open>None\<close>, and a
  function that calls them returns \<open>None\<close> too. A theorem that such a function returns
  \<open>Some\<close> is therefore a memory-safety theorem.
\<close>

unbundle bit_operations_syntax

type_synonym u8 = "8 word"
type_synonym u16 = "16 word"
type_synonym u32 = "32 word"
type_synonym u64 = "64 word"

text \<open>The bytes of a string literal.\<close>

definition ascii :: "string \<Rightarrow> u8 list" where
  "ascii = map (\<lambda>c. word_of_nat (of_char c))"

named_theorems mem_simps \<open>checked memory accesses\<close>
named_theorems word_conv \<open>reading word operations as integers\<close>
named_theorems mp_simps \<open>values of limb vectors\<close>

section \<open>Checked memory accesses\<close>

definition load :: "'a list \<Rightarrow> nat \<Rightarrow> 'a option" where
  "load m i = (if i < length m then Some (m ! i) else None)"

definition store :: "'a list \<Rightarrow> nat \<Rightarrow> 'a \<Rightarrow> 'a list option" where
  "store m i x = (if i < length m then Some (m[i := x]) else None)"

text \<open>\<open>blit m off d\<close> is \<^verbatim>\<open>memcpy(m + off, d, len)\<close> for a source disjoint from the target.\<close>

definition blit :: "'a list \<Rightarrow> nat \<Rightarrow> 'a list \<Rightarrow> 'a list option" where
  "blit m off d =
     (if off + length d \<le> length m
      then Some (take off m @ d @ drop (off + length d) m) else None)"

lemma load_Some_iff [mem_simps]: "load m i = Some x \<longleftrightarrow> i < length m \<and> x = m ! i"
  by (auto simp: load_def)

lemma store_Some_iff [mem_simps]: "store m i x = Some m' \<longleftrightarrow> i < length m \<and> m' = m[i := x]"
  by (auto simp: store_def)

lemma blit_Some_iff [mem_simps]:
  "blit m off d = Some m' \<longleftrightarrow>
     off + length d \<le> length m \<and> m' = take off m @ d @ drop (off + length d) m"
  by (auto simp: blit_def)

lemma load_append1 [simp]: "i < length xs \<Longrightarrow> load (xs @ ys) i = load xs i"
  by (simp add: load_def nth_append)

lemma load_append_length [simp]: "load (xs @ y # ys) (length xs) = Some y"
  by (simp add: load_def nth_append)

lemma length_blit: "blit m off d = Some m' \<Longrightarrow> length m' = length m"
  by (auto simp: mem_simps)

lemma take_blit: "blit m off d = Some m' \<Longrightarrow> take off m' = take off m"
  by (auto simp: mem_simps)

lemma take_blit_end: "blit m off d = Some m' \<Longrightarrow> take (off + length d) m' = take off m @ d"
  by (auto simp: mem_simps)

section \<open>C strings\<close>

text \<open>
  A C string is the part of a buffer in front of its first NUL; \<open>has_nul\<close> says that the
  buffer holds one, without which \<^verbatim>\<open>strlen\<close> and every loop up to the NUL read out of range.
\<close>

definition cstr :: "u8 list \<Rightarrow> u8 list" where
  "cstr m = takeWhile (\<lambda>c. c \<noteq> 0) m"

definition has_nul :: "u8 list \<Rightarrow> bool" where
  "has_nul m \<longleftrightarrow> 0 \<in> set m"

definition strlen :: "u8 list \<Rightarrow> nat" where
  "strlen m = length (cstr m)"

lemma cstr_simps [simp]:
  "cstr [] = []"
  "cstr (0 # m) = []"
  "c \<noteq> 0 \<Longrightarrow> cstr (c # m) = c # cstr m"
  by (simp_all add: cstr_def)

lemma has_nul_simps [simp]:
  "\<not> has_nul []"
  "has_nul (c # m) \<longleftrightarrow> c = 0 \<or> has_nul m"
  by (auto simp: has_nul_def)

lemma strlen_lt_length: "has_nul m \<Longrightarrow> strlen m < length m"
  by (induction m) (auto simp: strlen_def cstr_def)

lemma cstr_no_nul: "0 \<notin> set (cstr m)"
  by (auto simp: cstr_def dest: set_takeWhileD)

lemma cstr_eq_take: "cstr m = take (strlen m) m"
  unfolding cstr_def strlen_def by (rule takeWhile_eq_take)

lemma nth_strlen: "has_nul m \<Longrightarrow> m ! strlen m = 0"
  by (induction m) (auto simp: strlen_def cstr_def)

lemma cstr_append_nul: "0 \<notin> set xs \<Longrightarrow> cstr (xs @ 0 # ys) = xs"
  by (induction xs) (auto simp: cstr_def)

section \<open>Words as integers\<close>

lemma int_div_eq_iff:
  fixes a d q :: int
  assumes "0 < d"
  shows "a div d = q \<longleftrightarrow> q * d \<le> a \<and> a < (q + 1) * d"
proof
  assume q: "a div d = q"
  have "a = q * d + a mod d" using q by (metis div_mult_mod_eq)
  moreover have "0 \<le> a mod d" "a mod d < d" using assms by simp_all
  ultimately show "q * d \<le> a \<and> a < (q + 1) * d" by (simp add: distrib_right)
next
  assume "q * d \<le> a \<and> a < (q + 1) * d"
  then show "a div d = q"
    using assms by (intro int_div_pos_eq [where r = "a - q * d"]) (auto simp: algebra_simps)
qed

lemma int_div_less_iff:
  fixes a d q :: int
  assumes "0 < d"
  shows "a div d < q \<longleftrightarrow> a < q * d"
proof
  assume "a div d < q"
  then have "(a div d + 1) * d \<le> q * d" using assms by (intro mult_right_mono) auto
  moreover have "a < (a div d + 1) * d" using int_div_eq_iff [OF assms, of a "a div d"] by simp
  ultimately show "a < q * d" by linarith
next
  assume a: "a < q * d"
  show "a div d < q"
  proof (rule ccontr)
    assume "\<not> a div d < q"
    then have "q * d \<le> (a div d) * d" using assms by (intro mult_right_mono) auto
    moreover have "(a div d) * d \<le> a" using int_div_eq_iff [OF assms, of a "a div d"] by simp
    ultimately show False using a by linarith
  qed
qed

lemma uint_drop_bit [word_conv]: "uint (drop_bit n x) = uint x div 2 ^ n"
proof -
  have "uint (drop_bit n x) = drop_bit n (uint x)"
    by (simp add: unsigned_drop_bit_eq take_bit_int_eq_self)
  then show ?thesis by (simp add: drop_bit_eq_div)
qed

lemma uint_push_bit [word_conv]:
  "uint (push_bit n (x :: 'a::len word)) = uint x * 2 ^ n mod 2 ^ LENGTH('a)"
proof -
  have "uint (push_bit n x) = take_bit LENGTH('a) (push_bit n (uint x))"
    by (simp add: unsigned_push_bit_eq)
  then show ?thesis by (simp add: take_bit_eq_mod push_bit_eq_mult)
qed

lemma uint_ucast [word_conv]:
  "uint (ucast (x :: 'a::len word) :: 'b::len word) = uint x mod 2 ^ LENGTH('b)"
  by (simp add: unsigned_ucast_eq take_bit_eq_mod)

lemma uint_and_mask [word_conv]: "uint (x AND mask n) = uint x mod 2 ^ n"
proof -
  have "uint (x AND mask n) = take_bit n (uint x)"
    by (simp add: take_bit_eq_mask [symmetric] unsigned_take_bit_eq and.commute)
  then show ?thesis by (simp add: take_bit_eq_mod)
qed

lemma uint_or_disjoint:
  assumes "x AND y = 0"
  shows "uint (x OR y) = uint x + uint (y :: 'a::len word)"
proof -
  have "uint x AND uint y = 0"
    using assms by (metis unsigned_and_eq unsigned_0)
  then show ?thesis by (simp add: unsigned_or_eq disjunctive_add_eq_or)
qed

lemma push_bit_and_small:
  assumes "uint x < 2 ^ n"
  shows "push_bit n y AND (x :: 'a::len word) = 0"
proof -
  have "x = take_bit n x"
    using assms by (simp add: word_uint_eq_iff unsigned_take_bit_eq take_bit_int_eq_self)
  then show ?thesis
    by (metis (no_types, lifting) bit_word_eqI bit_and_iff bit_push_bit_iff bit_take_bit_iff
        bit_0_eq bot_apply bot_bool_def not_le)
qed

lemma uint_push_bit_or:
  assumes "uint x < 2 ^ n"
  shows "uint (push_bit n y OR (x :: 'a::len word)) = uint y * 2 ^ n mod 2 ^ LENGTH('a) + uint x"
  using uint_or_disjoint [OF push_bit_and_small [OF assms]] by (simp add: uint_push_bit)

lemma uint_le_max: "uint (x :: 'a::len word) \<le> 2 ^ LENGTH('a) - 1"
  using uint_lt2p [of x] by linarith

section \<open>Limb vectors\<close>

text \<open>
  The value of a little-endian vector of machine words, \<open>\<Sum>\<^sub>i xs ! i * B ^ i\<close> for the base
  \<open>B = 2 ^ LENGTH('a)\<close>.
\<close>

primrec mp_val :: "'a::len word list \<Rightarrow> int" where
  "mp_val [] = 0"
| "mp_val (x # xs) = uint x + 2 ^ LENGTH('a) * mp_val xs"

lemma mp_val_nonneg [simp]: "0 \<le> mp_val xs"
  by (induction xs) auto

lemma mp_val_lt: "mp_val (xs :: 'a::len word list) < 2 ^ (LENGTH('a) * length xs)"
proof (induction xs)
  case Nil then show ?case by simp
next
  case (Cons x xs)
  have x: "uint x < 2 ^ LENGTH('a)" by (rule uint_lt2p)
  have "mp_val xs + 1 \<le> 2 ^ (LENGTH('a) * length xs)" using Cons by simp
  then have "2 ^ LENGTH('a) * (mp_val xs + 1) \<le> 2 ^ LENGTH('a) * 2 ^ (LENGTH('a) * length xs)"
    by (rule mult_left_mono) simp
  with x have "uint x + 2 ^ LENGTH('a) * mp_val xs < 2 ^ LENGTH('a) * 2 ^ (LENGTH('a) * length xs)"
    unfolding distrib_left by linarith
  then show ?case by (simp add: power_add)
qed

lemma mp_val_append [mp_simps]:
  "mp_val (xs @ ys :: 'a::len word list) = mp_val xs + 2 ^ (LENGTH('a) * length xs) * mp_val ys"
  by (induction xs) (auto simp: power_add algebra_simps)

lemma mp_val_replicate_0 [simp]: "mp_val (replicate n 0) = 0"
  by (induction n) auto

end
