(* ===== verification/Cutils_String.thy ===== *)
theory Cutils_String
  imports Prelude
begin

text \<open>
  The bounded string helpers of \<^verbatim>\<open>quickjs/cutils.c\<close>: \<^verbatim>\<open>pstrcpy\<close>, \<^verbatim>\<open>pstrcat\<close>, \<^verbatim>\<open>strstart\<close> and
  \<^verbatim>\<open>has_suffix\<close>. A buffer is a byte list, a string argument is a buffer that holds a NUL;
  \<open>None\<close> is an access outside of a buffer.
\<close>

section \<open>pstrcpy and pstrcat\<close>

text \<open>The copy loop; \<open>q\<close> is the offset of the write pointer from \<^verbatim>\<open>buf\<close>, \<open>str\<close> the rest of the source.\<close>

fun pstrcpy_loop :: "u8 list \<Rightarrow> int \<Rightarrow> nat \<Rightarrow> u8 list \<Rightarrow> u8 list option" where
  "pstrcpy_loop buf buf_size q [] = None"
| "pstrcpy_loop buf buf_size q (c # str) =
     (if c = 0 \<or> int q \<ge> buf_size - 1 then store buf q 0
      else case store buf q c of
             None \<Rightarrow> None
           | Some buf' \<Rightarrow> pstrcpy_loop buf' buf_size (Suc q) str)"

definition pstrcpy :: "u8 list \<Rightarrow> int \<Rightarrow> u8 list \<Rightarrow> u8 list option" where
  "pstrcpy buf buf_size str =
     (if buf_size \<le> 0 then Some buf else pstrcpy_loop buf buf_size 0 str)"

definition pstrcat :: "u8 list \<Rightarrow> int \<Rightarrow> u8 list \<Rightarrow> u8 list option" where
  "pstrcat buf buf_size s =
     (if \<not> has_nul buf then None
      else let len = strlen buf in
        if int len < buf_size
        then (case pstrcpy (drop len buf) (buf_size - int len) s of
                None \<Rightarrow> None
              | Some t \<Rightarrow> Some (take len buf @ t))
        else Some buf)"

lemma pstrcpy_loop_spec:
  assumes "int q < n" and "n \<le> int (length buf)" and "has_nul str"
  shows "pstrcpy_loop buf n q str =
    Some (let s = take (nat n - 1 - q) (cstr str)
          in take q buf @ s @ 0 # drop (Suc (q + length s)) buf)"
  using assms
proof (induction buf n q str rule: pstrcpy_loop.induct)
  case (1 buf n q)
  then show ?case by simp
next
  case (2 buf n q c str)
  show ?case
  proof (cases "c = 0 \<or> int q \<ge> n - 1")
    case True
    then have "take (nat n - 1 - q) (cstr (c # str)) = []"
      by (auto simp: cstr_def)
    with True "2.prems" show ?thesis
      by (auto simp: store_def upd_conv_take_nth_drop)
  next
    case False
    with "2.prems" have q: "q < length buf" and st: "store buf q c = Some (buf[q := c])"
      by (auto simp: store_def)
    have IH: "pstrcpy_loop (buf[q := c]) n (Suc q) str =
      Some (let s = take (nat n - 1 - Suc q) (cstr str)
            in take (Suc q) (buf[q := c]) @ s @ 0 # drop (Suc (Suc q + length s)) (buf[q := c]))"
      using False "2.prems" st by (intro "2.IH") auto
    have "nat n - 1 - q = Suc (nat n - 1 - Suc q)"
      using False "2.prems" by linarith
    with False q st IH show ?thesis
      by (simp add: Let_def take_Suc_conv_app_nth)
  qed
qed

lemma pstrcpy_eq:
  assumes "0 < n" and "n \<le> int (length buf)" and "has_nul str"
  shows "pstrcpy buf n str =
    Some (let s = take (nat n - 1) (cstr str) in s @ 0 # drop (Suc (length s)) buf)"
  using pstrcpy_loop_spec [of 0 n buf str] assms by (simp add: pstrcpy_def)

text \<open>Overwriting the start of a buffer with a terminated string.\<close>

lemma terminated_overwrite:
  assumes "length s < k" and "k \<le> length buf" and "0 \<notin> set s"
  shows "has_nul (s @ 0 # drop (Suc (length s)) buf) \<and>
    cstr (s @ 0 # drop (Suc (length s)) buf) = s \<and>
    length (s @ 0 # drop (Suc (length s)) buf) = length buf \<and>
    drop k (s @ 0 # drop (Suc (length s)) buf) = drop k buf"
proof -
  obtain d where d: "k = Suc (length s + d)"
    using assms(1) less_iff_Suc_add by auto
  then have "drop k (s @ 0 # drop (Suc (length s)) buf) = drop k buf"
    by (simp add: add.commute)
  then show ?thesis using assms by (simp add: has_nul_def cstr_append_nul)
qed

text \<open>
  What the caller of \<^verbatim>\<open>pstrcpy\<close> sees for a buffer of at least \<^verbatim>\<open>buf_size\<close> bytes: no access
  leaves a buffer, the result is a terminated string that is the source truncated to
  \<^verbatim>\<open>buf_size - 1\<close> bytes, and no byte at or beyond \<^verbatim>\<open>buf_size\<close> changes.
\<close>

lemma pstrcpy_spec:
  assumes "0 < n" and "n \<le> int (length buf)" and "has_nul str"
  shows "\<exists>buf'. pstrcpy buf n str = Some buf' \<and> has_nul buf' \<and>
    cstr buf' = take (nat n - 1) (cstr str) \<and>
    length buf' = length buf \<and> drop (nat n) buf' = drop (nat n) buf"
proof -
  let ?s = "take (nat n - 1) (cstr str)"
  have "length ?s < nat n" and "nat n \<le> length buf" and "0 \<notin> set ?s"
    using assms cstr_no_nul by (auto dest: in_set_takeD)
  then show ?thesis
    using pstrcpy_eq [OF assms] terminated_overwrite [of ?s "nat n" buf]
    by (simp add: Let_def)
qed

lemma pstrcpy_spec_witness:
  "\<exists>buf'. pstrcpy [1, 2, 3, 4, 5] 4 [0x61, 0x62, 0x63, 0x64, 0] = Some buf' \<and> has_nul buf' \<and>
    cstr buf' = take (nat 4 - 1) (cstr [0x61, 0x62, 0x63, 0x64, 0]) \<and>
    length buf' = length [1, 2, 3, 4, 5 :: u8] \<and> drop (nat 4) buf' = drop (nat 4) [1, 2, 3, 4, 5]"
  by (rule pstrcpy_spec) simp_all

text \<open>
  \<^verbatim>\<open>pstrcat\<close> appends to a terminated string inside a buffer of \<^verbatim>\<open>buf_size\<close> bytes: the result is
  terminated, holds the concatenation truncated to \<^verbatim>\<open>buf_size - 1\<close> bytes, and nothing at or
  beyond \<^verbatim>\<open>buf_size\<close> is written.
\<close>

lemma pstrcat_spec:
  assumes "0 < n" and "n \<le> int (length buf)" and "has_nul buf" and "int (strlen buf) < n"
    and "has_nul s"
  shows "\<exists>buf'. pstrcat buf n s = Some buf' \<and> has_nul buf' \<and>
    cstr buf' = take (nat n - 1) (cstr buf @ cstr s) \<and>
    length buf' = length buf \<and> drop (nat n) buf' = drop (nat n) buf"
proof -
  let ?l = "strlen buf"
  let ?t = "take (nat (n - int ?l) - 1) (cstr s)"
  let ?s = "take (nat n - 1) (cstr buf @ cstr s)"
  have len: "?l < length buf" using assms(3) by (rule strlen_lt_length)
  have l1: "length (cstr buf) = ?l" by (simp add: strlen_def)
  have s: "?s = cstr buf @ ?t"
  proof -
    have "nat (n - int ?l) - 1 = nat n - 1 - ?l" and "?l \<le> nat n - 1"
      using assms(4) by linarith+
    then show ?thesis using l1 by simp
  qed
  have pre: "0 < n - int ?l" "n - int ?l \<le> int (length (drop ?l buf))" "has_nul s"
    using assms len by auto
  have "pstrcat buf n s = Some (cstr buf @ ?t @ 0 # drop (Suc (length ?t)) (drop ?l buf))"
    using pstrcpy_eq [OF pre] assms by (simp add: pstrcat_def Let_def cstr_eq_take [of buf])
  also have "cstr buf @ ?t @ 0 # drop (Suc (length ?t)) (drop ?l buf) =
      ?s @ 0 # drop (Suc (length ?s)) buf"
    using s l1 by (simp add: add.commute)
  finally have eq: "pstrcat buf n s = Some (?s @ 0 # drop (Suc (length ?s)) buf)" .
  have "length ?s < nat n" and "nat n \<le> length buf" and "0 \<notin> set ?s"
    using assms cstr_no_nul by (auto dest!: in_set_takeD)
  then show ?thesis using eq terminated_overwrite [of ?s "nat n" buf] by simp
qed

lemma pstrcat_spec_witness:
  "\<exists>buf'. pstrcat [0x61, 0, 3, 4, 5] 4 [0x62, 0x63, 0x64, 0] = Some buf' \<and> has_nul buf' \<and>
    cstr buf' = take (nat 4 - 1) (cstr [0x61, 0, 3, 4, 5] @ cstr [0x62, 0x63, 0x64, 0]) \<and>
    length buf' = length [0x61, 0, 3, 4, 5 :: u8] \<and>
    drop (nat 4) buf' = drop (nat 4) [0x61, 0, 3, 4, 5]"
  by (rule pstrcat_spec) (simp_all add: strlen_def)

section \<open>strstart and has_suffix\<close>

text \<open>
  \<open>Some (Some k)\<close> is the return value 1 with \<^verbatim>\<open>*ptr = str + k\<close>, \<open>Some None\<close> the return value 0.
\<close>

fun strstart :: "u8 list \<Rightarrow> u8 list \<Rightarrow> nat option option" where
  "strstart p [] = None"
| "strstart p (q # val) =
     (if q = 0 then Some (Some 0)
      else case p of
             [] \<Rightarrow> None
           | c # p' \<Rightarrow> if c \<noteq> q then Some None
                       else map_option (map_option Suc) (strstart p' val))"

definition memcmp_eq :: "u8 list \<Rightarrow> u8 list \<Rightarrow> nat \<Rightarrow> bool option" where
  "memcmp_eq a b n = (if n \<le> length a \<and> n \<le> length b then Some (take n a = take n b) else None)"

definition has_suffix :: "u8 list \<Rightarrow> u8 list \<Rightarrow> bool option" where
  "has_suffix str sfx =
     (if \<not> has_nul str \<or> \<not> has_nul sfx then None
      else let len = strlen str; slen = strlen sfx in
        if len \<ge> slen then memcmp_eq (drop (len - slen) str) sfx slen else Some False)"

lemma strstart_eq:
  "has_nul str \<Longrightarrow> has_nul val \<Longrightarrow>
   strstart str val = Some (if prefix (cstr val) (cstr str) then Some (strlen val) else None)"
proof (induction str val rule: strstart.induct)
  case (1 p)
  then show ?case by simp
next
  case (2 p q val)
  show ?case
  proof (cases "q = 0")
    case True
    then show ?thesis by (simp add: strlen_def)
  next
    case q: False
    from "2.prems" obtain c p' where p: "p = c # p'" by (cases p) auto
    show ?thesis
    proof (cases "c = q")
      case True
      with q p "2.prems" "2.IH" [of c p'] show ?thesis
        by (auto simp: strlen_def)
    next
      case False
      with q p show ?thesis by (cases "c = 0") auto
    qed
  qed
qed

lemma has_suffix_eq:
  assumes "has_nul str" and "has_nul sfx"
  shows "has_suffix str sfx = Some (suffix (cstr sfx) (cstr str))"
proof (cases "strlen sfx \<le> strlen str")
  case True
  let ?k = "strlen str - strlen sfx"
  have "take (strlen sfx) (drop ?k str) = drop ?k (cstr str)"
    using True by (simp add: cstr_eq_take drop_take)
  moreover have "suffix (cstr sfx) (cstr str) \<longleftrightarrow> drop ?k (cstr str) = cstr sfx"
  proof -
    have "suffix (cstr sfx) (cstr str) \<longleftrightarrow>
      length (cstr sfx) \<le> length (cstr str) \<and>
      drop (length (cstr str) - length (cstr sfx)) (cstr str) = cstr sfx"
      by (auto simp: suffix_def) (metis append_take_drop_id)
    with True show ?thesis by (simp add: strlen_def)
  qed
  ultimately show ?thesis
    using True assms strlen_lt_length [of str] strlen_lt_length [of sfx]
    by (auto simp: has_suffix_def memcmp_eq_def Let_def cstr_eq_take [of sfx])
next
  case False
  then show ?thesis using assms
    by (auto simp: has_suffix_def strlen_def suffix_def)
qed

end
