(* ===== verification/Cutils_Bytes.thy ===== *)
theory Cutils_Bytes
  imports Prelude
begin

text \<open>
  The inline helpers of \<^verbatim>\<open>quickjs/cutils.h\<close>: minimum and maximum, leading and trailing zero
  counts, unaligned little-endian loads and stores, byte swaps, UTF-16 surrogates and
  hexadecimal digits. The packed accessors are modelled for a little-endian host, the one
  the repository is built for.
\<close>

section \<open>Minimum and maximum\<close>

definition max_int :: "int \<Rightarrow> int \<Rightarrow> int" where
  "max_int a b = (if a > b then a else b)"

definition min_int :: "int \<Rightarrow> int \<Rightarrow> int" where
  "min_int a b = (if a < b then a else b)"

definition max_uint32 :: "u32 \<Rightarrow> u32 \<Rightarrow> u32" where
  "max_uint32 a b = (if a > b then a else b)"

definition min_uint32 :: "u32 \<Rightarrow> u32 \<Rightarrow> u32" where
  "min_uint32 a b = (if a < b then a else b)"

definition max_int64 :: "int \<Rightarrow> int \<Rightarrow> int" where
  "max_int64 a b = (if a > b then a else b)"

definition min_int64 :: "int \<Rightarrow> int \<Rightarrow> int" where
  "min_int64 a b = (if a < b then a else b)"

lemma max_min_eq [simp]:
  "max_int a b = max a b" "min_int a b = min a b"
  "max_uint32 c d = max c d" "min_uint32 c d = min c d"
  "max_int64 a b = max a b" "min_int64 a b = min a b"
  by (auto simp: max_int_def min_int_def max_uint32_def min_uint32_def
      max_int64_def min_int64_def)

section \<open>Leading and trailing zeros\<close>

text \<open>
  \<^verbatim>\<open>__builtin_clz\<close> and \<^verbatim>\<open>__builtin_ctz\<close> count the zero bits above the highest and below the lowest
  set bit and are undefined at 0: \<open>None\<close>.
\<close>

fun clz_from :: "'a::len word \<Rightarrow> nat \<Rightarrow> nat" where
  "clz_from a 0 = 0"
| "clz_from a (Suc i) = (if bit a i then 0 else Suc (clz_from a i))"

fun ctz_from :: "'a::len word \<Rightarrow> nat \<Rightarrow> nat \<Rightarrow> nat" where
  "ctz_from a 0 i = 0"
| "ctz_from a (Suc n) i = (if bit a i then 0 else Suc (ctz_from a n (Suc i)))"

definition clz32 :: "u32 \<Rightarrow> nat option" where
  "clz32 a = (if a = 0 then None else Some (clz_from a 32))"

definition clz64 :: "u64 \<Rightarrow> nat option" where
  "clz64 a = (if a = 0 then None else Some (clz_from a 64))"

definition ctz32 :: "u32 \<Rightarrow> nat option" where
  "ctz32 a = (if a = 0 then None else Some (ctz_from a 32 0))"

definition ctz64 :: "u64 \<Rightarrow> nat option" where
  "ctz64 a = (if a = 0 then None else Some (ctz_from a 64 0))"

text \<open>The count below bit \<open>n\<close> brackets the value between two powers of two.\<close>

lemma clz_from_bounds:
  assumes "0 < uint (a :: 'a::len word)" and "uint a < 2 ^ n" and "n \<le> LENGTH('a)"
  shows "clz_from a n < n \<and> 2 ^ (n - 1 - clz_from a n) \<le> uint a \<and> uint a < 2 ^ (n - clz_from a n)"
  using assms
proof (induction n)
  case 0
  then show ?case by simp
next
  case (Suc n)
  show ?case
  proof (cases "bit a n")
    case True
    then have "odd (uint a div 2 ^ n)" by (auto simp: bit_uint_iff bit_iff_odd [symmetric] bit_imp_le_length)
    then have "1 \<le> uint a div 2 ^ n"
      using Suc.prems(1) by (metis dvd_0_right int_one_le_iff_zero_less le_less not_less
          pos_imp_zdiv_neg_iff zero_less_numeral zero_less_power)
    then have "2 ^ n \<le> uint a"
      by (metis div_pos_pos_trivial not_le not_one_le_zero uint_ge_0)
    with True Suc.prems show ?thesis by simp
  next
    case False
    have "uint a < 2 ^ n"
    proof (rule ccontr)
      assume "\<not> uint a < 2 ^ n"
      then have "uint a div 2 ^ n = 1" using Suc.prems(2)
        by (intro int_div_pos_eq [where r = "uint a - 2 ^ n"]) auto
      then have "bit (uint a) n" by (simp add: bit_iff_odd)
      with False show False by (simp add: bit_uint_iff)
    qed
    with Suc.IH Suc.prems False show ?thesis by (auto simp: Suc_diff_le)
  qed
qed

lemma clz64_bounds:
  assumes "clz64 a = Some k"
  shows "k < 64 \<and> 2 ^ (63 - k) \<le> uint a \<and> uint a < 2 ^ (64 - k)"
proof -
  from assms have k: "k = clz_from a 64" and "a \<noteq> 0"
    by (auto simp: clz64_def split: if_splits)
  then have "0 < uint a" by (simp add: word_neq_0_conv word_less_def)
  with clz_from_bounds [of a 64] uint_lt2p [of a] show ?thesis
    by (simp add: k)
qed

lemma clz32_bounds:
  assumes "clz32 a = Some k"
  shows "k < 32 \<and> 2 ^ (31 - k) \<le> uint a \<and> uint a < 2 ^ (32 - k)"
proof -
  from assms have k: "k = clz_from a 32" and "a \<noteq> 0"
    by (auto simp: clz32_def split: if_splits)
  then have "0 < uint a" by (simp add: word_neq_0_conv word_less_def)
  with clz_from_bounds [of a 32] uint_lt2p [of a] show ?thesis
    by (simp add: k)
qed

section \<open>Unaligned loads and stores\<close>

text \<open>The bytes of a value in memory order, and the value of the first \<open>n\<close> bytes of a buffer.\<close>

definition le_bytes :: "nat \<Rightarrow> 'a::len word \<Rightarrow> u8 list" where
  "le_bytes n x = map (\<lambda>i. ucast (drop_bit (8 * i) x)) [0..<n]"

definition get_le :: "nat \<Rightarrow> u8 list \<Rightarrow> 'a::len word option" where
  "get_le n tab = (if n \<le> length tab then Some (word_of_int (mp_val (take n tab))) else None)"

definition get_u64 :: "u8 list \<Rightarrow> u64 option" where
  "get_u64 tab = get_le 8 tab"

definition get_i64 :: "u8 list \<Rightarrow> int option" where
  "get_i64 tab = map_option sint (get_le 8 tab :: u64 option)"

definition put_u64 :: "u8 list \<Rightarrow> u64 \<Rightarrow> u8 list option" where
  "put_u64 tab v = blit tab 0 (le_bytes 8 v)"

definition get_u32 :: "u8 list \<Rightarrow> u32 option" where
  "get_u32 tab = get_le 4 tab"

definition get_i32 :: "u8 list \<Rightarrow> int option" where
  "get_i32 tab = map_option sint (get_le 4 tab :: u32 option)"

definition put_u32 :: "u8 list \<Rightarrow> u32 \<Rightarrow> u8 list option" where
  "put_u32 tab v = blit tab 0 (le_bytes 4 v)"

definition get_u16 :: "u8 list \<Rightarrow> u32 option" where
  "get_u16 tab = map_option ucast (get_le 2 tab :: u16 option)"

definition get_i16 :: "u8 list \<Rightarrow> int option" where
  "get_i16 tab = map_option sint (get_le 2 tab :: u16 option)"

definition put_u16 :: "u8 list \<Rightarrow> u16 \<Rightarrow> u8 list option" where
  "put_u16 tab v = blit tab 0 (le_bytes 2 v)"

definition get_u8 :: "u8 list \<Rightarrow> u32 option" where
  "get_u8 tab = map_option ucast (load tab 0)"

definition get_i8 :: "u8 list \<Rightarrow> int option" where
  "get_i8 tab = map_option sint (load tab 0)"

definition put_u8 :: "u8 list \<Rightarrow> u8 \<Rightarrow> u8 list option" where
  "put_u8 tab v = store tab 0 v"

lemma length_le_bytes [simp]: "length (le_bytes n x) = n"
  by (simp add: le_bytes_def)

lemma mp_val_le_bytes_aux:
  "mp_val (map (\<lambda>i. ucast (drop_bit (8 * (i + k)) x) :: u8) [0..<n]) =
    (uint x div 2 ^ (8 * k)) mod 2 ^ (8 * n)"
proof (induction n)
  case 0
  then show ?case by simp
next
  case (Suc n)
  let ?y = "uint x div 2 ^ (8 * k)"
  have "uint (ucast (drop_bit (8 * (n + k)) x) :: u8) = ?y div 2 ^ (8 * n) mod 2 ^ 8"
  proof -
    have "uint (ucast (drop_bit (8 * (n + k)) x) :: u8) = uint (drop_bit (8 * (n + k)) x) mod 2 ^ 8"
      by (simp add: unsigned_ucast_eq take_bit_eq_mod)
    also have "uint (drop_bit (8 * (n + k)) x) = uint x div 2 ^ (8 * (n + k))"
      by (rule uint_drop_bit)
    also have "\<dots> = ?y div 2 ^ (8 * n)"
      by (simp add: zdiv_zmult2_eq [symmetric] power_add [symmetric] algebra_simps)
    finally show ?thesis .
  qed
  moreover have "?y mod 2 ^ (8 * Suc n) = 2 ^ (8 * n) * (?y div 2 ^ (8 * n) mod 2 ^ 8) + ?y mod 2 ^ (8 * n)"
    using zmod_zmult2_eq [of "2 ^ 8" ?y "2 ^ (8 * n)"]
    by (simp add: power_add algebra_simps)
  ultimately show ?case using Suc.IH by (simp add: mp_val_append algebra_simps)
qed

lemma mp_val_le_bytes: "mp_val (le_bytes n x) = uint x mod 2 ^ (8 * n)"
  using mp_val_le_bytes_aux [of 0 x n] by (simp add: le_bytes_def)

lemma get_le_le_bytes:
  assumes "LENGTH('a) \<le> 8 * n"
  shows "get_le n (le_bytes n (x :: 'a::len word) @ rest) = Some x"
proof -
  have "uint x < 2 ^ (8 * n)"
    using uint_lt2p [of x] power_increasing [OF assms, of "2 :: int"] by linarith
  then show ?thesis by (simp add: get_le_def mp_val_le_bytes)
qed

lemma get_put_u32: "put_u32 tab v = Some tab' \<Longrightarrow> get_u32 tab' = Some v"
  by (auto simp: put_u32_def get_u32_def mem_simps get_le_le_bytes)

lemma get_put_u64: "put_u64 tab v = Some tab' \<Longrightarrow> get_u64 tab' = Some v"
  by (auto simp: put_u64_def get_u64_def mem_simps get_le_le_bytes)

lemma get_put_u16: "put_u16 tab v = Some tab' \<Longrightarrow> get_u16 tab' = Some (ucast v)"
  by (auto simp: put_u16_def get_u16_def mem_simps get_le_le_bytes)

section \<open>Byte swaps\<close>

definition bswap16 :: "u16 \<Rightarrow> u16" where
  "bswap16 x = drop_bit 8 x OR push_bit 8 x"

definition bswap32 :: "u32 \<Rightarrow> u32" where
  "bswap32 v = drop_bit 24 (v AND 0xff000000) OR drop_bit 8 (v AND 0x00ff0000) OR
     push_bit 8 (v AND 0x0000ff00) OR push_bit 24 (v AND 0x000000ff)"

definition bswap64 :: "u64 \<Rightarrow> u64" where
  "bswap64 v =
     drop_bit (7 * 8) (v AND push_bit (7 * 8) 0xff) OR
     drop_bit (5 * 8) (v AND push_bit (6 * 8) 0xff) OR
     drop_bit (3 * 8) (v AND push_bit (5 * 8) 0xff) OR
     drop_bit (1 * 8) (v AND push_bit (4 * 8) 0xff) OR
     push_bit (1 * 8) (v AND push_bit (3 * 8) 0xff) OR
     push_bit (3 * 8) (v AND push_bit (2 * 8) 0xff) OR
     push_bit (5 * 8) (v AND push_bit (1 * 8) 0xff) OR
     push_bit (7 * 8) (v AND push_bit (0 * 8) 0xff)"

text \<open>A byte swap reverses the bytes in memory.\<close>

lemma upt_2_4_8: "[0..<2] = [0, 1::nat]" "[0..<4] = [0, 1, 2, 3::nat]"
    "[0..<8] = [0, 1, 2, 3, 4, 5, 6, 7::nat]"
  by (simp_all add: upt_rec)

lemma bit_byte_masks:
  "bit (0xff :: int) n \<longleftrightarrow> n < 8"
  "bit (0xff00 :: int) n \<longleftrightarrow> 8 \<le> n \<and> n < 16"
  "bit (0xff0000 :: int) n \<longleftrightarrow> 16 \<le> n \<and> n < 24"
  "bit (0xff000000 :: int) n \<longleftrightarrow> 24 \<le> n \<and> n < 32"
proof -
  have *: "bit (0xff :: int) n \<longleftrightarrow> n < 8" for n
    using bit_mask_iff [of 8 n, where 'a = int] by (simp add: mask_eq_exp_minus_1)
  show "bit (0xff :: int) n \<longleftrightarrow> n < 8" by (rule *)
  show "bit (0xff00 :: int) n \<longleftrightarrow> 8 \<le> n \<and> n < 16"
    "bit (0xff0000 :: int) n \<longleftrightarrow> 16 \<le> n \<and> n < 24"
    "bit (0xff000000 :: int) n \<longleftrightarrow> 24 \<le> n \<and> n < 32"
    using bit_push_bit_iff_int [of 8 "0xff" n] bit_push_bit_iff_int [of 16 "0xff" n]
      bit_push_bit_iff_int [of 24 "0xff" n]
    by (auto simp: *)
qed

lemma bswap16_le_bytes: "le_bytes 2 (bswap16 v) = rev (le_bytes 2 v)"
  by (auto intro!: bit_word_eqI simp: le_bytes_def bswap16_def upt_2_4_8 bit_simps)

lemma bswap32_le_bytes: "le_bytes 4 (bswap32 v) = rev (le_bytes 4 v)"
  by (auto intro!: bit_word_eqI
      simp: le_bytes_def bswap32_def upt_2_4_8 bit_simps bit_byte_masks)

lemma bswap64_le_bytes: "le_bytes 8 (bswap64 v) = rev (le_bytes 8 v)"
  by (auto intro!: bit_word_eqI
      simp: le_bytes_def bswap64_def upt_2_4_8 bit_simps bit_byte_masks simp del: push_bit_numeral)

section \<open>UTF-16 surrogates\<close>

definition is_surrogate :: "u32 \<Rightarrow> bool" where
  "is_surrogate c \<longleftrightarrow> drop_bit 11 c = drop_bit 11 0xD800"

definition is_hi_surrogate :: "u32 \<Rightarrow> bool" where
  "is_hi_surrogate c \<longleftrightarrow> drop_bit 10 c = drop_bit 10 0xD800"

definition is_lo_surrogate :: "u32 \<Rightarrow> bool" where
  "is_lo_surrogate c \<longleftrightarrow> drop_bit 10 c = drop_bit 10 0xDC00"

definition get_hi_surrogate :: "u32 \<Rightarrow> u32" where
  "get_hi_surrogate c = drop_bit 10 c - drop_bit 10 0x10000 + 0xD800"

definition get_lo_surrogate :: "u32 \<Rightarrow> u32" where
  "get_lo_surrogate c = (c AND 0x3FF) OR 0xDC00"

definition from_surrogate :: "u32 \<Rightarrow> u32 \<Rightarrow> u32" where
  "from_surrogate hi lo = 0x10000 + 0x400 * (hi - 0xD800) + (lo - 0xDC00)"

lemma uint_get_lo_surrogate: "uint (get_lo_surrogate c) = uint c mod 1024 + 0xDC00"
proof -
  have "uint (c AND 0x3FF) = uint c mod 1024"
    using uint_and_mask [of c 10] by (simp add: mask_eq_exp_minus_1)
  moreover have "(c AND 0x3FF) AND 0xDC00 = 0"
    by (simp add: and.assoc)
  ultimately show ?thesis
    unfolding get_lo_surrogate_def by (simp only: uint_or_disjoint) simp
qed

lemma uint_get_hi_surrogate:
  assumes "0x10000 \<le> uint c" and "uint c \<le> 0x10FFFF"
  shows "uint (get_hi_surrogate c) = uint c div 1024 + 0xD7C0"
  using assms by (simp add: get_hi_surrogate_def uint_word_ariths word_conv)

lemma is_hi_surrogate_iff: "is_hi_surrogate c \<longleftrightarrow> 0xD800 \<le> uint c \<and> uint c < 0xDC00"
  unfolding is_hi_surrogate_def by (simp add: word_uint_eq_iff word_conv int_div_eq_iff)

lemma is_lo_surrogate_iff: "is_lo_surrogate c \<longleftrightarrow> 0xDC00 \<le> uint c \<and> uint c < 0xE000"
  unfolding is_lo_surrogate_def by (simp add: word_uint_eq_iff word_conv int_div_eq_iff)

lemma is_surrogate_iff: "is_surrogate c \<longleftrightarrow> 0xD800 \<le> uint c \<and> uint c < 0xE000"
  unfolding is_surrogate_def by (simp add: word_uint_eq_iff word_conv int_div_eq_iff)

lemma from_surrogate_correct:
  assumes "is_hi_surrogate hi" and "is_lo_surrogate lo"
  shows "uint (from_surrogate hi lo) = 0x10000 + 0x400 * (uint hi - 0xD800) + (uint lo - 0xDC00)"
proof -
  have h: "0xD800 \<le> uint hi" "uint hi < 0xDC00" and l: "0xDC00 \<le> uint lo" "uint lo < 0xE000"
    using assms by (simp_all add: is_hi_surrogate_iff is_lo_surrogate_iff)
  have "uint (hi - 0xD800) = uint hi - 0xD800" "uint (lo - 0xDC00) = uint lo - 0xDC00"
    using h l by (simp_all add: uint_sub_if_size)
  with h l show ?thesis by (simp add: from_surrogate_def uint_word_ariths)
qed

lemma surrogate_decode_encode:
  assumes "0x10000 \<le> uint c" and "uint c \<le> 0x10FFFF"
  shows "is_hi_surrogate (get_hi_surrogate c) \<and> is_lo_surrogate (get_lo_surrogate c) \<and>
    from_surrogate (get_hi_surrogate c) (get_lo_surrogate c) = c"
proof -
  have hi: "is_hi_surrogate (get_hi_surrogate c)" and lo: "is_lo_surrogate (get_lo_surrogate c)"
    using assms
    by (auto simp: is_hi_surrogate_iff is_lo_surrogate_iff uint_get_hi_surrogate uint_get_lo_surrogate)
  moreover have "uint (from_surrogate (get_hi_surrogate c) (get_lo_surrogate c)) = uint c"
    using from_surrogate_correct [OF hi lo] assms
    by (simp add: uint_get_hi_surrogate uint_get_lo_surrogate)
  ultimately show ?thesis by (simp add: word_uint_eq_iff)
qed

text \<open>
  A surrogate pair decodes to a supplementary code point, and splitting that code point
  gives the pair back.
\<close>

lemma surrogate_encode_decode:
  assumes "is_hi_surrogate hi" and "is_lo_surrogate lo"
  shows "0x10000 \<le> uint (from_surrogate hi lo) \<and> uint (from_surrogate hi lo) \<le> 0x10FFFF \<and>
    get_hi_surrogate (from_surrogate hi lo) = hi \<and> get_lo_surrogate (from_surrogate hi lo) = lo"
proof -
  have h: "0xD800 \<le> uint hi" "uint hi < 0xDC00" and l: "0xDC00 \<le> uint lo" "uint lo < 0xE000"
    using assms by (simp_all add: is_hi_surrogate_iff is_lo_surrogate_iff)
  let ?c = "from_surrogate hi lo"
  have c: "uint ?c = 0x10000 + 0x400 * (uint hi - 0xD800) + (uint lo - 0xDC00)"
    by (rule from_surrogate_correct [OF assms])
  then have r: "0x10000 \<le> uint ?c" "uint ?c \<le> 0x10FFFF" using h l by simp_all
  have "uint ?c = (uint lo - 0xDC00) + 1024 * (uint hi - 0xD7C0)" using c by simp
  then have "uint ?c div 1024 = uint hi - 0xD7C0" "uint ?c mod 1024 = uint lo - 0xDC00"
    using l by (simp_all only: div_mult_self2 mod_mult_self2) simp_all
  with r show ?thesis
    by (simp add: word_uint_eq_iff uint_get_hi_surrogate uint_get_lo_surrogate)
qed

lemma surrogate_encode_decode_witness:
  "0x10000 \<le> uint (from_surrogate 0xD83D 0xDE00) \<and> uint (from_surrogate 0xD83D 0xDE00) \<le> 0x10FFFF \<and>
    get_hi_surrogate (from_surrogate 0xD83D 0xDE00) = 0xD83D \<and>
    get_lo_surrogate (from_surrogate 0xD83D 0xDE00) = 0xDE00"
  by (rule surrogate_encode_decode) (simp_all add: is_hi_surrogate_iff is_lo_surrogate_iff)

section \<open>Hexadecimal digits\<close>

definition from_hex :: "int \<Rightarrow> int" where
  "from_hex c =
     (if c \<ge> 48 \<and> c \<le> 57 then c - 48
      else if c \<ge> 65 \<and> c \<le> 70 then c - 65 + 10
      else if c \<ge> 97 \<and> c \<le> 102 then c - 97 + 10
      else -1)"

lemma from_hex_range: "-1 \<le> from_hex c \<and> from_hex c \<le> 15"
  by (auto simp: from_hex_def)

end
