(* ===== verification/Dyn_Buf.thy ===== *)
theory Dyn_Buf
  imports Cutils_Bytes
begin

text \<open>
  The growable byte buffer of \<^verbatim>\<open>quickjs/cutils.c\<close> (\<^verbatim>\<open>DynBuf\<close> and the \<^verbatim>\<open>dbuf_\<close> functions).
  Sizes are \<^verbatim>\<open>size_t\<close>, kept as 64-bit words; the allocator is the function pointer the
  struct carries. The result of an operation is \<open>None\<close> for an access outside of the
  allocated block and otherwise the new buffer with the C return value.
\<close>

section \<open>The buffer and its allocator\<close>

record dynbuf =
  db_buf :: "u8 list option"
  db_size :: u64
  db_allocated_size :: u64
  db_error :: bool
  db_realloc_func :: "u8 list option \<Rightarrow> u64 \<Rightarrow> u8 list option"

text \<open>
  \<^verbatim>\<open>realloc\<close> of the C library: \<open>avail\<close> is what the heap can give, \<open>fill\<close> stands for the
  indeterminate bytes of the grown part. A size of 0 frees the block.
\<close>

definition c_realloc :: "nat \<Rightarrow> u8 \<Rightarrow> u8 list option \<Rightarrow> u64 \<Rightarrow> u8 list option" where
  "c_realloc avail fill ptr n =
     (if n = 0 \<or> avail < unat n then None
      else let old = (case ptr of None \<Rightarrow> [] | Some b \<Rightarrow> b)
           in Some (take (unat n) old @ replicate (unat n - length old) fill))"

definition dbuf_default_realloc :: "nat \<Rightarrow> u8 \<Rightarrow> u8 list option \<Rightarrow> u64 \<Rightarrow> u8 list option" where
  "dbuf_default_realloc avail fill ptr n = c_realloc avail fill ptr n"

definition dbuf_init2 ::
    "nat \<Rightarrow> u8 \<Rightarrow> (u8 list option \<Rightarrow> u64 \<Rightarrow> u8 list option) option \<Rightarrow> dynbuf" where
  "dbuf_init2 avail fill rf =
     \<lparr>db_buf = None, db_size = 0, db_allocated_size = 0, db_error = False,
      db_realloc_func = (case rf of None \<Rightarrow> dbuf_default_realloc avail fill | Some f \<Rightarrow> f)\<rparr>"

definition dbuf_init :: "nat \<Rightarrow> u8 \<Rightarrow> dynbuf" where
  "dbuf_init avail fill = dbuf_init2 avail fill None"

definition dbuf_bytes :: "dynbuf \<Rightarrow> u8 list" where
  "dbuf_bytes s = (case db_buf s of None \<Rightarrow> [] | Some b \<Rightarrow> b)"

section \<open>Operations\<close>

definition dbuf_realloc :: "dynbuf \<Rightarrow> u64 \<Rightarrow> dynbuf \<times> int" where
  "dbuf_realloc s new_size =
     (if new_size > db_allocated_size s then
        if db_error s then (s, -1)
        else
          let sz = db_allocated_size s * 3 div 2;
              new_size' = (if sz > new_size then sz else new_size)
          in case db_realloc_func s (db_buf s) new_size' of
               None \<Rightarrow> (s\<lparr>db_error := True\<rparr>, -1)
             | Some new_buf \<Rightarrow> (s\<lparr>db_buf := Some new_buf, db_allocated_size := new_size'\<rparr>, 0)
      else (s, 0))"

text \<open>\<open>dbuf_memcpy s off d\<close> is \<^verbatim>\<open>memcpy(s->buf + off, d, len)\<close>.\<close>

definition dbuf_memcpy :: "dynbuf \<Rightarrow> nat \<Rightarrow> u8 list \<Rightarrow> dynbuf option" where
  "dbuf_memcpy s off d =
     (case blit (dbuf_bytes s) off d of
        None \<Rightarrow> None
      | Some b \<Rightarrow> Some (s\<lparr>db_buf := map_option (\<lambda>_. b) (db_buf s)\<rparr>))"

definition dbuf_write :: "dynbuf \<Rightarrow> u64 \<Rightarrow> u8 list \<Rightarrow> (dynbuf \<times> int) option" where
  "dbuf_write s offset d =
     (let len = of_nat (length d); end' = offset + len in
      case dbuf_realloc s end' of
        (s1, r) \<Rightarrow>
          if r \<noteq> 0 then Some (s1, -1)
          else (case dbuf_memcpy s1 (unat offset) d of
                  None \<Rightarrow> None
                | Some s2 \<Rightarrow> Some (if end' > db_size s2 then s2\<lparr>db_size := end'\<rparr> else s2, 0)))"

text \<open>The first lines of \<^verbatim>\<open>dbuf_put\<close> and \<^verbatim>\<open>dbuf_put_self\<close>: grow when the new end is beyond the block.\<close>

definition dbuf_reserve :: "dynbuf \<Rightarrow> u64 \<Rightarrow> dynbuf \<times> int" where
  "dbuf_reserve s len =
     (if db_size s + len > db_allocated_size s then dbuf_realloc s (db_size s + len) else (s, 0))"

definition dbuf_put :: "dynbuf \<Rightarrow> u8 list \<Rightarrow> (dynbuf \<times> int) option" where
  "dbuf_put s d =
     (let len = of_nat (length d); (s1, r) = dbuf_reserve s len
      in if r \<noteq> 0 then Some (s1, -1)
         else if len = 0 then Some (s1\<lparr>db_size := db_size s1 + len\<rparr>, 0)
         else case dbuf_memcpy s1 (unat (db_size s1)) d of
                None \<Rightarrow> None
              | Some s2 \<Rightarrow> Some (s2\<lparr>db_size := db_size s2 + len\<rparr>, 0))"

text \<open>
  \<^verbatim>\<open>dbuf_put_self\<close> copies inside the buffer; \<^verbatim>\<open>memcpy\<close> needs the source in front of the
  destination, that is, the copied range inside the first \<^verbatim>\<open>size\<close> bytes.
\<close>

definition dbuf_put_self :: "dynbuf \<Rightarrow> u64 \<Rightarrow> u64 \<Rightarrow> (dynbuf \<times> int) option" where
  "dbuf_put_self s offset len =
     (let (s1, r) = dbuf_reserve s len
      in if r \<noteq> 0 then Some (s1, -1)
         else if unat offset + unat len \<le> unat (db_size s1) \<and> unat offset + unat len \<le> length (dbuf_bytes s1)
         then (case dbuf_memcpy s1 (unat (db_size s1)) (take (unat len) (drop (unat offset) (dbuf_bytes s1))) of
                 None \<Rightarrow> None
               | Some s2 \<Rightarrow> Some (s2\<lparr>db_size := db_size s2 + len\<rparr>, 0))
         else None)"

definition dbuf_putc :: "dynbuf \<Rightarrow> u8 \<Rightarrow> (dynbuf \<times> int) option" where
  "dbuf_putc s c = dbuf_put s [c]"

definition dbuf_putstr :: "dynbuf \<Rightarrow> u8 list \<Rightarrow> (dynbuf \<times> int) option" where
  "dbuf_putstr s str = (if has_nul str then dbuf_put s (cstr str) else None)"

definition dbuf_put_u16 :: "dynbuf \<Rightarrow> u16 \<Rightarrow> (dynbuf \<times> int) option" where
  "dbuf_put_u16 s v = dbuf_put s (le_bytes 2 v)"

definition dbuf_put_u32 :: "dynbuf \<Rightarrow> u32 \<Rightarrow> (dynbuf \<times> int) option" where
  "dbuf_put_u32 s v = dbuf_put s (le_bytes 4 v)"

definition dbuf_put_u64 :: "dynbuf \<Rightarrow> u64 \<Rightarrow> (dynbuf \<times> int) option" where
  "dbuf_put_u64 s v = dbuf_put s (le_bytes 8 v)"

text \<open>
  \<open>vsnprintf_to n out\<close> is what \<^verbatim>\<open>vsnprintf\<close> stores for the formatted text \<open>out\<close> in a buffer of
  \<open>n\<close> bytes: at most \<open>n - 1\<close> of them and a NUL. \<open>None\<close> as the text is an encoding error, the
  negative return value.
\<close>

definition vsnprintf_to :: "nat \<Rightarrow> u8 list \<Rightarrow> u8 list" where
  "vsnprintf_to n out = (if n = 0 then [] else take (n - 1) out @ [0])"

definition dbuf_printf :: "dynbuf \<Rightarrow> u8 list option \<Rightarrow> (dynbuf \<times> int) option" where
  "dbuf_printf s text =
     (case text of
        None \<Rightarrow> Some (s, -1)
      | Some out \<Rightarrow>
          if length out < 128 then dbuf_put s (take (length out) (vsnprintf_to 128 out))
          else
            let len = of_nat (length out) in
            case dbuf_realloc s (db_size s + len + 1) of
              (s1, r) \<Rightarrow>
                if r \<noteq> 0 then Some (s1, -1)
                else (case dbuf_memcpy s1 (unat (db_size s1))
                        (vsnprintf_to (unat (db_allocated_size s1 - db_size s1)) out) of
                        None \<Rightarrow> None
                      | Some s2 \<Rightarrow> Some (s2\<lparr>db_size := db_size s2 + len\<rparr>, 0)))"

definition dbuf_free :: "dynbuf \<Rightarrow> dynbuf" where
  "dbuf_free s =
     \<lparr>db_buf = None, db_size = 0, db_allocated_size = 0, db_error = False, db_realloc_func = (\<lambda>_ _. None)\<rparr>"

definition dbuf_error :: "dynbuf \<Rightarrow> bool" where
  "dbuf_error s = db_error s"

definition dbuf_set_error :: "dynbuf \<Rightarrow> dynbuf" where
  "dbuf_set_error s = s\<lparr>db_error := True\<rparr>"

section \<open>What an allocator promises\<close>

text \<open>
  The contract of \<^verbatim>\<open>DynBufReallocFunc\<close>: a block it returns has the requested length and
  starts with the bytes of the old one. It may fail at any call.
\<close>

locale allocator =
  fixes ra :: "u8 list option \<Rightarrow> u64 \<Rightarrow> u8 list option"
  assumes realloc_length: "ra p n = Some b \<Longrightarrow> length b = unat n"
    and realloc_keeps: "ra (Some old) n = Some b \<Longrightarrow> length old \<le> unat n \<Longrightarrow> take (length old) b = old"

text \<open>Well-formed buffers: the block has the recorded length and the used part lies inside of it.\<close>

definition dbuf_wf :: "dynbuf \<Rightarrow> bool" where
  "dbuf_wf s \<longleftrightarrow> length (dbuf_bytes s) = unat (db_allocated_size s) \<and> db_size s \<le> db_allocated_size s"

definition dbuf_contents :: "dynbuf \<Rightarrow> u8 list" where
  "dbuf_contents s = take (unat (db_size s)) (dbuf_bytes s)"

lemma length_dbuf_contents [simp]: "dbuf_wf s \<Longrightarrow> length (dbuf_contents s) = unat (db_size s)"
  by (simp add: dbuf_wf_def dbuf_contents_def word_le_nat_alt)

lemma dbuf_bytes_simps [simp]:
  "dbuf_bytes (s\<lparr>db_size := n\<rparr>) = dbuf_bytes s"
  "dbuf_bytes (s\<lparr>db_error := e\<rparr>) = dbuf_bytes s"
  "dbuf_bytes (s\<lparr>db_allocated_size := n\<rparr>) = dbuf_bytes s"
  by (simp_all add: dbuf_bytes_def)

context allocator
begin

text \<open>
  \<^verbatim>\<open>dbuf_realloc\<close> keeps the contents; it either makes room for \<open>n\<close> bytes or sets the error flag
  and changes nothing else. The growth factor may wrap around without harm.
\<close>

lemma dbuf_realloc_cases:
  assumes "dbuf_wf s" and "db_realloc_func s = ra"
  obtains (ok) s' where "dbuf_realloc s n = (s', 0)" and "dbuf_wf s'" and "n \<le> db_allocated_size s'"
      and "db_size s' = db_size s" and "db_error s' = db_error s" and "db_realloc_func s' = ra"
      and "take (length (dbuf_bytes s)) (dbuf_bytes s') = dbuf_bytes s"
      and "db_allocated_size s \<le> db_allocated_size s'"
  | (fail) "dbuf_realloc s n = (s\<lparr>db_error := True\<rparr>, -1)"
proof (cases "n > db_allocated_size s \<and> \<not> db_error s")
  case True
  let ?sz = "db_allocated_size s * 3 div 2"
  let ?n = "if ?sz > n then ?sz else n"
  have n: "n \<le> ?n" by auto
  show thesis
  proof (cases "ra (db_buf s) ?n")
    case None
    with True assms(2) have "dbuf_realloc s n = (s\<lparr>db_error := True\<rparr>, -1)"
      by (simp add: dbuf_realloc_def Let_def)
    then show thesis by (rule fail)
  next
    case (Some b)
    let ?s = "s\<lparr>db_buf := Some b, db_allocated_size := ?n\<rparr>"
    have eq: "dbuf_realloc s n = (?s, 0)"
      using True Some assms(2) by (simp add: dbuf_realloc_def Let_def)
    have len: "length b = unat ?n" using Some by (rule realloc_length)
    have le: "length (dbuf_bytes s) \<le> unat ?n" and sz: "db_size s \<le> ?n"
      using True n assms(1) by (auto simp: dbuf_wf_def word_le_nat_alt word_less_nat_alt)
    have keep: "take (length (dbuf_bytes s)) b = dbuf_bytes s"
    proof (cases "db_buf s")
      case None then show ?thesis by (simp add: dbuf_bytes_def)
    next
      case (Some old)
      then show ?thesis using \<open>ra (db_buf s) ?n = Some b\<close> le realloc_keeps [of old ?n b]
        by (simp add: dbuf_bytes_def)
    qed
    show thesis
    proof (rule ok [OF eq])
      show "dbuf_wf ?s" using len sz by (simp add: dbuf_wf_def dbuf_bytes_def)
      show "n \<le> db_allocated_size ?s" using n by simp
      show "db_allocated_size s \<le> db_allocated_size ?s" using True n by auto
      show "take (length (dbuf_bytes s)) (dbuf_bytes ?s) = dbuf_bytes s"
        using keep by (simp add: dbuf_bytes_def)
    qed (use assms in simp_all)
  qed
next
  case False
  show thesis
  proof (cases "n > db_allocated_size s")
    case True
    with False have "dbuf_realloc s n = (s\<lparr>db_error := True\<rparr>, -1)"
      by (simp add: dbuf_realloc_def)
    then show thesis by (rule fail)
  next
    case no: False
    then have "dbuf_realloc s n = (s, 0)" by (simp add: dbuf_realloc_def)
    then show thesis using assms no by (intro ok [of s]) auto
  qed
qed

end

text \<open>Copying bytes behind the used part of a buffer that has room for them.\<close>

lemma dbuf_memcpy_at_end:
  assumes "dbuf_wf s" and "unat (db_size s) + length d \<le> unat (db_allocated_size s)"
  obtains s' where "dbuf_memcpy s (unat (db_size s)) d = Some s'"
    and "length (dbuf_bytes s') = unat (db_allocated_size s)"
    and "take (unat (db_size s) + length d) (dbuf_bytes s') = dbuf_contents s @ d"
    and "db_size s' = db_size s" and "db_allocated_size s' = db_allocated_size s"
    and "db_error s' = db_error s" and "db_realloc_func s' = db_realloc_func s"
proof -
  let ?b = "take (unat (db_size s)) (dbuf_bytes s) @ d @ drop (unat (db_size s) + length d) (dbuf_bytes s)"
  have len: "length (dbuf_bytes s) = unat (db_allocated_size s)"
    using assms(1) by (simp add: dbuf_wf_def)
  have b: "blit (dbuf_bytes s) (unat (db_size s)) d = Some ?b"
    using assms(2) len by (simp add: blit_def)
  let ?s = "s\<lparr>db_buf := map_option (\<lambda>_. ?b) (db_buf s)\<rparr>"
  have bytes: "dbuf_bytes ?s = ?b"
    using assms(2) len by (cases "db_buf s") (auto simp: dbuf_bytes_def)
  show thesis
  proof (rule that)
    show "dbuf_memcpy s (unat (db_size s)) d = Some ?s"
      using b by (simp add: dbuf_memcpy_def)
    show "length (dbuf_bytes ?s) = unat (db_allocated_size s)"
      using length_blit [OF b] bytes len by simp
    show "take (unat (db_size s) + length d) (dbuf_bytes ?s) = dbuf_contents s @ d"
      using take_blit_end [OF b] bytes by (simp add: dbuf_contents_def)
  qed simp_all
qed

lemma take_overwritten:
  assumes "off \<le> n" and "n \<le> length b" and "off + length d \<le> length b"
  shows "take (max n (off + length d)) (take off b @ d @ drop (off + length d) b) =
    take off (take n b) @ d @ drop (off + length d) (take n b)"
proof (cases "n \<le> off + length d")
  case True
  with assms show ?thesis by (simp add: max_absorb2)
next
  case False
  then obtain k where "n = off + length d + k"
    by (metis le_Suc_ex linorder_le_cases)
  with assms show ?thesis
    by (auto simp: drop_take min_def max_def) (simp flip: length_0_conv)
qed

text \<open>The two outcomes of an appending operation.\<close>

definition appended :: "dynbuf \<Rightarrow> u8 list \<Rightarrow> dynbuf \<times> int \<Rightarrow> bool" where
  "appended s d res \<longleftrightarrow>
     (case res of (s', r) \<Rightarrow>
        dbuf_wf s' \<and> db_realloc_func s' = db_realloc_func s \<and>
        (r = 0 \<and> dbuf_contents s' = dbuf_contents s @ d \<and> db_error s' = db_error s \<or>
         r = -1 \<and> s' = s\<lparr>db_error := True\<rparr>))"

lemma dbuf_wf_error [simp]: "dbuf_wf (s\<lparr>db_error := e\<rparr>) = dbuf_wf s"
  by (simp add: dbuf_wf_def)

lemma dbuf_contents_error [simp]: "dbuf_contents (s\<lparr>db_error := e\<rparr>) = dbuf_contents s"
  by (simp add: dbuf_contents_def)

lemma unat_add_len:
  fixes n :: u64
  assumes "unat n + k < 2 ^ 64"
  shows "unat (n + of_nat k) = unat n + k"
  using assms by (simp add: unat_word_ariths unat_of_nat)

lemma appended_memcpy:
  assumes "dbuf_wf s1" and "unat (db_size s1) + length d \<le> unat (db_allocated_size s1)"
    and "unat (db_size s1) + length d < 2 ^ 64"
    and "dbuf_contents s1 = dbuf_contents s" and "db_realloc_func s1 = db_realloc_func s"
    and "db_error s1 = db_error s"
  obtains s2 where "dbuf_memcpy s1 (unat (db_size s1)) d = Some s2"
    and "appended s d (s2\<lparr>db_size := db_size s2 + of_nat (length d)\<rparr>, 0)"
proof -
  obtain s2 where s2: "dbuf_memcpy s1 (unat (db_size s1)) d = Some s2"
    "length (dbuf_bytes s2) = unat (db_allocated_size s1)"
    "take (unat (db_size s1) + length d) (dbuf_bytes s2) = dbuf_contents s1 @ d"
    "db_size s2 = db_size s1" "db_allocated_size s2 = db_allocated_size s1"
    "db_error s2 = db_error s1" "db_realloc_func s2 = db_realloc_func s1"
    using dbuf_memcpy_at_end [OF assms(1,2)] by metis
  have n: "unat (db_size s1 + of_nat (length d)) = unat (db_size s1) + length d"
    using assms(3) by (rule unat_add_len)
  have "appended s d (s2\<lparr>db_size := db_size s2 + of_nat (length d)\<rparr>, 0)"
    using s2 n assms by (simp add: appended_def dbuf_wf_def dbuf_contents_def word_le_nat_alt)
  with s2(1) show thesis by (rule that)
qed

lemma dbuf_contents_grow:
  assumes "dbuf_wf s" and "take (length (dbuf_bytes s)) (dbuf_bytes s') = dbuf_bytes s"
    and "db_size s' = db_size s"
  shows "dbuf_contents s' = dbuf_contents s"
proof -
  have "unat (db_size s) \<le> length (dbuf_bytes s)"
    using assms(1) by (simp add: dbuf_wf_def word_le_nat_alt)
  then show ?thesis
    using assms(2,3) unfolding dbuf_contents_def by (metis min.absorb1 take_take)
qed

context allocator
begin

text \<open>
  Making room for \<open>n\<close> bytes behind the used part, the common first step of the appending
  operations.
\<close>

lemma make_room:
  assumes "dbuf_wf s" and "db_realloc_func s = ra"
    and "unat (db_size s) + k < 2 ^ 64"
  obtains (ok) s1 where "dbuf_reserve s (of_nat k) = (s1, 0)"
      and "dbuf_wf s1" and "unat (db_size s1) + k \<le> unat (db_allocated_size s1)"
      and "db_size s1 = db_size s" and "db_error s1 = db_error s" and "db_realloc_func s1 = ra"
      and "dbuf_contents s1 = dbuf_contents s"
  | (fail) "dbuf_reserve s (of_nat k) = (s\<lparr>db_error := True\<rparr>, -1)"
proof (cases "db_size s + of_nat k > db_allocated_size s")
  case False
  then have "unat (db_size s) + k \<le> unat (db_allocated_size s)"
    using unat_add_len [OF assms(3)] by (simp add: word_le_nat_alt not_less)
  then show thesis by (intro ok [of s]) (use False assms in \<open>simp_all add: dbuf_reserve_def\<close>)
next
  case True
  from assms(1,2) show thesis
  proof (cases rule: dbuf_realloc_cases [where n = "db_size s + of_nat k"])
    case (ok s1)
    have "unat (db_size s1) + k \<le> unat (db_allocated_size s1)"
      using ok(3,4) unat_add_len [OF assms(3)] by (simp add: word_le_nat_alt)
    then show thesis
      by (intro that(1) [of s1]) (use True ok dbuf_contents_grow [OF assms(1) ok(7,4)] in \<open>simp_all add: dbuf_reserve_def\<close>)
  next
    case fail
    then show thesis using True that(2) by (simp add: dbuf_reserve_def)
  qed
qed

lemma dbuf_put_appends:
  assumes "dbuf_wf s" and "db_realloc_func s = ra" and "unat (db_size s) + length d < 2 ^ 64"
  shows "\<exists>res. dbuf_put s d = Some res \<and> appended s d res"
  using assms
proof (cases rule: make_room)
  case (ok s1)
  show ?thesis
  proof (cases "d = []")
    case True
    have "\<not> db_allocated_size s < db_size s" using assms(1) by (simp add: dbuf_wf_def not_less)
    with True assms show ?thesis by (simp add: dbuf_put_def dbuf_reserve_def appended_def)
  next
    case False
    have len: "of_nat (length d) \<noteq> (0 :: u64)"
      using False assms(3) by (simp add: word_unat_eq_iff unat_of_nat)
    obtain s2 where "dbuf_memcpy s1 (unat (db_size s1)) d = Some s2"
      and "appended s d (s2\<lparr>db_size := db_size s2 + of_nat (length d)\<rparr>, 0)"
      using appended_memcpy [of s1 d s] ok assms by metis
    with ok(1) len show ?thesis by (simp add: dbuf_put_def Let_def)
  qed
next
  case fail
  then show ?thesis using assms by (simp add: dbuf_put_def Let_def appended_def)
qed

lemma dbuf_put_self_appends:
  assumes "dbuf_wf s" and "db_realloc_func s = ra" and "unat (db_size s) + unat len < 2 ^ 64"
    and "unat offset + unat len \<le> unat (db_size s)"
  shows "\<exists>res. dbuf_put_self s offset len = Some res \<and>
    appended s (take (unat len) (drop (unat offset) (dbuf_contents s))) res"
  using assms(1-3)
proof (cases rule: make_room)
  case (ok s1)
  let ?d = "take (unat len) (drop (unat offset) (dbuf_bytes s1))"
  have sz: "unat (db_size s) \<le> length (dbuf_bytes s1)"
    using ok by (simp add: dbuf_wf_def word_le_nat_alt)
  have d: "?d = take (unat len) (drop (unat offset) (dbuf_contents s))"
    unfolding ok(7) [symmetric] unfolding dbuf_contents_def using assms(4) ok(4)
    by (simp add: drop_take min_def)
  have len: "length ?d = unat len" using sz assms(4) by simp
  obtain s2 where "dbuf_memcpy s1 (unat (db_size s1)) ?d = Some s2"
    and "appended s ?d (s2\<lparr>db_size := db_size s2 + of_nat (length ?d)\<rparr>, 0)"
    using appended_memcpy [of s1 ?d s] ok assms len by metis
  with ok(1,4) d len sz assms(4) show ?thesis by (simp add: dbuf_put_self_def Let_def)
next
  case fail
  then show ?thesis using assms by (simp add: dbuf_put_self_def Let_def appended_def)
qed

lemma dbuf_printf_appends:
  assumes "dbuf_wf s" and "db_realloc_func s = ra" and "unat (db_size s) + length out + 1 < 2 ^ 64"
  shows "\<exists>res. dbuf_printf s (Some out) = Some res \<and> appended s out res"
proof (cases "length out < 128")
  case True
  then have "take (length out) (vsnprintf_to 128 out) = out"
    by (simp add: vsnprintf_to_def)
  with True show ?thesis using dbuf_put_appends [OF assms(1,2), of out] assms(3)
    by (simp add: dbuf_printf_def)
next
  case False
  let ?k = "length out + 1"
  have k: "unat (db_size s + of_nat (length out) + 1) = unat (db_size s) + ?k"
    using unat_add_len [of "db_size s" ?k] assms(3) by (simp add: add.assoc add.commute [of 1])
  from assms(1,2) show ?thesis
  proof (cases rule: dbuf_realloc_cases [where n = "db_size s + of_nat (length out) + 1"])
    case (ok s1)
    let ?d = "vsnprintf_to (unat (db_allocated_size s1 - db_size s1)) out"
    have room: "unat (db_size s1) + ?k \<le> unat (db_allocated_size s1)"
      using ok(3,4) k by (simp add: word_le_nat_alt)
    then have sub: "unat (db_allocated_size s1 - db_size s1) = unat (db_allocated_size s1) - unat (db_size s1)"
      by (intro unat_sub) (simp add: word_le_nat_alt)
    then have d: "?d = out @ [0]" using room by (simp add: vsnprintf_to_def)
    obtain s2 where s2: "dbuf_memcpy s1 (unat (db_size s1)) (out @ [0]) = Some s2"
      "length (dbuf_bytes s2) = unat (db_allocated_size s1)"
      "take (unat (db_size s1) + length (out @ [0])) (dbuf_bytes s2) = dbuf_contents s1 @ out @ [0]"
      "db_size s2 = db_size s1" "db_allocated_size s2 = db_allocated_size s1"
      "db_error s2 = db_error s1" "db_realloc_func s2 = db_realloc_func s1"
      using dbuf_memcpy_at_end [of s1 "out @ [0]"] ok(2) room by auto
    have n: "unat (db_size s1 + of_nat (length out)) = unat (db_size s1) + length out"
      using assms(3) ok(4) by (intro unat_add_len) simp
    have "take (unat (db_size s1) + length out) (dbuf_bytes s2) = dbuf_contents s1 @ out"
      using arg_cong [OF s2(3), of "take (unat (db_size s1) + length out)"] ok(2) by simp
    then have "appended s out (s2\<lparr>db_size := db_size s2 + of_nat (length out)\<rparr>, 0)"
      using s2 n room ok dbuf_contents_grow [OF assms(1) ok(7,4)] assms(2)
      by (simp add: appended_def dbuf_wf_def dbuf_contents_def word_le_nat_alt)
    then show ?thesis using False ok(1) s2(1) d by (simp add: dbuf_printf_def Let_def)
  next
    case fail
    then show ?thesis using False assms by (simp add: dbuf_printf_def Let_def appended_def)
  qed
qed

text \<open>Overwriting inside the used part, possibly running past its end.\<close>

lemma dbuf_write_overwrites:
  assumes "dbuf_wf s" and "db_realloc_func s = ra" and "unat offset + length d < 2 ^ 64"
    and "offset \<le> db_size s"
  shows "(\<exists>s'. dbuf_write s offset d = Some (s', 0) \<and> dbuf_wf s' \<and> db_error s' = db_error s \<and>
      dbuf_contents s' = take (unat offset) (dbuf_contents s) @ d @
        drop (unat offset + length d) (dbuf_contents s)) \<or>
    dbuf_write s offset d = Some (s\<lparr>db_error := True\<rparr>, -1)"
proof -
  have n: "unat (offset + of_nat (length d)) = unat offset + length d"
    using assms(3) by (rule unat_add_len)
  from assms(1,2) show ?thesis
  proof (cases rule: dbuf_realloc_cases [where n = "offset + of_nat (length d)"])
    case (ok s1)
    have room: "unat offset + length d \<le> length (dbuf_bytes s1)"
      using ok(2,3) n by (simp add: dbuf_wf_def word_le_nat_alt)
    let ?b = "take (unat offset) (dbuf_bytes s1) @ d @ drop (unat offset + length d) (dbuf_bytes s1)"
    let ?s = "s1\<lparr>db_buf := map_option (\<lambda>_. ?b) (db_buf s1)\<rparr>"
    let ?t = "if offset + of_nat (length d) > db_size ?s then ?s\<lparr>db_size := offset + of_nat (length d)\<rparr> else ?s"
    have eq: "dbuf_write s offset d = Some (?t, 0)"
      using ok(1) room by (simp add: dbuf_write_def Let_def dbuf_memcpy_def blit_def)
    have bytes: "dbuf_bytes ?s = ?b"
      using room by (cases "db_buf s1") (auto simp: dbuf_bytes_def)
    have len: "length ?b = unat (db_allocated_size s1)"
      using room ok(2) by (simp add: dbuf_wf_def)
    have szt: "unat (db_size ?t) = max (unat (db_size s)) (unat offset + length d)"
      using n ok(4) by (auto simp: word_less_nat_alt max_def)
    have wf: "dbuf_wf ?t"
      using bytes len ok(2,3) by (auto simp: dbuf_wf_def simp del: append_take_drop_id)
    have off: "unat offset \<le> unat (db_size s)" using assms(4) by (simp add: word_le_nat_alt)
    have sz: "unat (db_size s) \<le> length (dbuf_bytes s1)"
      using ok(2,4) by (simp add: dbuf_wf_def word_le_nat_alt)
    have bt: "dbuf_bytes ?t = ?b" using bytes by simp
    have c: "dbuf_contents s = take (unat (db_size s)) (dbuf_bytes s1)"
      using dbuf_contents_grow [OF assms(1) ok(7,4)] by (simp add: dbuf_contents_def ok(4))
    have "dbuf_contents ?t = take (max (unat (db_size s)) (unat offset + length d)) ?b"
      unfolding dbuf_contents_def bt szt ..
    also have "\<dots> = take (unat offset) (dbuf_contents s) @ d @
        drop (unat offset + length d) (dbuf_contents s)"
      unfolding c by (rule take_overwritten [OF off sz room])
    finally show ?thesis using eq wf ok(5) by auto
  next
    case fail
    then show ?thesis by (simp add: dbuf_write_def Let_def)
  qed
qed

end

text \<open>The C library's allocator keeps the contract.\<close>

lemma allocator_default: "allocator (dbuf_default_realloc avail fill)"
proof
  show "length b = unat n" if "dbuf_default_realloc avail fill p n = Some b" for p n b
    using that by (auto simp: dbuf_default_realloc_def c_realloc_def Let_def split: if_splits)
  show "take (length old) b = old"
    if "dbuf_default_realloc avail fill (Some old) n = Some b" "length old \<le> unat n" for old n b
    using that by (auto simp: dbuf_default_realloc_def c_realloc_def Let_def split: if_splits)
qed

interpretation libc: allocator "dbuf_default_realloc avail fill" for avail fill
  by (rule allocator_default)

lemma dbuf_init_wf [simp]:
  "dbuf_wf (dbuf_init avail fill)" "dbuf_contents (dbuf_init avail fill) = []"
  "\<not> db_error (dbuf_init avail fill)" "db_size (dbuf_init avail fill) = 0"
  "db_realloc_func (dbuf_init avail fill) = dbuf_default_realloc avail fill"
  by (simp_all add: dbuf_init_def dbuf_init2_def dbuf_wf_def dbuf_contents_def dbuf_bytes_def)

section \<open>Writing without looking at the return values\<close>

text \<open>
  Most callers append piece after piece, ignore every return value and ask
  \<^verbatim>\<open>dbuf_error\<close> once at the end.
\<close>

fun dbuf_put_all :: "dynbuf \<Rightarrow> u8 list list \<Rightarrow> dynbuf option" where
  "dbuf_put_all s [] = Some s"
| "dbuf_put_all s (d # ds) =
     (case dbuf_put s d of None \<Rightarrow> None | Some (s', _) \<Rightarrow> dbuf_put_all s' ds)"

text \<open>
  C3. A caller may append any number of pieces, ignore every return value and look at
  \<^verbatim>\<open>dbuf_error\<close> once at the end: with any allocator that keeps the contract, no access leaves the
  block, the buffer stays well formed, an error is never forgotten, and when no error is
  recorded the buffer holds the old contents followed by all the pieces.
\<close>

lemma dbuf_put_all_checked:
  assumes "allocator (db_realloc_func s)" and "dbuf_wf s"
    and "unat (db_size s) + length (concat ds) < 2 ^ 64"
  shows "\<exists>s'. dbuf_put_all s ds = Some s' \<and> dbuf_wf s' \<and> (db_error s \<longrightarrow> db_error s') \<and>
    (\<not> dbuf_error s' \<longrightarrow> dbuf_contents s' = dbuf_contents s @ concat ds)"
  using assms
proof (induction ds arbitrary: s)
  case Nil
  then show ?case by simp
next
  case (Cons d ds)
  obtain s1 r where put: "dbuf_put s d = Some (s1, r)" and app: "appended s d (s1, r)"
    using allocator.dbuf_put_appends [OF Cons.prems(1,2) refl, of d] Cons.prems(3) by auto
  have wf: "dbuf_wf s1" and ra: "db_realloc_func s1 = db_realloc_func s"
    using app by (auto simp: appended_def)
  have "unat (db_size s1) \<le> unat (db_size s) + length d"
  proof (cases "r = 0")
    case True
    then have "length (dbuf_contents s1) = length (dbuf_contents s @ d)"
      using app by (auto simp: appended_def)
    with wf Cons.prems(2) show ?thesis by simp
  next
    case False
    with app show ?thesis by (auto simp: appended_def)
  qed
  then have sz: "unat (db_size s1) + length (concat ds) < 2 ^ 64" using Cons.prems(3) by simp
  obtain s' where "dbuf_put_all s1 ds = Some s'" "dbuf_wf s'" "db_error s1 \<longrightarrow> db_error s'"
    "\<not> dbuf_error s' \<longrightarrow> dbuf_contents s' = dbuf_contents s1 @ concat ds"
    using Cons.IH [of s1] Cons.prems(1) ra wf sz by auto
  with put app show ?case by (auto simp: appended_def dbuf_error_def)
qed

lemma dbuf_put_all_checked_witness:
  "\<exists>s'. dbuf_put_all (dbuf_init 100 0) [[1, 2], [3]] = Some s' \<and> dbuf_wf s' \<and>
    (db_error (dbuf_init 100 0) \<longrightarrow> db_error s') \<and>
    (\<not> dbuf_error s' \<longrightarrow> dbuf_contents s' = dbuf_contents (dbuf_init 100 0) @ concat [[1, 2], [3]])"
proof (rule dbuf_put_all_checked)
  show "allocator (db_realloc_func (dbuf_init 100 0))"
    by (simp add: allocator_default)
qed simp_all

text \<open>
  \<^verbatim>\<open>dbuf_write\<close> with the C library's allocator, at an offset inside the used part: it
  either replaces the bytes from the offset on (growing the buffer when the data run past its
  end) and changes nothing else of the contents, or fails, sets the error flag and leaves
  the buffer as it was.
\<close>

lemma dbuf_write_libc:
  assumes "dbuf_wf s" and "db_realloc_func s = dbuf_default_realloc avail fill"
    and "unat offset + length d < 2 ^ 64" and "offset \<le> db_size s"
  shows "(\<exists>s'. dbuf_write s offset d = Some (s', 0) \<and> dbuf_wf s' \<and> db_error s' = db_error s \<and>
      dbuf_contents s' = take (unat offset) (dbuf_contents s) @ d @
        drop (unat offset + length d) (dbuf_contents s)) \<or>
    dbuf_write s offset d = Some (s\<lparr>db_error := True\<rparr>, -1)"
  using assms by (rule libc.dbuf_write_overwrites)

lemma dbuf_write_libc_witness:
  "(\<exists>s'. dbuf_write (dbuf_init 100 0) 0 [7] = Some (s', 0) \<and> dbuf_wf s' \<and>
      db_error s' = db_error (dbuf_init 100 0) \<and>
      dbuf_contents s' = take (unat (0 :: u64)) (dbuf_contents (dbuf_init 100 0)) @ [7] @
        drop (unat (0 :: u64) + length [7 :: u8]) (dbuf_contents (dbuf_init 100 0))) \<or>
    dbuf_write (dbuf_init 100 0) 0 [7] = Some ((dbuf_init 100 0)\<lparr>db_error := True\<rparr>, -1)"
  by (rule dbuf_write_libc [where avail = 100 and fill = 0]) simp_all

text \<open>
  \<^verbatim>\<open>dbuf_printf\<close> appends exactly the formatted text, without the terminating NUL, on
  both its paths: the 128-byte stack buffer and the direct print into the grown block, whose
  room always suffices.
\<close>

lemma dbuf_printf_libc:
  assumes "dbuf_wf s" and "db_realloc_func s = dbuf_default_realloc avail fill"
    and "unat (db_size s) + length out + 1 < 2 ^ 64"
  shows "\<exists>res. dbuf_printf s (Some out) = Some res \<and> appended s out res"
  using assms by (rule libc.dbuf_printf_appends)

lemma dbuf_printf_libc_witness:
  "\<exists>res. dbuf_printf (dbuf_init 1000 0) (Some (replicate 200 65)) = Some res \<and>
    appended (dbuf_init 1000 0) (replicate 200 65) res"
  by (rule dbuf_printf_libc [where avail = 1000 and fill = 0])
    simp_all

end
