(* ===== verification/Utf8.thy ===== *)
theory Utf8
  imports Cutils_Bytes
begin

text \<open>
  The UTF-8 codec of \<^verbatim>\<open>quickjs/cutils.c\<close> in its extended form of up to six bytes
  (\<^verbatim>\<open>UTF8_CHAR_LEN_MAX\<close>, 31 bits).
\<close>

definition UTF8_CHAR_LEN_MAX :: nat where
  "UTF8_CHAR_LEN_MAX = 6"

text \<open>
  The bytes \<^verbatim>\<open>unicode_to_utf8\<close> stores; its return value is their number. The \<open>u8\<close> casts are the
  truncating stores through \<^verbatim>\<open>uint8_t *\<close>.
\<close>

definition unicode_to_utf8 :: "u32 \<Rightarrow> u8 list" where
  "unicode_to_utf8 c =
     (if c < 0x80 then [ucast c]
      else if c < 0x800 then
        [ucast (drop_bit 6 c OR 0xc0), ucast ((c AND 0x3f) OR 0x80)]
      else if c < 0x10000 then
        [ucast (drop_bit 12 c OR 0xe0), ucast ((drop_bit 6 c AND 0x3f) OR 0x80),
         ucast ((c AND 0x3f) OR 0x80)]
      else if c < 0x200000 then
        [ucast (drop_bit 18 c OR 0xf0), ucast ((drop_bit 12 c AND 0x3f) OR 0x80),
         ucast ((drop_bit 6 c AND 0x3f) OR 0x80), ucast ((c AND 0x3f) OR 0x80)]
      else if c < 0x4000000 then
        [ucast (drop_bit 24 c OR 0xf8), ucast ((drop_bit 18 c AND 0x3f) OR 0x80),
         ucast ((drop_bit 12 c AND 0x3f) OR 0x80), ucast ((drop_bit 6 c AND 0x3f) OR 0x80),
         ucast ((c AND 0x3f) OR 0x80)]
      else if c < 0x80000000 then
        [ucast (drop_bit 30 c OR 0xfc), ucast ((drop_bit 24 c AND 0x3f) OR 0x80),
         ucast ((drop_bit 18 c AND 0x3f) OR 0x80), ucast ((drop_bit 12 c AND 0x3f) OR 0x80),
         ucast ((drop_bit 6 c AND 0x3f) OR 0x80), ucast ((c AND 0x3f) OR 0x80)]
      else [])"

definition utf8_min_code :: "u32 list" where
  "utf8_min_code = [0x80, 0x800, 0x10000, 0x00200000, 0x04000000]"

definition utf8_first_code_mask :: "u32 list" where
  "utf8_first_code_mask = [0x1f, 0xf, 0x7, 0x3, 0x1]"

text \<open>The number of continuation bytes a first byte announces; \<open>None\<close> is the default case, \<^verbatim>\<open>return -1\<close>.\<close>

definition utf8_cont_len :: "u8 \<Rightarrow> nat option" where
  "utf8_cont_len c =
     (if 0xc0 \<le> c \<and> c \<le> 0xdf then Some 1
      else if 0xe0 \<le> c \<and> c \<le> 0xef then Some 2
      else if 0xf0 \<le> c \<and> c \<le> 0xf7 then Some 3
      else if 0xf8 \<le> c \<and> c \<le> 0xfb then Some 4
      else if 0xfc \<le> c \<and> c \<le> 0xfd then Some 5
      else None)"

text \<open>
  The result of decoding: \<open>Utf8_Char c n\<close> is the return value \<open>c\<close> with \<open>n\<close> bytes consumed (\<^verbatim>\<open>*pp = p + n\<close>),
  \<open>Utf8_Invalid\<close> the return value \<open>-1\<close>, which leaves \<^verbatim>\<open>*pp\<close> alone, and \<open>Utf8_Overrun\<close> a read
  beyond the buffer.
\<close>

datatype utf8_result = Utf8_Char u32 nat | Utf8_Invalid | Utf8_Overrun

definition utf8_step :: "u32 \<Rightarrow> u8 \<Rightarrow> u32" where
  "utf8_step c b = push_bit 6 c OR (ucast b AND 0x3f)"

fun from_utf8_loop :: "u32 \<Rightarrow> nat \<Rightarrow> u8 list \<Rightarrow> utf8_result" where
  "from_utf8_loop c 0 p = Utf8_Char c 0"
| "from_utf8_loop c (Suc n) [] = Utf8_Overrun"
| "from_utf8_loop c (Suc n) (b # p) =
     (if b < 0x80 \<or> b \<ge> 0xc0 then Utf8_Invalid
      else from_utf8_loop (utf8_step c b) n p)"

definition unicode_from_utf8 :: "u8 list \<Rightarrow> int \<Rightarrow> utf8_result" where
  "unicode_from_utf8 p max_len =
     (case p of
        [] \<Rightarrow> Utf8_Overrun
      | b # p' \<Rightarrow>
          if b < 0x80 then Utf8_Char (ucast b) 1
          else (case utf8_cont_len b of
             None \<Rightarrow> Utf8_Invalid
           | Some l \<Rightarrow>
               if int l > max_len - 1 then Utf8_Invalid
               else (case from_utf8_loop (ucast b AND utf8_first_code_mask ! (l - 1)) l p' of
                  Utf8_Char c _ \<Rightarrow>
                    if c < utf8_min_code ! (l - 1) then Utf8_Invalid else Utf8_Char c (Suc l)
                | r \<Rightarrow> r)))"

section \<open>The encoder in arithmetic\<close>

text \<open>A continuation byte and a first byte of a sequence, as numbers.\<close>

lemma uint_cont_byte:
  "uint (ucast ((x AND 0x3f) OR 0x80 :: u32) :: u8) = uint x mod 64 + 128"
proof -
  have m: "uint (x AND 0x3f) = uint x mod 64"
    using uint_and_mask [of x 6] by (simp add: mask_eq_exp_minus_1)
  have "uint ((x AND 0x3f) OR 0x80) = uint x mod 64 + 128"
    using uint_or_disjoint [of "x AND 0x3f" "0x80"] m by (simp add: and.assoc)
  then show ?thesis by (simp add: word_conv)
qed

lemma uint_lead_byte:
  assumes "uint x < 2 ^ k" and "y AND (mask k) = 0" and "uint (y :: u32) + 2 ^ k \<le> 256"
  shows "uint (ucast (x OR y :: u32) :: u8) = uint x + uint y"
proof -
  have "x AND y = 0"
  proof -
    have x: "x AND mask k = x"
      using assms(1) by (simp add: word_uint_eq_iff uint_and_mask)
    have "x AND y = (x AND mask k) AND y" by (simp only: x)
    also have "\<dots> = x AND (y AND mask k)" by (simp only: ac_simps)
    finally show ?thesis using assms(2) by simp
  qed
  then have "uint (x OR y) = uint x + uint y" by (rule uint_or_disjoint)
  with assms show ?thesis by (simp add: word_conv)
qed

text \<open>The bytes of an encoding as numbers, with nested divisions by 64.\<close>

lemma uint_drop_bit_6:
  "uint (drop_bit 6 c) = uint c div 64"
  "uint (drop_bit 12 c) = uint c div 64 div 64"
  "uint (drop_bit 18 c) = uint c div 64 div 64 div 64"
  "uint (drop_bit 24 c) = uint c div 64 div 64 div 64 div 64"
  "uint (drop_bit 30 c) = uint c div 64 div 64 div 64 div 64 div 64"
  by (simp_all add: uint_drop_bit zdiv_zmult2_eq [symmetric])

lemma uint_drop_bit_less: "uint c < 2 ^ (n + k) \<Longrightarrow> uint (drop_bit n c) < 2 ^ k"
  by (simp add: uint_drop_bit power_add int_div_less_iff mult.commute)

lemma uint_lead_bytes:
  "uint c < 0x800 \<Longrightarrow> uint (ucast (drop_bit 6 c OR 0xc0 :: u32) :: u8) = uint (drop_bit 6 c) + 0xc0"
  "uint c < 0x10000 \<Longrightarrow> uint (ucast (drop_bit 12 c OR 0xe0 :: u32) :: u8) = uint (drop_bit 12 c) + 0xe0"
  "uint c < 0x200000 \<Longrightarrow> uint (ucast (drop_bit 18 c OR 0xf0 :: u32) :: u8) = uint (drop_bit 18 c) + 0xf0"
  "uint c < 0x4000000 \<Longrightarrow> uint (ucast (drop_bit 24 c OR 0xf8 :: u32) :: u8) = uint (drop_bit 24 c) + 0xf8"
  "uint c < 0x80000000 \<Longrightarrow> uint (ucast (drop_bit 30 c OR 0xfc :: u32) :: u8) = uint (drop_bit 30 c) + 0xfc"
  using uint_lead_byte [of "drop_bit 6 c" 5 "0xc0"] uint_drop_bit_less [of c 6 5]
    uint_lead_byte [of "drop_bit 12 c" 4 "0xe0"] uint_drop_bit_less [of c 12 4]
    uint_lead_byte [of "drop_bit 18 c" 3 "0xf0"] uint_drop_bit_less [of c 18 3]
    uint_lead_byte [of "drop_bit 24 c" 2 "0xf8"] uint_drop_bit_less [of c 24 2]
    uint_lead_byte [of "drop_bit 30 c" 1 "0xfc"] uint_drop_bit_less [of c 30 1]
  by (simp_all add: mask_eq_exp_minus_1)

lemmas utf8_bytes = uint_lead_bytes uint_cont_byte uint_drop_bit_6

section \<open>The decoder in arithmetic\<close>

lemma uint_utf8_step:
  assumes "uint c < 2 ^ 26"
  shows "uint (utf8_step c b) = uint c * 64 + uint b mod 64"
proof -
  have m: "uint (ucast b AND 0x3f :: u32) = uint b mod 64"
    using uint_and_mask [of "ucast b :: u32" 6] uint_lt2p [of b]
    by (simp add: mask_eq_exp_minus_1 word_conv)
  then have "uint (ucast b AND 0x3f :: u32) < 2 ^ 6" by simp
  from uint_push_bit_or [OF this, of c] m assms show ?thesis by (simp add: utf8_step_def)
qed

lemma uint_first_mask:
  "uint (ucast (b :: u8) AND 0x1f :: u32) = uint b mod 32"
  "uint (ucast b AND 0xf :: u32) = uint b mod 16"
  "uint (ucast b AND 0x7 :: u32) = uint b mod 8"
  "uint (ucast b AND 0x3 :: u32) = uint b mod 4"
  "uint (ucast b AND 0x1 :: u32) = uint b mod 2"
  using uint_and_mask [of "ucast b :: u32" 5] uint_and_mask [of "ucast b :: u32" 4]
    uint_and_mask [of "ucast b :: u32" 3] uint_and_mask [of "ucast b :: u32" 2]
    uint_and_mask [of "ucast b :: u32" 1] uint_lt2p [of b]
  by (simp_all add: mask_eq_exp_minus_1 word_conv)

lemma from_utf8_loop_Char:
  "from_utf8_loop c n p = Utf8_Char c' k \<Longrightarrow>
     n \<le> length p \<and> (\<forall>b\<in>set (take n p). 0x80 \<le> b \<and> b < 0xc0) \<and>
     c' = foldl utf8_step c (take n p)"
proof (induction c n p rule: from_utf8_loop.induct)
  case (3 c n b p)
  show ?case
  proof (cases "b < 0x80 \<or> b \<ge> 0xc0")
    case True
    with "3.prems" show ?thesis by simp
  next
    case False
    with "3.prems" have "from_utf8_loop (utf8_step c b) n p = Utf8_Char c' k" by simp
    from "3.IH" [OF False this] False show ?thesis by (simp add: not_less not_le)
  qed
qed simp_all

lemma from_utf8_loop_append:
  "\<forall>b\<in>set bs. 0x80 \<le> b \<and> b < 0xc0 \<Longrightarrow>
     from_utf8_loop c (length bs) (bs @ rest) = Utf8_Char (foldl utf8_step c bs) 0"
  by (induction bs arbitrary: c) (auto simp: not_less not_le)

section \<open>Round trips\<close>

lemma utf8_cont_len_iff:
  "utf8_cont_len b = Some 1 \<longleftrightarrow> 0xc0 \<le> uint b \<and> uint b < 0xe0"
  "utf8_cont_len b = Some 2 \<longleftrightarrow> 0xe0 \<le> uint b \<and> uint b < 0xf0"
  "utf8_cont_len b = Some 3 \<longleftrightarrow> 0xf0 \<le> uint b \<and> uint b < 0xf8"
  "utf8_cont_len b = Some 4 \<longleftrightarrow> 0xf8 \<le> uint b \<and> uint b < 0xfc"
  "utf8_cont_len b = Some 5 \<longleftrightarrow> 0xfc \<le> uint b \<and> uint b < 0xfe"
  by (auto simp: utf8_cont_len_def word_le_def)

lemma utf8_cont_len_cases:
  "utf8_cont_len b = Some l \<Longrightarrow> l = 1 \<or> l = 2 \<or> l = 3 \<or> l = 4 \<or> l = 5"
  by (auto simp: utf8_cont_len_def split: if_splits)

lemma length_unicode_to_utf8:
  "length (unicode_to_utf8 c) =
     (if c < 0x80 then 1 else if c < 0x800 then 2 else if c < 0x10000 then 3
      else if c < 0x200000 then 4 else if c < 0x4000000 then 5
      else if c < 0x80000000 then 6 else 0)"
  by (simp add: unicode_to_utf8_def)

lemma cont_byte_eq: "0x80 \<le> b \<Longrightarrow> b < 0xc0 \<Longrightarrow> uint (b :: u8) mod 64 + 128 = uint b"
proof -
  assume "0x80 \<le> b" "b < 0xc0"
  then have "uint b div 64 = 2" by (simp add: int_div_eq_iff word_le_def word_less_def)
  then show ?thesis using div_mult_mod_eq [of "uint b" 64] by simp
qed

lemma lead_byte_eq:
  assumes "lo \<le> uint (b :: u8)" and "uint b < lo + k" and "lo = k * q" and "0 < k"
  shows "uint b mod k + lo = uint b"
proof -
  have "uint b div k = q" using assms by (simp add: int_div_eq_iff algebra_simps)
  then show ?thesis using assms(3) div_mult_mod_eq [of "uint b" k] by (simp add: mult.commute)
qed

lemma horner_div: "(x * 64 + y mod 64) div 64 = (x :: int)"
  by simp

lemma horner_mod: "(x * 64 + y mod 64) mod 64 = (y mod 64 :: int)"
  by simp

lemma map_uint_eqD: "map uint (xs :: 'a::len word list) = map uint ys \<Longrightarrow> xs = ys"
  by (rule map_injective) (auto simp: inj_def word_uint_eq_iff)

lemma horner_lt: "(x :: int) < a \<Longrightarrow> x * 64 + y mod 64 < a * 64"
proof -
  assume "x < a"
  moreover have "y mod 64 < (64 :: int)" by simp
  ultimately show ?thesis by linarith
qed

lemma utf8_decoded_1:
  assumes "0xc0 \<le> uint b" "uint b < 0xe0"
    and "0x80 \<le> b1" "b1 < 0xc0"
    and c: "c = foldl utf8_step (ucast b AND 0x1f) [b1]"
    and lo: "\<not> c < 0x80"
  shows "c < 0x800 \<and> unicode_to_utf8 c = [b, b1]"
proof -
  have v: "uint c = uint b mod 32 * 64 + uint b1 mod 64"
    using c by (simp add: uint_utf8_step uint_first_mask)
  have hi: "uint c < 0x800"
    unfolding v using horner_lt [of "uint b mod 32" 32 "uint b1"] by simp
  have b: "uint b mod 32 + 0xc0 = uint b"
    by (rule lead_byte_eq [where q = 6]) (use assms(1,2) in simp_all)
  have "unicode_to_utf8 c = [ucast (drop_bit 6 c OR 0xc0), ucast ((c AND 0x3f) OR 0x80)]"
    using lo hi by (simp add: unicode_to_utf8_def word_less_def)
  also have "\<dots> = [b, b1]"
    by (rule map_uint_eqD) (simp only: list.map uint_lead_bytes(1) [OF hi] uint_cont_byte
        uint_drop_bit_6 v horner_div horner_mod b cont_byte_eq [of b1, OF assms(3,4)])
  finally show ?thesis using hi by (simp add: word_less_def)
qed

lemma utf8_decoded_2:
  assumes "0xe0 \<le> uint b" "uint b < 0xf0"
    and "0x80 \<le> b1" "b1 < 0xc0" "0x80 \<le> b2" "b2 < 0xc0"
    and c: "c = foldl utf8_step (ucast b AND 0xf) [b1, b2]"
    and lo: "\<not> c < 0x800"
  shows "c < 0x10000 \<and> unicode_to_utf8 c = [b, b1, b2]"
proof -
  have v: "uint c = (uint b mod 16 * 64 + uint b1 mod 64) * 64 + uint b2 mod 64"
    using c by (simp add: uint_utf8_step uint_first_mask)
  have hi: "uint c < 0x10000"
    unfolding v using horner_lt [OF horner_lt [of "uint b mod 16" 16 "uint b1"], of "uint b2"] by simp
  have b: "uint b mod 16 + 0xe0 = uint b"
    by (rule lead_byte_eq [where q = 14]) (use assms(1,2) in simp_all)
  have "unicode_to_utf8 c = [ucast (drop_bit 12 c OR 0xe0), ucast ((drop_bit 6 c AND 0x3f) OR 0x80), ucast ((c AND 0x3f) OR 0x80)]"
    using lo hi by (simp add: unicode_to_utf8_def word_less_def)
  also have "\<dots> = [b, b1, b2]"
    by (rule map_uint_eqD) (simp only: list.map uint_lead_bytes(2) [OF hi] uint_cont_byte
        uint_drop_bit_6 v horner_div horner_mod b cont_byte_eq [of b1, OF assms(3,4)] cont_byte_eq [of b2, OF assms(5,6)])
  finally show ?thesis using hi by (simp add: word_less_def)
qed

lemma utf8_decoded_3:
  assumes "0xf0 \<le> uint b" "uint b < 0xf8"
    and "0x80 \<le> b1" "b1 < 0xc0" "0x80 \<le> b2" "b2 < 0xc0" "0x80 \<le> b3" "b3 < 0xc0"
    and c: "c = foldl utf8_step (ucast b AND 0x7) [b1, b2, b3]"
    and lo: "\<not> c < 0x10000"
  shows "c < 0x200000 \<and> unicode_to_utf8 c = [b, b1, b2, b3]"
proof -
  have v: "uint c = ((uint b mod 8 * 64 + uint b1 mod 64) * 64 + uint b2 mod 64) * 64 + uint b3 mod 64"
    using c by (simp add: uint_utf8_step uint_first_mask)
  have hi: "uint c < 0x200000"
    unfolding v using horner_lt [OF horner_lt [OF horner_lt [of "uint b mod 8" 8 "uint b1"], of "uint b2"], of "uint b3"] by simp
  have b: "uint b mod 8 + 0xf0 = uint b"
    by (rule lead_byte_eq [where q = 30]) (use assms(1,2) in simp_all)
  have "unicode_to_utf8 c = [ucast (drop_bit 18 c OR 0xf0), ucast ((drop_bit 12 c AND 0x3f) OR 0x80), ucast ((drop_bit 6 c AND 0x3f) OR 0x80), ucast ((c AND 0x3f) OR 0x80)]"
    using lo hi by (simp add: unicode_to_utf8_def word_less_def)
  also have "\<dots> = [b, b1, b2, b3]"
    by (rule map_uint_eqD) (simp only: list.map uint_lead_bytes(3) [OF hi] uint_cont_byte
        uint_drop_bit_6 v horner_div horner_mod b cont_byte_eq [of b1, OF assms(3,4)] cont_byte_eq [of b2, OF assms(5,6)] cont_byte_eq [of b3, OF assms(7,8)])
  finally show ?thesis using hi by (simp add: word_less_def)
qed

lemma utf8_decoded_4:
  assumes "0xf8 \<le> uint b" "uint b < 0xfc"
    and "0x80 \<le> b1" "b1 < 0xc0" "0x80 \<le> b2" "b2 < 0xc0" "0x80 \<le> b3" "b3 < 0xc0" "0x80 \<le> b4" "b4 < 0xc0"
    and c: "c = foldl utf8_step (ucast b AND 0x3) [b1, b2, b3, b4]"
    and lo: "\<not> c < 0x200000"
  shows "c < 0x4000000 \<and> unicode_to_utf8 c = [b, b1, b2, b3, b4]"
proof -
  have v: "uint c = (((uint b mod 4 * 64 + uint b1 mod 64) * 64 + uint b2 mod 64) * 64 + uint b3 mod 64) * 64 + uint b4 mod 64"
    using c by (simp add: uint_utf8_step uint_first_mask)
  have hi: "uint c < 0x4000000"
    unfolding v using horner_lt [OF horner_lt [OF horner_lt [OF horner_lt [of "uint b mod 4" 4 "uint b1"], of "uint b2"], of "uint b3"], of "uint b4"] by simp
  have b: "uint b mod 4 + 0xf8 = uint b"
    by (rule lead_byte_eq [where q = 62]) (use assms(1,2) in simp_all)
  have "unicode_to_utf8 c = [ucast (drop_bit 24 c OR 0xf8), ucast ((drop_bit 18 c AND 0x3f) OR 0x80), ucast ((drop_bit 12 c AND 0x3f) OR 0x80), ucast ((drop_bit 6 c AND 0x3f) OR 0x80), ucast ((c AND 0x3f) OR 0x80)]"
    using lo hi by (simp add: unicode_to_utf8_def word_less_def)
  also have "\<dots> = [b, b1, b2, b3, b4]"
    by (rule map_uint_eqD) (simp only: list.map uint_lead_bytes(4) [OF hi] uint_cont_byte
        uint_drop_bit_6 v horner_div horner_mod b cont_byte_eq [of b1, OF assms(3,4)] cont_byte_eq [of b2, OF assms(5,6)] cont_byte_eq [of b3, OF assms(7,8)] cont_byte_eq [of b4, OF assms(9,10)])
  finally show ?thesis using hi by (simp add: word_less_def)
qed

lemma utf8_decoded_5:
  assumes "0xfc \<le> uint b" "uint b < 0xfe"
    and "0x80 \<le> b1" "b1 < 0xc0" "0x80 \<le> b2" "b2 < 0xc0" "0x80 \<le> b3" "b3 < 0xc0" "0x80 \<le> b4" "b4 < 0xc0" "0x80 \<le> b5" "b5 < 0xc0"
    and c: "c = foldl utf8_step (ucast b AND 0x1) [b1, b2, b3, b4, b5]"
    and lo: "\<not> c < 0x4000000"
  shows "c < 0x80000000 \<and> unicode_to_utf8 c = [b, b1, b2, b3, b4, b5]"
proof -
  have v: "uint c = ((((uint b mod 2 * 64 + uint b1 mod 64) * 64 + uint b2 mod 64) * 64 + uint b3 mod 64) * 64 + uint b4 mod 64) * 64 + uint b5 mod 64"
    using c by (simp add: uint_utf8_step uint_first_mask)
  have hi: "uint c < 0x80000000"
    unfolding v using horner_lt [OF horner_lt [OF horner_lt [OF horner_lt [OF horner_lt [of "uint b mod 2" 2 "uint b1"], of "uint b2"], of "uint b3"], of "uint b4"], of "uint b5"] by simp
  have b: "uint b mod 2 + 0xfc = uint b"
    by (rule lead_byte_eq [where q = 126]) (use assms(1,2) in simp_all)
  have "unicode_to_utf8 c = [ucast (drop_bit 30 c OR 0xfc), ucast ((drop_bit 24 c AND 0x3f) OR 0x80), ucast ((drop_bit 18 c AND 0x3f) OR 0x80), ucast ((drop_bit 12 c AND 0x3f) OR 0x80), ucast ((drop_bit 6 c AND 0x3f) OR 0x80), ucast ((c AND 0x3f) OR 0x80)]"
    using lo hi by (simp add: unicode_to_utf8_def word_less_def)
  also have "\<dots> = [b, b1, b2, b3, b4, b5]"
    by (rule map_uint_eqD) (simp only: list.map uint_lead_bytes(5) [OF hi] uint_cont_byte
        uint_drop_bit_6 v horner_div horner_mod b cont_byte_eq [of b1, OF assms(3,4)] cont_byte_eq [of b2, OF assms(5,6)] cont_byte_eq [of b3, OF assms(7,8)] cont_byte_eq [of b4, OF assms(9,10)] cont_byte_eq [of b5, OF assms(11,12)])
  finally show ?thesis using hi by (simp add: word_less_def)
qed

lemma cont_mod: "(x mod 64 + 128) mod 64 = (x mod 64 :: int)"
  using mod_mult_self1 [of "x mod 64" 2 64] by simp

lemma lead_mod: "0 \<le> x \<Longrightarrow> x < k \<Longrightarrow> (x + k * q) mod k = (x :: int)"
  by simp

lemma utf8_step_join:
  assumes "uint s = uint y div 64"
  shows "utf8_step s (ucast ((y AND 0x3f) OR 0x80)) = y"
proof -
  have "uint s < 2 ^ 26" using assms uint_lt2p [of y] by (simp add: int_div_less_iff)
  then have "uint (utf8_step s (ucast ((y AND 0x3f) OR 0x80))) = uint y div 64 * 64 + uint y mod 64"
    by (simp only: uint_utf8_step uint_cont_byte cont_mod assms)
  then show ?thesis by (simp only: div_mult_mod_eq word_uint_eq_iff)
qed

lemma cont_byte_range:
  "0x80 \<le> (ucast ((x AND 0x3f) OR 0x80 :: u32) :: u8) \<and> (ucast ((x AND 0x3f) OR 0x80 :: u32) :: u8) < 0xc0"
proof -
  have "0 \<le> uint x mod 64" "uint x mod 64 < 64" by simp_all
  then show ?thesis by (simp add: word_le_def word_less_def uint_cont_byte)
qed

lemma utf8_encoded_1:
  assumes "\<not> c < 0x80" and "c < 0x800"
  shows "\<exists>b bs. unicode_to_utf8 c = b # bs \<and> length bs = 1 \<and> utf8_cont_len b = Some 1 \<and>
    (\<forall>b\<in>set bs. 0x80 \<le> b \<and> b < 0xc0) \<and> foldl utf8_step (ucast b AND 0x1f) bs = c"
proof -
  let ?b = "ucast (drop_bit 6 c OR 0xc0) :: u8"
  let ?bs = "[ucast ((c AND 0x3f) OR 0x80)] :: u8 list"
  have hi: "uint c < 0x800" using assms(2) by (simp add: word_less_def)
  have eq: "unicode_to_utf8 c = ?b # ?bs"
    using assms hi by (simp add: unicode_to_utf8_def word_less_def)
  have d: "uint (drop_bit 6 c) < 32" "0 \<le> uint (drop_bit 6 c)"
    using uint_drop_bit_less [of c 6 5] hi by simp_all
  have b: "uint ?b = uint (drop_bit 6 c) + 0xc0" by (rule uint_lead_bytes(1) [OF hi])
  have len: "utf8_cont_len ?b = Some 1"
    unfolding utf8_cont_len_iff b using d by simp
  have "uint ?b mod 32 = uint (drop_bit 6 c)"
    unfolding b using lead_mod [OF d(2,1), of 6] by simp
  then have "ucast ?b AND 0x1f = drop_bit 6 c"
    by (simp only: word_uint_eq_iff uint_first_mask)
  then have "foldl utf8_step (ucast ?b AND 0x1f) ?bs = c"
    by (simp only: foldl.simps utf8_step_join uint_drop_bit_6)
  with eq len show ?thesis
    by (intro exI [of _ ?b] exI [of _ ?bs]) (simp only: list.set ball_simps cont_byte_range list.size, simp)
qed

lemma utf8_encoded_2:
  assumes "\<not> c < 0x800" and "c < 0x10000"
  shows "\<exists>b bs. unicode_to_utf8 c = b # bs \<and> length bs = 2 \<and> utf8_cont_len b = Some 2 \<and>
    (\<forall>b\<in>set bs. 0x80 \<le> b \<and> b < 0xc0) \<and> foldl utf8_step (ucast b AND 0xf) bs = c"
proof -
  let ?b = "ucast (drop_bit 12 c OR 0xe0) :: u8"
  let ?bs = "[ucast ((drop_bit 6 c AND 0x3f) OR 0x80), ucast ((c AND 0x3f) OR 0x80)] :: u8 list"
  have hi: "uint c < 0x10000" using assms(2) by (simp add: word_less_def)
  have eq: "unicode_to_utf8 c = ?b # ?bs"
    using assms hi by (simp add: unicode_to_utf8_def word_less_def)
  have d: "uint (drop_bit 12 c) < 16" "0 \<le> uint (drop_bit 12 c)"
    using uint_drop_bit_less [of c 12 4] hi by simp_all
  have b: "uint ?b = uint (drop_bit 12 c) + 0xe0" by (rule uint_lead_bytes(2) [OF hi])
  have len: "utf8_cont_len ?b = Some 2"
    unfolding utf8_cont_len_iff b using d by simp
  have "uint ?b mod 16 = uint (drop_bit 12 c)"
    unfolding b using lead_mod [OF d(2,1), of 14] by simp
  then have "ucast ?b AND 0xf = drop_bit 12 c"
    by (simp only: word_uint_eq_iff uint_first_mask)
  then have "foldl utf8_step (ucast ?b AND 0xf) ?bs = c"
    by (simp only: foldl.simps utf8_step_join uint_drop_bit_6)
  with eq len show ?thesis
    by (intro exI [of _ ?b] exI [of _ ?bs]) (simp only: list.set ball_simps cont_byte_range list.size, simp)
qed

lemma utf8_encoded_3:
  assumes "\<not> c < 0x10000" and "c < 0x200000"
  shows "\<exists>b bs. unicode_to_utf8 c = b # bs \<and> length bs = 3 \<and> utf8_cont_len b = Some 3 \<and>
    (\<forall>b\<in>set bs. 0x80 \<le> b \<and> b < 0xc0) \<and> foldl utf8_step (ucast b AND 0x7) bs = c"
proof -
  let ?b = "ucast (drop_bit 18 c OR 0xf0) :: u8"
  let ?bs = "[ucast ((drop_bit 12 c AND 0x3f) OR 0x80), ucast ((drop_bit 6 c AND 0x3f) OR 0x80), ucast ((c AND 0x3f) OR 0x80)] :: u8 list"
  have hi: "uint c < 0x200000" using assms(2) by (simp add: word_less_def)
  have eq: "unicode_to_utf8 c = ?b # ?bs"
    using assms hi by (simp add: unicode_to_utf8_def word_less_def)
  have d: "uint (drop_bit 18 c) < 8" "0 \<le> uint (drop_bit 18 c)"
    using uint_drop_bit_less [of c 18 3] hi by simp_all
  have b: "uint ?b = uint (drop_bit 18 c) + 0xf0" by (rule uint_lead_bytes(3) [OF hi])
  have len: "utf8_cont_len ?b = Some 3"
    unfolding utf8_cont_len_iff b using d by simp
  have "uint ?b mod 8 = uint (drop_bit 18 c)"
    unfolding b using lead_mod [OF d(2,1), of 30] by simp
  then have "ucast ?b AND 0x7 = drop_bit 18 c"
    by (simp only: word_uint_eq_iff uint_first_mask)
  then have "foldl utf8_step (ucast ?b AND 0x7) ?bs = c"
    by (simp only: foldl.simps utf8_step_join uint_drop_bit_6)
  with eq len show ?thesis
    by (intro exI [of _ ?b] exI [of _ ?bs]) (simp only: list.set ball_simps cont_byte_range list.size, simp)
qed

lemma utf8_encoded_4:
  assumes "\<not> c < 0x200000" and "c < 0x4000000"
  shows "\<exists>b bs. unicode_to_utf8 c = b # bs \<and> length bs = 4 \<and> utf8_cont_len b = Some 4 \<and>
    (\<forall>b\<in>set bs. 0x80 \<le> b \<and> b < 0xc0) \<and> foldl utf8_step (ucast b AND 0x3) bs = c"
proof -
  let ?b = "ucast (drop_bit 24 c OR 0xf8) :: u8"
  let ?bs = "[ucast ((drop_bit 18 c AND 0x3f) OR 0x80), ucast ((drop_bit 12 c AND 0x3f) OR 0x80), ucast ((drop_bit 6 c AND 0x3f) OR 0x80), ucast ((c AND 0x3f) OR 0x80)] :: u8 list"
  have hi: "uint c < 0x4000000" using assms(2) by (simp add: word_less_def)
  have eq: "unicode_to_utf8 c = ?b # ?bs"
    using assms hi by (simp add: unicode_to_utf8_def word_less_def)
  have d: "uint (drop_bit 24 c) < 4" "0 \<le> uint (drop_bit 24 c)"
    using uint_drop_bit_less [of c 24 2] hi by simp_all
  have b: "uint ?b = uint (drop_bit 24 c) + 0xf8" by (rule uint_lead_bytes(4) [OF hi])
  have len: "utf8_cont_len ?b = Some 4"
    unfolding utf8_cont_len_iff b using d by simp
  have "uint ?b mod 4 = uint (drop_bit 24 c)"
    unfolding b using lead_mod [OF d(2,1), of 62] by simp
  then have "ucast ?b AND 0x3 = drop_bit 24 c"
    by (simp only: word_uint_eq_iff uint_first_mask)
  then have "foldl utf8_step (ucast ?b AND 0x3) ?bs = c"
    by (simp only: foldl.simps utf8_step_join uint_drop_bit_6)
  with eq len show ?thesis
    by (intro exI [of _ ?b] exI [of _ ?bs]) (simp only: list.set ball_simps cont_byte_range list.size, simp)
qed

lemma utf8_encoded_5:
  assumes "\<not> c < 0x4000000" and "c < 0x80000000"
  shows "\<exists>b bs. unicode_to_utf8 c = b # bs \<and> length bs = 5 \<and> utf8_cont_len b = Some 5 \<and>
    (\<forall>b\<in>set bs. 0x80 \<le> b \<and> b < 0xc0) \<and> foldl utf8_step (ucast b AND 0x1) bs = c"
proof -
  let ?b = "ucast (drop_bit 30 c OR 0xfc) :: u8"
  let ?bs = "[ucast ((drop_bit 24 c AND 0x3f) OR 0x80), ucast ((drop_bit 18 c AND 0x3f) OR 0x80), ucast ((drop_bit 12 c AND 0x3f) OR 0x80), ucast ((drop_bit 6 c AND 0x3f) OR 0x80), ucast ((c AND 0x3f) OR 0x80)] :: u8 list"
  have hi: "uint c < 0x80000000" using assms(2) by (simp add: word_less_def)
  have eq: "unicode_to_utf8 c = ?b # ?bs"
    using assms hi by (simp add: unicode_to_utf8_def word_less_def)
  have d: "uint (drop_bit 30 c) < 2" "0 \<le> uint (drop_bit 30 c)"
    using uint_drop_bit_less [of c 30 1] hi by simp_all
  have b: "uint ?b = uint (drop_bit 30 c) + 0xfc" by (rule uint_lead_bytes(5) [OF hi])
  have len: "utf8_cont_len ?b = Some 5"
    unfolding utf8_cont_len_iff b using d by simp
  have "uint ?b mod 2 = uint (drop_bit 30 c)"
    unfolding b using lead_mod [OF d(2,1), of 126] by simp
  then have "ucast ?b AND 0x1 = drop_bit 30 c"
    by (simp only: word_uint_eq_iff uint_first_mask)
  then have "foldl utf8_step (ucast ?b AND 0x1) ?bs = c"
    by (simp only: foldl.simps utf8_step_join uint_drop_bit_6)
  with eq len show ?thesis
    by (intro exI [of _ ?b] exI [of _ ?bs]) (simp only: list.set ball_simps cont_byte_range list.size, simp)
qed

lemma length_1_to_5:
  "length xs = 1 \<Longrightarrow> \<exists>a. xs = [a]"
  "length xs = 2 \<Longrightarrow> \<exists>a b. xs = [a, b]"
  "length xs = 3 \<Longrightarrow> \<exists>a b c. xs = [a, b, c]"
  "length xs = 4 \<Longrightarrow> \<exists>a b c d. xs = [a, b, c, d]"
  "length xs = 5 \<Longrightarrow> \<exists>a b c d e. xs = [a, b, c, d, e]"
  by (auto simp: length_Suc_conv eval_nat_numeral)

lemma utf8_decoded:
  assumes len: "utf8_cont_len b = Some l" and bs: "length bs = l"
    and cont: "\<forall>b\<in>set bs. 0x80 \<le> b \<and> b < 0xc0"
    and c: "c = foldl utf8_step (ucast b AND utf8_first_code_mask ! (l - 1)) bs"
    and lo: "\<not> c < utf8_min_code ! (l - 1)"
  shows "c < 0x80000000 \<and> unicode_to_utf8 c = b # bs"
proof -
  consider "l = 1" | "l = 2" | "l = 3" | "l = 4" | "l = 5"
    using utf8_cont_len_cases [OF len] by blast
  then show ?thesis
  proof cases
    case 1
    then obtain b1 where "bs = [b1]" using bs length_1_to_5(1) by metis
    then have "c < 0x800 \<and> unicode_to_utf8 c = b # bs"
      using utf8_decoded_1 [of b b1 c] len cont c lo 1 utf8_cont_len_iff(1) [of b]
      by (simp add: utf8_first_code_mask_def utf8_min_code_def)
    then show ?thesis by (auto elim: order.strict_trans1 [OF order.strict_implies_order])
  next
    case 2
    then obtain b1 b2 where "bs = [b1, b2]" using bs length_1_to_5(2) by metis
    then have "c < 0x10000 \<and> unicode_to_utf8 c = b # bs"
      using utf8_decoded_2 [of b b1 b2 c] len cont c lo 2 utf8_cont_len_iff(2) [of b]
      by (simp add: utf8_first_code_mask_def utf8_min_code_def)
    then show ?thesis by (auto elim: order.strict_trans1 [OF order.strict_implies_order])
  next
    case 3
    then obtain b1 b2 b3 where "bs = [b1, b2, b3]" using bs length_1_to_5(3) by metis
    then have "c < 0x200000 \<and> unicode_to_utf8 c = b # bs"
      using utf8_decoded_3 [of b b1 b2 b3 c] len cont c lo 3 utf8_cont_len_iff(3) [of b]
      by (simp add: utf8_first_code_mask_def utf8_min_code_def numeral_2_eq_2)
    then show ?thesis by (auto elim: order.strict_trans1 [OF order.strict_implies_order])
  next
    case 4
    then obtain b1 b2 b3 b4 where "bs = [b1, b2, b3, b4]" using bs length_1_to_5(4) by metis
    then have "c < 0x4000000 \<and> unicode_to_utf8 c = b # bs"
      using utf8_decoded_4 [of b b1 b2 b3 b4 c] len cont c lo 4 utf8_cont_len_iff(4) [of b]
      by (simp add: utf8_first_code_mask_def utf8_min_code_def numeral_3_eq_3)
    then show ?thesis by (auto elim: order.strict_trans1 [OF order.strict_implies_order])
  next
    case 5
    then obtain b1 b2 b3 b4 b5 where "bs = [b1, b2, b3, b4, b5]" using bs length_1_to_5(5) by metis
    then show ?thesis
      using utf8_decoded_5 [of b b1 b2 b3 b4 b5 c] len cont c lo 5 utf8_cont_len_iff(5) [of b]
      by (simp add: utf8_first_code_mask_def utf8_min_code_def eval_nat_numeral)
  qed
qed

lemma unicode_to_utf8_ascii:
  "(b :: u8) < 0x80 \<Longrightarrow> (ucast b :: u32) < 0x80000000 \<and> unicode_to_utf8 (ucast b) = [b]"
  by (simp add: unicode_to_utf8_def word_less_def word_conv word_uint_eq_iff)

text \<open>
  C1. Decoding accepts only canonical sequences: when \<^verbatim>\<open>unicode_from_utf8\<close> returns a code
  point \<open>c\<close> after \<open>n\<close> bytes, \<open>c\<close> has at most 31 bits and the \<open>n\<close> bytes consumed are exactly
  the bytes \<^verbatim>\<open>unicode_to_utf8\<close> writes for \<open>c\<close>, so overlong sequences and stray continuation
  bytes are rejected.
\<close>

lemma unicode_from_utf8_sound:
  assumes "unicode_from_utf8 p max_len = Utf8_Char c n"
  shows "c < 0x80000000 \<and> n = length (unicode_to_utf8 c) \<and> take n p = unicode_to_utf8 c"
proof (cases p)
  case Nil
  with assms show ?thesis by (simp add: unicode_from_utf8_def)
next
  case (Cons b q)
  show ?thesis
  proof (cases "b < 0x80")
    case True
    with assms Cons have "c = ucast b" "n = 1" by (simp_all add: unicode_from_utf8_def)
    with True Cons show ?thesis using unicode_to_utf8_ascii [of b] by simp
  next
    case False
    with assms Cons obtain l c' k where len: "utf8_cont_len b = Some l"
      and loop: "from_utf8_loop (ucast b AND utf8_first_code_mask ! (l - 1)) l q = Utf8_Char c' k"
      and res: "\<not> c' < utf8_min_code ! (l - 1)" "c = c'" "n = Suc l"
      by (auto simp: unicode_from_utf8_def split: option.splits if_splits utf8_result.splits)
    have *: "l \<le> length q" "\<forall>b\<in>set (take l q). 0x80 \<le> b \<and> b < 0xc0"
      "c' = foldl utf8_step (ucast b AND utf8_first_code_mask ! (l - 1)) (take l q)"
      using from_utf8_loop_Char [OF loop] by blast+
    have "c' < 0x80000000 \<and> unicode_to_utf8 c' = b # take l q"
      by (rule utf8_decoded [OF len _ *(2,3) res(1)]) (use *(1) in simp)
    with res(2,3) *(1) Cons show ?thesis by simp
  qed
qed

lemma utf8_encoded:
  assumes "\<not> c < 0x80" and "c < 0x80000000"
  shows "\<exists>b bs l. unicode_to_utf8 c = b # bs \<and> \<not> b < 0x80 \<and> length bs = l \<and> utf8_cont_len b = Some l \<and>
    (\<forall>b\<in>set bs. 0x80 \<le> b \<and> b < 0xc0) \<and>
    foldl utf8_step (ucast b AND utf8_first_code_mask ! (l - 1)) bs = c \<and>
    \<not> c < utf8_min_code ! (l - 1)"
proof -
  have m: "utf8_first_code_mask ! (Suc 0 - 1) = 0x1f" "utf8_first_code_mask ! (2 - 1) = 0xf"
    "utf8_first_code_mask ! (3 - 1) = 0x7" "utf8_first_code_mask ! (4 - 1) = 0x3"
    "utf8_first_code_mask ! (5 - 1) = 0x1"
    by (simp_all add: utf8_first_code_mask_def eval_nat_numeral)
  have k: "utf8_min_code ! (Suc 0 - 1) = 0x80" "utf8_min_code ! (2 - 1) = 0x800"
    "utf8_min_code ! (3 - 1) = 0x10000" "utf8_min_code ! (4 - 1) = 0x200000"
    "utf8_min_code ! (5 - 1) = 0x4000000"
    by (simp_all add: utf8_min_code_def eval_nat_numeral)
  have lead: "\<not> b < 0x80" if "utf8_cont_len b = Some l" for b l
    using that by (auto simp: utf8_cont_len_def word_less_def word_le_def split: if_splits)
  consider "c < 0x800" | "\<not> c < 0x800" "c < 0x10000" | "\<not> c < 0x10000" "c < 0x200000"
    | "\<not> c < 0x200000" "c < 0x4000000" | "\<not> c < 0x4000000" by blast
  then show ?thesis
  proof cases
    case 1
    with utf8_encoded_1 [of c] assms m(1) k(1) lead show ?thesis by (metis One_nat_def)
  next
    case 2
    with utf8_encoded_2 [of c] m(2) k(2) lead show ?thesis by metis
  next
    case 3
    with utf8_encoded_3 [of c] m(3) k(3) lead show ?thesis by metis
  next
    case 4
    with utf8_encoded_4 [of c] m(4) k(4) lead show ?thesis by metis
  next
    case 5
    with utf8_encoded_5 [of c] assms m(5) k(5) lead show ?thesis by metis
  qed
qed

text \<open>
  C2. Encoding followed by decoding gives the code point back for every 31-bit code
  point, whatever follows the sequence in the buffer, and consumes exactly the bytes written.
\<close>

lemma unicode_from_utf8_complete:
  assumes "c < 0x80000000" and "int (length (unicode_to_utf8 c)) \<le> max_len"
  shows "unicode_from_utf8 (unicode_to_utf8 c @ rest) max_len =
    Utf8_Char c (length (unicode_to_utf8 c))"
proof (cases "c < 0x80")
  case True
  then have "(ucast c :: u8) < 0x80" "(ucast (ucast c :: u8) :: u32) = c"
    by (simp_all add: word_less_def word_conv word_uint_eq_iff)
  with True show ?thesis by (simp add: unicode_to_utf8_def unicode_from_utf8_def)
next
  case False
  obtain b bs l where e: "unicode_to_utf8 c = b # bs" "\<not> b < 0x80" "length bs = l"
    "utf8_cont_len b = Some l" "\<forall>b\<in>set bs. 0x80 \<le> b \<and> b < 0xc0"
    "foldl utf8_step (ucast b AND utf8_first_code_mask ! (l - 1)) bs = c"
    "\<not> c < utf8_min_code ! (l - 1)"
    using utf8_encoded [OF False assms(1)] by blast
  have "from_utf8_loop (ucast b AND utf8_first_code_mask ! (l - 1)) l (bs @ rest) = Utf8_Char c 0"
    using from_utf8_loop_append [OF e(5)] e(3,6) by simp
  with e assms(2) show ?thesis by (simp add: unicode_from_utf8_def)
qed

lemma unicode_from_utf8_sound_witness:
  "unicode_from_utf8 [0xe2, 0x82, 0xac, 0x41] 4 = Utf8_Char 0x20ac 3 \<and>
   take 3 [0xe2, 0x82, 0xac, 0x41] = unicode_to_utf8 0x20ac"
proof -
  have *: "unicode_from_utf8 [0xe2, 0x82, 0xac, 0x41] 4 = Utf8_Char 0x20ac 3"
    by code_simp
  from unicode_from_utf8_sound [OF *] * show ?thesis by simp
qed

lemma unicode_from_utf8_complete_witness:
  "unicode_from_utf8 (unicode_to_utf8 0x1F600 @ [0x41]) 6 =
     Utf8_Char 0x1F600 (length (unicode_to_utf8 0x1F600))"
  by (rule unicode_from_utf8_complete) code_simp+

end
