(* ===== verification/Mp_Limbs.thy ===== *)
theory Mp_Limbs
  imports Cutils_Bytes
begin

text \<open>
  Multi-precision arithmetic on little-endian limb vectors, the \<^verbatim>\<open>mp_\<close> routines of
  \<^verbatim>\<open>quickjs/quickjs.c\<close>. A vector argument is the list of the limbs the pointer and the count
  describe; the result of a routine is the vector it writes with its return value. The
  definitions are generic in the limb width (\<^verbatim>\<open>JS_LIMB_BITS\<close>): \<^verbatim>\<open>quickjs.c\<close> uses them at 64
  bits, \<^verbatim>\<open>dtoa.c\<close> has the same loops at 32 bits. A double limb (\<^verbatim>\<open>js_dlimb_t\<close>) is an integer
  reduced to twice the limb width by \<open>take_bit\<close>.
\<close>

section \<open>Carry chains\<close>

definition ADDC :: "'a::len word \<Rightarrow> 'a word \<Rightarrow> 'a word \<Rightarrow> 'a word \<times> 'a word" where
  "ADDC op1 op2 carry_in =
     (let v = op1; a = v + op2; k1 = (a < v); k = carry_in; a' = a + k
      in (a', of_bool (a' < k \<or> k1)))"

fun mp_add :: "'a::len word list \<Rightarrow> 'a word list \<Rightarrow> 'a word \<Rightarrow> 'a word list \<times> 'a word" where
  "mp_add (x # xs) (y # ys) carry =
     (let (r, c) = ADDC x y carry; (rs, c') = mp_add xs ys c in (r # rs, c'))"
| "mp_add _ _ carry = ([], carry)"

fun mp_sub :: "'a::len word list \<Rightarrow> 'a word list \<Rightarrow> 'a word \<Rightarrow> 'a word list \<times> 'a word" where
  "mp_sub (x # xs) (y # ys) k =
     (let a = x - y; k1 = (a > x); v = a - k; k' = of_bool (v > a \<or> k1);
          (rs, k'') = mp_sub xs ys k'
      in (v # rs, k''))"
| "mp_sub _ _ k = ([], k)"

fun mp_neg_loop :: "'a::len word list \<Rightarrow> 'a word \<Rightarrow> 'a word list \<times> 'a word" where
  "mp_neg_loop [] carry = ([], carry)"
| "mp_neg_loop (x # xs) carry =
     (let v = NOT x + carry; (rs, c) = mp_neg_loop xs (of_bool (v < carry)) in (v # rs, c))"

definition mp_neg :: "'a::len word list \<Rightarrow> 'a word list \<times> 'a word" where
  "mp_neg op2 = mp_neg_loop op2 1"

section \<open>Multiplication and division by a limb\<close>

definition dlimb_lo :: "int \<Rightarrow> 'a::len word" where
  "dlimb_lo t = word_of_int t"

definition dlimb_hi :: "int \<Rightarrow> 'a::len word" where
  "dlimb_hi t = word_of_int (t div 2 ^ LENGTH('a))"

fun mp_mul1 :: "'a::len word list \<Rightarrow> 'a word \<Rightarrow> 'a word \<Rightarrow> 'a word list \<times> 'a word" where
  "mp_mul1 [] b l = ([], l)"
| "mp_mul1 (a # as) b l =
     (let t = take_bit (2 * LENGTH('a)) (uint a * uint b + uint l);
          (rs, h) = mp_mul1 as b (dlimb_hi t)
      in (dlimb_lo t # rs, h))"

text \<open>Division runs from the high limb down: the tail of the list is divided first.\<close>

fun mp_div1 :: "'a::len word list \<Rightarrow> 'a word \<Rightarrow> 'a word \<Rightarrow> 'a word list \<times> 'a word" where
  "mp_div1 [] b r = ([], r)"
| "mp_div1 (a # as) b r =
     (let (qs, r') = mp_div1 as b r;
          a1 = uint r' * 2 ^ LENGTH('a) + uint a
      in (word_of_int (a1 div uint b) # qs, word_of_int (a1 mod uint b)))"

fun mp_add_mul1_loop ::
    "'a::len word list \<Rightarrow> 'a word list \<Rightarrow> 'a word \<Rightarrow> 'a word \<Rightarrow> 'a word list \<times> 'a word" where
  "mp_add_mul1_loop (r # rs) (a # as) b l =
     (let t = take_bit (2 * LENGTH('a)) (uint a * uint b + uint l + uint r);
          (ts, h) = mp_add_mul1_loop rs as b (dlimb_hi t)
      in (dlimb_lo t # ts, h))"
| "mp_add_mul1_loop _ _ b l = ([], l)"

definition mp_add_mul1 ::
    "'a::len word list \<Rightarrow> 'a word list \<Rightarrow> 'a word \<Rightarrow> 'a word list \<times> 'a word" where
  "mp_add_mul1 tabr taba b = mp_add_mul1_loop tabr taba b 0"

fun mp_sub_mul1_loop ::
    "'a::len word list \<Rightarrow> 'a word list \<Rightarrow> 'a word \<Rightarrow> 'a word \<Rightarrow> 'a word list \<times> 'a word" where
  "mp_sub_mul1_loop (r # rs) (a # as) b l =
     (let t = take_bit (2 * LENGTH('a)) (uint r - uint a * uint b - uint l);
          (ts, h) = mp_sub_mul1_loop rs as b (- dlimb_hi t)
      in (dlimb_lo t # ts, h))"
| "mp_sub_mul1_loop _ _ b l = ([], l)"

definition mp_sub_mul1 ::
    "'a::len word list \<Rightarrow> 'a word list \<Rightarrow> 'a word \<Rightarrow> 'a word list \<times> 'a word" where
  "mp_sub_mul1 tabr taba b = mp_sub_mul1_loop tabr taba b 0"

text \<open>
  The base case product. \<open>result\<close> holds the limbs from the current row on: row \<open>i\<close> adds
  \<open>op1 * op2 ! i\<close> to the window at \<open>result + i\<close> and stores the high word behind it, then its
  lowest limb is final.
\<close>

fun mp_mul_rows :: "'a::len word list \<Rightarrow> 'a word list \<Rightarrow> 'a word list \<Rightarrow> 'a word list" where
  "mp_mul_rows result op1 [] = result"
| "mp_mul_rows result op1 (b # bs) =
     (case mp_add_mul1 result op1 b of
        (ws, r) \<Rightarrow> (case ws @ [r] of
                     [] \<Rightarrow> []
                   | w # ws' \<Rightarrow> w # mp_mul_rows ws' op1 bs))"

definition mp_mul_basecase :: "'a::len word list \<Rightarrow> 'a word list \<Rightarrow> 'a word list" where
  "mp_mul_basecase op1 op2 =
     (case op2 of
        [] \<Rightarrow> []
      | b # bs \<Rightarrow>
          (case mp_mul1 op1 b 0 of
             (ws, h) \<Rightarrow> (case ws @ [h] of
                          [] \<Rightarrow> []
                        | w # ws' \<Rightarrow> w # mp_mul_rows ws' op1 bs)))"

section \<open>Shifts\<close>

fun mp_shl_loop :: "'a::len word list \<Rightarrow> nat \<Rightarrow> 'a word \<Rightarrow> 'a word list \<times> 'a word" where
  "mp_shl_loop [] shift l = ([], l)"
| "mp_shl_loop (v # vs) shift l =
     (let (rs, h) = mp_shl_loop vs shift (drop_bit (LENGTH('a) - shift) v)
      in ((push_bit shift v OR l) # rs, h))"

definition mp_shl :: "'a::len word list \<Rightarrow> nat \<Rightarrow> 'a word list \<times> 'a word" where
  "mp_shl taba shift = mp_shl_loop taba shift 0"

text \<open>\<open>mp_shr_loop\<close> returns the limb last read, the lowest one, for the remainder.\<close>

fun mp_shr_loop :: "'a::len word list \<Rightarrow> nat \<Rightarrow> 'a word \<Rightarrow> 'a word list \<times> 'a word" where
  "mp_shr_loop [] shift l = ([], l)"
| "mp_shr_loop (a # as) shift high =
     (let (rs, l) = mp_shr_loop as shift high
      in ((drop_bit shift a OR push_bit (LENGTH('a) - shift) l) # rs, a))"

definition mp_shr :: "'a::len word list \<Rightarrow> nat \<Rightarrow> 'a word \<Rightarrow> 'a word list \<times> 'a word" where
  "mp_shr tab shift high =
     (let (rs, l) = mp_shr_loop tab shift high in (rs, l AND (push_bit shift 1 - 1)))"

section \<open>What the carry chains compute\<close>

lemma uint_word_of_int_id: "0 \<le> x \<Longrightarrow> x < 2 ^ LENGTH('a) \<Longrightarrow> uint (word_of_int x :: 'a::len word) = x"
  by (simp add: uint_word_of_int take_bit_eq_mod)

lemma uint_dlimb:
  assumes "0 \<le> t" and "t < 2 ^ (2 * LENGTH('a))"
  shows "uint (dlimb_lo t :: 'a::len word) = t mod 2 ^ LENGTH('a)"
    and "uint (dlimb_hi t :: 'a word) = t div 2 ^ LENGTH('a)"
proof -
  show "uint (dlimb_lo t :: 'a word) = t mod 2 ^ LENGTH('a)"
    by (simp add: dlimb_lo_def uint_word_of_int take_bit_eq_mod)
  have "t div 2 ^ LENGTH('a) < 2 ^ LENGTH('a)"
    using assms(2) by (simp add: int_div_less_iff mult_2 power_add)
  then show "uint (dlimb_hi t :: 'a word) = t div 2 ^ LENGTH('a)"
    using assms(1) by (simp add: dlimb_hi_def uint_word_of_int_id pos_imp_zdiv_nonneg_iff)
qed

lemma uint_dlimb_split:
  assumes "0 \<le> t" and "t < 2 ^ (2 * LENGTH('a))"
  shows "uint (dlimb_lo t :: 'a::len word) + 2 ^ LENGTH('a) * uint (dlimb_hi t :: 'a word) = t"
  unfolding uint_dlimb [OF assms] by simp

lemma add_div_mod_word:
  "uint ((x :: 'a::len word) + y) = (if uint x + uint y < 2 ^ LENGTH('a) then uint x + uint y else uint x + uint y - 2 ^ LENGTH('a))"
  by (simp add: uint_plus_if_size word_size)

text \<open>
  The loops share one contract: limb by limb they produce a result limb and a carry whose
  weighted sum is linear in the operands' limbs. \<open>\<sigma>\<close> is the sign of the carry, \<open>\<alpha>\<close>, \<open>\<beta>\<close>
  the factors of the operands, \<open>\<gamma>\<close> counts an all-ones operand, and \<open>ok\<close> bounds the carry. The
  contract of one step gives the value of the whole vector.
\<close>

locale carry_chain =
  fixes f :: "'a::len word list \<Rightarrow> 'a word list \<Rightarrow> 'a word \<Rightarrow> 'a word list \<times> 'a word"
    and \<alpha> \<beta> \<gamma> \<sigma> :: int and ok :: "'a word \<Rightarrow> bool"
  assumes f_Nil: "f [] [] c = ([], c)"
    and f_Cons: "ok c \<Longrightarrow> \<exists>r c1. f (x # xs) (y # ys) c = (r # fst (f xs ys c1), snd (f xs ys c1)) \<and>
      ok c1 \<and> uint r + \<sigma> * 2 ^ LENGTH('a) * uint c1 =
        \<alpha> * uint x + \<beta> * uint y + \<gamma> * (2 ^ LENGTH('a) - 1) + \<sigma> * uint c"
begin

lemma chain_value:
  assumes "ok c" and "length xs = length ys" and "f xs ys c = (rs, c')"
  shows "length rs = length xs \<and> ok c' \<and>
    mp_val rs + \<sigma> * 2 ^ (LENGTH('a) * length xs) * uint c' =
      \<alpha> * mp_val xs + \<beta> * mp_val ys + \<gamma> * (2 ^ (LENGTH('a) * length xs) - 1) + \<sigma> * uint c"
  using assms(2,1,3)
proof (induction xs ys arbitrary: c rs rule: list_induct2)
  case Nil
  then show ?case by (simp add: f_Nil)
next
  case (Cons x xs y ys)
  let ?B = "2 ^ LENGTH('a) :: int" and ?N = "2 ^ (LENGTH('a) * length xs) :: int"
  obtain r c1 where r: "f (x # xs) (y # ys) c = (r # fst (f xs ys c1), snd (f xs ys c1))" "ok c1"
    and v: "uint r + \<sigma> * ?B * uint c1 = \<alpha> * uint x + \<beta> * uint y + \<gamma> * (?B - 1) + \<sigma> * uint c"
    using f_Cons [OF Cons.prems(1)] by blast
  obtain rs1 where rs1: "f xs ys c1 = (rs1, c')" and rs: "rs = r # rs1"
    using r(1) Cons.prems(2) by (cases "f xs ys c1") auto
  note IH = Cons.IH [OF r(2) rs1]
  have val: "mp_val rs1 + \<sigma> * ?N * uint c' =
      \<alpha> * mp_val xs + \<beta> * mp_val ys + \<gamma> * (?N - 1) + \<sigma> * uint c1"
    using IH by blast
  have "mp_val rs + \<sigma> * (?B * ?N) * uint c' = uint r + ?B * (mp_val rs1 + \<sigma> * ?N * uint c')"
    unfolding rs by (simp add: algebra_simps)
  also have "\<dots> = (uint r + \<sigma> * ?B * uint c1) +
      ?B * (\<alpha> * mp_val xs + \<beta> * mp_val ys + \<gamma> * (?N - 1))"
    unfolding val by (simp add: algebra_simps)
  also have "\<dots> = \<alpha> * mp_val (x # xs) + \<beta> * mp_val (y # ys) + \<gamma> * (?B * ?N - 1) + \<sigma> * uint c"
    unfolding v by (simp add: algebra_simps)
  finally show ?case using IH rs by (simp add: power_add)
qed

end

lemma carry_int:
  fixes x y c B :: int
  assumes "0 \<le> x" "x < B" "0 \<le> y" "y < B" "0 \<le> c" "c \<le> 1"
  defines "s \<equiv> if x + y < B then x + y else x + y - B"
  defines "t \<equiv> if s + c < B then s + c else s + c - B"
  shows "t + B * of_bool (t < c \<or> s < x) = x + y + c"
  unfolding t_def s_def using assms(1-6) by (simp only: of_bool_def split: if_splits) linarith

lemma increment_int:
  fixes z c B :: int
  assumes "0 \<le> z" "z < B" "0 \<le> c" "c \<le> 1"
  defines "t \<equiv> if z + c < B then z + c else z + c - B"
  shows "t + B * of_bool (t < c) = z + c"
  unfolding t_def using assms(1-4) by auto

lemma borrow_int:
  fixes x y c B :: int
  assumes "0 \<le> x" "x < B" "0 \<le> y" "y < B" "0 \<le> c" "c \<le> 1" "2 \<le> B"
  defines "s \<equiv> if y \<le> x then x - y else x - y + B"
  defines "t \<equiv> if c \<le> s then s - c else s - c + B"
  shows "t - B * of_bool (t > s \<or> s > x) = x - y - c"
proof (cases "y \<le> x")
  case True
  with assms(1-7) show ?thesis unfolding t_def s_def by (cases "c \<le> x - y") auto
next
  case False
  with assms(1-7) show ?thesis unfolding t_def s_def by auto
qed

lemma two_le_base: "(2 :: int) \<le> 2 ^ LENGTH('a::len)"
  using self_le_power [of "2 :: int" "LENGTH('a)"] by simp

lemma uint_of_bool_word: "uint (of_bool P :: 'a::len word) = of_bool P"
  by (cases P) simp_all

lemma ADDC_value:
  fixes x y c :: "'a::len word"
  assumes "ADDC x y c = (r, c')" and "uint c \<le> 1"
  shows "uint r + 2 ^ LENGTH('a) * uint c' = uint x + uint y + uint c" and "uint c' \<le> 1"
proof -
  have r: "r = x + y + c" "c' = of_bool (x + y + c < c \<or> x + y < x)"
    using assms(1) by (auto simp: ADDC_def Let_def)
  show "uint c' \<le> 1" by (simp add: r)
  show "uint r + 2 ^ LENGTH('a) * uint c' = uint x + uint y + uint c"
    using carry_int [of "uint x" "2 ^ LENGTH('a)" "uint y" "uint c"] assms(2) unfolding r
    by (simp only: word_less_def add_div_mod_word uint_of_bool_word uint_ge_0 uint_lt2p simp_thms)
qed

lemma dlimb_product_bound:
  fixes a b c d :: "'a::len word"
  shows "0 \<le> uint a * uint b + uint c + uint d"
    and "uint a * uint b + uint c + uint d < 2 ^ (2 * LENGTH('a))"
proof -
  define B where "B = (2 ^ LENGTH('a) :: int)"
  have BB: "2 ^ (2 * LENGTH('a)) = B * B" by (simp add: B_def mult_2 power_add)
  have l: "uint x \<le> B - 1" for x :: "'a word" unfolding B_def by (rule uint_le_max)
  have "uint a * uint b \<le> (B - 1) * (B - 1)"
    using l [of a] l [of b] uint_ge_0 [of a] uint_ge_0 [of b] by (intro mult_mono) linarith+
  moreover have "(B - 1) * (B - 1) + (B - 1) + (B - 1) = B * B - 1" by (simp add: algebra_simps)
  ultimately show "uint a * uint b + uint c + uint d < 2 ^ (2 * LENGTH('a))"
    unfolding BB using l [of c] l [of d] by linarith
qed simp

interpretation add_chain: carry_chain mp_add 1 1 0 1 "\<lambda>c. uint c \<le> 1"
proof
  fix x y c :: "'a::len word" and xs ys
  assume c: "uint c \<le> 1"
  obtain r c1 where *: "ADDC x y c = (r, c1)" by (cases "ADDC x y c")
  then show "\<exists>r c1. mp_add (x # xs) (y # ys) c = (r # fst (mp_add xs ys c1), snd (mp_add xs ys c1)) \<and>
    uint c1 \<le> 1 \<and> uint r + 1 * 2 ^ LENGTH('a) * uint c1 =
      1 * uint x + 1 * uint y + 0 * (2 ^ LENGTH('a) - 1) + 1 * uint c"
    using ADDC_value [OF * c] by (intro exI [of _ r] exI [of _ c1]) (simp add: case_prod_beta)
qed simp

lemma uint_minus_word:
  "uint ((x :: 'a::len word) - y) = (if uint y \<le> uint x then uint x - uint y else uint x - uint y + 2 ^ LENGTH('a))"
  by (simp add: uint_sub_if_size word_size)

interpretation sub_chain: carry_chain mp_sub 1 "- 1" 0 "- 1" "\<lambda>c. uint c \<le> 1"
proof
  fix x y c :: "'a::len word" and xs ys
  assume c: "uint c \<le> 1"
  let ?c = "of_bool (x - y - c > x - y \<or> x - y > x) :: 'a word"
  have "uint (x - y - c) + - 1 * 2 ^ LENGTH('a) * uint ?c = uint x - uint y - uint c"
    using borrow_int [of "uint x" "2 ^ LENGTH('a)" "uint y" "uint c"] c
    by (simp only: word_less_def uint_minus_word uint_of_bool_word uint_ge_0 uint_lt2p two_le_base simp_thms) simp
  moreover have "uint ?c \<le> 1" by simp
  ultimately show "\<exists>r c1. mp_sub (x # xs) (y # ys) c = (r # fst (mp_sub xs ys c1), snd (mp_sub xs ys c1)) \<and>
    uint c1 \<le> 1 \<and> uint r + - 1 * 2 ^ LENGTH('a) * uint c1 =
      1 * uint x + - 1 * uint y + 0 * (2 ^ LENGTH('a) - 1) + - 1 * uint c"
    by (intro exI [of _ "x - y - c"] exI [of _ ?c]) (simp add: case_prod_beta Let_def)
qed simp

lemma uint_NOT: "uint (NOT (x :: 'a::len word)) = 2 ^ LENGTH('a) - 1 - uint x"
proof -
  have "NOT x = - 1 - x" by (simp add: not_eq_complement)
  then show ?thesis using uint_le_max [of x]
    by (simp add: uint_minus_word unsigned_minus_1_eq_mask mask_eq_exp_minus_1)
qed

interpretation neg_chain: carry_chain "\<lambda>xs ys. mp_neg_loop xs" "- 1" 0 1 1 "\<lambda>c. uint c \<le> 1"
proof
  fix x y c :: "'a::len word" and xs ys :: "'a word list"
  assume c: "uint c \<le> 1"
  let ?c = "of_bool (NOT x + c < c) :: 'a word"
  have "uint (NOT x + c) + 2 ^ LENGTH('a) * uint ?c = 2 ^ LENGTH('a) - 1 - uint x + uint c"
  proof -
    have "0 \<le> 2 ^ LENGTH('a) - 1 - uint x" "2 ^ LENGTH('a) - 1 - uint x < (2 :: int) ^ LENGTH('a)"
      using uint_le_max [of x] uint_ge_0 [of x] by linarith+
    then show ?thesis
      using increment_int [of "2 ^ LENGTH('a) - 1 - uint x" "2 ^ LENGTH('a)" "uint c"] c
      by (simp only: word_less_def add_div_mod_word uint_NOT uint_of_bool_word uint_ge_0 simp_thms)
  qed
  moreover have "uint ?c \<le> 1" by simp
  ultimately show "\<exists>r c1. mp_neg_loop (x # xs) c = (r # fst (mp_neg_loop xs c1), snd (mp_neg_loop xs c1)) \<and>
    uint c1 \<le> 1 \<and> uint r + 1 * 2 ^ LENGTH('a) * uint c1 =
      - 1 * uint x + 0 * uint y + 1 * (2 ^ LENGTH('a) - 1) + 1 * uint c"
    by (intro exI [of _ "NOT x + c"] exI [of _ ?c]) (simp add: case_prod_beta Let_def)
qed simp

interpretation mul_chain: carry_chain "\<lambda>xs ys. mp_mul1 xs b" "uint b" 0 0 1 "\<lambda>c. True" for b
proof
  fix x y c :: "'a::len word" and xs ys :: "'a word list" and b :: "'a word"
  let ?t = "uint x * uint b + uint c"
  have t: "0 \<le> ?t" "?t < 2 ^ (2 * LENGTH('a))" using dlimb_product_bound [of x b c 0] by simp_all
  then have [simp]: "take_bit (2 * LENGTH('a)) ?t = ?t" by (simp add: take_bit_int_eq_self)
  show "\<exists>r c1. mp_mul1 (x # xs) b c = (r # fst (mp_mul1 xs b c1), snd (mp_mul1 xs b c1)) \<and>
    True \<and> uint r + 1 * 2 ^ LENGTH('a) * uint c1 =
      uint b * uint x + 0 * uint y + 0 * (2 ^ LENGTH('a) - 1) + 1 * uint c"
    by (rule exI [of _ "dlimb_lo ?t"], rule exI [of _ "dlimb_hi ?t"])
      (use uint_dlimb_split [OF t] in \<open>simp add: case_prod_beta Let_def mult.commute [of "uint b"]\<close>)
qed simp

interpretation add_mul_chain: carry_chain "\<lambda>rs as. mp_add_mul1_loop rs as b" 1 "uint b" 0 1 "\<lambda>c. True" for b
proof
  fix x y c :: "'a::len word" and xs ys :: "'a word list" and b :: "'a word"
  let ?t = "uint y * uint b + uint c + uint x"
  have t: "0 \<le> ?t" "?t < 2 ^ (2 * LENGTH('a))" using dlimb_product_bound [of y b c x] by simp_all
  then have [simp]: "take_bit (2 * LENGTH('a)) ?t = ?t" by (simp add: take_bit_int_eq_self)
  show "\<exists>r c1. mp_add_mul1_loop (x # xs) (y # ys) b c =
      (r # fst (mp_add_mul1_loop xs ys b c1), snd (mp_add_mul1_loop xs ys b c1)) \<and>
    True \<and> uint r + 1 * 2 ^ LENGTH('a) * uint c1 =
      1 * uint x + uint b * uint y + 0 * (2 ^ LENGTH('a) - 1) + 1 * uint c"
    by (rule exI [of _ "dlimb_lo ?t"], rule exI [of _ "dlimb_hi ?t"])
      (use uint_dlimb_split [OF t] in \<open>simp add: case_prod_beta Let_def mult.commute [of "uint b"]\<close>)
qed simp

text \<open>
  In the subtracting loop the double limb wraps around: its high half, negated, is the borrow.
\<close>

lemma uint_uminus: "uint (- x :: 'a::len word) = (if x = 0 then 0 else 2 ^ LENGTH('a) - uint x)"
  by (auto simp: uint_word_ariths zmod_zminus1_eq_if word_uint_eq_iff)

lemma sub_mul1_step:
  fixes x y b c :: "'a::len word"
  defines "t \<equiv> uint x - uint y * uint b - uint c"
  defines "w \<equiv> take_bit (2 * LENGTH('a)) t"
  shows "uint (dlimb_lo w :: 'a word) - 2 ^ LENGTH('a) * uint (- dlimb_hi w :: 'a word) = t"
proof -
  let ?B = "2 ^ LENGTH('a) :: int"
  have BB: "2 ^ (2 * LENGTH('a)) = ?B * ?B" by (simp add: mult_2 power_add)
  have "0 < ?B" by simp
  have up: "t < ?B" unfolding t_def using uint_lt2p [of x] uint_ge_0 [of c]
      mult_nonneg_nonneg [OF uint_ge_0 [of y] uint_ge_0 [of b]] by linarith
  have lo: "- (?B * ?B) + ?B \<le> t"
  proof -
    have "uint y * uint b \<le> (?B - 1) * (?B - 1)" by (intro mult_mono) (simp_all add: uint_le_max)
    moreover have "uint c \<le> ?B - 1" by (rule uint_le_max)
    moreover have "(?B - 1) * (?B - 1) + (?B - 1) = ?B * ?B - ?B" by (simp add: algebra_simps)
    ultimately show ?thesis unfolding t_def using uint_ge_0 [of x] by linarith
  qed
  have w: "w = (if t < 0 then t + ?B * ?B else t)"
  proof (cases "t < 0")
    case True
    have "t mod (?B * ?B) = (t + ?B * ?B) mod (?B * ?B)" by simp
    also have "\<dots> = t + ?B * ?B" using True lo \<open>0 < ?B\<close> by (intro mod_pos_pos_trivial) linarith+
    finally show ?thesis using True by (simp add: w_def take_bit_eq_mod BB)
  next
    case False
    have "t < ?B * ?B" using up \<open>0 < ?B\<close> mult_right_mono [of 1 ?B ?B] by linarith
    then show ?thesis using False by (simp add: w_def take_bit_int_eq_self BB)
  qed
  have wb: "0 \<le> w" "w < 2 ^ (2 * LENGTH('a))" by (simp_all add: w_def)
  note d = uint_dlimb [OF wb]
  have split: "w mod ?B + ?B * (w div ?B) = w" by simp
  show ?thesis
  proof (cases "t < 0")
    case True
    then have ww: "w = t + ?B * ?B" using w by simp
    then have "?B \<le> w" using lo by linarith
    then have pos: "0 < w div ?B" using \<open>0 < ?B\<close> by (simp add: pos_imp_zdiv_pos_iff)
    then have nz: "dlimb_hi w \<noteq> (0 :: 'a word)" using d(2) by auto
    show ?thesis using split unfolding uint_uminus if_not_P [OF nz] d
      by (simp add: right_diff_distrib ww) 
  next
    case False
    then have ww: "w = t" using w by simp
    then have "w div ?B = 0" using False up by simp
    then have z: "dlimb_hi w = (0 :: 'a word)" using d(2) by (simp add: word_uint_eq_iff)
    show ?thesis unfolding uint_uminus z d using False up ww by simp
  qed
qed

interpretation sub_mul_chain: carry_chain "\<lambda>rs as. mp_sub_mul1_loop rs as b" 1 "- uint b" 0 "- 1" "\<lambda>c. True" for b
proof
  fix x y c :: "'a::len word" and xs ys :: "'a word list" and b :: "'a word"
  let ?t = "take_bit (2 * LENGTH('a)) (uint x - uint y * uint b - uint c)"
  show "\<exists>r c1. mp_sub_mul1_loop (x # xs) (y # ys) b c =
      (r # fst (mp_sub_mul1_loop xs ys b c1), snd (mp_sub_mul1_loop xs ys b c1)) \<and>
    True \<and> uint r + - 1 * 2 ^ LENGTH('a) * uint c1 =
      1 * uint x + - uint b * uint y + 0 * (2 ^ LENGTH('a) - 1) + - 1 * uint c"
    by (rule exI [of _ "dlimb_lo ?t"], rule exI [of _ "- dlimb_hi ?t"])
      (use sub_mul1_step [of x y b c] in \<open>simp add: case_prod_beta Let_def mult.commute [of "uint b"]\<close>)
qed simp

lemma shl_limb:
  fixes v l :: "'a::len word"
  assumes "uint l < 2 ^ s" and "s \<le> LENGTH('a)"
  shows "uint (push_bit s v OR l) + 2 ^ LENGTH('a) * uint (drop_bit (LENGTH('a) - s) v) =
      2 ^ s * uint v + uint l"
    and "uint (drop_bit (LENGTH('a) - s) v) < 2 ^ s"
proof -
  have B: "2 ^ LENGTH('a) = 2 ^ (LENGTH('a) - s) * (2 ^ s :: int)"
    using assms(2) by (simp flip: power_add)
  have "uint v * 2 ^ s div 2 ^ LENGTH('a) = uint v div 2 ^ (LENGTH('a) - s)"
    unfolding B by simp
  then have "uint v * 2 ^ s = uint v * 2 ^ s mod 2 ^ LENGTH('a) + 2 ^ LENGTH('a) * (uint v div 2 ^ (LENGTH('a) - s))"
    by (metis mod_mult_div_eq)
  then show "uint (push_bit s v OR l) + 2 ^ LENGTH('a) * uint (drop_bit (LENGTH('a) - s) v) =
      2 ^ s * uint v + uint l"
    unfolding uint_push_bit_or [OF assms(1)] uint_drop_bit by (simp add: mult.commute)
  show "uint (drop_bit (LENGTH('a) - s) v) < 2 ^ s"
    using uint_lt2p [of v] B by (simp add: uint_drop_bit int_div_less_iff mult.commute)
qed

lemma shl_chain:
  assumes "s \<le> LENGTH('a)"
  shows "carry_chain (\<lambda>xs ys. mp_shl_loop (xs :: 'a::len word list) s) (2 ^ s) 0 0 1 (\<lambda>l. uint l < 2 ^ s)"
proof
  fix x y c :: "'a::len word" and xs ys :: "'a word list"
  assume c: "uint c < 2 ^ s"
  show "\<exists>r c1. mp_shl_loop (x # xs) s c = (r # fst (mp_shl_loop xs s c1), snd (mp_shl_loop xs s c1)) \<and>
    uint c1 < 2 ^ s \<and> uint r + 1 * 2 ^ LENGTH('a) * uint c1 =
      2 ^ s * uint x + 0 * uint y + 0 * (2 ^ LENGTH('a) - 1) + 1 * uint c"
    by (rule exI [of _ "push_bit s x OR c"], rule exI [of _ "drop_bit (LENGTH('a) - s) x"])
      (use shl_limb [OF c assms, of x] in \<open>simp add: case_prod_beta Let_def\<close>)
qed simp

lemma mp_shl_value:
  assumes "mp_shl xs s = (rs, h)" and "s \<le> LENGTH('a::len)"
  shows "length rs = length (xs :: 'a word list)" and "uint h < 2 ^ s"
    and "mp_val rs + 2 ^ (LENGTH('a) * length xs) * uint h = 2 ^ s * mp_val xs"
  using carry_chain.chain_value [OF shl_chain [OF assms(2)], of 0 xs xs rs h] assms(1)
  by (simp_all add: mp_shl_def)

lemma mp_mul1_value:
  assumes "mp_mul1 xs b l = (rs, h)"
  shows "length rs = length (xs :: 'a::len word list)"
    and "mp_val rs + 2 ^ (LENGTH('a) * length xs) * uint h = uint b * mp_val xs + uint l"
  using mul_chain.chain_value [of xs xs b l rs h] assms by simp_all

lemma mp_add_mul1_value:
  assumes "mp_add_mul1 rs xs b = (ts, h)" and "length rs = length (xs :: 'a::len word list)"
  shows "length ts = length xs"
    and "mp_val ts + 2 ^ (LENGTH('a) * length xs) * uint h = mp_val rs + uint b * mp_val xs"
  using add_mul_chain.chain_value [of rs xs b 0 ts h] assms by (simp_all add: mp_add_mul1_def)

lemma mp_sub_mul1_value:
  assumes "mp_sub_mul1 rs xs b = (ts, h)" and "length rs = length (xs :: 'a::len word list)"
  shows "length ts = length xs"
    and "mp_val ts - 2 ^ (LENGTH('a) * length xs) * uint h = mp_val rs - uint b * mp_val xs"
  using sub_mul_chain.chain_value [of rs xs b 0 ts h] assms by (simp_all add: mp_sub_mul1_def)

lemma mp_add_value:
  assumes "mp_add xs ys c = (rs, c')" and "length xs = length (ys :: 'a::len word list)" and "uint c \<le> 1"
  shows "length rs = length xs" and "uint c' \<le> 1"
    and "mp_val rs + 2 ^ (LENGTH('a) * length xs) * uint c' = mp_val xs + mp_val ys + uint c"
  using add_chain.chain_value [of c xs ys rs c'] assms by simp_all

lemma mp_sub_value:
  assumes "mp_sub xs ys c = (rs, c')" and "length xs = length (ys :: 'a::len word list)" and "uint c \<le> 1"
  shows "length rs = length xs" and "uint c' \<le> 1"
    and "mp_val rs - 2 ^ (LENGTH('a) * length xs) * uint c' = mp_val xs - mp_val ys - uint c"
  using sub_chain.chain_value [of c xs ys rs c'] assms by simp_all

lemma mp_neg_value:
  assumes "mp_neg xs = (rs, c')"
  shows "length rs = length (xs :: 'a::len word list)" and "uint c' \<le> 1"
    and "mp_val rs + 2 ^ (LENGTH('a) * length xs) * uint c' = 2 ^ (LENGTH('a) * length xs) - mp_val xs"
  using neg_chain.chain_value [of 1 xs xs rs c'] assms by (simp_all add: mp_neg_def)

text \<open>The remainder of a right shift is what the lowest limb loses.\<close>

lemma shr_limb:
  fixes a l :: "'a::len word"
  assumes "s < LENGTH('a)"
  shows "2 ^ s * uint (drop_bit s a OR push_bit (LENGTH('a) - s) l) + uint a mod 2 ^ s =
    uint a + 2 ^ LENGTH('a) * (uint l mod 2 ^ s)"
proof -
  have B: "2 ^ LENGTH('a) = 2 ^ s * (2 ^ (LENGTH('a) - s) :: int)"
    using assms by (simp flip: power_add)
  have small: "uint (drop_bit s a) < 2 ^ (LENGTH('a) - s)"
    using uint_lt2p [of a] B by (simp add: uint_drop_bit int_div_less_iff mult.commute)
  have p: "uint l * 2 ^ (LENGTH('a) - s) mod 2 ^ LENGTH('a) = 2 ^ (LENGTH('a) - s) * (uint l mod 2 ^ s)"
    unfolding B by (simp add: mult.commute [of "uint l"] mult.commute [of "2 ^ s"] mod_mult_mult1)
  have "uint (drop_bit s a OR push_bit (LENGTH('a) - s) l) =
      2 ^ (LENGTH('a) - s) * (uint l mod 2 ^ s) + uint a div 2 ^ s"
    using uint_push_bit_or [OF small, of l] by (simp add: or.commute p uint_drop_bit)
  then show ?thesis unfolding B by (simp add: algebra_simps)
qed

lemma mp_shr_loop_value:
  assumes "s < LENGTH('a::len)" and "mp_shr_loop xs s high = (rs, l)"
  shows "length rs = length (xs :: 'a word list) \<and>
    2 ^ s * mp_val rs + uint l mod 2 ^ s = mp_val xs + 2 ^ (LENGTH('a) * length xs) * (uint high mod 2 ^ s)"
  using assms(2)
proof (induction xs arbitrary: rs l)
  case Nil
  then show ?case by simp
next
  case (Cons x xs)
  obtain rs1 l1 where r: "mp_shr_loop xs s high = (rs1, l1)" by (cases "mp_shr_loop xs s high")
  with Cons.prems have rs: "rs = (drop_bit s x OR push_bit (LENGTH('a) - s) l1) # rs1" "l = x" by auto
  note IH = Cons.IH [OF r]
  let ?B = "2 ^ LENGTH('a) :: int"
  have "2 ^ s * mp_val rs + uint l mod 2 ^ s =
      (2 ^ s * uint (drop_bit s x OR push_bit (LENGTH('a) - s) l1) + uint x mod 2 ^ s) + ?B * (2 ^ s * mp_val rs1)"
    unfolding rs by (simp add: algebra_simps)
  also have "\<dots> = uint x + ?B * (2 ^ s * mp_val rs1 + uint l1 mod 2 ^ s)"
    unfolding shr_limb [OF assms(1)] by (simp add: algebra_simps)
  also have "\<dots> = mp_val (x # xs) + 2 ^ (LENGTH('a) * length (x # xs)) * (uint high mod 2 ^ s)"
    using IH by (simp add: algebra_simps power_add)
  finally show ?case using IH rs by simp
qed

lemma mp_shr_value:
  assumes "mp_shr xs s high = (rs, r)" and "s < LENGTH('a::len)"
  shows "length rs = length (xs :: 'a word list)"
    and "mp_val rs = (mp_val xs + 2 ^ (LENGTH('a) * length xs) * (uint high mod 2 ^ s)) div 2 ^ s"
    and "uint r = (mp_val xs + 2 ^ (LENGTH('a) * length xs) * (uint high mod 2 ^ s)) mod 2 ^ s"
proof -
  obtain l where l: "mp_shr_loop xs s high = (rs, l)" and r: "r = l AND mask s"
    using assms(1) by (auto simp: mp_shr_def mask_eq_exp_minus_1 split: prod.splits)
  note v = mp_shr_loop_value [OF assms(2) l]
  show "length rs = length xs" using v by simp
  have eq: "mp_val xs + 2 ^ (LENGTH('a) * length xs) * (uint high mod 2 ^ s) = mp_val rs * 2 ^ s + uint l mod 2 ^ s"
    using v by (simp add: mult.commute)
  show "mp_val rs = (mp_val xs + 2 ^ (LENGTH('a) * length xs) * (uint high mod 2 ^ s)) div 2 ^ s"
    unfolding eq by simp
  show "uint r = (mp_val xs + 2 ^ (LENGTH('a) * length xs) * (uint high mod 2 ^ s)) mod 2 ^ s"
    unfolding eq r uint_and_mask by simp
qed

section \<open>Long division by one limb\<close>

lemma div1_step:
  fixes r a b :: "'a::len word"
  assumes "uint r < uint b"
  defines "t \<equiv> uint r * 2 ^ LENGTH('a) + uint a"
  shows "uint (word_of_int (t div uint b) :: 'a word) = t div uint b"
    and "uint (word_of_int (t mod uint b) :: 'a word) = t mod uint b"
    and "t mod uint b < uint b"
proof -
  have b: "0 < uint b" using assms(1) uint_ge_0 [of r] by linarith
  have t0: "0 \<le> t" by (simp add: t_def)
  have "(uint r + 1) * 2 ^ LENGTH('a) \<le> uint b * 2 ^ LENGTH('a)"
    using assms(1) by (intro mult_right_mono) auto
  then have "t < 2 ^ LENGTH('a) * uint b"
    unfolding t_def distrib_right using uint_lt2p [of a] mult.commute [of "uint b" "2 ^ LENGTH('a)"] by linarith
  then have "t div uint b < 2 ^ LENGTH('a)" using b by (simp add: int_div_less_iff)
  with t0 b show "uint (word_of_int (t div uint b) :: 'a word) = t div uint b"
    by (intro uint_word_of_int_id) (simp_all add: pos_imp_zdiv_nonneg_iff)
  show m: "t mod uint b < uint b" using b by simp
  show "uint (word_of_int (t mod uint b) :: 'a word) = t mod uint b"
    using m b uint_lt2p [of b] by (intro uint_word_of_int_id) (simp, linarith)
qed

lemma mp_div1_value:
  assumes "mp_div1 xs b r = (qs, r')" and "uint r < uint b"
  shows "length qs = length (xs :: 'a::len word list) \<and> uint r' < uint b \<and>
    mp_val qs * uint b + uint r' = mp_val xs + 2 ^ (LENGTH('a) * length xs) * uint r"
  using assms(1)
proof (induction xs arbitrary: qs r')
  case Nil
  then show ?case using assms(2) by simp
next
  case (Cons x xs)
  obtain qs1 r1 where d: "mp_div1 xs b r = (qs1, r1)" by (cases "mp_div1 xs b r")
  let ?t = "uint r1 * 2 ^ LENGTH('a) + uint x"
  from d Cons.prems have qs: "qs = word_of_int (?t div uint b) # qs1" "r' = word_of_int (?t mod uint b)"
    by (simp_all add: Let_def)
  note IH = Cons.IH [OF d]
  note st = div1_step [of r1 b x]
  have r1: "uint r1 < uint b" using IH by blast
  let ?B = "2 ^ LENGTH('a) :: int"
  have "mp_val qs * uint b + uint r' = (?t div uint b * uint b + ?t mod uint b) + ?B * (mp_val qs1 * uint b)"
    unfolding qs using st [OF r1] by (simp add: algebra_simps)
  also have "\<dots> = uint x + ?B * (mp_val qs1 * uint b + uint r1)"
    unfolding div_mult_mod_eq by (simp add: algebra_simps)
  also have "\<dots> = mp_val (x # xs) + 2 ^ (LENGTH('a) * length (x # xs)) * uint r"
    using IH by (simp add: algebra_simps power_add)
  finally show ?case using IH qs st [OF r1] by simp
qed

section \<open>The product\<close>

lemma mp_mul_rows_value:
  fixes op1 :: "'a::len word list"
  assumes "op1 \<noteq> []"
  shows "length ws = length op1 \<Longrightarrow> mp_val (mp_mul_rows ws op1 bs) = mp_val ws + mp_val op1 * mp_val bs \<and>
    length (mp_mul_rows ws op1 bs) = length op1 + length bs"
proof (induction bs arbitrary: ws)
  case Nil
  then show ?case by simp
next
  case (Cons b bs)
  let ?B = "2 ^ LENGTH('a) :: int"
  obtain ts r where tr: "mp_add_mul1 ws op1 b = (ts, r)" by (cases "mp_add_mul1 ws op1 b")
  note v = mp_add_mul1_value [OF tr Cons.prems]
  obtain w ws' where w: "ts @ [r] = w # ws'" by (cases ts) simp_all
  then have len: "length ws' = length op1" using v(1) by (metis length_append_singleton length_Cons nat.inject)
  have "mp_val (ts @ [r]) = mp_val ts + 2 ^ (LENGTH('a) * length op1) * uint r"
    using v(1) by (simp add: mp_val_append)
  then have "uint w + ?B * mp_val ws' = mp_val ws + uint b * mp_val op1"
    using v(2) w by simp
  then show ?case using Cons.IH [OF len] tr w by (simp add: algebra_simps)
qed

lemma mp_mul_basecase_value:
  fixes op1 op2 :: "'a::len word list"
  assumes "op1 \<noteq> []" and "op2 \<noteq> []"
  shows "mp_val (mp_mul_basecase op1 op2) = mp_val op1 * mp_val op2"
    and "length (mp_mul_basecase op1 op2) = length op1 + length op2"
proof -
  let ?B = "2 ^ LENGTH('a) :: int"
  obtain b bs where b: "op2 = b # bs" using assms(2) by (cases op2) auto
  obtain ts h where t: "mp_mul1 op1 b 0 = (ts, h)" by (cases "mp_mul1 op1 b 0")
  note v = mp_mul1_value [OF t]
  obtain w ws where w: "ts @ [h] = w # ws" by (cases ts) simp_all
  then have len: "length ws = length op1" using v(1) by (metis length_append_singleton length_Cons nat.inject)
  have "mp_val (ts @ [h]) = mp_val ts + 2 ^ (LENGTH('a) * length op1) * uint h"
    using v(1) by (simp add: mp_val_append)
  then have "uint w + ?B * mp_val ws = uint b * mp_val op1" using v(2) w by simp
  moreover have "mp_mul_basecase op1 op2 = w # mp_mul_rows ws op1 bs"
    using b t w by (simp add: mp_mul_basecase_def)
  ultimately show "mp_val (mp_mul_basecase op1 op2) = mp_val op1 * mp_val op2"
    and "length (mp_mul_basecase op1 op2) = length op1 + length op2"
    using mp_mul_rows_value [OF assms(1) len, of bs] b by (simp_all add: algebra_simps)
qed

end
