(* ===== verification/Mp_Div.thy ===== *)
theory Mp_Div
  imports Mp_Limbs
begin

text \<open>
  Long division of limb vectors, \<^verbatim>\<open>udiv1norm\<close>, \<^verbatim>\<open>mp_div1norm\<close> and \<^verbatim>\<open>mp_divnorm\<close> of
  \<^verbatim>\<open>quickjs/quickjs.c\<close>: division by a normalised limb with a precomputed reciprocal, and
  schoolbook division by a normalised vector with the quotient digits corrected downwards.
\<close>

section \<open>Definitions\<close>

definition udiv1norm_init :: "'a::len word \<Rightarrow> 'a word" where
  "udiv1norm_init d =
     (let a1 = - d - 1; a0 = - 1 :: 'a word
      in word_of_int ((uint a1 * 2 ^ LENGTH('a) + uint a0) div uint d))"

definition udiv1norm :: "'a::len word \<Rightarrow> 'a word \<Rightarrow> 'a word \<Rightarrow> 'a word \<Rightarrow> 'a word \<times> 'a word" where
  "udiv1norm a1 a0 d d_inv =
     (let n1m = signed_drop_bit (LENGTH('a) - 1) a0;
          n_adj = a0 + (n1m AND d);
          a = take_bit (2 * LENGTH('a)) (uint d_inv * uint (a1 - n1m) + uint n_adj);
          q = dlimb_hi a + a1;
          a' = take_bit (2 * LENGTH('a)) (uint a1 * 2 ^ LENGTH('a) + uint a0 - uint q * uint d - uint d);
          ah = dlimb_hi a'
      in (q + (1 + ah), dlimb_lo a' + (ah AND d)))"

definition UDIV1NORM_THRESHOLD :: nat where
  "UDIV1NORM_THRESHOLD = 3"

fun mp_div1norm_loop ::
    "'a::len word list \<Rightarrow> 'a word \<Rightarrow> 'a word \<Rightarrow> 'a word \<Rightarrow> 'a word list \<times> 'a word" where
  "mp_div1norm_loop [] b b_inv r = ([], r)"
| "mp_div1norm_loop (a # as) b b_inv r =
     (let (qs, r') = mp_div1norm_loop as b b_inv r; (q, r'') = udiv1norm r' a b b_inv
      in (q # qs, r''))"

definition mp_div1norm :: "'a::len word list \<Rightarrow> 'a word \<Rightarrow> 'a word \<Rightarrow> 'a word list \<times> 'a word" where
  "mp_div1norm taba b r =
     (if UDIV1NORM_THRESHOLD \<le> length taba then mp_div1norm_loop taba b (udiv1norm_init b) r
      else mp_div1 taba b r)"

text \<open>The first quotient digit: whether the high limbs are at least the divisor, from the hi1 limb down.\<close>

fun divnorm_first_q :: "'a::len word list \<Rightarrow> 'a word list \<Rightarrow> 'a word" where
  "divnorm_first_q (a # as) (b # bs) =
     (if a \<noteq> b then (if a < b then 0 else 1) else divnorm_first_q as bs)"
| "divnorm_first_q _ _ = 1"

definition divnorm_estimate :: "'a::len word \<Rightarrow> 'a word \<Rightarrow> 'a word \<Rightarrow> 'a word \<Rightarrow> 'a word" where
  "divnorm_estimate hi lo b1 b1_inv =
     (if hi \<ge> b1 then - 1
      else if b1_inv \<noteq> 0 then fst (udiv1norm hi lo b1 b1_inv)
      else word_of_int ((uint hi * 2 ^ LENGTH('a) + uint lo) div uint b1))"

text \<open>
  The correction loop: decrement the digit and add the divisor back until the partial
  remainder, whose hi1 limb is kept apart, is no longer negative. It may diverge for arguments
  that break the routine's preconditions.
\<close>

partial_function (option) divnorm_addback ::
    "'a::len word \<Rightarrow> 'a word list \<Rightarrow> 'a word \<Rightarrow> 'a word list \<Rightarrow> ('a word \<times> 'a word list \<times> 'a word) option" where
  "divnorm_addback q seg hi1 tabb =
     (case mp_add seg tabb 0 of
        (seg', c) \<Rightarrow>
          if c \<noteq> 0 then
            (if hi1 + 1 = 0 then Some (q - 1, seg', hi1 + 1)
             else divnorm_addback (q - 1) seg' (hi1 + 1) tabb)
          else divnorm_addback (q - 1) seg' hi1 tabb)"

definition divnorm_digit ::
    "'a::len word list \<Rightarrow> 'a word \<Rightarrow> 'a word list \<Rightarrow> 'a word \<Rightarrow> ('a word \<times> 'a word list \<times> 'a word) option" where
  "divnorm_digit seg v tabb b1_inv =
     (let q = divnorm_estimate v (last seg) (last tabb) b1_inv;
          (seg', r) = mp_sub_mul1 seg tabb q;
          a = v - r
      in if a > v then divnorm_addback q seg' a tabb else Some (q, seg', a))"

fun divnorm_loop ::
    "nat \<Rightarrow> 'a::len word list \<Rightarrow> 'a word list \<Rightarrow> 'a word \<Rightarrow> ('a word list \<times> 'a word list) option" where
  "divnorm_loop 0 taba tabb b1_inv = Some ([], taba)"
| "divnorm_loop (Suc i) taba tabb b1_inv =
     (let nb = length tabb in
      if i + nb < length taba then
        (case divnorm_digit (take nb (drop i taba)) (taba ! (i + nb)) tabb b1_inv of
           None \<Rightarrow> None
         | Some (q, seg, a) \<Rightarrow>
             (case divnorm_loop i (take i taba @ seg @ a # drop (Suc (i + nb)) taba) tabb b1_inv of
                None \<Rightarrow> None
              | Some (qs, ta) \<Rightarrow> Some (qs @ [q], ta)))
      else None)"

definition mp_divnorm ::
    "'a::len word list \<Rightarrow> 'a word list \<Rightarrow> ('a word list \<times> 'a word list) option" where
  "mp_divnorm taba tabb =
     (let na = length taba; nb = length tabb in
      if nb = 0 \<or> na < nb then None
      else if nb = 1 then
        (case mp_div1norm taba (last tabb) 0 of (qs, r) \<Rightarrow> Some (qs, taba[0 := r]))
      else
        let n = na - nb;
            b1_inv = (if n \<ge> UDIV1NORM_THRESHOLD then udiv1norm_init (last tabb) else 0);
            hi = drop n taba;
            q = divnorm_first_q (rev hi) (rev tabb);
            hi' = (if q \<noteq> 0 then fst (mp_sub hi tabb 0) else hi)
        in (case divnorm_loop n (take n taba @ hi') tabb b1_inv of
              None \<Rightarrow> None
            | Some (qs, ta) \<Rightarrow> Some (qs @ [q], ta)))"

section \<open>Division by a reciprocal\<close>

lemma signed_drop_bit_top:
  "signed_drop_bit (LENGTH('a) - 1) (x :: 'a::len word) = (if 2 ^ LENGTH('a) \<le> 2 * uint x then - 1 else 0)"
proof -
  have "bit x (LENGTH('a) - 1) \<longleftrightarrow> 2 ^ LENGTH('a) \<le> 2 * uint x"
  proof -
    have B: "2 ^ LENGTH('a) = 2 * (2 ^ (LENGTH('a) - 1) :: int)"
      using power_Suc [of "2 :: int" "LENGTH('a) - 1"] by simp
    have "bit x (LENGTH('a) - 1) \<longleftrightarrow> bit (uint x) (LENGTH('a) - 1)"
      by (simp add: bit_uint_iff)
    also have "\<dots> \<longleftrightarrow> odd (uint x div 2 ^ (LENGTH('a) - 1))" by (rule bit_iff_odd)
    also have "uint x div 2 ^ (LENGTH('a) - 1) = (if 2 ^ LENGTH('a) \<le> 2 * uint x then 1 else 0)"
      using uint_lt2p [of x] B by (auto simp: int_div_eq_iff)
    finally show ?thesis by simp
  qed
  then show ?thesis
    by (auto intro!: bit_word_eqI simp: bit_signed_drop_bit_iff not_le split: if_splits)
qed

text \<open>
  The estimate of the quotient by the reciprocal (Granlund and Montgomery), over the integers:
  \<open>m\<close> is the reciprocal with its implicit leading bit, \<open>X\<close> the scaled estimate. The estimate
  is the quotient or one less.
\<close>

lemma reciprocal_estimate:
  fixes B d e m a1 a0 n X q s :: int
  assumes d: "B \<le> 2 * d" "d < B" and a1: "0 \<le> a1" "a1 < d" and a0: "0 \<le> a0" "a0 < B"
    and m: "m * d = B * B - e" "1 \<le> e" "e \<le> d"
    and n: "n = 0 \<and> 2 * a0 < B \<or> n = 1 \<and> B \<le> 2 * a0"
    and X: "X = m * (a1 + n) + a0 + n * (d - 2 * B)" and q: "X = q * B + s" "0 \<le> s" "s < B"
  shows "0 \<le> a1 * B + a0 - q * d" and "a1 * B + a0 - q * d < 2 * d"
proof -
  have B: "0 < B" using d a1 by linarith
  have key: "B * (a1 * B + a0 - q * d) = d * s + (B - d) * (a0 - n * (B - d)) + e * (a1 + n)"
  proof -
    have "d * X = (m * d) * (a1 + n) + d * a0 + n * d * (d - 2 * B)"
      unfolding X by (simp add: algebra_simps)
    moreover have "d * X = B * (q * d) + d * s" unfolding q(1) by (simp add: algebra_simps)
    ultimately have "B * (q * d) = (B * B - e) * (a1 + n) + d * a0 + n * d * (d - 2 * B) - d * s"
      unfolding m(1) by linarith
    then show ?thesis by (simp add: algebra_simps)
  qed
  have mid0: "0 \<le> (B - d) * (a0 - n * (B - d))"
    using n d a0 by (intro mult_nonneg_nonneg) auto
  have "0 \<le> d * s" "0 \<le> e * (a1 + n)" using d q m a1 n B by (auto intro!: mult_nonneg_nonneg)
  then have "0 \<le> B * (a1 * B + a0 - q * d)" using key mid0 by linarith
  then show "0 \<le> a1 * B + a0 - q * d" using B by (simp add: zero_le_mult_iff)
  have ds: "d * s \<le> d * B - d"
    using mult_left_mono [of s "B - 1" d] q(3) d B by (simp add: right_diff_distrib)
  have rest: "(B - d) * (a0 - n * (B - d)) + e * (a1 + n) < d * B"
  proof (cases "n = 0")
    case True
    have "2 * ((B - d) * a0) \<le> (B - d) * B" using True n d
      using mult_left_mono [of "2 * a0" B "B - d"] by (simp add: mult.left_commute)
    moreover have "e * a1 \<le> d * (d - 1)" using m(2,3) a1 by (intro mult_mono) auto
    moreover have "0 \<le> (2 * d - B) * (B - d)" using d by (intro mult_nonneg_nonneg) auto
    ultimately show ?thesis using True d B by (simp add: algebra_simps)
  next
    case False
    then have n1: "n = 1" using n by blast
    have "(B - d) * (a0 - (B - d)) \<le> (B - d) * (d - 1)"
      using a0 d by (intro mult_left_mono) auto
    moreover have "e * (a1 + 1) \<le> d * d" using m(2,3) a1 by (intro mult_mono) auto
    ultimately show ?thesis using n1 d by (simp add: algebra_simps)
  qed
  have "B * (a1 * B + a0 - q * d) < B * (2 * d)" using key ds rest d B by (simp add: algebra_simps)
  then show "a1 * B + a0 - q * d < 2 * d" using B by simp
qed

lemma udiv1norm_init_value:
  assumes "2 ^ LENGTH('a) \<le> 2 * uint (d :: 'a::len word)"
  shows "uint (udiv1norm_init d) = (2 ^ LENGTH('a) * 2 ^ LENGTH('a) - 1) div uint d - 2 ^ LENGTH('a)"
proof -
  define B D where "B = (2 ^ LENGTH('a) :: int)" and "D = uint d"
  have D: "0 < D" "D < B" "B \<le> 2 * D"
    using assms two_le_base [where 'a = 'a] uint_lt2p [of d] unfolding B_def D_def by linarith+
  have a1: "uint (- d - 1) = B - 1 - D"
    using uint_NOT [of d] by (simp add: not_eq_complement B_def D_def)
  have a0: "uint (- 1 :: 'a word) = B - 1"
    by (simp add: unsigned_minus_1_eq_mask mask_eq_exp_minus_1 B_def)
  have n: "(B - 1 - D) * B + (B - 1) = (B * B - 1) + (- B) * D" by (simp add: algebra_simps)
  have q: "((B - 1 - D) * B + (B - 1)) div D = (B * B - 1) div D - B"
    unfolding n using div_mult_self1 [of D "B * B - 1" "- B"] D(1) by simp
  have "B * B \<le> B * (2 * D)" using D by (intro mult_left_mono) auto
  then have "B * B - 1 < (2 * B) * D" by (simp add: algebra_simps)
  then have hi: "(B * B - 1) div D < 2 * B" using D(1) by (simp add: int_div_less_iff)
  have "0 \<le> ((B - 1 - D) * B + (B - 1)) div D" using D by (simp add: pos_imp_zdiv_nonneg_iff)
  then have "uint (word_of_int (((B - 1 - D) * B + (B - 1)) div D) :: 'a word) = ((B - 1 - D) * B + (B - 1)) div D"
    using hi q unfolding B_def by (intro uint_word_of_int_id) linarith+
  then show ?thesis
    unfolding udiv1norm_init_def Let_def a1 a0 using q by (simp add: B_def D_def)
qed

text \<open>The second half of \<open>udiv1norm\<close>: from the estimate to the quotient and the remainder.\<close>

lemma udiv1norm_adjust:
  fixes q a1 a0 d :: "'a::len word"
  defines "N \<equiv> uint a1 * 2 ^ LENGTH('a) + uint a0"
  assumes q: "0 \<le> N - uint q * uint d" "N - uint q * uint d < 2 * uint d" and a1: "uint a1 < uint d"
  defines "a' \<equiv> take_bit (2 * LENGTH('a)) (N - uint q * uint d - uint d)"
  shows "uint (q + (1 + dlimb_hi a')) = N div uint d"
    and "uint (dlimb_lo a' + (dlimb_hi a' AND d)) = N mod uint d"
proof -
  define B D Q z where "B = (2 ^ LENGTH('a) :: int)" and "D = uint d" and "Q = uint q" and "z = N - Q * D - D"
  have D: "0 < D" "D < B" using a1 uint_ge_0 [of a1] uint_lt2p [of d] unfolding B_def D_def by linarith+
  have z: "- D \<le> z" "z < D" using q unfolding z_def Q_def D_def by linarith+
  have BB: "2 ^ (2 * LENGTH('a)) = B * B" by (simp add: B_def mult_2 power_add)
  have a': "a' = z mod (B * B)" by (simp add: a'_def z_def Q_def D_def take_bit_eq_mod BB)
  have BB1: "B \<le> B * B" using D mult_left_mono [of 1 B B] by simp
  have NB: "N < D * B"
  proof -
    have "(uint a1 + 1) * B \<le> D * B" using a1 D by (intro mult_right_mono) (auto simp: D_def)
    moreover have "uint a0 < B" unfolding B_def by simp
    ultimately show ?thesis unfolding N_def B_def [symmetric] distrib_right by linarith
  qed
  have ab: "0 \<le> a'" "a' < 2 ^ (2 * LENGTH('a))" by (simp_all add: a'_def)
  note lo = uint_dlimb(1) [OF ab] and hi = uint_dlimb(2) [OF ab]
  show "uint (q + (1 + dlimb_hi a')) = N div uint d"
    and "uint (dlimb_lo a' + (dlimb_hi a' AND d)) = N mod uint d"
  proof (atomize (full), cases "0 \<le> z")
    case True
    then have "a' = z" unfolding a' using z D BB1 by (intro mod_pos_pos_trivial) linarith+
    then have h: "dlimb_hi a' = (0 :: 'a word)" and l: "uint (dlimb_lo a' :: 'a word) = z"
      using hi lo True z D by (simp_all add: word_uint_eq_iff B_def [symmetric])
    have N: "N = (Q + 1) * D + z" by (simp add: z_def algebra_simps)
    have "(Q + 1) * D < B * D" using N NB True by (simp add: mult.commute)
    then have "Q + 1 < B" using D by simp
    then have "uint (q + 1) = Q + 1" by (simp add: add_div_mod_word B_def Q_def)
    moreover have "N div D = Q + 1" "N mod D = z" unfolding N using True z by simp_all
    ultimately show "uint (q + (1 + dlimb_hi a')) = N div uint d \<and>
        uint (dlimb_lo a' + (dlimb_hi a' AND d)) = N mod uint d"
      by (simp add: h l D_def)
  next
    case False
    have "a' = (z + B * B) mod (B * B)" unfolding a' by simp
    also have "\<dots> = z + B * B" using False z D BB1 by (intro mod_pos_pos_trivial) linarith+
    finally have a'z: "a' = (z + B) + (B - 1) * B" by (simp add: algebra_simps)
    have zb: "0 \<le> z + B" "z + B < B" using False z D by linarith+
    have "a' div B = B - 1" unfolding a'z using zb D by simp
    moreover have "a' mod B = z + B" unfolding a'z mod_mult_self1 using zb by (rule mod_pos_pos_trivial)
    moreover note hi lo
    ultimately have h: "dlimb_hi a' = (- 1 :: 'a word)" and l: "uint (dlimb_lo a' :: 'a word) = z + B"
      by (simp_all add: word_uint_eq_iff B_def unsigned_minus_1_eq_mask mask_eq_exp_minus_1)
    have N: "N = Q * D + (z + D)" by (simp add: z_def algebra_simps)
    have zd: "0 \<le> z + D" "z + D < D" using False z by linarith+
    have "N div D = Q" unfolding N using zd D by simp
    moreover have "N mod D = z + D"
      unfolding N add.commute [of "Q * D"] mod_mult_self1 using zd by (rule mod_pos_pos_trivial)
    moreover have "uint (dlimb_lo a' + d) = z + D"
      using z unfolding add_div_mod_word l by (simp add: B_def D_def)
    ultimately show "uint (q + (1 + dlimb_hi a')) = N div uint d \<and>
        uint (dlimb_lo a' + (dlimb_hi a' AND d)) = N mod uint d"
      by (simp add: h D_def Q_def)
  qed
qed

lemma udiv1norm_value:
  fixes a1 a0 d :: "'a::len word"
  assumes d: "2 ^ LENGTH('a) \<le> 2 * uint d" and a1: "uint a1 < uint d"
    and eq: "udiv1norm a1 a0 d (udiv1norm_init d) = (q, r)"
  shows "uint q = (uint a1 * 2 ^ LENGTH('a) + uint a0) div uint d"
    and "uint r = (uint a1 * 2 ^ LENGTH('a) + uint a0) mod uint d"
proof -
  define B D A1 A0 where "B = (2 ^ LENGTH('a) :: int)" and "D = uint d" and "A1 = uint a1" and "A0 = uint a0"
  define M e n where "M = (B * B - 1) div D" and "e = (B * B - 1) mod D + 1"
    and "n = (if B \<le> 2 * A0 then 1 else 0 :: int)"
  define X where "X = M * (A1 + n) + A0 + n * (D - 2 * B)"
  have D: "0 < D" "D < B" "B \<le> 2 * D"
    using d two_le_base [where 'a = 'a] uint_lt2p [of d] unfolding B_def D_def by linarith+
  have A: "0 \<le> A1" "A1 < D" "0 \<le> A0" "A0 < B" using a1 by (simp_all add: A1_def A0_def B_def D_def)
  let ?n1m = "signed_drop_bit (LENGTH('a) - 1) a0"
  have n1m: "?n1m = (if n = 1 then - 1 else 0)" unfolding signed_drop_bit_top by (simp add: n_def B_def A0_def)
  have adj: "uint (a0 + (?n1m AND d)) = A0 + n * (D - B)"
    using D A n1m by (auto simp: add_div_mod_word n_def A0_def B_def D_def)
  have a1n: "uint (a1 - ?n1m) = A1 + n"
  proof -
    have "uint a1 + 1 < 2 ^ LENGTH('a)" using D A unfolding A1_def B_def D_def by linarith
    then show ?thesis using n1m by (auto simp: add_div_mod_word n_def A1_def)
  qed
  have inv: "uint (udiv1norm_init d) = M - B"
    using udiv1norm_init_value [OF d] by (simp add: M_def B_def D_def)
  let ?a = "uint (udiv1norm_init d) * uint (a1 - ?n1m) + uint (a0 + (?n1m AND d))"
  have aX: "?a = X - A1 * B" unfolding inv a1n adj X_def by (simp add: algebra_simps)
  have m: "M * D = B * B - e" "1 \<le> e" "e \<le> D"
    using D div_mult_mod_eq [of "B * B - 1" D] pos_mod_bound [of D "B * B - 1"] pos_mod_sign [of D "B * B - 1"]
    unfolding M_def e_def by linarith+
  have nn: "n = 0 \<and> 2 * A0 < B \<or> n = 1 \<and> B \<le> 2 * A0" by (auto simp: n_def)
  have s: "X = X div B * B + X mod B" "0 \<le> X mod B" "X mod B < B" using D by simp_all
  note est = reciprocal_estimate [OF D(3,2) A m nn X_def s]
  define Q where "Q = X div B"
  have N: "A1 * B + A0 < B * D"
    using A mult_right_mono [of "A1 + 1" D B] D by (simp add: algebra_simps)
  have "Q * D < B * D" using est(1) N unfolding Q_def by linarith
  then have Q: "Q < B" using D by simp
  have a0': "0 \<le> X - A1 * B" unfolding aX [symmetric] by (intro add_nonneg_nonneg) simp_all
  then have "A1 * B \<le> X" by simp
  then have Q1: "A1 \<le> Q" unfolding Q_def using zdiv_mono1 [of "A1 * B" X B] D by simp
  have "X < (Q + 1) * B" using int_div_eq_iff [of B X Q] D Q_def by linarith
  also have "\<dots> \<le> B * B" using Q D by (intro mult_right_mono) auto
  finally have XB: "X < B * B" .
  have aB: "X - A1 * B < 2 ^ (2 * LENGTH('a))"
  proof -
    have "0 \<le> A1 * B" using A D by (intro mult_nonneg_nonneg) auto
    moreover have "2 ^ (2 * LENGTH('a)) = B * B" by (simp add: B_def mult_2 power_add)
    ultimately show ?thesis using XB by linarith
  qed
  have tb: "take_bit (2 * LENGTH('a)) ?a = X - A1 * B"
    unfolding aX using a0' aB by (simp add: take_bit_int_eq_self)
  have "(X - A1 * B) div B = Q - A1"
    unfolding Q_def using D div_mult_self1 [of B X "- A1"] by simp
  then have "uint (dlimb_hi (X - A1 * B) :: 'a word) = Q - A1"
    using uint_dlimb(2) [OF a0' aB] by (simp add: B_def)
  then have q: "uint (dlimb_hi (X - A1 * B) + a1) = Q"
    using Q by (simp add: add_div_mod_word A1_def B_def)
  have r: "0 \<le> uint a1 * 2 ^ LENGTH('a) + uint a0 - uint (dlimb_hi (X - A1 * B) + a1) * uint d"
    "uint a1 * 2 ^ LENGTH('a) + uint a0 - uint (dlimb_hi (X - A1 * B) + a1) * uint d < 2 * uint d"
    unfolding q using est unfolding Q_def B_def A1_def A0_def D_def .
  note fin = udiv1norm_adjust [OF r a1]
  show "uint q = (uint a1 * 2 ^ LENGTH('a) + uint a0) div uint d"
    and "uint r = (uint a1 * 2 ^ LENGTH('a) + uint a0) mod uint d"
    using eq fin unfolding udiv1norm_def Let_def tb by auto
qed

section \<open>The optimised division by a limb\<close>

lemma mp_div1norm_eq_mp_div1:
  fixes b :: "'a::len word"
  assumes b: "2 ^ LENGTH('a) \<le> 2 * uint b" and r: "uint r < uint b"
  shows "mp_div1norm xs b r = mp_div1 xs b r"
proof -
  have "mp_div1norm_loop xs b (udiv1norm_init b) r = mp_div1 xs b r"
  proof (induction xs)
    case Nil
    then show ?case by simp
  next
    case (Cons a xs)
    obtain qs r1 where d: "mp_div1 xs b r = (qs, r1)" by (cases "mp_div1 xs b r")
    have r1: "uint r1 < uint b" using mp_div1_value [OF d r] by blast
    obtain q r2 where u: "udiv1norm r1 a b (udiv1norm_init b) = (q, r2)"
      by (cases "udiv1norm r1 a b (udiv1norm_init b)")
    note v = udiv1norm_value [OF b r1 u]
    have "q = word_of_int ((uint r1 * 2 ^ LENGTH('a) + uint a) div uint b)"
      "r2 = word_of_int ((uint r1 * 2 ^ LENGTH('a) + uint a) mod uint b)"
      using v by (simp_all flip: v)
    then show ?case using Cons.IH d u by (simp add: Let_def)
  qed
  then show ?thesis by (simp add: mp_div1norm_def)
qed

section \<open>The digits of a long division\<close>

lemma divnorm_first_q_value:
  assumes "length as = length (bs :: 'a::len word list)"
  shows "divnorm_first_q as bs = of_bool (mp_val (rev bs) \<le> mp_val (rev as))"
  using assms
proof (induction as bs rule: list_induct2)
  case Nil
  then show ?case by simp
next
  case (Cons a as b bs)
  let ?N = "2 ^ (LENGTH('a) * length bs) :: int"
  have lt: "mp_val (rev as) < ?N" "mp_val (rev bs) < ?N"
    using mp_val_lt [of "rev as"] mp_val_lt [of "rev bs"] Cons.hyps by simp_all
  have va: "mp_val (rev (a # as)) = mp_val (rev as) + ?N * uint a" and vb: "mp_val (rev (b # bs)) = mp_val (rev bs) + ?N * uint b"
    using Cons.hyps by (simp_all add: mp_val_append)
  consider "a = b" | "uint a < uint b" | "uint b < uint a"
    by (metis linorder_neqE word_uint_eq_iff)
  then show ?case
  proof cases
    case 1
    then show ?thesis using Cons.IH va vb by simp
  next
    case 2
    then have "?N * (uint a + 1) \<le> ?N * uint b" by (intro mult_left_mono) simp_all
    then have "mp_val (rev (a # as)) < mp_val (rev (b # bs))"
      unfolding va vb distrib_left using lt mp_val_nonneg [of "rev bs"] by linarith
    with 2 show ?thesis by (auto simp: word_less_def)
  next
    case 3
    then have "?N * (uint b + 1) \<le> ?N * uint a" by (intro mult_left_mono) simp_all
    then have "mp_val (rev (b # bs)) < mp_val (rev (a # as))"
      unfolding va vb distrib_left using lt mp_val_nonneg [of "rev as"] by linarith
    with 3 show ?thesis by (auto simp: word_less_def)
  qed
qed

lemma uint_0_le_1: "uint (0 :: 'a::len word) \<le> 1"
  by simp

lemma divnorm_addback_value:
  fixes seg tabb :: "'a::len word list"
  assumes "length seg = length tabb"
    and "mp_val seg + 2 ^ (LENGTH('a) * length tabb) * (uint hi1 - 2 ^ LENGTH('a)) = V"
    and "- (1 + int k) * mp_val tabb \<le> V" and "V < - int k * mp_val tabb"
  shows "\<exists>seg'. divnorm_addback q seg hi1 tabb = Some (q - 1 - of_nat k, seg', 0) \<and>
    length seg' = length tabb \<and> mp_val seg' = V + (1 + int k) * mp_val tabb"
  using assms
proof (induction k arbitrary: q seg hi1 V)
  case 0
  let ?N = "2 ^ (LENGTH('a) * length tabb) :: int" and ?B = "2 ^ LENGTH('a) :: int"
  obtain seg' c where a: "mp_add seg tabb 0 = (seg', c)" by (cases "mp_add seg tabb 0")
  note v = mp_add_value [OF a "0.prems"(1) uint_0_le_1]
  have V: "V + mp_val tabb = mp_val seg' + ?N * (uint hi1 + uint c - ?B)"
    using "0.prems"(1,2) v by (simp add: algebra_simps)
  have lt: "mp_val seg' < ?N" using mp_val_lt [of seg'] v(1) "0.prems"(1) by simp
  have "uint hi1 + uint c - ?B > - 1"
  proof (rule ccontr)
    assume "\<not> uint hi1 + uint c - ?B > - 1"
    then have "?N * (uint hi1 + uint c - ?B) \<le> ?N * - 1" by (intro mult_left_mono) simp_all
    then show False using V lt "0.prems"(3) by simp
  qed
  then have t: "uint hi1 = ?B - 1" "uint c = 1" using v(2) uint_le_max [of hi1] by linarith+
  then have "c \<noteq> 0" "hi1 + 1 = 0" by (auto simp: word_uint_eq_iff add_div_mod_word)
  then have "divnorm_addback q seg hi1 tabb = Some (q - 1, seg', 0)"
    using a by (simp add: divnorm_addback.simps)
  then show ?case using V t v(1) "0.prems"(1) by auto
next
  case (Suc k)
  let ?N = "2 ^ (LENGTH('a) * length tabb) :: int" and ?B = "2 ^ LENGTH('a) :: int"
  obtain seg' c where a: "mp_add seg tabb 0 = (seg', c)" by (cases "mp_add seg tabb 0")
  note v = mp_add_value [OF a Suc.prems(1) uint_0_le_1]
  have V: "V + mp_val tabb = mp_val seg' + ?N * (uint hi1 + uint c - ?B)"
    using Suc.prems(1,2) v by (simp add: algebra_simps)
  have neg: "V + mp_val tabb < - int k * mp_val tabb" "- (1 + int k) * mp_val tabb \<le> V + mp_val tabb"
    using Suc.prems(3,4) by (simp_all add: algebra_simps)
  have "V + mp_val tabb < 0"
  proof -
    have "0 \<le> int k * mp_val tabb" by (intro mult_nonneg_nonneg) simp_all
    then show ?thesis using neg(1) unfolding mult_minus_left by linarith
  qed
  have "uint hi1 + uint c < ?B"
  proof (rule ccontr)
    assume "\<not> uint hi1 + uint c < ?B"
    then have "0 \<le> ?N * (uint hi1 + uint c - ?B)" by simp
    then show False using V \<open>V + mp_val tabb < 0\<close> mp_val_nonneg [of seg'] by linarith
  qed
  then have tc: "uint (hi1 + c) = uint hi1 + uint c" by (simp add: add_div_mod_word)
  have step: "divnorm_addback q seg hi1 tabb = divnorm_addback (q - 1) seg' (hi1 + c) tabb"
  proof (cases "c = 0")
    case True
    then show ?thesis using a by (simp add: divnorm_addback.simps [of q seg])
  next
    case False
    then have "uint c \<noteq> 0" by (simp add: word_uint_eq_iff)
    then have "uint c = 1" using v(2) uint_ge_0 [of c] by linarith
    then have c: "c = 1" by (simp add: word_uint_eq_iff)
    have "uint (hi1 + 1) = uint hi1 + 1" using tc c by simp
    then have "uint (hi1 + 1) \<noteq> 0" using uint_ge_0 [of hi1] by linarith
    then have "hi1 + 1 \<noteq> 0" by auto
    then show ?thesis using a c by (simp add: divnorm_addback.simps [of q seg])
  qed
  have len: "length seg' = length tabb" using v(1) Suc.prems(1) by simp
  have val: "mp_val seg' + ?N * (uint (hi1 + c) - ?B) = V + mp_val tabb" using V tc by simp
  from Suc.IH [OF len val neg(2) neg(1), of "q - 1"] show ?case
    unfolding step by (simp add: algebra_simps)
qed

lemma divnorm_estimate_value:
  fixes hi lo b1 :: "'a::len word"
  assumes b1: "2 ^ LENGTH('a) \<le> 2 * uint b1" and inv: "b1_inv = 0 \<or> b1_inv = udiv1norm_init b1"
  shows "uint (divnorm_estimate hi lo b1 b1_inv) =
    (if uint b1 \<le> uint hi then 2 ^ LENGTH('a) - 1 else (uint hi * 2 ^ LENGTH('a) + uint lo) div uint b1)"
proof (cases "uint b1 \<le> uint hi")
  case True
  then show ?thesis
    by (simp add: divnorm_estimate_def word_le_def unsigned_minus_1_eq_mask mask_eq_exp_minus_1)
next
  case False
  then have lt: "uint hi < uint b1" by simp
  obtain q r where u: "udiv1norm hi lo b1 (udiv1norm_init b1) = (q, r)"
    by (cases "udiv1norm hi lo b1 (udiv1norm_init b1)")
  have "uint (if b1_inv \<noteq> 0 then fst (udiv1norm hi lo b1 b1_inv)
      else word_of_int ((uint hi * 2 ^ LENGTH('a) + uint lo) div uint b1)) =
      (uint hi * 2 ^ LENGTH('a) + uint lo) div uint b1"
    using inv u udiv1norm_value(1) [OF b1 lt u] div1_step(1) [OF lt, of lo] by auto
  then show ?thesis using False by (simp add: divnorm_estimate_def word_le_def)
qed

text \<open>The estimate from the two high limbs is never too small.\<close>

lemma quotient_le_estimate:
  fixes S b b1 hl M b' S' :: int
  assumes "S = hl * M + S'" "0 \<le> S'" "S' < M" "0 \<le> hl" and "b = b1 * M + b'" "0 \<le> b'" and "0 < b1"
  shows "S div b \<le> hl div b1"
proof -
  have M: "0 < M" using assms(2,3) by linarith
  have b: "0 < b" using assms M by (simp add: add_pos_nonneg)
  have "0 \<le> S" using assms M by simp
  then have q: "0 \<le> S div b" using b by (simp add: pos_imp_zdiv_nonneg_iff)
  have "S div b * b \<le> S" using b int_div_eq_iff [of b S "S div b"] by simp
  moreover have "S div b * (b1 * M) \<le> S div b * b"
    using q assms by (intro mult_left_mono) auto
  ultimately have "(S div b * b1) * M < (hl + 1) * M"
    using assms(1,3) by (simp add: algebra_simps)
  then have "S div b * b1 < hl + 1" using M by simp
  then have "S div b * b1 div b1 \<le> hl div b1" using assms(7) by (intro zdiv_mono1) auto
  then show ?thesis using assms(7) by simp
qed

lemma mp_val_butlast_last:
  assumes "xs \<noteq> []"
  shows "mp_val (xs :: 'a::len word list) = uint (last xs) * 2 ^ (LENGTH('a) * (length xs - 1)) + mp_val (butlast xs)"
    and "mp_val (butlast xs) < 2 ^ (LENGTH('a) * (length xs - 1))"
proof -
  have "mp_val (butlast xs @ [last xs]) = mp_val (butlast xs) + 2 ^ (LENGTH('a) * (length xs - 1)) * uint (last xs)"
    unfolding mp_val_append by simp
  then show "mp_val xs = uint (last xs) * 2 ^ (LENGTH('a) * (length xs - 1)) + mp_val (butlast xs)"
    using assms by simp
  show "mp_val (butlast xs) < 2 ^ (LENGTH('a) * (length xs - 1))"
    using mp_val_lt [of "butlast xs"] by simp
qed

text \<open>
  One digit: for a normalised divisor \<open>b\<close> and a partial remainder \<open>S < b * B\<close> the digit is the
  quotient, the segment becomes the remainder and the limb above it zero.
\<close>

lemma divnorm_digit_value:
  fixes seg tabb :: "'a::len word list" and v :: "'a word"
  defines "S \<equiv> mp_val seg + 2 ^ (LENGTH('a) * length tabb) * uint v"
  assumes ne: "tabb \<noteq> []" and len: "length seg = length tabb"
    and norm: "2 ^ LENGTH('a) \<le> 2 * uint (last tabb)"
    and inv: "b1_inv = 0 \<or> b1_inv = udiv1norm_init (last tabb)"
    and S: "S < mp_val tabb * 2 ^ LENGTH('a)"
  shows "\<exists>q seg'. divnorm_digit seg v tabb b1_inv = Some (q, seg', 0) \<and> length seg' = length tabb \<and>
    uint q = S div mp_val tabb \<and> mp_val seg' = S mod mp_val tabb"
proof -
  define B N b where "B = (2 ^ LENGTH('a) :: int)" and "N = (2 ^ (LENGTH('a) * length tabb) :: int)"
    and "b = mp_val tabb"
  define q where "q = divnorm_estimate v (last seg) (last tabb) b1_inv"
  have B: "0 < B" by (simp add: B_def)
  have seg: "seg \<noteq> []" using ne len by auto
  have b1: "0 < uint (last tabb)" using norm B unfolding B_def by linarith
  note tb = mp_val_butlast_last [OF ne] and sb = mp_val_butlast_last [OF seg]
  have b: "0 < b" unfolding b_def tb(1) using b1 by (simp add: add_pos_nonneg)
  have bN: "b < N" unfolding b_def N_def by (rule mp_val_lt)
  have S0: "0 \<le> S" by (simp add: S_def)
  have qge: "S div b \<le> uint q"
  proof (cases "uint (last tabb) \<le> uint v")
    case True
    have "S div b < B" using S b by (simp add: int_div_less_iff b_def B_def mult.commute)
    then show ?thesis using divnorm_estimate_value [OF norm inv] True by (simp add: q_def B_def)
  next
    case False
    let ?M = "2 ^ (LENGTH('a) * (length tabb - 1)) :: int"
    have NM: "N = B * ?M"
      using ne by (cases tabb) (simp_all add: N_def B_def power_add)
    have "S = mp_val (butlast seg) + uint (last seg) * ?M + N * uint v"
      unfolding S_def sb(1) N_def using len by simp
    then have "S = (uint v * B + uint (last seg)) * 2 ^ (LENGTH('a) * (length tabb - 1)) + mp_val (butlast seg)"
      unfolding NM by (simp only: ring_distribs mult.assoc mult.left_commute mult.commute add.assoc add.left_commute add.commute)
    from quotient_le_estimate [OF this _ _ _ tb(1) _ b1] sb(2) len
    have "S div b \<le> (uint v * B + uint (last seg)) div uint (last tabb)" by (simp add: b_def B_def)
    then show ?thesis using divnorm_estimate_value [OF norm inv] False by (simp add: q_def B_def)
  qed
  obtain seg' r where sm: "mp_sub_mul1 seg tabb q = (seg', r)" by (cases "mp_sub_mul1 seg tabb q")
  note sv = mp_sub_mul1_value [OF sm len]
  define V where "V = S - uint q * b"
  have V: "V = mp_val seg' + N * (uint v - uint r)"
    using sv(2) len unfolding V_def S_def N_def b_def by (simp add: algebra_simps)
  have "S div b * b \<le> uint q * b" using qge b by (intro mult_right_mono) auto
  then have Vb: "V < b"
    using div_mult_mod_eq [of S b] pos_mod_bound [of b S] b unfolding V_def by linarith
  have seg'N: "mp_val seg' < N" using mp_val_lt [of seg'] sv(1) by (simp add: N_def)
  have gt: "v - r > v \<longleftrightarrow> uint v < uint r"
    using uint_lt2p [of r] uint_ge_0 [of r] unfolding word_less_def uint_minus_word by auto
  show ?thesis
  proof (cases "uint v < uint r")
    case False
    have "N * (uint v - uint r) < N * 1" using V Vb bN mp_val_nonneg [of seg'] by linarith
    then have "uint v - uint r < 1" by (simp add: N_def)
    then have "v = r" using False by (simp add: word_uint_eq_iff)
    then have "V = mp_val seg'" using V by simp
    then have "S = uint q * b + mp_val seg'" "mp_val seg' < b" using Vb unfolding V_def by linarith+
    then have "uint q = S div b" "mp_val seg' = S mod b" using b by simp_all
    moreover have "divnorm_digit seg v tabb b1_inv = Some (q, seg', 0)"
      using sm gt False \<open>v = r\<close> by (simp add: divnorm_digit_def q_def Let_def)
    ultimately show ?thesis using sv(1) by (auto simp: b_def)
  next
    case True
    have "N * (uint v - uint r) \<le> N * - 1" using True by (intro mult_left_mono) (simp_all add: N_def)
    then have Vneg: "V < 0" using V seg'N by linarith
    define k where "k = nat ((- V - 1) div b)"
    have k: "int k = (- V - 1) div b" using Vneg b by (simp add: k_def pos_imp_zdiv_nonneg_iff)
    have "int k * b \<le> - V - 1" "- V - 1 < (int k + 1) * b"
      using int_div_eq_iff [OF b, of "- V - 1" "int k"] k by simp_all
    then have kb: "- (1 + int k) * b \<le> V" "V < - int k * b" by (simp_all add: algebra_simps)
    have "uint (v - r) - B = uint v - uint r" using True by (simp add: uint_minus_word B_def)
    then have "mp_val seg' + N * (uint (v - r) - B) = V" using V by simp
    from divnorm_addback_value [OF sv(1) this [unfolded N_def B_def] kb [unfolded b_def]]
    obtain seg'' where ab: "divnorm_addback q seg' (v - r) tabb = Some (q - 1 - of_nat k, seg'', 0)"
      "length seg'' = length tabb" "mp_val seg'' = V + (1 + int k) * b"
      unfolding b_def by blast
    have Sq: "S = (uint q - 1 - int k) * b + mp_val seg''" unfolding ab(3) V_def by (simp add: algebra_simps)
    have r: "0 \<le> mp_val seg''" "mp_val seg'' < b" using ab(3) kb by (simp_all add: algebra_simps)
    then have qq: "S div b = uint q - 1 - int k" "S mod b = mp_val seg''" unfolding Sq using b by simp_all
    have "0 \<le> uint q - 1 - int k" using qq(1) S0 b by (metis pos_imp_zdiv_nonneg_iff)
    moreover have "q - 1 - of_nat k = word_of_int (uint q - 1 - int k)" by simp
    ultimately have "uint (q - 1 - of_nat k) = uint q - 1 - int k"
      using uint_lt2p [of q] by (simp only:) (rule uint_word_of_int_id, simp, linarith)
    moreover have "divnorm_digit seg v tabb b1_inv = Some (q - 1 - of_nat k, seg'', 0)"
      using sm gt True ab(1) by (simp add: divnorm_digit_def q_def Let_def)
    ultimately show ?thesis using ab(2) qq unfolding b_def by auto
  qed
qed

section \<open>Long division\<close>

lemma take_drop_update:
  assumes "length seg = nb" and "i + nb < length xs"
  shows "take nb (drop i (take i xs @ seg @ a # drop (Suc (i + nb)) xs)) = seg"
    and "length (take i xs @ seg @ a # drop (Suc (i + nb)) xs) = length xs"
    and "take (i + nb) (take i xs @ seg @ a # drop (Suc (i + nb)) xs) = take i xs @ seg"
  using assms by (simp_all add: min_def)

lemma divnorm_loop_value:
  fixes tabb :: "'a::len word list"
  assumes ne: "tabb \<noteq> []" and norm: "2 ^ LENGTH('a) \<le> 2 * uint (last tabb)"
    and inv: "b1_inv = 0 \<or> b1_inv = udiv1norm_init (last tabb)"
  shows "k + length tabb \<le> length taba \<Longrightarrow> mp_val (take (length tabb) (drop k taba)) < mp_val tabb \<Longrightarrow>
    \<exists>qs ta. divnorm_loop k taba tabb b1_inv = Some (qs, ta) \<and> length qs = k \<and> length ta = length taba \<and>
      mp_val (take (k + length tabb) taba) = mp_val qs * mp_val tabb + mp_val (take (length tabb) ta) \<and>
      mp_val (take (length tabb) ta) < mp_val tabb"
proof (induction k arbitrary: taba)
  case 0
  then show ?case by simp
next
  case (Suc i)
  let ?nb = "length tabb" and ?b = "mp_val tabb" and ?B = "2 ^ LENGTH('a) :: int"
  let ?seg = "take ?nb (drop i taba)" and ?v = "taba ! (i + ?nb)"
  have i: "i + ?nb < length taba" using Suc.prems(1) by simp
  have len: "length ?seg = ?nb" using i by simp
  have win: "?seg @ [?v] = taba ! i # take ?nb (drop (Suc i) taba)"
  proof -
    have "?seg @ [?v] = take (Suc ?nb) (drop i taba)" using i by (simp add: take_Suc_conv_app_nth)
    also have "\<dots> = taba ! i # take ?nb (drop (Suc i) taba)"
      using i by (simp add: Cons_nth_drop_Suc [symmetric])
    finally show ?thesis .
  qed
  define S where "S = mp_val ?seg + 2 ^ (LENGTH('a) * ?nb) * uint ?v"
  have "S = mp_val (?seg @ [?v])" unfolding mp_val_append S_def len by simp
  then have S: "S = uint (taba ! i) + ?B * mp_val (take ?nb (drop (Suc i) taba))" unfolding win by simp
  have "?B * (mp_val (take ?nb (drop (Suc i) taba)) + 1) \<le> ?B * ?b"
    using Suc.prems(2) by (intro mult_left_mono) simp_all
  then have "S < ?b * ?B" unfolding S distrib_left using uint_lt2p [of "taba ! i"] mult.commute [of ?b ?B] by linarith
  from divnorm_digit_value [OF ne len norm inv this [unfolded S_def]]
  obtain q seg where dig: "divnorm_digit ?seg ?v tabb b1_inv = Some (q, seg, 0)" "length seg = ?nb"
    "uint q = S div ?b" "mp_val seg = S mod ?b" unfolding S_def by blast
  let ?ta = "take i taba @ seg @ 0 # drop (Suc (i + ?nb)) taba"
  note td = take_drop_update [OF dig(2) i, of 0]
  have b: "0 < ?b" using Suc.prems(2) mp_val_nonneg [of "take ?nb (drop (Suc i) taba)"] by linarith
  have "i + ?nb \<le> length ?ta" and "mp_val (take ?nb (drop i ?ta)) < ?b"
    using i td b dig(4) by simp_all
  from Suc.IH [OF this] obtain qs ta where IH: "divnorm_loop i ?ta tabb b1_inv = Some (qs, ta)"
    "length qs = i" "length ta = length taba"
    "mp_val (take i taba @ seg) = mp_val qs * ?b + mp_val (take ?nb ta)" "mp_val (take ?nb ta) < ?b"
    unfolding td by blast
  have ti: "length (take i taba) = i" using i by simp
  have "take (Suc i + ?nb) taba = take i taba @ (?seg @ [?v])"
  proof -
    have "take (Suc i + ?nb) taba = take i taba @ take (Suc ?nb) (drop i taba)"
      by (simp flip: take_add)
    also have "take (Suc ?nb) (drop i taba) = ?seg @ [?v]" using i by (simp add: take_Suc_conv_app_nth)
    finally show ?thesis .
  qed
  then have "mp_val (take (Suc i + ?nb) taba) = mp_val (take i taba) + 2 ^ (LENGTH('a) * i) * S"
    using \<open>S = mp_val (?seg @ [?v])\<close> ti by (simp only: mp_val_append [of "take i taba"])
  also have "\<dots> = mp_val (take i taba @ seg) + 2 ^ (LENGTH('a) * i) * (uint q * ?b)"
    unfolding mp_val_append ti dig(3,4) add.assoc distrib_left [symmetric] mod_div_mult_eq ..
  also have "\<dots> = mp_val qs * ?b + mp_val (take ?nb ta) + 2 ^ (LENGTH('a) * i) * (uint q * ?b)"
    by (simp only: IH(4))
  also have "\<dots> = mp_val (qs @ [q]) * ?b + mp_val (take ?nb ta)"
    unfolding mp_val_append IH(2) by (simp add: algebra_simps)
  finally have val: "mp_val (take (Suc i + ?nb) taba) = mp_val (qs @ [q]) * ?b + mp_val (take ?nb ta)" .
  have "divnorm_loop (Suc i) taba tabb b1_inv = Some (qs @ [q], ta)"
    using i dig(1) IH(1) by (simp add: Let_def)
  then show ?case using IH val by auto
qed

lemma mp_divnorm_value:
  fixes taba tabb :: "'a::len word list"
  assumes ne: "tabb \<noteq> []" and len: "length tabb \<le> length taba"
    and norm: "2 ^ LENGTH('a) \<le> 2 * uint (last tabb)"
  shows "\<exists>tabq ta. mp_divnorm taba tabb = Some (tabq, ta) \<and>
    length tabq = length taba - length tabb + 1 \<and> length ta = length taba \<and>
    mp_val tabq = mp_val taba div mp_val tabb \<and> mp_val (take (length tabb) ta) = mp_val taba mod mp_val tabb"
proof (cases "length tabb = 1")
  case True
  then obtain b where b: "tabb = [b]" by (auto simp: length_Suc_conv)
  have b0: "uint (0 :: 'a word) < uint b" 
  proof -
    have "2 ^ LENGTH('a) \<le> 2 * uint b" using norm b by simp
    then show ?thesis using two_le_base [where 'a = 'a] unfolding unsigned_0 by linarith
  qed
  obtain qs r where d: "mp_div1 taba b 0 = (qs, r)" by (cases "mp_div1 taba b 0")
  note v = mp_div1_value [OF d b0]
  have "mp_divnorm taba tabb = Some (qs, taba[0 := r])"
    using mp_div1norm_eq_mp_div1 [of b 0 taba] norm b b0 d len by (cases taba) (simp_all add: mp_divnorm_def Let_def)
  moreover have "mp_val taba div uint b = mp_val qs" "mp_val taba mod uint b = uint r"
  proof -
    have "mp_val taba = uint r + mp_val qs * uint b" "0 < uint b" using v b0 by simp_all
    then show "mp_val taba div uint b = mp_val qs" "mp_val taba mod uint b = uint r"
      using v by simp_all
  qed
  moreover have "take (length tabb) (taba[0 := r]) = [r]" using len b by (cases taba) simp_all
  ultimately show ?thesis using v b len by auto
next
  case False
  let ?nb = "length tabb" and ?b = "mp_val tabb" and ?n = "length taba - length tabb"
  let ?hi = "drop ?n taba"
  define b1_inv where "b1_inv = (if ?n \<ge> UDIV1NORM_THRESHOLD then udiv1norm_init (last tabb) else 0)"
  define q where "q = divnorm_first_q (rev ?hi) (rev tabb)"
  define hi where "hi = (if q \<noteq> 0 then fst (mp_sub ?hi tabb 0) else ?hi)"
  have lhi: "length ?hi = ?nb" using len by simp
  have q: "q = of_bool (?b \<le> mp_val ?hi)"
    unfolding q_def using divnorm_first_q_value [of "rev ?hi" "rev tabb"] lhi by simp
  have half: "2 ^ (LENGTH('a) * ?nb) \<le> 2 * ?b"
  proof -
    let ?M = "2 ^ (LENGTH('a) * (?nb - 1)) :: int"
    have "2 ^ (LENGTH('a) * ?nb) = 2 ^ LENGTH('a) * ?M" using ne by (cases tabb) (simp_all add: power_add)
    also have "\<dots> \<le> 2 * uint (last tabb) * ?M" using norm by (intro mult_right_mono) simp_all
    finally show ?thesis unfolding mp_val_butlast_last(1) [OF ne]
      unfolding mult.assoc distrib_left using mp_val_nonneg [of "butlast tabb"] by linarith
  qed
  have hi: "length hi = ?nb" "mp_val ?hi = uint q * ?b + mp_val hi" "mp_val hi < ?b"
  proof -
    obtain rs c where sb: "mp_sub ?hi tabb 0 = (rs, c)" by (cases "mp_sub ?hi tabb 0")
    note sv = mp_sub_value [OF sb lhi uint_0_le_1]
    have "length hi = ?nb \<and> mp_val ?hi = uint q * ?b + mp_val hi \<and> mp_val hi < ?b"
    proof (cases "?b \<le> mp_val ?hi")
      case True
      have "mp_val ?hi < 2 ^ (LENGTH('a) * ?nb)" "mp_val rs < 2 ^ (LENGTH('a) * ?nb)"
        using mp_val_lt [of ?hi] mp_val_lt [of rs] lhi sv(1) by simp_all
      have c: "uint c = 0"
      proof (rule ccontr)
        assume "uint c \<noteq> 0"
        then have "uint c = 1" using sv(2) uint_ge_0 [of c] by linarith
        then show False using sv(3) lhi True \<open>mp_val rs < 2 ^ (LENGTH('a) * ?nb)\<close> by simp
      qed
      then have "mp_val rs = mp_val ?hi - ?b" using sv(3) by simp
      then show ?thesis
        using True q sb sv(1) lhi half \<open>mp_val ?hi < 2 ^ (LENGTH('a) * ?nb)\<close> by (simp add: hi_def)
    next
      case False
      then show ?thesis using q lhi by (simp add: hi_def)
    qed
    then show "length hi = ?nb" "mp_val ?hi = uint q * ?b + mp_val hi" "mp_val hi < ?b" by blast+
  qed
  let ?ta = "take ?n taba @ hi"
  have inv: "b1_inv = 0 \<or> b1_inv = udiv1norm_init (last tabb)" by (simp add: b1_inv_def)
  have tn: "length (take ?n taba) = ?n" by simp
  have "?n + ?nb \<le> length ?ta" "mp_val (take ?nb (drop ?n ?ta)) < ?b" using hi len tn by simp_all
  from divnorm_loop_value [OF ne norm inv this]
  obtain qs ta where L: "divnorm_loop ?n ?ta tabb b1_inv = Some (qs, ta)" "length qs = ?n"
    "length ta = length ?ta" "mp_val (take (?n + ?nb) ?ta) = mp_val qs * ?b + mp_val (take ?nb ta)"
    "mp_val (take ?nb ta) < ?b" by blast
  have eq: "mp_divnorm taba tabb = Some (qs @ [q], ta)"
    using False ne len L(1) unfolding mp_divnorm_def Let_def
    by (simp add: q_def [symmetric] hi_def [symmetric] b1_inv_def [symmetric])
  have "mp_val taba = mp_val (take ?n taba @ ?hi)" by simp
  also have "\<dots> = mp_val ?ta + 2 ^ (LENGTH('a) * ?n) * (uint q * ?b)"
    unfolding mp_val_append tn hi(2) by (simp add: algebra_simps)
  also have "mp_val ?ta = mp_val qs * ?b + mp_val (take ?nb ta)" using L(4) hi(1) tn by simp
  finally have "mp_val taba = mp_val (take ?nb ta) + mp_val (qs @ [q]) * ?b"
    unfolding mp_val_append L(2) by (simp add: algebra_simps)
  moreover have b: "0 < ?b" using L(5) mp_val_nonneg [of "take ?nb ta"] by linarith
  ultimately have "mp_val (qs @ [q]) = mp_val taba div ?b" "mp_val (take ?nb ta) = mp_val taba mod ?b"
    using L(5) b by simp_all
  then show ?thesis using eq L(2,3) hi(1) len by auto
qed

section \<open>Contracts of the two divisions\<close>

text \<open>On a normalised divisor the division by a precomputed inverse, with its single correction step, returns the same quotient limbs and remainder as the plain two-limb division.\<close>

theorem mp_div1norm_refines_mp_div1:
  fixes b :: "'a::len word"
  assumes "2 ^ LENGTH('a) \<le> 2 * uint b" and "uint r < uint b"
  shows "mp_div1norm xs b r = mp_div1 xs b r"
  using assms by (rule mp_div1norm_eq_mp_div1)

theorem mp_div1norm_refines_mp_div1_witness:
  "mp_div1norm [1, 2, 3, 4] (9223372036854775813 :: u64) 5 = mp_div1 [1, 2, 3, 4] 9223372036854775813 5"
  by (rule mp_div1norm_refines_mp_div1) simp_all

text \<open>C8 Schoolbook division by a normalised vector ends for every dividend, its correction loop included, and leaves the exact quotient and remainder.\<close>

theorem mp_divnorm_terminates:
  fixes taba tabb :: "'a::len word list"
  assumes "tabb \<noteq> []" and "length tabb \<le> length taba" and "2 ^ LENGTH('a) \<le> 2 * uint (last tabb)"
  shows "\<exists>tabq ta. mp_divnorm taba tabb = Some (tabq, ta) \<and> length tabq = length taba - length tabb + 1 \<and>
    mp_val taba = mp_val tabq * mp_val tabb + mp_val (take (length tabb) ta) \<and>
    mp_val (take (length tabb) ta) < mp_val tabb"
proof -
  have "0 < uint (last tabb)" using assms(3) two_le_base [where 'a = 'a] by linarith
  then have "0 < mp_val tabb"
    unfolding mp_val_butlast_last(1) [OF assms(1)] by (intro add_pos_nonneg mult_pos_pos) simp_all
  moreover obtain tabq ta where "mp_divnorm taba tabb = Some (tabq, ta)" "length tabq = length taba - length tabb + 1"
    "mp_val tabq = mp_val taba div mp_val tabb" "mp_val (take (length tabb) ta) = mp_val taba mod mp_val tabb"
    using mp_divnorm_value [OF assms] by blast
  ultimately show ?thesis by simp
qed

theorem mp_divnorm_terminates_witness:
  "\<exists>tabq ta. mp_divnorm [0, 0, 0, 9223372036854775808 :: u64] [- 1, 0, 9223372036854775808] = Some (tabq, ta) \<and>
     length tabq = length [0, 0, 0, 9223372036854775808 :: u64] - length [- 1, 0, 9223372036854775808 :: u64] + 1 \<and>
     mp_val [0, 0, 0, 9223372036854775808 :: u64] = mp_val tabq * mp_val [- 1, 0, 9223372036854775808 :: u64] +
       mp_val (take (length [- 1, 0, 9223372036854775808 :: u64]) ta) \<and>
     mp_val (take (length [- 1, 0, 9223372036854775808 :: u64]) ta) < mp_val [- 1, 0, 9223372036854775808 :: u64]"
  by (rule mp_divnorm_terminates) simp_all

end
