(* ===== verification/Bigint.thy ===== *)
theory Bigint
  imports Mp_Div "HOL-Library.Signed_Division"
begin

text \<open>
  The \<^verbatim>\<open>JSBigInt\<close> operations of \<^verbatim>\<open>quickjs/quickjs.c\<close>. A big integer is the list of its limbs
  (\<^verbatim>\<open>tab\<close>, with \<^verbatim>\<open>len\<close> its length) in two's complement, least significant limb first. The limb
  width stays a parameter, as in the source (\<^verbatim>\<open>JS_LIMB_BITS\<close>). A result is \<open>Inl\<close> of the exception
  or \<open>Inr\<close> of the limbs.
\<close>

section \<open>Results, allocation and signs\<close>

datatype js_error = RangeError string | OutOfMemory | AssertionFailure | UndefinedBehaviour

text \<open>
  \<open>js_alloc_ok\<close> says for which sizes in bytes \<^verbatim>\<open>js_malloc\<close> and \<^verbatim>\<open>js_realloc\<close> succeed, \<open>js_fill\<close> what an
  uninitialised limb holds.
\<close>

record js_context =
  js_alloc_ok :: "nat \<Rightarrow> bool"
  js_fill :: int

definition js_bind :: "js_error + 'a \<Rightarrow> ('a \<Rightarrow> js_error + 'b) \<Rightarrow> js_error + 'b" where
  "js_bind r f = (case r of Inl e \<Rightarrow> Inl e | Inr x \<Rightarrow> f x)"

definition JS_BIGINT_MAX_SIZE :: "'a::len itself \<Rightarrow> nat" where
  "JS_BIGINT_MAX_SIZE _ = (1024 * 1024) div LENGTH('a)"

definition sizeof_bigint :: "'a::len itself \<Rightarrow> nat \<Rightarrow> nat" where
  "sizeof_bigint _ len = 8 + len * (LENGTH('a) div 8)"

definition js_bigint_new :: "js_context \<Rightarrow> nat \<Rightarrow> js_error + 'a::len word list" where
  "js_bigint_new ctx len =
     (if len > JS_BIGINT_MAX_SIZE TYPE('a) then Inl (RangeError ''BigInt is too large to allocate'')
      else if \<not> js_alloc_ok ctx (sizeof_bigint TYPE('a) len) then Inl OutOfMemory
      else Inr (replicate len (word_of_int (js_fill ctx))))"

definition js_bigint_set_si :: "'a::len word \<Rightarrow> 'a word list" where
  "js_bigint_set_si a = [a]"

definition js_bigint_new_si :: "js_context \<Rightarrow> 'a::len word \<Rightarrow> js_error + 'a word list" where
  "js_bigint_new_si ctx a = js_bind (js_bigint_new ctx 1) (\<lambda>r. Inr (r[0 := a]))"

definition js_bigint_new_di :: "js_context \<Rightarrow> int \<Rightarrow> js_error + 'a::len word list" where
  "js_bigint_new_di ctx a =
     (if a = sint (word_of_int a :: 'a word) then
        js_bind (js_bigint_new ctx 1) (\<lambda>r. Inr (r[0 := word_of_int a]))
      else
        js_bind (js_bigint_new ctx 2)
          (\<lambda>r. Inr (r[0 := word_of_int a, 1 := word_of_int (a div 2 ^ LENGTH('a))])))"

definition js_bigint_sign :: "'a::len word list \<Rightarrow> 'a word" where
  "js_bigint_sign a = drop_bit (LENGTH('a) - 1) (a ! (length a - 1))"

section \<open>Normal form\<close>

text \<open>A high limb that only repeats the sign of the limb below it.\<close>

definition redundant_limb :: "'a::len word \<Rightarrow> 'a word \<Rightarrow> bool" where
  "redundant_limb v u \<longleftrightarrow> \<not> ((v \<noteq> 0 \<and> v \<noteq> - 1) \<or> v AND 1 \<noteq> drop_bit (LENGTH('a) - 1) u)"

fun bigint_norm_len :: "'a::len word list \<Rightarrow> nat \<Rightarrow> nat" where
  "bigint_norm_len tab (Suc (Suc l)) =
     (if redundant_limb (tab ! Suc l) (tab ! l) then bigint_norm_len tab (Suc l) else Suc (Suc l))"
| "bigint_norm_len tab l = l"

text \<open>The shrinking \<^verbatim>\<open>js_realloc\<close> may fail; the length is set before and the old block kept then.\<close>

definition js_bigint_normalize1 :: "'a::len word list \<Rightarrow> nat \<Rightarrow> 'a word list" where
  "js_bigint_normalize1 a l = take (bigint_norm_len a l) a"

definition js_bigint_normalize :: "'a::len word list \<Rightarrow> 'a word list" where
  "js_bigint_normalize a = js_bigint_normalize1 a (length a)"

definition js_bigint_extend :: "js_context \<Rightarrow> 'a::len word list \<Rightarrow> 'a word \<Rightarrow> js_error + 'a word list" where
  "js_bigint_extend ctx r op1 =
     (let n2 = length r in
      if \<not> redundant_limb op1 (r ! (n2 - 1)) then
        (if js_alloc_ok ctx (sizeof_bigint TYPE('a) (n2 + 1)) then Inr (r @ [op1]) else Inl OutOfMemory)
      else Inr (js_bigint_normalize r))"

section \<open>Addition, negation and multiplication\<close>

definition js_bigint_add ::
    "js_context \<Rightarrow> 'a::len word list \<Rightarrow> 'a word list \<Rightarrow> bool \<Rightarrow> js_error + 'a word list" where
  "js_bigint_add ctx a b b_neg =
     (let n2 = max (length a) (length b);
          n1 = min (length a) (length b);
          neg = of_bool b_neg :: 'a word
      in js_bind (js_bigint_new ctx n2 :: js_error + 'a word list) (\<lambda>_.
           let (r1, c1) = mp_add (take n1 a) (map (\<lambda>x. x XOR - neg) (take n1 b)) neg;
               a_sign = - js_bigint_sign a;
               b_sign = - js_bigint_sign b XOR - neg;
               (r2, c2) =
                 (if length a > length b then mp_add (drop n1 a) (replicate (n2 - n1) b_sign) c1
                  else if length a < length b then
                    mp_add (replicate (n2 - n1) a_sign) (map (\<lambda>x. x XOR - neg) (drop n1 b)) c1
                  else ([], c1))
           in js_bigint_extend ctx (r1 @ r2) (a_sign + b_sign + c2)))"

definition js_bigint_neg :: "js_context \<Rightarrow> 'a::len word list \<Rightarrow> js_error + 'a word list" where
  "js_bigint_neg ctx a = js_bigint_add ctx (js_bigint_set_si 0) a True"

definition js_bigint_mul ::
    "js_context \<Rightarrow> 'a::len word list \<Rightarrow> 'a word list \<Rightarrow> js_error + 'a word list" where
  "js_bigint_mul ctx a b =
     js_bind (js_bigint_new ctx (length a + length b) :: js_error + 'a word list) (\<lambda>_.
       let r = mp_mul_basecase a b;
           r1 = (if js_bigint_sign a \<noteq> 0
                 then take (length a) r @ fst (mp_sub (drop (length a) r) b 0) else r);
           r2 = (if js_bigint_sign b \<noteq> 0
                 then take (length b) r1 @ fst (mp_sub (drop (length b) r1) a 0) else r1)
       in Inr (js_bigint_normalize r2))"

section \<open>Division\<close>

text \<open>Dropping high zero limbs, down to one limb.\<close>

fun strip_len :: "'a::len word list \<Rightarrow> nat \<Rightarrow> nat" where
  "strip_len tab (Suc (Suc n)) = (if tab ! Suc n = 0 then strip_len tab (Suc n) else Suc (Suc n))"
| "strip_len tab n = n"

definition js_limb_clz :: "'a::len word \<Rightarrow> nat" where
  "js_limb_clz a = clz_from a LENGTH('a)"

definition js_limb_safe_clz :: "'a::len word \<Rightarrow> nat" where
  "js_limb_safe_clz a = (if a = 0 then LENGTH('a) else js_limb_clz a)"

text \<open>The absolute value of a two's complement vector, in as many limbs.\<close>

definition mp_abs :: "'a::len word list \<Rightarrow> 'a word list" where
  "mp_abs a = (if js_bigint_sign a \<noteq> 0 then fst (mp_neg a) else a)"

text \<open>
  The end of \<^verbatim>\<open>js_bigint_divrem\<close> for the remainder: \<open>r\<close> holds the shifted remainder in its first \<open>nb\<close>
  limbs.
\<close>

definition divrem_remainder ::
    "'a::len word list \<Rightarrow> nat \<Rightarrow> nat \<Rightarrow> bool \<Rightarrow> js_error + 'a word list" where
  "divrem_remainder r nb shift a_neg =
     (let r1 = (if shift \<noteq> 0 then fst (mp_shr (take nb r) shift 0) @ drop nb r else r) in
      case store r1 nb 0 of
        None \<Rightarrow> Inl UndefinedBehaviour
      | Some r2 \<Rightarrow>
          let r3 = (if a_neg then fst (mp_neg (take (nb + 1) r2)) @ drop (nb + 1) r2 else r2)
          in Inr (js_bigint_normalize1 r3 (nb + 1)))"

definition divrem_quotient :: "'a::len word list \<Rightarrow> nat \<Rightarrow> bool \<Rightarrow> js_error + 'a word list" where
  "divrem_quotient q top_limb neg =
     (case store q top_limb 0 of
        None \<Rightarrow> Inl UndefinedBehaviour
      | Some q1 \<Rightarrow> Inr (js_bigint_normalize (if neg then fst (mp_neg q1) else q1)))"

text \<open>
  The division proper, from \<^verbatim>\<open>normalize 'b'\<close> on: \<open>r1\<close> is the dividend's buffer with \<open>na\<close> significant limbs,
  \<open>tabb\<close> the divisor's with \<open>nb\<close>.
\<close>

definition divrem_core ::
    "js_context \<Rightarrow> 'a::len word list \<Rightarrow> nat \<Rightarrow> 'a word list \<Rightarrow> nat \<Rightarrow> bool \<Rightarrow> bool \<Rightarrow> bool \<Rightarrow> js_error + 'a word list" where
  "divrem_core ctx r1 na tabb nb is_rem a_neg q_neg =
     (let shift = js_limb_clz (tabb ! (nb - 1));
          tabb1 = (if shift \<noteq> 0 then fst (mp_shl (take nb tabb) shift) else take nb tabb);
          (ra, h) = (if shift \<noteq> 0 then mp_shl (take na r1) shift else (take na r1, 0));
          (r2, na2) = (if h \<noteq> 0 then (ra @ (drop na r1)[0 := h], na + 1) else (ra @ drop na r1, na))
      in js_bind (js_bigint_new ctx (na2 - nb + 2)) (\<lambda>q0.
           case mp_divnorm (take na2 r2) tabb1 of
             None \<Rightarrow> Inl UndefinedBehaviour
           | Some (tabq, ta) \<Rightarrow>
               if is_rem then divrem_remainder (ta @ drop na2 r2) nb shift a_neg
               else divrem_quotient (tabq @ drop (na2 - nb + 1) q0) (na2 - nb + 1) q_neg))"

definition js_bigint_divrem ::
    "js_context \<Rightarrow> 'a::len word list \<Rightarrow> 'a word list \<Rightarrow> bool \<Rightarrow> js_error + 'a word list" where
  "js_bigint_divrem ctx a b is_rem =
     (if length b = 1 \<and> b ! 0 = 0 then Inl (RangeError ''BigInt division by zero'')
      else
        let a_sign = js_bigint_sign a; b_sign = js_bigint_sign b in
        js_bind (js_bigint_new ctx (length a + 2)) (\<lambda>r0.
          let r1 = mp_abs a @ drop (length a) r0;
              na = strip_len r1 (length a)
          in if \<not> js_alloc_ok ctx (length b * (LENGTH('a) div 8)) then Inl OutOfMemory
             else
               let tabb = mp_abs b;
                   nb = strip_len tabb (length b)
               in if na < nb then
                    (if is_rem then js_bind (js_bigint_new ctx (length a) :: js_error + 'a word list) (\<lambda>_. Inr a)
                     else js_bigint_new_si ctx 0)
                  else divrem_core ctx r1 na tabb nb is_rem (a_sign \<noteq> 0) (a_sign \<noteq> b_sign)))"

section \<open>Bitwise operations and shifts\<close>

datatype logic_op = OP_or | OP_and | OP_xor

definition limb_logic :: "logic_op \<Rightarrow> 'a::len word \<Rightarrow> 'a word \<Rightarrow> 'a word" where
  "limb_logic op x y = (case op of OP_or \<Rightarrow> x OR y | OP_and \<Rightarrow> x AND y | OP_xor \<Rightarrow> x XOR y)"

definition js_bigint_logic ::
    "js_context \<Rightarrow> 'a::len word list \<Rightarrow> 'a word list \<Rightarrow> logic_op \<Rightarrow> js_error + 'a word list" where
  "js_bigint_logic ctx a0 b0 op =
     (let (a, b) = (if length a0 < length b0 then (b0, a0) else (a0, b0));
          b_sign = - js_bigint_sign b
      in js_bind (js_bigint_new ctx (length a) :: js_error + 'a word list) (\<lambda>_.
           Inr (js_bigint_normalize
             (map2 (limb_logic op) (take (length b) a) b @
              map (\<lambda>x. limb_logic op x b_sign) (drop (length b) a)))))"

definition js_bigint_not :: "js_context \<Rightarrow> 'a::len word list \<Rightarrow> js_error + 'a word list" where
  "js_bigint_not ctx a =
     js_bind (js_bigint_new ctx (length a) :: js_error + 'a word list) (\<lambda>_. Inr (map NOT a))"

definition js_bigint_shl :: "js_context \<Rightarrow> 'a::len word list \<Rightarrow> nat \<Rightarrow> js_error + 'a word list" where
  "js_bigint_shl ctx a shift1 =
     (if length a = 1 \<and> a ! 0 = 0 then js_bigint_new_si ctx 0
      else
        let d = shift1 div LENGTH('a); shift = shift1 mod LENGTH('a)
        in js_bind (js_bigint_new ctx (length a + d) :: js_error + 'a word list) (\<lambda>_.
             if shift = 0 then Inr (replicate d 0 @ a)
             else
               let (rs, l) = mp_shl a shift;
                   l' = (if js_bigint_sign a \<noteq> 0 then l OR push_bit shift (- 1) else l)
               in js_bigint_extend ctx (replicate d 0 @ rs) l'))"

definition js_bigint_shr :: "js_context \<Rightarrow> 'a::len word list \<Rightarrow> nat \<Rightarrow> js_error + 'a word list" where
  "js_bigint_shr ctx a shift1 =
     (let d = shift1 div LENGTH('a); shift = shift1 mod LENGTH('a); a_sign = js_bigint_sign a
      in if d \<ge> length a then js_bigint_new_si ctx (- a_sign)
         else js_bind (js_bigint_new ctx (length a - d) :: js_error + 'a word list) (\<lambda>_.
           if shift = 0 then Inr (drop d a)
           else Inr (js_bigint_normalize (fst (mp_shr (drop d a) shift (- a_sign))))))"

section \<open>Powers\<close>

text \<open>Square and multiply over the bits \<open>i - 1, \<dots>, 0\<close> of the exponent; \<open>mul\<close> is \<^verbatim>\<open>js_bigint_mul\<close>.\<close>

fun pow_loop ::
    "('l \<Rightarrow> 'l \<Rightarrow> js_error + 'l) \<Rightarrow> 'l \<Rightarrow> nat \<Rightarrow> nat \<Rightarrow> 'l \<Rightarrow> js_error + 'l" where
  "pow_loop mul a e 0 r = Inr r"
| "pow_loop mul a e (Suc i) r =
     js_bind (mul r r) (\<lambda>r1.
       js_bind (if bit e i then mul r1 a else Inr r1) (pow_loop mul a e i))"

text \<open>\<^verbatim>\<open>v = 2^n\<close>, possibly negated: the power is a single shifted bit.\<close>

definition pow_two_power ::
    "js_context \<Rightarrow> 'a::len word \<Rightarrow> bool \<Rightarrow> 'a word list \<Rightarrow> js_error + 'a word list" where
  "pow_two_power ctx v is_neg b =
     (let n = LENGTH('a) - 1 - js_limb_clz v in
      if length b > 1 \<or> uint (b ! 0) > 2 ^ 31 - 1 then Inl (RangeError ''BigInt is too large'')
      else
        let e1 = unat (b ! 0) * n in
        if e1 > JS_BIGINT_MAX_SIZE TYPE('a) * LENGTH('a) then Inl (RangeError ''BigInt is too large'')
        else
          let neg = (is_neg \<and> b ! 0 AND 1 \<noteq> 0) in
          js_bind (js_bigint_new ctx ((e1 + LENGTH('a) + 1 - of_bool neg) div LENGTH('a)) :: js_error + 'a word list)
            (\<lambda>r. case store (replicate (length r) 0) (e1 div LENGTH('a))
                        (push_bit (e1 mod LENGTH('a)) (if neg then - 1 else 1)) of
                    None \<Rightarrow> Inl UndefinedBehaviour
                  | Some r' \<Rightarrow> Inr r'))"

definition pow_general :: "js_context \<Rightarrow> 'a::len word list \<Rightarrow> 'a word list \<Rightarrow> js_error + 'a word list" where
  "pow_general ctx a b =
     (if length b > 1 \<or> uint (b ! 0) > 2 ^ 31 - 1 then Inl (RangeError ''BigInt is too large'')
      else
        let e = ucast (b ! 0) :: u32; n_bits = 32 - clz_from e 32
        in js_bind (js_bigint_new ctx (length a) :: js_error + 'a word list)
             (\<lambda>_. pow_loop (js_bigint_mul ctx) a (unat e) (n_bits - 1) a))"

definition js_bigint_pow :: "js_context \<Rightarrow> 'a::len word list \<Rightarrow> 'a word list \<Rightarrow> js_error + 'a word list" where
  "js_bigint_pow ctx a b =
     (if js_bigint_sign b \<noteq> 0 then Inl (RangeError ''BigInt negative exponent'')
      else if length b = 1 \<and> b ! 0 = 0 then js_bigint_new_si ctx 1
      else if length a = 1 then
        (let v = a ! 0 in
         if v \<le> 1 then js_bigint_new_si ctx v
         else if v = - 1 then js_bigint_new_si ctx (1 - 2 * (b ! 0 AND 1))
         else
           let is_neg = (sint v < 0); v' = (if is_neg then - v else v)
           in if v' AND (v' - 1) = 0 then pow_two_power ctx v' is_neg b else pow_general ctx a b)
      else pow_general ctx a b)"

section \<open>Comparison\<close>

text \<open>The limbs compared from the top down.\<close>

fun limbs_cmp :: "'a::len word list \<Rightarrow> 'a word list \<Rightarrow> int" where
  "limbs_cmp (x # xs) (y # ys) = (if x \<noteq> y then (if x < y then -1 else 1) else limbs_cmp xs ys)"
| "limbs_cmp _ _ = 0"

definition js_bigint_cmp :: "'a::len word list \<Rightarrow> 'a word list \<Rightarrow> int" where
  "js_bigint_cmp a b =
     (let a_sign = uint (js_bigint_sign a); b_sign = uint (js_bigint_sign b)
      in if a_sign \<noteq> b_sign then 1 - 2 * a_sign
         else if length a \<noteq> length b then
           (if length a < length b then 2 * a_sign - 1 else 1 - 2 * a_sign)
         else limbs_cmp (rev a) (rev b))"

section \<open>The integer a vector stands for\<close>

definition bigint_val :: "'a::len word list \<Rightarrow> int" where
  "bigint_val a = mp_val a - 2 ^ (LENGTH('a) * length a) * uint (js_bigint_sign a)"

definition bigint_normal :: "'a::len word list \<Rightarrow> bool" where
  "bigint_normal a \<longleftrightarrow> a \<noteq> [] \<and> (2 \<le> length a \<longrightarrow> \<not> redundant_limb (a ! (length a - 1)) (a ! (length a - 2)))"

end
