(* ===== verification/Bigint_Arith.thy ===== *)
theory Bigint_Arith
  imports Bigint
begin

text \<open>
  The integers the limb vectors of \<open>Bigint\<close> stand for, and what each operation computes: every
  result is normal and its value is the result of the operation on integers, division
  truncating towards zero, bitwise operations and right shifts on infinite two's complement.
\<close>

abbreviation limb_span :: "'a::len word list \<Rightarrow> int" where
  "limb_span a \<equiv> 2 ^ (LENGTH('a) * length a)"

lemma limb_span_pos [simp]: "0 < limb_span a"
  by simp

lemma uint_top_bit:
  "uint (drop_bit (LENGTH('a) - 1) (x :: 'a::len word)) = (if 2 ^ LENGTH('a) \<le> 2 * uint x then 1 else 0)"
proof -
  have B: "2 ^ LENGTH('a) = 2 * (2 ^ (LENGTH('a) - 1) :: int)"
    using power_Suc [of "2 :: int" "LENGTH('a) - 1"] by simp
  show ?thesis unfolding uint_drop_bit using uint_lt2p [of x] B by (auto simp: int_div_eq_iff)
qed

lemma sint_cases_int:
  "sint (x :: 'a::len word) = (if 2 ^ LENGTH('a) \<le> 2 * uint x then uint x - 2 ^ LENGTH('a) else uint x)"
proof -
  define H where "H = (2 ^ (LENGTH('a) - 1) :: int)"
  have B: "2 ^ LENGTH('a) = 2 * H"
    using power_Suc [of "2 :: int" "LENGTH('a) - 1"] by (simp add: H_def)
  have u: "0 \<le> uint x" "uint x < 2 * H" using uint_lt2p [of x] B by simp_all
  have "sint x = (uint x + H) mod (2 * H) - H"
    using B by (simp add: sint_uint signed_take_bit_eq_take_bit_shift take_bit_eq_mod H_def)
  moreover have "(uint x + H) mod (2 * H) = (if 2 * H \<le> 2 * uint x then uint x - H else uint x + H)"
  proof (cases "H \<le> uint x")
    case True
    have "(uint x + H) mod (2 * H) = (uint x - H + 2 * H) mod (2 * H)" by (simp add: algebra_simps)
    also have "\<dots> = uint x - H" unfolding mod_add_self2 using True u by (intro mod_pos_pos_trivial) linarith+
    finally show ?thesis using True by simp
  next
    case False
    then have "(uint x + H) mod (2 * H) = uint x + H" using u by (intro mod_pos_pos_trivial) linarith+
    then show ?thesis using False by simp
  qed
  ultimately show ?thesis unfolding B by simp
qed

lemma sint_uint_top_bit:
  "sint (x :: 'a::len word) = uint x - 2 ^ LENGTH('a) * uint (drop_bit (LENGTH('a) - 1) x)"
  unfolding sint_cases_int uint_top_bit by simp

lemma js_bigint_sign_snoc: "js_bigint_sign (xs @ [x]) = drop_bit (LENGTH('a) - 1) (x :: 'a::len word)"
  by (simp add: js_bigint_sign_def)

lemma bigint_val_snoc: "bigint_val (xs @ [x]) = mp_val xs + limb_span xs * sint x"
  unfolding bigint_val_def js_bigint_sign_snoc sint_uint_top_bit mp_val_append
  by (simp add: power_add algebra_simps)

lemma sint_range: "- (2 ^ LENGTH('a)) \<le> 2 * sint (x :: 'a::len word)" "2 * sint x < 2 ^ LENGTH('a)"
proof -
  have B: "2 ^ LENGTH('a) = 2 * (2 ^ (LENGTH('a) - 1) :: int)"
    using power_Suc [of "2 :: int" "LENGTH('a) - 1"] by simp
  show "- (2 ^ LENGTH('a)) \<le> 2 * sint x" "2 * sint x < 2 ^ LENGTH('a)"
    unfolding B using sint_ge [of x] sint_lt [of x] by linarith+
qed

lemma bigint_val_range:
  fixes a :: "'a::len word list"
  assumes "a \<noteq> []"
  shows "- limb_span a \<le> 2 * bigint_val a" and "2 * bigint_val a < limb_span a"
proof -
  obtain xs x where a: "a = xs @ [x]" using assms by (metis rev_exhaust)
  have N: "limb_span a = limb_span xs * 2 ^ LENGTH('a)" by (simp add: a power_add)
  have "- (limb_span xs * 2 ^ LENGTH('a)) \<le> limb_span xs * (2 * sint x)"
    unfolding mult_minus_right [symmetric] using sint_range(1) [of x] by (intro mult_left_mono) simp_all
  moreover have "limb_span xs * (2 * sint x + 2) \<le> limb_span xs * 2 ^ LENGTH('a)"
  proof (intro mult_left_mono)
    have B: "2 ^ LENGTH('a) = 2 * (2 ^ (LENGTH('a) - 1) :: int)"
      using power_Suc [of "2 :: int" "LENGTH('a) - 1"] by simp
    show "2 * sint x + 2 \<le> 2 ^ LENGTH('a)" using sint_lt [of x] unfolding B by linarith
  qed simp
  ultimately show "- limb_span a \<le> 2 * bigint_val a" and "2 * bigint_val a < limb_span a"
    unfolding N bigint_val_snoc [of xs x, folded a] using mp_val_lt [of xs] mp_val_nonneg [of xs]
    unfolding distrib_left mult.left_commute [of _ 2] by linarith+
qed

lemma bigint_val_eqI:
  fixes a :: "'a::len word list"
  assumes "a \<noteq> []" and "V = mp_val a + limb_span a * k"
    and "- limb_span a \<le> 2 * V" and "2 * V < limb_span a"
  shows "bigint_val a = V"
proof -
  let ?N = "limb_span a" and ?s = "uint (js_bigint_sign a)"
  note r = bigint_val_range [OF assms(1)]
  have d: "V - bigint_val a = ?N * (k + ?s)" by (simp add: bigint_val_def assms(2) algebra_simps)
  have "?N * (k + ?s) < ?N * 1" "?N * - 1 < ?N * (k + ?s)" using d r assms(3,4) by linarith+
  then have "k + ?s < 1" "- 1 < k + ?s" by (simp_all only: mult_less_cancel_left_pos limb_span_pos)
  then have "k + ?s = 0" by linarith
  then show ?thesis using d by simp
qed

lemma mp_val_not_neg [simp]: "\<not> mp_val xs < 0"
  using mp_val_nonneg [of xs] by linarith

lemma js_bigint_sign_value:
  "uint (js_bigint_sign a) = (if bigint_val a < 0 then 1 else 0)" if "a \<noteq> []" for a :: "'a::len word list"
proof -
  have s: "uint (js_bigint_sign a) = 0 \<or> uint (js_bigint_sign a) = 1"
    unfolding js_bigint_sign_def uint_top_bit by simp
  then show ?thesis using mp_val_lt [of a] unfolding bigint_val_def by (auto simp: not_less)
qed

lemma js_bigint_sign_nonzero:
  "a \<noteq> [] \<Longrightarrow> js_bigint_sign a \<noteq> 0 \<longleftrightarrow> bigint_val a < 0"
  using js_bigint_sign_value [of a] by (auto simp: word_uint_eq_iff split: if_splits)

lemma bigint_val_sign:
  "a \<noteq> [] \<Longrightarrow> bigint_val a = (if bigint_val a < 0 then mp_val a - limb_span a else mp_val a)"
  using js_bigint_sign_value [of a] by (auto simp: bigint_val_def split: if_splits)

section \<open>Redundant limbs\<close>

lemma redundant_limb_iff:
  "redundant_limb v u \<longleftrightarrow> sint v = - uint (drop_bit (LENGTH('a) - 1) (u :: 'a::len word))"
proof -
  have b: "uint (drop_bit (LENGTH('a) - 1) u) = 0 \<or> uint (drop_bit (LENGTH('a) - 1) u) = 1"
    unfolding uint_top_bit by simp
  have "redundant_limb v u \<longleftrightarrow> v = 0 \<and> drop_bit (LENGTH('a) - 1) u = 0 \<or> v = - 1 \<and> drop_bit (LENGTH('a) - 1) u = 1"
    unfolding redundant_limb_def by auto
  moreover have "v = 0 \<longleftrightarrow> sint v = 0" using word_eq_iff_signed [of v 0] by simp
  moreover have "v = - 1 \<longleftrightarrow> sint v = - 1" using word_eq_iff_signed [of v "- 1"] by simp
  moreover have "drop_bit (LENGTH('a) - 1) u = 0 \<longleftrightarrow> uint (drop_bit (LENGTH('a) - 1) u) = 0"
    "drop_bit (LENGTH('a) - 1) u = 1 \<longleftrightarrow> uint (drop_bit (LENGTH('a) - 1) u) = 1"
    by (simp_all add: word_uint_eq_iff)
  ultimately show ?thesis using b by auto
qed

lemma bigint_val_redundant:
  fixes xs :: "'a::len word list"
  assumes "xs \<noteq> []" and "redundant_limb v (xs ! (length xs - 1))"
  shows "bigint_val (xs @ [v]) = bigint_val xs"
  using assms unfolding redundant_limb_iff bigint_val_snoc by (simp add: bigint_val_def js_bigint_sign_def)

lemma normalize1_value:
  fixes a :: "'a::len word list"
  assumes "1 \<le> l" and "l \<le> length a"
  shows "bigint_val (js_bigint_normalize1 a l) = bigint_val (take l a) \<and> bigint_normal (js_bigint_normalize1 a l) \<and>
    length (js_bigint_normalize1 a l) \<le> l"
  using assms
proof (induction a l rule: bigint_norm_len.induct)
  case (1 tab l)
  show ?case
  proof (cases "redundant_limb (tab ! Suc l) (tab ! l)")
    case True
    have "take (Suc (Suc l)) tab = take (Suc l) tab @ [tab ! Suc l]"
      using "1.prems" by (simp add: take_Suc_conv_app_nth)
    moreover have "take (Suc l) tab \<noteq> []" "take (Suc l) tab ! (length (take (Suc l) tab) - 1) = tab ! l"
      using "1.prems" by (auto simp: min_def)
    ultimately have "bigint_val (take (Suc (Suc l)) tab) = bigint_val (take (Suc l) tab)"
      using bigint_val_redundant [of "take (Suc l) tab" "tab ! Suc l"] True by simp
    then show ?thesis using "1.IH" [OF True] "1.prems" True by (simp add: js_bigint_normalize1_def)
  next
    case False
    then show ?thesis using "1.prems"
      by (auto simp: js_bigint_normalize1_def bigint_normal_def min_def)
  qed
qed (auto simp: js_bigint_normalize1_def bigint_normal_def)

lemma normalize_value:
  assumes "a \<noteq> []"
  shows "bigint_val (js_bigint_normalize a) = bigint_val a" and "bigint_normal (js_bigint_normalize a)"
  using normalize1_value [of "length a" a] assms
  by (simp_all add: js_bigint_normalize_def Suc_le_eq)

lemma extend_value:
  assumes "r \<noteq> []" and "js_bigint_extend ctx r op1 = Inr r'"
  shows "bigint_val r' = mp_val r + limb_span r * sint op1 \<and> bigint_normal r'"
proof (cases "redundant_limb op1 (r ! (length r - 1))")
  case True
  then show ?thesis
    using assms bigint_val_redundant [OF assms(1) True] normalize_value [OF assms(1)]
    by (simp add: js_bigint_extend_def bigint_val_snoc)
next
  case False
  then have "r' = r @ [op1]" using assms(2) by (auto simp: js_bigint_extend_def Let_def split: if_splits)
  then show ?thesis using False assms(1)
    by (auto simp: bigint_val_snoc bigint_normal_def nth_append)
qed

text \<open>A normal vector of several limbs does not fit into fewer.\<close>

lemma bigint_normal_large:
  fixes a :: "'a::len word list"
  assumes "bigint_normal a" and "length a = Suc n" and "0 < n"
  shows "2 * bigint_val a < - (2 ^ (LENGTH('a) * n)) \<or> 2 ^ (LENGTH('a) * n) \<le> 2 * bigint_val a"
proof -
  obtain xs v where a: "a = xs @ [v]" and len: "length xs = n"
    using assms(2) by (metis append_butlast_last_id length_0_conv length_append_singleton nat.distinct(1) nat.inject)
  have ne: "xs \<noteq> []" using len assms(3) by auto
  let ?N = "limb_span xs" and ?s = "uint (js_bigint_sign xs)"
  have nr: "sint v \<noteq> - ?s"
    using assms(1,2,3) len unfolding bigint_normal_def redundant_limb_iff a js_bigint_sign_def
    by (auto simp: nth_append)
  have val: "bigint_val a = mp_val xs + ?N * sint v" unfolding a by (rule bigint_val_snoc)
  have mx: "0 \<le> mp_val xs" "mp_val xs < ?N" by (simp_all add: mp_val_lt)
  have vx: "bigint_val xs = mp_val xs - ?N * ?s" by (simp add: bigint_val_def)
  note rx = bigint_val_range [OF ne]
  consider "1 \<le> sint v + ?s" | "sint v + ?s \<le> - 1" using nr by linarith
  then show ?thesis
  proof cases
    case 1
    have "?N * 1 \<le> ?N * (sint v + ?s)" using 1 by (intro mult_left_mono) simp_all
    moreover have "bigint_val a = bigint_val xs + ?N * (sint v + ?s)" unfolding val vx by (simp add: algebra_simps)
    ultimately have "?N \<le> 2 * bigint_val a" using rx by linarith
    then show ?thesis using len by simp
  next
    case 2
    have "?N * (sint v + ?s) \<le> ?N * - 1" using 2 by (intro mult_left_mono) simp_all
    moreover have "bigint_val a = bigint_val xs + ?N * (sint v + ?s)" unfolding val vx by (simp add: algebra_simps)
    ultimately have "2 * bigint_val a < - ?N" using rx by linarith
    then show ?thesis using len by simp
  qed
qed

lemma js_bind_Inr_iff: "js_bind r f = Inr y \<longleftrightarrow> (\<exists>x. r = Inr x \<and> f x = Inr y)"
  by (cases r) (auto simp: js_bind_def)

lemma js_bind_simps [simp]: "js_bind (Inr x) f = f x" "js_bind (Inl e) f = Inl e"
  by (simp_all add: js_bind_def)

lemma js_bigint_new_Inr: "js_bigint_new ctx n = Inr r \<Longrightarrow> length r = n"
  by (auto simp: js_bigint_new_def split: if_splits)

section \<open>Sign extension and complement\<close>

lemma mp_val_replicate_minus_1:
  "mp_val (replicate n (- 1 :: 'a::len word)) = 2 ^ (LENGTH('a) * n) - 1"
proof (induction n)
  case (Suc n)
  have "mp_val (replicate (Suc n) (- 1 :: 'a word)) = 2 ^ LENGTH('a) - 1 + 2 ^ LENGTH('a) * (2 ^ (LENGTH('a) * n) - 1)"
    using Suc by (simp add: unsigned_minus_1_eq_mask mask_eq_exp_minus_1)
  then show ?case by (simp add: power_add algebra_simps)
qed simp

text \<open>The limb a sign is extended with.\<close>

lemma minus_sign_cases:
  "a \<noteq> [] \<Longrightarrow> - js_bigint_sign a = (if bigint_val a < 0 then - 1 else 0)"
proof -
  assume "a \<noteq> []"
  then have "js_bigint_sign a = (if bigint_val a < 0 then 1 else 0)"
    using js_bigint_sign_value [of a] by (simp add: word_uint_eq_iff)
  then show ?thesis by simp
qed

lemma mp_val_sign_extend:
  fixes a :: "'a::len word list" and k :: nat
  assumes "a \<noteq> []"
  defines "N \<equiv> 2 ^ (LENGTH('a) * (length a + k)) :: int"
  shows "mp_val (a @ replicate k (- js_bigint_sign a)) =
    bigint_val a + (if bigint_val a < 0 then N else 0)"
proof -
  have N: "N = limb_span a * 2 ^ (LENGTH('a) * k)" by (simp add: N_def power_add algebra_simps)
  show ?thesis
    using bigint_val_sign [OF assms(1)] unfolding minus_sign_cases [OF assms(1)] mp_val_append N
    by (auto simp: mp_val_replicate_minus_1 algebra_simps split: if_splits)
qed

lemma mp_val_map_NOT: "mp_val (map NOT xs) = 2 ^ (LENGTH('a) * length xs) - 1 - mp_val (xs :: 'a::len word list)"
proof (induction xs)
  case (Cons x xs)
  have "mp_val (map NOT (x # xs)) = 2 ^ LENGTH('a) - 1 - uint x + 2 ^ LENGTH('a) * (2 ^ (LENGTH('a) * length xs) - 1 - mp_val xs)"
    using Cons by (simp add: uint_NOT)
  then show ?case by (simp add: power_add algebra_simps)
qed simp

lemma bigint_val_map_NOT:
  fixes a :: "'a::len word list"
  assumes "a \<noteq> []"
  shows "bigint_val (map NOT a) = - bigint_val a - 1"
proof (rule bigint_val_eqI [where k = "uint (js_bigint_sign a) - 1"])
  show "- bigint_val a - 1 = mp_val (map NOT a) + limb_span (map NOT a) * (uint (js_bigint_sign a) - 1)"
    unfolding mp_val_map_NOT bigint_val_def by (simp add: algebra_simps)
  have "2 * bigint_val a + 2 \<le> limb_span a"
  proof -
    have "even (limb_span a)" using assms by (cases a) simp_all
    then obtain h where "limb_span a = 2 * h" by (elim evenE)
    moreover have "bigint_val a < h" using bigint_val_range(2) [OF assms] calculation by linarith
    ultimately show ?thesis by linarith
  qed
  then show "- limb_span (map NOT a) \<le> 2 * (- bigint_val a - 1)"
    "2 * (- bigint_val a - 1) < limb_span (map NOT a)"
    using bigint_val_range(1) [OF assms] by simp_all
qed (use assms in simp)

section \<open>Addition\<close>

text \<open>The loops of \<^verbatim>\<open>js_bigint_add\<close> add the sign-extended operands.\<close>

lemma mp_add_append:
  "length xs = length ys \<Longrightarrow>
   mp_add (xs @ xs') (ys @ ys') c =
     (let (r1, c1) = mp_add xs ys c; (r2, c2) = mp_add xs' ys' c1 in (r1 @ r2, c2))"
  by (induction xs ys arbitrary: c rule: list_induct2) (auto simp: Let_def split: prod.splits)

lemma js_bigint_add_loops:
  fixes a b :: "'a::len word list" and b_neg :: bool
  assumes "a \<noteq> []" and "b \<noteq> []"
  defines "b' \<equiv> map (\<lambda>x. x XOR - of_bool b_neg) b"
  defines "xs \<equiv> a @ replicate (length b - length a) (- js_bigint_sign a)"
    and "ys \<equiv> b' @ replicate (length a - length b) (- js_bigint_sign b XOR - of_bool b_neg)"
  shows "js_bigint_add ctx a b b_neg =
    js_bind (js_bigint_new ctx (max (length a) (length b)) :: js_error + 'a word list)
      (\<lambda>_. let (r, c) = mp_add xs ys (of_bool b_neg)
            in js_bigint_extend ctx r (- js_bigint_sign a + (- js_bigint_sign b XOR - of_bool b_neg) + c))"
proof -
  have tn: "map f (take n b) = take n (map f b)" "map f (drop n b) = drop n (map f b)" for f :: "'a word \<Rightarrow> 'a word" and n
    by (simp_all add: take_map drop_map)
  consider "length a = length b" | "length a < length b" | "length b < length a" by linarith
  then show ?thesis
  proof cases
    case 1
    then show ?thesis
      by (simp add: js_bigint_add_def Let_def xs_def ys_def b'_def case_prod_beta)
  next
    case 2
    have ys: "ys = take (length a) b' @ drop (length a) b'" using 2 by (simp add: ys_def)
    have len: "length a = length (take (length a) b')" using 2 by (simp add: b'_def)
    show ?thesis
      unfolding js_bigint_add_def xs_def ys mp_add_append [OF len]
      using 2 by (simp add: Let_def case_prod_beta b'_def tn)
  next
    case 3
    have xs: "xs = take (length b) a @ drop (length b) a" using 3 by (simp add: xs_def)
    have len: "length (take (length b) a) = length b'" using 3 by (simp add: b'_def)
    show ?thesis
      unfolding js_bigint_add_def ys_def xs mp_add_append [OF len]
      using 3 by (simp add: Let_def case_prod_beta b'_def tn)
  qed
qed

lemma js_bigint_add_value:
  fixes a b :: "'a::len word list"
  assumes a: "a \<noteq> []" and b: "b \<noteq> []" and r: "js_bigint_add ctx a b b_neg = Inr r"
  shows "bigint_val r = bigint_val a + (if b_neg then - bigint_val b else bigint_val b) \<and> bigint_normal r"
proof -
  define b' where "b' = map (\<lambda>x. x XOR - of_bool b_neg) b"
  define xs ys where "xs = a @ replicate (length b - length a) (- js_bigint_sign a)"
    and "ys = b' @ replicate (length a - length b) (- js_bigint_sign b XOR - of_bool b_neg)"
  define N where "N = (2 ^ (LENGTH('a) * max (length a) (length b)) :: int)"
  have b'eq: "b' = (if b_neg then map NOT b else b)" by (auto simp: b'_def)
  have b'ne: "b' \<noteq> []" using b by (simp add: b'_def)
  have vb': "bigint_val b' = (if b_neg then - bigint_val b - 1 else bigint_val b)"
    using bigint_val_map_NOT [OF b] b'eq by simp
  have sb': "- js_bigint_sign b' = - js_bigint_sign b XOR - of_bool b_neg"
    unfolding minus_sign_cases [OF b'ne] minus_sign_cases [OF b] vb' by auto
  have lens: "length xs = length ys" "length xs = max (length a) (length b)" "length b' = length b"
    by (simp_all add: xs_def ys_def b'_def)
  have mx: "mp_val xs = bigint_val a + (if bigint_val a < 0 then N else 0)"
    unfolding xs_def mp_val_sign_extend [OF a] N_def by (simp add: max_def)
  have my: "mp_val ys = bigint_val b' + (if bigint_val b' < 0 then N else 0)"
    unfolding ys_def sb' [symmetric] using mp_val_sign_extend [OF b'ne, of "length a - length b"]
    by (simp add: lens N_def max_def)
  obtain rs c where add: "mp_add xs ys (of_bool b_neg) = (rs, c)" by (cases "mp_add xs ys (of_bool b_neg)")
  have c1: "uint (of_bool b_neg :: 'a word) \<le> 1" by simp
  note av = mp_add_value [OF add lens(1) c1]
  have ext: "js_bigint_extend ctx rs (- js_bigint_sign a + - js_bigint_sign b' + c) = Inr r"
    using r add unfolding js_bigint_add_loops [OF a b] sb' b'_def [symmetric] xs_def [symmetric] ys_def [symmetric]
    by (auto simp: js_bind_Inr_iff)
  define V k where "V = bigint_val a + bigint_val b' + of_bool b_neg"
    and "k = uint c - of_bool (bigint_val a < 0) - of_bool (bigint_val b' < 0)"
  have Vr: "V = mp_val rs + N * k"
    using av(3) unfolding mx my V_def k_def lens(2) N_def [symmetric] uint_of_bool_word
    by (auto simp: algebra_simps split: if_splits)
  have grow: "limb_span a \<le> N" "limb_span b' \<le> N"
    unfolding N_def lens(3) by (intro power_increasing mult_le_mono2; simp)+
  note ra = bigint_val_range [OF a] and rb = bigint_val_range [OF b'ne]
  have "- N \<le> V" using ra rb grow unfolding V_def by simp
  have "V < N"
  proof -
    have "even N" unfolding N_def using a by (cases a) simp_all
    then obtain h where h: "N = 2 * h" by (elim evenE)
    have "bigint_val a < h" "bigint_val b' < h" using ra rb grow unfolding h by linarith+
    then show ?thesis unfolding V_def h by (cases b_neg) simp_all
  qed
  have rs: "0 \<le> mp_val rs" "mp_val rs < N" "length rs = max (length a) (length b)"
    using mp_val_lt [of rs] av(1) lens(2) by (simp_all add: N_def)
  have rsne: "rs \<noteq> []" using rs(3) a by (auto simp: max_def split: if_splits)
  have "N * k < N * 1" "N * - 2 < N * k"
    using Vr rs \<open>V < N\<close> \<open>- N \<le> V\<close> by linarith+
  then have k: "k = - 1 \<or> k = 0" unfolding N_def by (simp only: mult_less_cancel_left_pos zero_less_power zero_less_numeral) linarith
  have "- js_bigint_sign a + - js_bigint_sign b' + c = word_of_int k"
    unfolding minus_sign_cases [OF a] minus_sign_cases [OF b'ne] k_def by simp
  then have "sint (- js_bigint_sign a + - js_bigint_sign b' + c) = k" using k by auto
  then have "bigint_val r = V \<and> bigint_normal r"
    using extend_value [OF rsne ext] rs Vr by (simp add: N_def)
  then show ?thesis unfolding V_def vb' by auto
qed

section \<open>Multiplication\<close>

lemma mp_sub_tail:
  fixes r b :: "'a::len word list"
  assumes "length r = n + length b"
  shows "\<exists>k. mp_val (take n r @ fst (mp_sub (drop n r) b 0)) =
      mp_val r - 2 ^ (LENGTH('a) * n) * mp_val b + limb_span r * k"
    and "length (take n r @ fst (mp_sub (drop n r) b 0)) = length r"
proof -
  obtain rs c where s: "mp_sub (drop n r) b 0 = (rs, c)" by (cases "mp_sub (drop n r) b 0")
  have len: "length (drop n r) = length b" using assms by simp
  note v = mp_sub_value [OF s len uint_0_le_1]
  let ?M = "2 ^ (LENGTH('a) * n) :: int"
  have tn: "length (take n r) = n" using assms by simp
  have "mp_val r = mp_val (take n r @ drop n r)" by simp
  then have r: "mp_val r = mp_val (take n r) + ?M * mp_val (drop n r)" unfolding mp_val_append tn .
  have rs: "mp_val rs = mp_val (drop n r) - mp_val b + 2 ^ (LENGTH('a) * length b) * uint c"
    using v(3) len by simp
  have "mp_val (take n r @ rs) = mp_val r - ?M * mp_val b + limb_span r * uint c"
    unfolding mp_val_append tn r rs assms by (simp add: algebra_simps power_add)
  then show "\<exists>k. mp_val (take n r @ fst (mp_sub (drop n r) b 0)) = mp_val r - ?M * mp_val b + limb_span r * k"
    using s by auto
  show "length (take n r @ fst (mp_sub (drop n r) b 0)) = length r" using s v(1) assms by simp
qed

lemma product_range:
  fixes x y M N :: int
  assumes "- M \<le> 2 * x" "2 * x < M" "- N \<le> 2 * y" "2 * y < N"
  shows "- (M * N) \<le> 2 * (x * y)" and "2 * (x * y) < M * N"
proof -
  have "\<bar>2 * x\<bar> \<le> M" "\<bar>2 * y\<bar> \<le> N" "0 < M" "0 < N" using assms by linarith+
  then have "\<bar>2 * x\<bar> * \<bar>2 * y\<bar> \<le> M * N" by (intro mult_mono) auto
  then have "\<bar>4 * (x * y)\<bar> \<le> M * N" by (simp add: abs_mult)
  moreover have "0 < M * N" using \<open>0 < M\<close> \<open>0 < N\<close> by simp
  ultimately show "- (M * N) \<le> 2 * (x * y)" and "2 * (x * y) < M * N" by linarith+
qed

lemma js_bigint_mul_value:
  fixes a b :: "'a::len word list"
  assumes a: "a \<noteq> []" and b: "b \<noteq> []" and r: "js_bigint_mul ctx a b = Inr r"
  shows "bigint_val r = bigint_val a * bigint_val b \<and> bigint_normal r"
proof -
  define p where "p = mp_mul_basecase a b"
  define p1 where "p1 = (if js_bigint_sign a \<noteq> 0 then take (length a) p @ fst (mp_sub (drop (length a) p) b 0) else p)"
  define p2 where "p2 = (if js_bigint_sign b \<noteq> 0 then take (length b) p1 @ fst (mp_sub (drop (length b) p1) a 0) else p1)"
  let ?sa = "uint (js_bigint_sign a)" and ?sb = "uint (js_bigint_sign b)"
  have rp: "r = js_bigint_normalize p2"
    using r by (auto simp: js_bigint_mul_def js_bind_Inr_iff Let_def p_def p1_def p2_def)
  note m = mp_mul_basecase_value [OF a b, folded p_def]
  have lp1: "length p1 = length p" using mp_sub_tail(2) [of p "length a" b] m(2) by (simp add: p1_def)
  have lp2: "length p2 = length p" using mp_sub_tail(2) [of p1 "length b" a] m(2) lp1 by (simp add: p2_def)
  have sab: "?sa = of_bool (js_bigint_sign a \<noteq> 0)" "?sb = of_bool (js_bigint_sign b \<noteq> 0)"
    using js_bigint_sign_value [OF a] js_bigint_sign_value [OF b] js_bigint_sign_nonzero [OF a] js_bigint_sign_nonzero [OF b]
    by simp_all
  obtain k1 where k1: "mp_val p1 = mp_val p - ?sa * (limb_span a * mp_val b) + limb_span p * k1"
    using mp_sub_tail(1) [of p "length a" b] m(2) unfolding sab p1_def
    by (cases "js_bigint_sign a = 0") (force intro: that [of 0])+
  obtain k2 where k2: "mp_val p2 = mp_val p1 - ?sb * (limb_span b * mp_val a) + limb_span p * k2"
    using mp_sub_tail(1) [of p1 "length b" a] m(2) lp1 unfolding sab p2_def
    by (cases "js_bigint_sign b = 0") (force intro: that [of 0])+
  have span: "limb_span p = limb_span a * limb_span b" unfolding m(2) by (simp add: algebra_simps power_add)
  have "bigint_val p2 = bigint_val a * bigint_val b"
  proof (rule bigint_val_eqI [where k = "?sa * ?sb - k1 - k2"])
    show "p2 \<noteq> []" using lp2 m(2) a by auto
    show "bigint_val a * bigint_val b = mp_val p2 + limb_span p2 * (?sa * ?sb - k1 - k2)"
      unfolding lp2 span k2 k1 m(1) bigint_val_def by (simp add: algebra_simps)
    show "- limb_span p2 \<le> 2 * (bigint_val a * bigint_val b)" "2 * (bigint_val a * bigint_val b) < limb_span p2"
      unfolding lp2 span using product_range [OF bigint_val_range [OF a] bigint_val_range [OF b]] by simp_all
  qed
  moreover have "p2 \<noteq> []" using lp2 m(2) a by auto
  ultimately show ?thesis using normalize_value [of p2] rp by simp
qed

section \<open>Complement and bitwise operations\<close>

lemma bigint_normal_map_NOT: "bigint_normal (map NOT a) = bigint_normal (a :: 'a::len word list)"
proof -
  have B: "2 ^ LENGTH('a) = 2 * (2 ^ (LENGTH('a) - 1) :: int)"
    using power_Suc [of "2 :: int" "LENGTH('a) - 1"] by simp
  have t: "uint (drop_bit (LENGTH('a) - 1) (NOT u)) = 1 - uint (drop_bit (LENGTH('a) - 1) (u :: 'a word))" for u
    unfolding uint_top_bit uint_NOT B by auto
  have s: "sint (NOT v) = - sint v - 1" for v :: "'a word" unfolding sint_cases_int uint_NOT B by auto
  have "redundant_limb (NOT v) (NOT u) = redundant_limb v u" for u v :: "'a word"
    unfolding redundant_limb_iff t s by auto
  then show ?thesis by (auto simp: bigint_normal_def)
qed

lemma bit_mp_val:
  "bit (mp_val (xs :: 'a::len word list)) n \<longleftrightarrow> n < LENGTH('a) * length xs \<and> bit (xs ! (n div LENGTH('a))) (n mod LENGTH('a))"
proof (induction xs arbitrary: n)
  case Nil
  then show ?case by simp
next
  case (Cons x xs)
  have "mp_val (x # xs) = concat_bit LENGTH('a) (uint x) (mp_val xs)"
    by (simp add: concat_bit_eq take_bit_int_eq_self push_bit_eq_mult)
  then have b: "bit (mp_val (x # xs)) n \<longleftrightarrow> n < LENGTH('a) \<and> bit (uint x) n \<or> LENGTH('a) \<le> n \<and> bit (mp_val xs) (n - LENGTH('a))"
    by (simp add: bit_concat_bit_iff)
  show ?case
  proof (cases "n < LENGTH('a)")
    case True
    then show ?thesis unfolding b by (auto simp: bit_uint_iff)
  next
    case False
    then have "n div LENGTH('a) = Suc ((n - LENGTH('a)) div LENGTH('a))" "n mod LENGTH('a) = (n - LENGTH('a)) mod LENGTH('a)"
      by (simp_all add: le_div_geq le_mod_geq)
    then show ?thesis unfolding b using False Cons.IH [of "n - LENGTH('a)"] by auto
  qed
qed

lemma bit_bigint_val:
  fixes a :: "'a::len word list"
  assumes "a \<noteq> []"
  shows "bit (bigint_val a) n \<longleftrightarrow>
    (if n < LENGTH('a) * length a then bit (a ! (n div LENGTH('a))) (n mod LENGTH('a)) else js_bigint_sign a \<noteq> 0)"
proof -
  let ?m = "LENGTH('a) * length a"
  have split: "bit x n \<longleftrightarrow> (if n < ?m then bit (take_bit ?m x) n else bit (drop_bit ?m x) (n - ?m))" for x :: int
    by (simp add: bit_take_bit_iff bit_drop_bit_eq)
  have s: "uint (js_bigint_sign a) = of_bool (js_bigint_sign a \<noteq> 0)"
    using js_bigint_sign_value [OF assms] js_bigint_sign_nonzero [OF assms] by simp
  have v: "bigint_val a = mp_val a + 2 ^ ?m * (- uint (js_bigint_sign a))" by (simp add: bigint_val_def)
  have lt: "0 \<le> mp_val a" "mp_val a < 2 ^ ?m" by (simp_all add: mp_val_lt)
  have "take_bit ?m (bigint_val a) = mp_val a"
    unfolding take_bit_eq_mod v mod_mult_self2 using lt by simp
  moreover have "drop_bit ?m (bigint_val a) = - uint (js_bigint_sign a)"
    unfolding drop_bit_eq_div v using lt by (subst div_mult_self2) simp_all
  ultimately have "bit (bigint_val a) n \<longleftrightarrow>
      (if n < ?m then bit (mp_val a) n else bit (- uint (js_bigint_sign a)) (n - ?m))"
    using split [of "bigint_val a"] by simp
  then show ?thesis unfolding s bit_mp_val by (cases "js_bigint_sign a = 0") simp_all
qed

lemma bigint_bit_top:
  fixes a :: "'a::len word list"
  assumes "a \<noteq> []"
  shows "js_bigint_sign a \<noteq> 0 \<longleftrightarrow> bit (a ! (length a - 1)) (LENGTH('a) - 1)"
proof -
  have "bit (drop_bit (LENGTH('a) - 1) x) 0 \<longleftrightarrow> drop_bit (LENGTH('a) - 1) x \<noteq> 0" for x :: "'a word"
  proof -
    have "uint (drop_bit (LENGTH('a) - 1) x) = 0 \<or> uint (drop_bit (LENGTH('a) - 1) x) = 1"
      unfolding uint_top_bit by simp
    then have "drop_bit (LENGTH('a) - 1) x = 0 \<or> drop_bit (LENGTH('a) - 1) x = 1"
      by (simp add: word_uint_eq_iff)
    then show ?thesis by auto
  qed
  then show ?thesis unfolding js_bigint_sign_def by (simp add: bit_drop_bit_eq)
qed

definition int_logic :: "logic_op \<Rightarrow> int \<Rightarrow> int \<Rightarrow> int" where
  "int_logic op x y = (case op of OP_or \<Rightarrow> x OR y | OP_and \<Rightarrow> x AND y | OP_xor \<Rightarrow> x XOR y)"

definition bool_logic :: "logic_op \<Rightarrow> bool \<Rightarrow> bool \<Rightarrow> bool" where
  "bool_logic op x y = (case op of OP_or \<Rightarrow> x \<or> y | OP_and \<Rightarrow> x \<and> y | OP_xor \<Rightarrow> x \<noteq> y)"

lemma bit_logic:
  "bit (int_logic op x y) n = bool_logic op (bit x n) (bit y n)"
  "i < LENGTH('a) \<Longrightarrow> bit (limb_logic op u v) i = bool_logic op (bit u i) (bit (v :: 'a::len word) i)"
  by (cases op; simp add: int_logic_def limb_logic_def bool_logic_def bit_simps)+

lemma int_logic_commute: "int_logic op x y = int_logic op y x"
  by (cases op) (simp_all add: int_logic_def ac_simps)

lemma logic_limbs_value:
  fixes a b :: "'a::len word list" and op :: logic_op
  assumes "b \<noteq> []" and "length b \<le> length a"
  defines "r \<equiv> map2 (limb_logic op) (take (length b) a) b @ map (\<lambda>x. limb_logic op x (- js_bigint_sign b)) (drop (length b) a)"
  shows "bigint_val r = int_logic op (bigint_val a) (bigint_val b)" and "r \<noteq> []"
proof -
  have len: "length r = length a" using assms by (simp add: r_def)
  have a: "a \<noteq> []" using assms by auto
  show r: "r \<noteq> []" using len a by auto
  have nth: "r ! i = limb_logic op (a ! i) (if i < length b then b ! i else - js_bigint_sign b)" if "i < length a" for i
    using that assms(2) by (auto simp: r_def nth_append)
  have sgn: "bit (- js_bigint_sign b) i \<longleftrightarrow> js_bigint_sign b \<noteq> 0" if "i < LENGTH('a)" for i
    using that unfolding minus_sign_cases [OF assms(1)] js_bigint_sign_nonzero [OF assms(1)] by simp
  have bits: "bit (r ! i) k = bool_logic op (bit (a ! i) k) (if i < length b then bit (b ! i) k else js_bigint_sign b \<noteq> 0)"
    if "i < length a" "k < LENGTH('a)" for i k
    using that nth [OF that(1)] sgn [OF that(2)] by (simp add: bit_logic)
  show "bigint_val r = int_logic op (bigint_val a) (bigint_val b)"
  proof (rule bit_eqI)
    fix n
    let ?w = "LENGTH('a)"
    have nb: "n < ?w * length b \<longleftrightarrow> n div ?w < length b" for b :: "'a word list"
      by (simp add: div_less_iff_less_mult mult.commute)
    show "bit (bigint_val r) n = bit (int_logic op (bigint_val a) (bigint_val b)) n"
    proof (cases "n < ?w * length a")
      case True
      then show ?thesis
        unfolding bit_logic bit_bigint_val [OF r] bit_bigint_val [OF a] bit_bigint_val [OF assms(1)] len
        using bits [of "n div ?w" "n mod ?w"] nb by simp
    next
      case False
      have "\<not> n < ?w * length b" using False assms(2) mult_le_mono2 [OF assms(2), of ?w] by linarith
      moreover have "js_bigint_sign r \<noteq> 0 \<longleftrightarrow> bool_logic op (js_bigint_sign a \<noteq> 0) (js_bigint_sign b \<noteq> 0)"
      proof -
        have i: "length a - 1 < length a" using a by simp
        note bt = bits [OF i, of "?w - 1"]
        show ?thesis
        proof (cases "length a = length b")
          case True
          then show ?thesis using bt a len
            unfolding bigint_bit_top [OF r] bigint_bit_top [OF a] bigint_bit_top [OF assms(1)] by simp
        next
          case False
          then have "\<not> length a - 1 < length b" using assms(2) by linarith
          then show ?thesis using bt len
            unfolding bigint_bit_top [OF r] bigint_bit_top [OF a] by simp
        qed
      qed
      ultimately show ?thesis
        unfolding bit_logic bit_bigint_val [OF r] bit_bigint_val [OF a] bit_bigint_val [OF assms(1)] len
        using False by simp
    qed
  qed
qed

section \<open>Shifts\<close>

lemma mp_val_zeros: "mp_val (replicate d 0 @ xs :: 'a::len word list) = 2 ^ (LENGTH('a) * d) * mp_val xs"
  by (simp add: mp_val_append)

lemma nth_zeros_last: "a \<noteq> [] \<Longrightarrow> (replicate d 0 @ a) ! (length (replicate d 0 @ a) - 1) = a ! (length a - 1)"
  by (cases a rule: rev_cases) (auto simp: nth_append)

lemma bigint_val_zeros:
  "a \<noteq> [] \<Longrightarrow> bigint_val (replicate d 0 @ a :: 'a::len word list) = 2 ^ (LENGTH('a) * d) * bigint_val a"
  unfolding bigint_val_def mp_val_zeros js_bigint_sign_def nth_zeros_last
  by (simp add: power_add algebra_simps)

lemma bigint_normal_zeros:
  assumes "bigint_normal (a :: 'a::len word list)" and "\<not> (length a = 1 \<and> a ! 0 = 0)"
  shows "bigint_normal (replicate d 0 @ a)"
proof -
  have a: "a \<noteq> []" using assms by (simp add: bigint_normal_def)
  then have l: "0 < length a" by simp
  have last: "(replicate d 0 @ a) ! (length (replicate d 0 @ a) - 1) = a ! (length a - 1)"
    by (rule nth_zeros_last [OF a])
  show ?thesis
  proof (cases "length a = 1")
    case True
    then obtain x where x: "a = [x]" by (auto simp: length_Suc_conv)
    have nz: "sint x \<noteq> 0" using assms(2) x word_eq_iff_signed [of x 0] by simp
    have "(replicate d 0 @ [x]) ! (length (replicate d 0 @ [x]) - 2) = 0" if "2 \<le> length (replicate d 0 @ [x])"
      using that by (simp add: nth_append)
    then show ?thesis using nz last x by (auto simp: bigint_normal_def redundant_limb_iff)
  next
    case False
    then have "2 \<le> length a" using l by linarith
    then have "(replicate d 0 @ a) ! (length (replicate d 0 @ a) - 2) = a ! (length a - 2)"
      unfolding nth_append by (subst if_not_P) (simp_all add: algebra_simps)
    then show ?thesis using last assms(1) \<open>2 \<le> length a\<close> by (simp add: bigint_normal_def)
  qed
qed

text \<open>The bits shifted out at the top, with the sign put above them, as a signed number.\<close>

lemma sint_shl_top:
  fixes l :: "'a::len word"
  assumes "uint l < 2 ^ s" and "s < LENGTH('a)"
  shows "sint l = uint l" and "sint (l OR push_bit s (- 1)) = uint l - 2 ^ s"
proof -
  have B: "2 ^ LENGTH('a) = 2 * (2 ^ (LENGTH('a) - 1) :: int)"
    using power_Suc [of "2 :: int" "LENGTH('a) - 1"] by simp
  have s: "2 ^ s \<le> (2 ^ (LENGTH('a) - 1) :: int)" using assms(2) by (intro power_increasing) auto
  have "\<not> 2 ^ LENGTH('a) \<le> 2 * uint l" using assms(1) s unfolding B by linarith
  then show "sint l = uint l" unfolding sint_cases_int by simp
  have "uint (push_bit s (- 1 :: 'a word)) = 2 ^ LENGTH('a) - 2 ^ s"
  proof -
    have BS: "2 ^ LENGTH('a) = 2 ^ (LENGTH('a) - s) * (2 ^ s :: int)" using assms(2) by (simp flip: power_add)
    have "uint (push_bit s (- 1 :: 'a word)) = (2 ^ LENGTH('a) - 1) * 2 ^ s mod 2 ^ LENGTH('a)"
      unfolding uint_push_bit by (simp add: unsigned_minus_1_eq_mask mask_eq_exp_minus_1)
    also have "(2 ^ LENGTH('a) - 1) * 2 ^ s = (2 ^ LENGTH('a) - 2 ^ s) + (2 ^ s - 1) * (2 ^ LENGTH('a) :: int)"
      by (simp add: algebra_simps)
    also have "\<dots> mod 2 ^ LENGTH('a) = 2 ^ LENGTH('a) - 2 ^ s"
    proof -
      have "0 < (2 :: int) ^ s" by simp
      then show ?thesis unfolding mod_mult_self1 using s B by (intro mod_pos_pos_trivial) linarith+
    qed
    finally show ?thesis .
  qed
  moreover have "uint (push_bit s (- 1) OR l) = uint (push_bit s (- 1 :: 'a word)) + uint l"
    by (rule uint_or_disjoint [OF push_bit_and_small [OF assms(1)]])
  ultimately have u: "uint (l OR push_bit s (- 1)) = 2 ^ LENGTH('a) - 2 ^ s + uint l" by (simp add: or.commute)
  then have "2 ^ LENGTH('a) \<le> 2 * uint (l OR push_bit s (- 1))"
    using s uint_ge_0 [of l] unfolding B by linarith
  then show "sint (l OR push_bit s (- 1)) = uint l - 2 ^ s"
    using u unfolding sint_cases_int by simp
qed

lemma js_bigint_new_si_Inr: "js_bigint_new_si ctx a = Inr r \<Longrightarrow> r = [a]"
  by (auto simp: js_bigint_new_si_def js_bigint_new_def js_bind_def split: if_splits)

lemma js_bigint_shl_value:
  fixes a :: "'a::len word list"
  assumes a: "bigint_normal a" and r: "js_bigint_shl ctx a n = Inr r"
  shows "bigint_val r = bigint_val a * 2 ^ n \<and> bigint_normal r"
proof (cases "length a = 1 \<and> a ! 0 = 0")
  case True
  then have "a = [0]" by (auto simp: length_Suc_conv)
  moreover from this have "r = [0]"
    using r True by (auto simp: js_bigint_shl_def dest: js_bigint_new_si_Inr)
  ultimately show ?thesis by (simp add: bigint_val_def bigint_normal_def js_bigint_sign_def)
next
  case False
  define d s where "d = n div LENGTH('a)" and "s = n mod LENGTH('a)"
  have ne: "a \<noteq> []" using a by (simp add: bigint_normal_def)
  have s: "s < LENGTH('a)" by (simp add: s_def)
  have n: "(2 :: int) ^ n = 2 ^ (LENGTH('a) * d) * 2 ^ s" by (simp add: d_def s_def flip: power_add)
  show ?thesis
  proof (cases "s = 0")
    case True
    then have "r = replicate d 0 @ a"
      using r False by (auto simp: js_bigint_shl_def js_bind_Inr_iff Let_def d_def s_def)
    then show ?thesis
      using bigint_val_zeros [OF ne] bigint_normal_zeros [OF a False] n True by simp
  next
    case s0: False
    obtain rs l where sh: "mp_shl a s = (rs, l)" by (cases "mp_shl a s")
    note v = mp_shl_value [OF sh less_imp_le [OF s]]
    define l' where "l' = (if js_bigint_sign a \<noteq> 0 then l OR push_bit s (- 1) else l)"
    have ext: "js_bigint_extend ctx (replicate d 0 @ rs) l' = Inr r"
      using r False s0 sh by (auto simp: js_bigint_shl_def js_bind_Inr_iff Let_def l'_def d_def s_def)
    have "sint l' = uint l - 2 ^ s * uint (js_bigint_sign a)"
      using sint_shl_top [OF v(2) s] js_bigint_sign_value [OF ne] js_bigint_sign_nonzero [OF ne]
      by (auto simp: l'_def)
    then have "mp_val rs + limb_span a * sint l' =
        (mp_val rs + limb_span a * uint l) - limb_span a * (2 ^ s * uint (js_bigint_sign a))"
      by (simp add: right_diff_distrib)
    also have "\<dots> = 2 ^ s * bigint_val a" unfolding v(3) bigint_val_def by (simp add: algebra_simps)
    finally have "mp_val rs + limb_span a * sint l' = 2 ^ s * bigint_val a" .
    moreover have "bigint_val r = 2 ^ (LENGTH('a) * d) * (mp_val rs + limb_span a * sint l') \<and> bigint_normal r"
    proof -
      have "replicate d 0 @ rs \<noteq> []" using v(1) ne by auto
      from extend_value [OF this ext] show ?thesis unfolding mp_val_zeros using v(1)
        by (simp add: power_add algebra_simps)
    qed
    ultimately show ?thesis using n by (simp add: algebra_simps)
  qed
qed

lemma div_by_larger:
  fixes x M P :: int
  assumes "- M \<le> 2 * x" and "2 * x < M" and "M \<le> P"
  shows "x div P = (if x < 0 then - 1 else 0)"
proof -
  have "0 < P" using assms by linarith
  then show ?thesis using assms by (simp add: int_div_eq_iff)
qed

lemma div_between:
  fixes h x P :: int
  assumes "- h \<le> x" and "x < h" and "1 \<le> P"
  shows "- h \<le> x div P" and "x div P < h"
proof -
  have P: "0 < P" using assms(3) by linarith
  have h: "0 < h" using assms by linarith
  have "h * 1 \<le> h * P" using h assms(3) by (intro mult_left_mono) auto
  then have "x < h * P" "- h * P \<le> x" using assms(1,2) unfolding mult_minus_left mult_1_right by linarith+
  then show "- h \<le> x div P" and "x div P < h"
    using int_div_less_iff [OF P, of x h] int_div_less_iff [OF P, of x "- h"] by simp_all
qed

lemma js_bigint_shr_value:
  fixes a :: "'a::len word list"
  assumes a: "bigint_normal a" and r: "js_bigint_shr ctx a n = Inr r"
  shows "bigint_val r = bigint_val a div 2 ^ n \<and> bigint_normal r"
proof -
  define d s where "d = n div LENGTH('a)" and "s = n mod LENGTH('a)"
  have ne: "a \<noteq> []" using a by (simp add: bigint_normal_def)
  have s: "s < LENGTH('a)" by (simp add: s_def)
  have n: "(2 :: int) ^ n = 2 ^ (LENGTH('a) * d) * 2 ^ s" by (simp add: d_def s_def flip: power_add)
  note ra = bigint_val_range [OF ne]
  show ?thesis
  proof (cases "length a \<le> d")
    case True
    then have "r = [- js_bigint_sign a]" using r
      by (auto simp: js_bigint_shr_def Let_def d_def dest: js_bigint_new_si_Inr)
    moreover have "limb_span a \<le> 2 ^ n"
      unfolding n power_add [symmetric] using mult_le_mono2 [OF True, of "LENGTH('a)"]
      by (intro power_increasing) linarith+
    moreover from this have "bigint_val a div 2 ^ n = (if bigint_val a < 0 then - 1 else 0)"
      by (rule div_by_larger [OF ra])
    ultimately show ?thesis
      by (auto simp: bigint_val_snoc [of "[]", simplified] bigint_normal_def minus_sign_cases [OF ne])
  next
    case False
    define xs where "xs = drop d a"
    have xs: "xs \<noteq> []" using False by (simp add: xs_def)
    have sx: "js_bigint_sign xs = js_bigint_sign a" using False by (simp add: xs_def js_bigint_sign_def)
    have td: "length (take d a) = d" using False by simp
    have "mp_val a = mp_val (take d a @ xs)" by (simp add: xs_def)
    then have ma: "mp_val a = mp_val (take d a) + 2 ^ (LENGTH('a) * d) * mp_val xs" unfolding mp_val_append td .
    have span: "limb_span a = 2 ^ (LENGTH('a) * d) * limb_span xs"
      using False by (simp add: xs_def flip: power_add distrib_left)
    have va: "bigint_val a = mp_val (take d a) + 2 ^ (LENGTH('a) * d) * bigint_val xs"
      unfolding bigint_val_def ma span sx by (simp add: algebra_simps)
    have dv: "bigint_val a div 2 ^ (LENGTH('a) * d) = bigint_val xs"
      unfolding va using mp_val_lt [of "take d a"] td by simp
    have dn: "bigint_val a div 2 ^ n = bigint_val xs div 2 ^ s"
      unfolding n by (simp add: zdiv_zmult2_eq dv)
    show ?thesis
    proof (cases "s = 0")
      case True
      then have "r = xs" using r False by (auto simp: js_bigint_shr_def js_bind_Inr_iff Let_def d_def s_def xs_def)
      moreover have "bigint_normal xs" using a False
        by (auto simp: xs_def bigint_normal_def)
      ultimately show ?thesis using dn True by simp
    next
      case s0: False
      obtain rs t where sh: "mp_shr xs s (- js_bigint_sign a) = (rs, t)"
        by (cases "mp_shr xs s (- js_bigint_sign a)")
      note v = mp_shr_value [OF sh s]
      let ?sg = "uint (js_bigint_sign a)" and ?N = "limb_span xs"
      have hi: "uint (- js_bigint_sign a) mod 2 ^ s = (2 ^ s - 1) * ?sg"
      proof -
        have "(2 ^ LENGTH('a) - 1) mod 2 ^ s = (2 ^ s - 1 :: int)"
        proof -
          have "2 ^ LENGTH('a) - 1 = (2 ^ s - 1) + (2 ^ (LENGTH('a) - s) - 1) * (2 ^ s :: int)"
            using s by (simp add: algebra_simps flip: power_add)
          also have "\<dots> mod 2 ^ s = 2 ^ s - 1" unfolding mod_mult_self1 by (intro mod_pos_pos_trivial) simp_all
          finally show ?thesis .
        qed
        then show ?thesis unfolding minus_sign_cases [OF ne] js_bigint_sign_value [OF ne]
          by (simp add: unsigned_minus_1_eq_mask mask_eq_exp_minus_1)
      qed
      have "mp_val xs + ?N * ((2 ^ s - 1) * ?sg) = bigint_val xs + (?N * ?sg) * 2 ^ s"
        unfolding bigint_val_def sx by (simp add: algebra_simps)
      then have rs: "mp_val rs = bigint_val xs div 2 ^ s + ?N * ?sg" using v(2) hi by simp
      have rsne: "rs \<noteq> []" using v(1) xs by auto
      have "bigint_val rs = bigint_val xs div 2 ^ s"
      proof (rule bigint_val_eqI [OF rsne, where k = "- ?sg"])
        show "bigint_val xs div 2 ^ s = mp_val rs + limb_span rs * - ?sg" unfolding rs v(1) by simp
        have "even ?N" using xs by (cases xs) simp_all
        then obtain h where h: "?N = 2 * h" by (elim evenE)
        note rx = bigint_val_range [OF xs]
        have "- h \<le> bigint_val xs" "bigint_val xs < h" using rx unfolding h by linarith+
        then have "- h \<le> bigint_val xs div 2 ^ s" "bigint_val xs div 2 ^ s < h"
          using div_between [of h "bigint_val xs" "2 ^ s"] by simp_all
        then show "- limb_span rs \<le> 2 * (bigint_val xs div 2 ^ s)" "2 * (bigint_val xs div 2 ^ s) < limb_span rs"
          unfolding v(1) h by linarith+
      qed
      moreover have "r = js_bigint_normalize rs"
        using r False s0 sh by (auto simp: js_bigint_shr_def js_bind_Inr_iff Let_def d_def s_def xs_def)
      ultimately show ?thesis using normalize_value [OF rsne] dn by simp
    qed
  qed
qed

section \<open>Comparison\<close>

lemma limbs_cmp_value:
  assumes "length xs = length (ys :: 'a::len word list)"
  shows "limbs_cmp xs ys = sgn (mp_val (rev xs) - mp_val (rev ys))"
  using assms
proof (induction xs ys rule: list_induct2)
  case Nil
  then show ?case by simp
next
  case (Cons x xs y ys)
  let ?N = "2 ^ (LENGTH('a) * length xs) :: int"
  have lt: "mp_val (rev xs) < ?N" "mp_val (rev ys) < ?N"
    using mp_val_lt [of "rev xs"] mp_val_lt [of "rev ys"] Cons.hyps by simp_all
  have v: "mp_val (rev (x # xs)) = mp_val (rev xs) + ?N * uint x"
    "mp_val (rev (y # ys)) = mp_val (rev ys) + ?N * uint y"
    using Cons.hyps by (simp_all add: mp_val_append)
  consider "x = y" | "uint x < uint y" | "uint y < uint x"
    by (metis linorder_neqE word_uint_eq_iff)
  then show ?case
  proof cases
    case 1
    then show ?thesis using Cons.IH unfolding v by simp
  next
    case 2
    then have "?N * (uint x + 1) \<le> ?N * uint y" by (intro mult_left_mono) simp_all
    then have "mp_val (rev (x # xs)) < mp_val (rev (y # ys))"
      unfolding v distrib_left using lt mp_val_nonneg [of "rev ys"] by linarith
    with 2 show ?thesis by (auto simp: word_less_def)
  next
    case 3
    then have "?N * (uint y + 1) \<le> ?N * uint x" by (intro mult_left_mono) simp_all
    then have "mp_val (rev (y # ys)) < mp_val (rev (x # xs))"
      unfolding v distrib_left using lt mp_val_nonneg [of "rev xs"] by linarith
    with 3 show ?thesis by (auto simp: word_less_def)
  qed
qed

text \<open>A longer normal vector has the larger absolute value.\<close>

lemma longer_bigint:
  fixes a b :: "'a::len word list"
  assumes "a \<noteq> []" and "bigint_normal b" and "length a < length b"
  shows "if bigint_val b < 0 then bigint_val b < bigint_val a else bigint_val a < bigint_val b"
proof -
  have "0 < length a" using assms(1) by simp
  then have lb: "length b = Suc (length b - 1)" "0 < length b - 1" using assms(3) by linarith+
  have le: "limb_span a \<le> 2 ^ (LENGTH('a) * (length b - 1))"
    using assms(3) by (intro power_increasing mult_le_mono2) linarith+
  show ?thesis
    using bigint_normal_large [OF assms(2) lb] bigint_val_range [OF assms(1)] le limb_span_pos [of a]
    by (simp only: split: if_splits) linarith
qed

lemma js_bigint_cmp_value:
  fixes a b :: "'a::len word list"
  assumes a: "bigint_normal a" and b: "bigint_normal b"
  shows "js_bigint_cmp a b = sgn (bigint_val a - bigint_val b)"
proof -
  have ne: "a \<noteq> []" "b \<noteq> []" using a b by (simp_all add: bigint_normal_def)
  note s = js_bigint_sign_value [OF ne(1)] js_bigint_sign_value [OF ne(2)]
  consider "(bigint_val a < 0) \<noteq> (bigint_val b < 0)"
    | "(bigint_val a < 0) = (bigint_val b < 0)" "length a < length b"
    | "(bigint_val a < 0) = (bigint_val b < 0)" "length b < length a"
    | "(bigint_val a < 0) = (bigint_val b < 0)" "length a = length b" by linarith
  then show ?thesis
  proof cases
    case 1
    then show ?thesis using s by (auto simp: js_bigint_cmp_def Let_def)
  next
    case 2
    then show ?thesis using s longer_bigint [OF ne(1) b 2(2)]
      by (auto simp: js_bigint_cmp_def Let_def split: if_splits)
  next
    case 3
    then show ?thesis using s longer_bigint [OF ne(2) a 3(2)]
      by (auto simp: js_bigint_cmp_def Let_def split: if_splits)
  next
    case 4
    then have "bigint_val a - bigint_val b = mp_val a - mp_val b"
      using s unfolding bigint_val_def by auto
    then show ?thesis using s 4 limbs_cmp_value [of "rev a" "rev b"]
      by (auto simp: js_bigint_cmp_def Let_def)
  qed
qed

section \<open>Division\<close>

lemma last_take_nth: "1 \<le> n \<Longrightarrow> n \<le> length xs \<Longrightarrow> last (take n xs) = xs ! (n - 1)"
  by (cases n) (simp_all add: take_Suc_conv_app_nth)

lemma mp_abs_value:
  assumes "a \<noteq> []"
  shows "length (mp_abs a) = length a" and "mp_val (mp_abs a) = \<bar>bigint_val a\<bar>"
proof -
  obtain rs c where n: "mp_neg a = (rs, c)" by (cases "mp_neg a")
  note v = mp_neg_value [OF n]
  show "length (mp_abs a) = length a" using n v(1) by (simp add: mp_abs_def)
  show "mp_val (mp_abs a) = \<bar>bigint_val a\<bar>"
  proof (cases "bigint_val a < 0")
    case True
    have ba: "bigint_val a = mp_val a - limb_span a" using bigint_val_sign [OF assms] True by simp
    have "uint c = 0"
    proof (rule ccontr)
      assume "uint c \<noteq> 0"
      then have "uint c = 1" using v(2) uint_ge_0 [of c] by linarith
      then have "mp_val rs = - mp_val a" using v(3) by simp
      then have "mp_val a = 0" using mp_val_nonneg [of rs] mp_val_nonneg [of a] by linarith
      then have "2 * bigint_val a < - limb_span a" using ba limb_span_pos [of a] by linarith
      then show False using bigint_val_range(1) [OF assms] by linarith
    qed
    then show ?thesis using v(3) ba True n js_bigint_sign_nonzero [OF assms] by (simp add: mp_abs_def)
  next
    case False
    then show ?thesis using bigint_val_sign [OF assms] js_bigint_sign_nonzero [OF assms] by (simp add: mp_abs_def)
  qed
qed

lemma strip_len_value:
  fixes tab :: "'a::len word list"
  assumes "1 \<le> n" and "n \<le> length tab"
  shows "1 \<le> strip_len tab n \<and> strip_len tab n \<le> n \<and> mp_val (take (strip_len tab n) tab) = mp_val (take n tab) \<and>
    (strip_len tab n = 1 \<or> tab ! (strip_len tab n - 1) \<noteq> 0)"
  using assms
proof (induction tab n rule: strip_len.induct)
  case (1 tab n)
  show ?case
  proof (cases "tab ! Suc n = 0")
    case True
    have "take (Suc (Suc n)) tab = take (Suc n) tab @ [0]"
      using "1.prems" True by (simp add: take_Suc_conv_app_nth)
    then have "mp_val (take (Suc (Suc n)) tab) = mp_val (take (Suc n) tab)" by (simp add: mp_val_append)
    then show ?thesis using "1.IH" [OF True] "1.prems" True by auto
  next
    case False
    then show ?thesis by simp
  qed
qed simp_all

lemma normalised_iff:
  assumes "xs \<noteq> []"
  shows "2 ^ LENGTH('a) \<le> 2 * uint (last xs) \<longleftrightarrow> limb_span xs \<le> 2 * mp_val (xs :: 'a::len word list)"
proof -
  let ?M = "2 ^ (LENGTH('a) * (length xs - 1)) :: int"
  have B: "2 ^ LENGTH('a) = 2 * (2 ^ (LENGTH('a) - 1) :: int)"
    using power_Suc [of "2 :: int" "LENGTH('a) - 1"] by simp
  have N: "limb_span xs = 2 ^ LENGTH('a) * ?M" using assms by (cases xs) (simp_all add: power_add)
  note v = mp_val_butlast_last [OF assms]
  show ?thesis
  proof
    assume "2 ^ LENGTH('a) \<le> 2 * uint (last xs)"
    then have "2 ^ LENGTH('a) * ?M \<le> 2 * uint (last xs) * ?M" by (intro mult_right_mono) simp_all
    then show "limb_span xs \<le> 2 * mp_val xs"
      unfolding N v(1) mult.assoc distrib_left using mp_val_nonneg [of "butlast xs"] by linarith
  next
    assume le: "limb_span xs \<le> 2 * mp_val xs"
    show "2 ^ LENGTH('a) \<le> 2 * uint (last xs)"
    proof (rule ccontr)
      assume "\<not> 2 ^ LENGTH('a) \<le> 2 * uint (last xs)"
      then have "2 * (uint (last xs) + 1) \<le> 2 ^ LENGTH('a)" unfolding B by simp
      then have "2 * (uint (last xs) + 1) * ?M \<le> 2 ^ LENGTH('a) * ?M" by (intro mult_right_mono) simp_all
      then show False using le v(2) unfolding N v(1) by (simp add: algebra_simps)
    qed
  qed
qed

lemma js_limb_clz_bounds:
  assumes "x \<noteq> (0 :: 'a::len word)"
  shows "js_limb_clz x < LENGTH('a)" and "2 ^ LENGTH('a) \<le> 2 * (2 ^ js_limb_clz x * uint x)"
    and "2 ^ js_limb_clz x * uint x < 2 ^ LENGTH('a)"
proof -
  have "0 < uint x" using assms by (simp add: word_neq_0_conv word_less_def)
  then have c: "js_limb_clz x < LENGTH('a) \<and> 2 ^ (LENGTH('a) - 1 - js_limb_clz x) \<le> uint x \<and>
      uint x < 2 ^ (LENGTH('a) - js_limb_clz x)"
    using clz_from_bounds [of x "LENGTH('a)"] by (simp add: js_limb_clz_def)
  then show k: "js_limb_clz x < LENGTH('a)" by simp
  have "2 ^ js_limb_clz x * 2 ^ (LENGTH('a) - 1 - js_limb_clz x) \<le> 2 ^ js_limb_clz x * uint x"
    using c by (intro mult_left_mono) simp_all
  then have "2 ^ (LENGTH('a) - 1) \<le> 2 ^ js_limb_clz x * uint x" using k by (simp flip: power_add)
  moreover have "2 ^ LENGTH('a) = 2 * (2 ^ (LENGTH('a) - 1) :: int)"
    using power_Suc [of "2 :: int" "LENGTH('a) - 1"] by simp
  ultimately show "2 ^ LENGTH('a) \<le> 2 * (2 ^ js_limb_clz x * uint x)" by linarith
  have "2 ^ js_limb_clz x * uint x < 2 ^ js_limb_clz x * 2 ^ (LENGTH('a) - js_limb_clz x)"
    using c by (intro mult_strict_left_mono) simp_all
  then show "2 ^ js_limb_clz x * uint x < 2 ^ LENGTH('a)" using k by (simp flip: power_add)
qed

text \<open>Shifting the divisor until its top bit is set loses nothing and leaves it normalised.\<close>

lemma shl_divisor:
  fixes tb :: "'a::len word list"
  assumes "tb \<noteq> []" and "last tb \<noteq> 0"
  defines "s \<equiv> js_limb_clz (last tb)"
  defines "tb' \<equiv> if s \<noteq> 0 then fst (mp_shl tb s) else tb"
  shows "length tb' = length tb" and "mp_val tb' = 2 ^ s * mp_val tb" and "2 ^ LENGTH('a) \<le> 2 * uint (last tb')"
proof -
  note c = js_limb_clz_bounds [OF assms(2), folded s_def]
  let ?M = "2 ^ (LENGTH('a) * (length tb - 1)) :: int"
  have N: "limb_span tb = 2 ^ LENGTH('a) * ?M" using assms(1) by (cases tb) (simp_all add: power_add)
  note v = mp_val_butlast_last [OF assms(1)]
  have "2 ^ s * uint (last tb) + 2 ^ s \<le> 2 ^ LENGTH('a)"
  proof -
    have "(2 :: int) ^ LENGTH('a) = 2 ^ s * 2 ^ (LENGTH('a) - s)" using c(1) by (simp flip: power_add)
    then have "uint (last tb) + 1 \<le> 2 ^ (LENGTH('a) - s)" using c(3) by simp
    then have "2 ^ s * (uint (last tb) + 1) \<le> 2 ^ s * 2 ^ (LENGTH('a) - s)" by (intro mult_left_mono) simp_all
    then show ?thesis using \<open>(2 :: int) ^ LENGTH('a) = 2 ^ s * 2 ^ (LENGTH('a) - s)\<close> by (simp add: distrib_left)
  qed
  then have "(2 ^ s * uint (last tb) + 2 ^ s) * ?M \<le> 2 ^ LENGTH('a) * ?M" by (intro mult_right_mono) simp_all
  moreover have "2 ^ s * mp_val (butlast tb) < 2 ^ s * ?M" using v(2) by (intro mult_strict_left_mono) simp_all
  ultimately have hi: "2 ^ s * mp_val tb < limb_span tb" unfolding N v(1) distrib_left distrib_right mult.assoc by linarith
  obtain rs h where sh: "mp_shl tb s = (rs, h)" by (cases "mp_shl tb s")
  note w = mp_shl_value [OF sh less_imp_le [OF c(1)]]
  have "uint h = 0"
  proof (rule ccontr)
    assume "uint h \<noteq> 0"
    then have "limb_span tb * 1 \<le> limb_span tb * uint h" using uint_ge_0 [of h] by (intro mult_left_mono) (linarith, simp)
    then show False using w(3) hi mp_val_nonneg [of rs] by linarith
  qed
  then have rs: "mp_val rs = 2 ^ s * mp_val tb" using w(3) by simp
  show len: "length tb' = length tb" using sh w(1) by (simp add: tb'_def)
  show val: "mp_val tb' = 2 ^ s * mp_val tb" using sh rs by (simp add: tb'_def)
  have "2 ^ LENGTH('a) * ?M \<le> 2 * (2 ^ s * uint (last tb)) * ?M" using c(2) by (intro mult_right_mono) simp_all
  moreover have "0 \<le> 2 ^ s * mp_val (butlast tb)" by simp
  ultimately have "limb_span tb \<le> 2 * mp_val tb'"
    unfolding val N v(1) distrib_left mult.assoc by linarith
  then show "2 ^ LENGTH('a) \<le> 2 * uint (last tb')"
  proof -
    have "tb' \<noteq> []" using len assms(1) by auto
    then show ?thesis using normalised_iff [of tb'] len \<open>limb_span tb \<le> 2 * mp_val tb'\<close> by simp
  qed
qed

text \<open>The negation of a vector whose top limb is zero.\<close>

lemma mp_neg_top_zero:
  fixes xs :: "'a::len word list"
  shows "bigint_val (xs @ [0]) = mp_val xs" and "bigint_val (fst (mp_neg (xs @ [0]))) = - mp_val xs"
    and "length (fst (mp_neg (xs @ [0]))) = Suc (length xs)"
proof -
  show "bigint_val (xs @ [0]) = mp_val xs" by (simp add: bigint_val_snoc)
  obtain rs c where n: "mp_neg (xs @ [0]) = (rs, c)" by (cases "mp_neg (xs @ [0])")
  note v = mp_neg_value [OF n]
  have m: "mp_val (xs @ [0]) = mp_val xs" by (simp add: mp_val_append)
  have span: "limb_span (xs @ [0]) = limb_span xs * 2 ^ LENGTH('a)" by (simp add: power_add)
  have "limb_span xs * 2 \<le> limb_span (xs @ [0])" unfolding span
    using two_le_base [where 'a = 'a] by (intro mult_left_mono) simp_all
  then have le: "2 * mp_val xs < limb_span (xs @ [0])" using mp_val_lt [of xs] by linarith
  have "bigint_val rs = - mp_val xs"
  proof (rule bigint_val_eqI [where k = "uint c - 1"])
    show "rs \<noteq> []" using v(1) by auto
    show "- mp_val xs = mp_val rs + limb_span rs * (uint c - 1)"
      using v(3) unfolding m v(1) by (simp add: algebra_simps)
    show "- limb_span rs \<le> 2 * - mp_val xs" "2 * - mp_val xs < limb_span rs"
      unfolding v(1) using le mp_val_nonneg [of xs] limb_span_pos [of "xs @ [0]"] by linarith+
  qed
  then show "bigint_val (fst (mp_neg (xs @ [0]))) = - mp_val xs" using n by simp
  show "length (fst (mp_neg (xs @ [0]))) = Suc (length xs)" using n v(1) by simp
qed

lemma divrem_quotient_value:
  assumes "length q = Suc n" and "mp_val (take n q) = V"
  shows "\<exists>r. divrem_quotient q n neg = Inr r \<and> bigint_normal r \<and> bigint_val r = (if neg then - V else V)"
proof -
  have q: "q[n := 0] = take n q @ [0]" using assms(1) by (simp add: upd_conv_take_nth_drop)
  let ?r = "if neg then fst (mp_neg (take n q @ [0])) else take n q @ [0]"
  have "?r \<noteq> []" using mp_neg_top_zero(3) [of "take n q"] by (cases neg) auto
  then show ?thesis
    using normalize_value [of ?r] mp_neg_top_zero [of "take n q"] assms q
    by (simp add: divrem_quotient_def store_def)
qed

lemma divrem_remainder_value:
  fixes r :: "'a::len word list"
  assumes "nb < length r" and "shift < LENGTH('a)" and "mp_val (take nb r) = 2 ^ shift * V"
  shows "\<exists>r'. divrem_remainder r nb shift neg = Inr r' \<and> bigint_normal r' \<and> bigint_val r' = (if neg then - V else V)"
proof -
  obtain rs t where sh: "mp_shr (take nb r) shift 0 = (rs, t)" by (cases "mp_shr (take nb r) shift 0")
  note v = mp_shr_value [OF sh assms(2)]
  define xs where "xs = (if shift \<noteq> 0 then rs else take nb r)"
  have lx: "length xs = nb" using v(1) assms(1) by (simp add: xs_def)
  have vx: "mp_val xs = V" using v(2) assms(3) by (simp add: xs_def)
  let ?ys = "xs @ [0]"
  define r2 where "r2 = xs @ 0 # drop (Suc nb) r"
  have st: "store (if shift \<noteq> 0 then fst (mp_shr (take nb r) shift 0) @ drop nb r else r) nb 0 = Some r2"
  proof -
    have "(if shift \<noteq> 0 then fst (mp_shr (take nb r) shift 0) @ drop nb r else r) = xs @ drop nb r"
      using sh by (simp add: xs_def)
    moreover have "(xs @ drop nb r)[nb := 0] = r2"
      using lx assms(1) by (simp add: r2_def list_update_append Cons_nth_drop_Suc [symmetric])
    ultimately show ?thesis using lx assms(1) by (simp add: store_def)
  qed
  let ?z = "if neg then fst (mp_neg ?ys) else ?ys"
  have tk: "take (nb + 1) r2 = ?ys" "drop (nb + 1) r2 = drop (Suc nb) r" using lx by (simp_all add: r2_def)
  have lz: "length ?z = nb + 1" using mp_neg_top_zero(3) [of xs] lx by simp
  have eq: "divrem_remainder r nb shift neg = Inr (js_bigint_normalize1 (?z @ drop (Suc nb) r) (nb + 1))"
    unfolding divrem_remainder_def Let_def st using tk by (simp add: r2_def)
  have "take (nb + 1) (?z @ drop (Suc nb) r) = ?z" using lz by simp
  then have "bigint_val (js_bigint_normalize1 (?z @ drop (Suc nb) r) (nb + 1)) = bigint_val ?z \<and>
      bigint_normal (js_bigint_normalize1 (?z @ drop (Suc nb) r) (nb + 1))"
    using normalize1_value [of "nb + 1" "?z @ drop (Suc nb) r"] lz by simp
  moreover have "bigint_val ?z = (if neg then - V else V)" using mp_neg_top_zero [of xs] vx by simp
  ultimately show ?thesis using eq by simp
qed

text \<open>What an operation that needs \<open>n\<close> limbs may return for the exact result \<open>V\<close>.\<close>

definition js_computes :: "js_context \<Rightarrow> nat \<Rightarrow> int \<Rightarrow> js_error + 'a::len word list \<Rightarrow> bool" where
  "js_computes ctx n V res \<longleftrightarrow>
     (case res of
        Inr r \<Rightarrow> bigint_normal r \<and> bigint_val r = V
      | Inl e \<Rightarrow> e = OutOfMemory \<and> (\<exists>k. \<not> js_alloc_ok ctx k) \<or>
                 e = RangeError ''BigInt is too large to allocate'' \<and> JS_BIGINT_MAX_SIZE TYPE('a) < n)"

lemma js_computes_Inr [simp]: "js_computes ctx n V (Inr r) \<longleftrightarrow> bigint_normal r \<and> bigint_val r = V"
  by (simp add: js_computes_def)

lemma js_computes_new:
  fixes f :: "'a::len word list \<Rightarrow> js_error + 'a word list"
  assumes "k \<le> n" and "\<And>r0. length r0 = k \<Longrightarrow> js_computes ctx n V (f r0)"
  shows "js_computes ctx n V (js_bind (js_bigint_new ctx k) f)"
  using assms by (auto simp: js_bigint_new_def js_computes_def [of _ _ _ "Inl _"])

lemma js_computes_new_si:
  "1 \<le> n \<Longrightarrow> V = sint a \<Longrightarrow> js_computes ctx n V (js_bigint_new_si ctx a)"
  unfolding js_bigint_new_si_def
  by (rule js_computes_new) (auto simp: length_Suc_conv bigint_normal_def bigint_val_snoc [of "[]", simplified])

lemma js_computes_extend:
  assumes "r \<noteq> []" and "V = mp_val r + limb_span r * sint op1"
  shows "js_computes ctx n V (js_bigint_extend ctx r op1)"
proof (cases "js_bigint_extend ctx r op1")
  case (Inr r')
  then show ?thesis using extend_value [OF assms(1) Inr] assms(2) by simp
next
  case (Inl e)
  then have "e = OutOfMemory" "\<exists>k. \<not> js_alloc_ok ctx k"
    by (auto simp: js_bigint_extend_def Let_def split: if_splits)
  then show ?thesis using Inl by (simp add: js_computes_def)
qed

lemma js_computes_Inl_oom: "\<not> js_alloc_ok ctx k \<Longrightarrow> js_computes ctx n V (Inl OutOfMemory)"
  by (auto simp: js_computes_def)

text \<open>The quotient and the remainder of the absolute values, with the signs of truncating division.\<close>

lemma sdiv_signs: "(a :: int) sdiv b = (if (a < 0) \<noteq> (b < 0) then - (\<bar>a\<bar> div \<bar>b\<bar>) else \<bar>a\<bar> div \<bar>b\<bar>)" if "b \<noteq> 0" for a b
  using that by (auto simp: signed_divide_int_def sgn_if)

lemma smod_signs: "(a :: int) smod b = (if a < 0 then - (\<bar>a\<bar> mod \<bar>b\<bar>) else \<bar>a\<bar> mod \<bar>b\<bar>)" for a b
  by (auto simp: signed_modulo_int_def sgn_if)

lemma divrem_core_computes:
  fixes tabb r1 :: "'a::len word list"
  assumes tb: "1 \<le> nb" "nb \<le> length tabb" "tabb ! (nb - 1) \<noteq> 0"
    and na: "nb \<le> na" "na + 2 \<le> length r1" "length r1 \<le> n"
  defines "A \<equiv> mp_val (take na r1)" and "D \<equiv> mp_val (take nb tabb)"
  shows "js_computes ctx n
    (if is_rem then (if a_neg then - (A mod D) else A mod D) else (if q_neg then - (A div D) else A div D))
    (divrem_core ctx r1 na tabb nb is_rem a_neg q_neg)"
proof -
  define shift where "shift = js_limb_clz (tabb ! (nb - 1))"
  define tabb1 where "tabb1 = (if shift \<noteq> 0 then fst (mp_shl (take nb tabb) shift) else take nb tabb)"
  obtain ra h where rah: "(if shift \<noteq> 0 then mp_shl (take na r1) shift else (take na r1, 0)) = (ra, h)" by fastforce
  define r2 na2 where "r2 = (if h \<noteq> 0 then ra @ (drop na r1)[0 := h] else ra @ drop na r1)"
    and "na2 = (if h \<noteq> 0 then na + 1 else na)"
  have t: "take nb tabb \<noteq> []" "last (take nb tabb) = tabb ! (nb - 1)" "length (take nb tabb) = nb"
    using last_take_nth [OF tb(1,2)] tb(1,2) by auto
  have top: "last (take nb tabb) \<noteq> 0" using t(2) tb(3) by simp
  have s: "shift < LENGTH('a)" using js_limb_clz_bounds(1) [OF tb(3)] by (simp add: shift_def)
  note d = shl_divisor [OF t(1) top, unfolded t(2), folded shift_def, folded tabb1_def]
  have lna: "length (take na r1) = na" using na(2) by simp
  have ra: "length ra = na" "mp_val ra + 2 ^ (LENGTH('a) * na) * uint h = 2 ^ shift * A"
  proof -
    obtain rs c where sh: "mp_shl (take na r1) shift = (rs, c)" by (cases "mp_shl (take na r1) shift")
    note v = mp_shl_value [OF sh less_imp_le [OF s]]
    have "length ra = na \<and> mp_val ra + 2 ^ (LENGTH('a) * na) * uint h = 2 ^ shift * A"
      using rah v sh lna by (cases "shift = 0") (auto simp: A_def)
    then show "length ra = na" "mp_val ra + 2 ^ (LENGTH('a) * na) * uint h = 2 ^ shift * A" by blast+
  qed
  have tk: "take na2 r2 = (if h \<noteq> 0 then ra @ [h] else ra)"
    using ra(1) na(2) by (cases "drop na r1") (auto simp: r2_def na2_def)
  have lr2: "length r2 = length r1" using ra(1) na(2) by (simp add: r2_def)
  have lt: "length (take na2 r2) = na2" using tk ra(1) by (simp add: na2_def)
  have vt: "mp_val (take na2 r2) = 2 ^ shift * A"
    unfolding tk using ra by (auto simp: mp_val_append)
  have nb2: "nb \<le> na2" using na(1) by (simp add: na2_def)
  have D: "0 < D"
  proof -
    have "0 < uint (last (take nb tabb))" using top by (simp add: word_neq_0_conv word_less_def)
    then show ?thesis unfolding D_def mp_val_butlast_last(1) [OF t(1)] by (simp add: add_pos_nonneg)
  qed
  have ne1: "tabb1 \<noteq> []" using d(1) t tb(1) by auto
  have "length tabb1 \<le> length (take na2 r2)" using d(1) t(3) lt nb2 by simp
  from mp_divnorm_value [OF ne1 this d(3)]
  obtain tabq ta where q: "mp_divnorm (take na2 r2) tabb1 = Some (tabq, ta)" "length tabq = na2 - nb + 1"
    "length ta = na2" "mp_val tabq = 2 ^ shift * A div (2 ^ shift * D)"
    "mp_val (take nb ta) = 2 ^ shift * A mod (2 ^ shift * D)"
    using d(1,2) t(3) lt vt by (auto simp: D_def)
  have qv: "mp_val tabq = A div D" "mp_val (take nb ta) = 2 ^ shift * (A mod D)"
    using q(4,5) by (simp_all add: mod_mult_mult1)
  have core: "divrem_core ctx r1 na tabb nb is_rem a_neg q_neg =
    js_bind (js_bigint_new ctx (na2 - nb + 2)) (\<lambda>q0.
      if is_rem then divrem_remainder (ta @ drop na2 r2) nb shift a_neg
      else divrem_quotient (tabq @ drop (na2 - nb + 1) q0) (na2 - nb + 1) q_neg)"
    unfolding divrem_core_def Let_def shift_def [symmetric] tabb1_def [symmetric] rah
    using q(1) unfolding r2_def na2_def by (cases "h = 0") (simp_all only: simp_thms if_True if_False prod.case option.case)
  show ?thesis
    unfolding core
  proof (rule js_computes_new)
    show "na2 - nb + 2 \<le> n" using na tb(1) by (auto simp: na2_def)
    fix q0 :: "'a word list"
    assume q0: "length q0 = na2 - nb + 2"
    have "length (tabq @ drop (na2 - nb + 1) q0) = Suc (na2 - nb + 1)" using q(2) q0 by simp
    moreover have "mp_val (take (na2 - nb + 1) (tabq @ drop (na2 - nb + 1) q0)) = A div D" using q(2) qv by simp
    ultimately obtain r where r: "divrem_quotient (tabq @ drop (na2 - nb + 1) q0) (na2 - nb + 1) q_neg = Inr r"
      "bigint_normal r" "bigint_val r = (if q_neg then - (A div D) else A div D)"
      using divrem_quotient_value by blast
    have "nb < length (ta @ drop na2 r2)" using q(3) lr2 na nb2 by (simp add: na2_def)
    moreover have "mp_val (take nb (ta @ drop na2 r2)) = 2 ^ shift * (A mod D)" using q(3) qv nb2 by simp
    ultimately obtain r' where r': "divrem_remainder (ta @ drop na2 r2) nb shift a_neg = Inr r'"
      "bigint_normal r'" "bigint_val r' = (if a_neg then - (A mod D) else A mod D)"
      using divrem_remainder_value [OF _ s] by blast
    show "js_computes ctx n
      (if is_rem then (if a_neg then - (A mod D) else A mod D) else (if q_neg then - (A div D) else A div D))
      (if is_rem then divrem_remainder (ta @ drop na2 r2) nb shift a_neg
       else divrem_quotient (tabq @ drop (na2 - nb + 1) q0) (na2 - nb + 1) q_neg)"
      using r r' by simp
  qed
qed

lemma js_bigint_divrem_computes:
  fixes a b :: "'a::len word list"
  assumes a: "bigint_normal a" and b: "b \<noteq> []" and nz: "bigint_val b \<noteq> 0"
  shows "js_computes ctx (length a + 2)
    (if is_rem then bigint_val a smod bigint_val b else bigint_val a sdiv bigint_val b)
    (js_bigint_divrem ctx a b is_rem)"
proof -
  define A D where "A = \<bar>bigint_val a\<bar>" and "D = \<bar>bigint_val b\<bar>"
  have ane: "a \<noteq> []" using a by (simp add: bigint_normal_def)
  have D: "0 < D" using nz by (simp add: D_def)
  have bz: "\<not> (length b = 1 \<and> b ! 0 = 0)"
    using nz by (auto simp: length_Suc_conv bigint_val_snoc [of "[]", simplified])
  define tabb nb where "tabb = mp_abs b" and "nb = strip_len tabb (length b)"
  have lb: "length tabb = length b" "mp_val tabb = D"
    using mp_abs_value [OF b] by (simp_all add: tabb_def D_def)
  have l1: "1 \<le> length b" "1 \<le> length a" using b ane by (simp_all add: Suc_le_eq)
  have nb: "1 \<le> nb" "nb \<le> length b" "mp_val (take nb tabb) = D" "nb = 1 \<or> tabb ! (nb - 1) \<noteq> 0"
    using strip_len_value [of "length b" tabb, folded nb_def] l1 lb by simp_all
  have topb: "tabb ! (nb - 1) \<noteq> 0"
  proof
    assume z: "tabb ! (nb - 1) = 0"
    then have "nb = 1" using nb(4) by simp
    then have "take nb tabb = [0]" using z lb(1) l1 by (cases tabb) auto
    then show False using nb(3) D by simp
  qed
  have sgn: "js_bigint_sign a \<noteq> 0 \<longleftrightarrow> bigint_val a < 0"
    "js_bigint_sign a \<noteq> js_bigint_sign b \<longleftrightarrow> (bigint_val a < 0) \<noteq> (bigint_val b < 0)"
    using js_bigint_sign_nonzero [OF ane] js_bigint_sign_value [OF ane] js_bigint_sign_value [OF b]
    by (auto simp: word_uint_eq_iff)
  have V: "(if is_rem then bigint_val a smod bigint_val b else bigint_val a sdiv bigint_val b) =
    (if is_rem then (if bigint_val a < 0 then - (A mod D) else A mod D)
     else (if (bigint_val a < 0) \<noteq> (bigint_val b < 0) then - (A div D) else A div D))"
    unfolding sdiv_signs [OF nz] smod_signs A_def D_def ..
  show ?thesis
    unfolding V js_bigint_divrem_def if_not_P [OF bz] Let_def sgn tabb_def [symmetric] nb_def [symmetric]
  proof (rule js_computes_new)
    fix r0 :: "'a word list"
    assume r0: "length r0 = length a + 2"
    define r1 na where "r1 = mp_abs a @ drop (length a) r0" and "na = strip_len r1 (length a)"
    have la: "length r1 = length a + 2" "take (length a) r1 = mp_abs a"
      using mp_abs_value(1) [OF ane] r0 by (simp_all add: r1_def)
    have na: "1 \<le> na" "na \<le> length a" "mp_val (take na r1) = A"
      using strip_len_value [of "length a" r1, folded na_def] la l1 mp_abs_value(2) [OF ane] by (simp_all add: A_def)
    let ?V = "if is_rem then (if bigint_val a < 0 then - (A mod D) else A mod D)
     else (if (bigint_val a < 0) \<noteq> (bigint_val b < 0) then - (A div D) else A div D)"
    have small: "js_computes ctx (length a + 2) ?V
        (if is_rem then js_bind (js_bigint_new ctx (length a) :: js_error + 'a word list) (\<lambda>_. Inr a)
         else js_bigint_new_si ctx 0)" if lt: "na < nb"
    proof -
      have "A < 2 ^ (LENGTH('a) * na)" using mp_val_lt [of "take na r1"] na la(1) by simp
      also have "\<dots> \<le> 2 ^ (LENGTH('a) * (nb - 1))" using lt by (intro power_increasing mult_le_mono2) linarith+
      also have "\<dots> \<le> D"
      proof -
        have ne: "take nb tabb \<noteq> []" "last (take nb tabb) = tabb ! (nb - 1)" "length (take nb tabb) = nb"
          using last_take_nth [of nb tabb] nb(1,2) lb(1) by auto
        have "1 \<le> uint (tabb ! (nb - 1))" using topb by (simp add: word_neq_0_conv word_less_def)
        then have "1 * 2 ^ (LENGTH('a) * (nb - 1)) \<le> uint (tabb ! (nb - 1)) * 2 ^ (LENGTH('a) * (nb - 1))"
          by (intro mult_right_mono) simp_all
        then show ?thesis unfolding nb(3) [symmetric] mp_val_butlast_last(1) [OF ne(1)] ne(2,3)
          using mp_val_nonneg [of "butlast (take nb tabb)"] by linarith
      qed
      finally have "A < D" .
      then have "A div D = 0" "A mod D = A" by (simp_all add: A_def)
      moreover have "(if bigint_val a < 0 then - A else A) = bigint_val a" by (simp add: A_def)
      ultimately show ?thesis
        using a by (auto intro!: js_computes_new js_computes_new_si)
    qed
    have "js_computes ctx (length a + 2) ?V
        (divrem_core ctx r1 na tabb nb is_rem (bigint_val a < 0) ((bigint_val a < 0) \<noteq> (bigint_val b < 0)))"
      if ge: "\<not> na < nb"
    proof -
      have "nb \<le> length tabb" "nb \<le> na" "na + 2 \<le> length r1" "length r1 \<le> length a + 2"
        using nb(2) lb(1) ge na(2) la(1) by simp_all
      from divrem_core_computes [OF nb(1) this(1) topb this(2-4)] show ?thesis
        unfolding nb(3) na(3) .
    qed
    with small show "js_computes ctx (length a + 2) ?V
        (if \<not> js_alloc_ok ctx (length b * (LENGTH('a) div 8)) then Inl OutOfMemory
         else if strip_len (mp_abs a @ drop (length a) r0) (length a) < nb then
           (if is_rem then js_bind (js_bigint_new ctx (length a) :: js_error + 'a word list) (\<lambda>_. Inr a)
            else js_bigint_new_si ctx 0)
         else divrem_core ctx (mp_abs a @ drop (length a) r0)
           (strip_len (mp_abs a @ drop (length a) r0) (length a)) tabb nb is_rem (bigint_val a < 0)
           ((bigint_val a < 0) \<noteq> (bigint_val b < 0)))"
      unfolding r1_def [symmetric] na_def [symmetric]
      by (cases "js_alloc_ok ctx (length b * (LENGTH('a) div 8))"; cases "na < nb")
        (simp_all only: simp_thms if_True if_False js_computes_Inl_oom)
  qed simp
qed

end
