(* ===== verification/Bigint_Ops.thy ===== *)
theory Bigint_Ops
  imports Bigint_Arith
begin

text \<open>
  The contracts of the big integer operations of \<^verbatim>\<open>quickjs.c\<close> over the integers: each one returns the
  normal form of the exact result, or fails because memory is exhausted or the result needs more
  limbs than \<^verbatim>\<open>JS_BIGINT_MAX_SIZE\<close>. The powers are proved over the contract \<open>multiplier\<close>.
\<close>

section \<open>Single operations\<close>

lemma js_bind_computes:
  assumes "\<And>r. res = Inr r \<Longrightarrow> bigint_normal r \<and> bigint_val r = V"
    and "\<And>e. res = Inl e \<Longrightarrow> js_computes ctx n V (Inl e :: js_error + 'a::len word list)"
  shows "js_computes ctx n V (res :: js_error + 'a word list)"
  using assms by (cases res) auto

lemma js_computes_too_large: "js_bigint_new ctx k = (Inl e :: js_error + 'a::len word list) \<Longrightarrow> k \<le> n \<Longrightarrow>
    js_computes ctx n V (Inl e :: js_error + 'a word list)"
  by (auto simp: js_bigint_new_def js_computes_def split: if_splits)

lemma js_computes_mono:
  "js_computes ctx n V res \<Longrightarrow> n \<le> m \<Longrightarrow> js_computes ctx m V res"
  by (auto simp: js_computes_def split: sum.splits)

lemma js_bigint_extend_Inl:
  "js_bigint_extend ctx r x = Inl e \<Longrightarrow> e = OutOfMemory \<and> (\<exists>k. \<not> js_alloc_ok ctx k)"
  by (auto simp: js_bigint_extend_def Let_def split: if_splits)

lemma js_bind_Inl_iff: "js_bind r f = Inl e \<longleftrightarrow> r = Inl e \<or> (\<exists>x. r = Inr x \<and> f x = Inl e)"
  by (cases r) (auto simp: js_bind_def)

lemma js_bigint_new_si_Inl:
  "js_bigint_new_si ctx a = Inl e \<Longrightarrow> js_bigint_new ctx 1 = (Inl e :: js_error + 'a::len word list)"
  for a :: "'a::len word"
  by (auto simp: js_bigint_new_si_def js_bind_Inl_iff)

lemma js_bigint_add_computes:
  fixes a b :: "'a::len word list"
  assumes "a \<noteq> []" and "b \<noteq> []"
  shows "js_computes ctx (max (length a) (length b))
    (if b_neg then bigint_val a - bigint_val b else bigint_val a + bigint_val b) (js_bigint_add ctx a b b_neg)"
proof (rule js_bind_computes)
  fix r
  assume "js_bigint_add ctx a b b_neg = Inr r"
  then show "bigint_normal r \<and> bigint_val r = (if b_neg then bigint_val a - bigint_val b else bigint_val a + bigint_val b)"
    using js_bigint_add_value [OF assms] by auto
next
  fix e
  assume "js_bigint_add ctx a b b_neg = Inl e"
  then show "js_computes ctx (max (length a) (length b))
      (if b_neg then bigint_val a - bigint_val b else bigint_val a + bigint_val b) (Inl e :: js_error + 'a word list)"
    unfolding js_bigint_add_def Let_def js_bind_Inl_iff case_prod_beta
    by (elim disjE exE conjE) (auto simp: js_computes_Inl_oom dest: js_bigint_extend_Inl intro: js_computes_too_large)
qed

text \<open>C5 Addition and subtraction return the normal form of the exact sum or difference, or fail for lack of memory or because the operands are over the size limit.\<close>

theorem js_bigint_add_correct:
  fixes a b :: "'a::len word list"
  assumes "a \<noteq> []" and "b \<noteq> []"
  shows "js_computes ctx (max (length a) (length b))
    (if b_neg then bigint_val a - bigint_val b else bigint_val a + bigint_val b) (js_bigint_add ctx a b b_neg)"
  using assms by (rule js_bigint_add_computes)

theorem js_bigint_add_correct_witness:
  "js_computes \<lparr>js_alloc_ok = \<lambda>_. True, js_fill = 7\<rparr> (max (length [- 1 :: u64, 3]) (length [2 :: u64]))
     (if True then bigint_val [- 1 :: u64, 3] - bigint_val [2 :: u64] else bigint_val [- 1 :: u64, 3] + bigint_val [2 :: u64])
     (js_bigint_add \<lparr>js_alloc_ok = \<lambda>_. True, js_fill = 7\<rparr> [- 1 :: u64, 3] [2] True)"
  by (rule js_bigint_add_correct) simp_all

lemma js_bigint_mul_Inl:
  "js_bigint_mul ctx a b = Inl e \<Longrightarrow> js_bigint_new ctx (length a + length b) = (Inl e :: js_error + 'a::len word list)"
  for a b :: "'a::len word list"
  by (auto simp: js_bigint_mul_def Let_def js_bind_Inl_iff)

text \<open>C6 The schoolbook product with its sign corrections is the normal form of the exact product of the two's complement operands.\<close>

theorem js_bigint_mul_correct:
  fixes a b :: "'a::len word list"
  assumes "a \<noteq> []" and "b \<noteq> []"
  shows "js_computes ctx (length a + length b) (bigint_val a * bigint_val b) (js_bigint_mul ctx a b)"
  by (rule js_bind_computes) (use js_bigint_mul_value [OF assms] js_bigint_mul_Inl js_computes_too_large in blast)+

theorem js_bigint_mul_correct_witness:
  "js_computes \<lparr>js_alloc_ok = \<lambda>_. True, js_fill = 7\<rparr> (length [- 1 :: u64, 3] + length [- 2 :: u64])
     (bigint_val [- 1 :: u64, 3] * bigint_val [- 2 :: u64])
     (js_bigint_mul \<lparr>js_alloc_ok = \<lambda>_. True, js_fill = 7\<rparr> [- 1 :: u64, 3] [- 2])"
  by (rule js_bigint_mul_correct) simp_all

text \<open>C4 Division truncates towards zero and the remainder has the sign of the dividend, for every pair of operands with a divisor that is not zero.\<close>

theorem js_bigint_divrem_correct:
  fixes a b :: "'a::len word list"
  assumes "bigint_normal a" and "bigint_normal b" and "bigint_val b \<noteq> 0"
  shows "js_computes ctx (length a + 2) (bigint_val a sdiv bigint_val b) (js_bigint_divrem ctx a b False) \<and>
    js_computes ctx (length a + 2) (bigint_val a smod bigint_val b) (js_bigint_divrem ctx a b True)"
  using js_bigint_divrem_computes [OF assms(1) _ assms(3), of ctx False]
    js_bigint_divrem_computes [OF assms(1) _ assms(3), of ctx True] assms(2)
  by (auto simp: bigint_normal_def)

lemma bigint_val_single: "bigint_val [x] = sint x"
  using bigint_val_snoc [of "[]" x] by simp

lemma bigint_normal_single [simp]: "bigint_normal [x]"
  by (simp add: bigint_normal_def)

theorem js_bigint_divrem_correct_witness:
  "js_computes \<lparr>js_alloc_ok = \<lambda>_. True, js_fill = 7\<rparr> 4 (bigint_val [1 :: u64, 3] sdiv - 2)
     (js_bigint_divrem \<lparr>js_alloc_ok = \<lambda>_. True, js_fill = 7\<rparr> [1 :: u64, 3] [- 2] False)"
proof -
  have "bigint_val [- 2 :: u64] = - 2" by (simp add: bigint_val_single)
  moreover have "bigint_normal [1 :: u64, 3]" by (simp add: bigint_normal_def redundant_limb_def)
  ultimately show ?thesis
    using js_bigint_divrem_correct [of "[1 :: u64, 3]" "[- 2]" "\<lparr>js_alloc_ok = \<lambda>_. True, js_fill = 7\<rparr>"]
    by (simp add: numeral_eq_Suc)
qed

text \<open>Division by the zero big integer raises the documented RangeError, whatever the memory state and whichever result is asked for.\<close>

theorem js_bigint_divrem_by_zero:
  "js_bigint_divrem ctx a [0 :: 'a::len word] is_rem = Inl (RangeError ''BigInt division by zero'')"
  by (simp add: js_bigint_divrem_def)

text \<open>C9 The bitwise operators return the normal form of the infinite two's complement and, or, exclusive or and not.\<close>

theorem js_bigint_logic_correct:
  fixes a b :: "'a::len word list"
  assumes "bigint_normal a" and "bigint_normal b"
  shows "js_computes ctx (max (length a) (length b)) (int_logic op (bigint_val a) (bigint_val b)) (js_bigint_logic ctx a b op) \<and>
    js_computes ctx (length a) (NOT (bigint_val a)) (js_bigint_not ctx a)"
proof
  have ne: "a \<noteq> []" "b \<noteq> []" using assms by (simp_all add: bigint_normal_def)
  have *: "js_computes ctx (length x) (int_logic op (bigint_val x) (bigint_val y))
      (js_bind (js_bigint_new ctx (length x) :: js_error + 'a word list) (\<lambda>_.
        Inr (js_bigint_normalize (map2 (limb_logic op) (take (length y) x) y @
          map (\<lambda>z. limb_logic op z (- js_bigint_sign y)) (drop (length y) x)))))"
    if "y \<noteq> []" "length y \<le> length x" for x y :: "'a word list"
    by (rule js_computes_new)
      (simp_all add: normalize_value [OF logic_limbs_value(2) [OF that]] logic_limbs_value(1) [OF that])
  show "js_computes ctx (max (length a) (length b)) (int_logic op (bigint_val a) (bigint_val b)) (js_bigint_logic ctx a b op)"
  proof (cases "length a < length b")
    case True
    then show ?thesis
      using * [of a b] ne unfolding js_bigint_logic_def by (simp add: max_def int_logic_commute)
  next
    case False
    then show ?thesis using * [of b a] ne unfolding js_bigint_logic_def by (simp add: max_def)
  qed
  show "js_computes ctx (length a) (NOT (bigint_val a)) (js_bigint_not ctx a)"
    unfolding js_bigint_not_def
    by (rule js_computes_new) (use assms ne in \<open>simp_all add: bigint_normal_map_NOT bigint_val_map_NOT not_eq_complement\<close>)
qed

theorem js_bigint_logic_correct_witness:
  "js_computes \<lparr>js_alloc_ok = \<lambda>_. True, js_fill = 7\<rparr> (max (length [12 :: u64]) (length [- 10 :: u64]))
     (int_logic OP_and (bigint_val [12 :: u64]) (bigint_val [- 10 :: u64]))
     (js_bigint_logic \<lparr>js_alloc_ok = \<lambda>_. True, js_fill = 7\<rparr> [12 :: u64] [- 10] OP_and)"
  using js_bigint_logic_correct [of "[12 :: u64]" "[- 10]" "\<lparr>js_alloc_ok = \<lambda>_. True, js_fill = 7\<rparr>" OP_and] by simp

lemma js_bigint_shl_Inl:
  "js_bigint_shl ctx a n = Inl e \<Longrightarrow> a \<noteq> [] \<Longrightarrow>
   js_computes ctx (length a + n div LENGTH('a)) V (Inl e :: js_error + 'a::len word list)" for a :: "'a::len word list"
  unfolding js_bigint_shl_def Let_def case_prod_beta
  by (auto simp: js_bind_Inl_iff js_computes_Inl_oom Suc_le_eq split: if_splits
      dest!: js_bigint_extend_Inl js_bigint_new_si_Inl intro: js_computes_too_large)

lemma js_bigint_shr_Inl:
  "js_bigint_shr ctx a n = Inl e \<Longrightarrow> a \<noteq> [] \<Longrightarrow> js_computes ctx (length a) V (Inl e :: js_error + 'a::len word list)"
  for a :: "'a::len word list"
  unfolding js_bigint_shr_def Let_def
  by (auto simp: js_bind_Inl_iff Suc_le_eq split: if_splits
      dest!: js_bigint_new_si_Inl intro: js_computes_too_large)

lemma js_bigint_shl_computes:
  fixes a :: "'a::len word list"
  assumes "bigint_normal a"
  shows "js_computes ctx (length a + n div LENGTH('a)) (bigint_val a * 2 ^ n) (js_bigint_shl ctx a n)"
proof (rule js_bind_computes)
  have ne: "a \<noteq> []" using assms by (simp add: bigint_normal_def)
  show "js_computes ctx (length a + n div LENGTH('a)) (bigint_val a * 2 ^ n) (Inl e :: js_error + 'a word list)"
    if "js_bigint_shl ctx a n = Inl e" for e using js_bigint_shl_Inl [OF that ne] .
qed (use js_bigint_shl_value [OF assms] in blast)

lemma js_bigint_shr_computes:
  fixes a :: "'a::len word list"
  assumes "bigint_normal a"
  shows "js_computes ctx (length a) (bigint_val a div 2 ^ n) (js_bigint_shr ctx a n)"
proof (rule js_bind_computes)
  have ne: "a \<noteq> []" using assms by (simp add: bigint_normal_def)
  show "js_computes ctx (length a) (bigint_val a div 2 ^ n) (Inl e :: js_error + 'a word list)"
    if "js_bigint_shr ctx a n = Inl e" for e using js_bigint_shr_Inl [OF that ne] .
qed (use js_bigint_shr_value [OF assms] in blast)

text \<open>C10 A left shift multiplies by a power of two and a right shift is the floored division by it, for every shift count, negative operands included.\<close>

theorem js_bigint_shift_correct:
  fixes a :: "'a::len word list"
  assumes "bigint_normal a"
  shows "js_computes ctx (length a + n div LENGTH('a)) (bigint_val a * 2 ^ n) (js_bigint_shl ctx a n) \<and>
    js_computes ctx (length a) (bigint_val a div 2 ^ n) (js_bigint_shr ctx a n)"
  using js_bigint_shl_computes [OF assms] js_bigint_shr_computes [OF assms] by blast

theorem js_bigint_shift_correct_witness:
  "js_computes \<lparr>js_alloc_ok = \<lambda>_. True, js_fill = 7\<rparr> (length [- 5 :: u64]) (bigint_val [- 5 :: u64] div 2 ^ 70)
     (js_bigint_shr \<lparr>js_alloc_ok = \<lambda>_. True, js_fill = 7\<rparr> [- 5 :: u64] 70)"
  using js_bigint_shift_correct [of "[- 5 :: u64]" "\<lparr>js_alloc_ok = \<lambda>_. True, js_fill = 7\<rparr>" 70] by simp

text \<open>Comparing two normal big integers limb by limb gives the sign of the difference of their values.\<close>

theorem js_bigint_cmp_correct:
  assumes "bigint_normal a" and "bigint_normal b"
  shows "js_bigint_cmp a b = sgn (bigint_val a - bigint_val b)"
  using assms by (rule js_bigint_cmp_value)

theorem js_bigint_cmp_correct_witness: "js_bigint_cmp [- 5 :: u64] [1, 1] = - 1"
proof -
  have "bigint_normal [1, 1 :: u64]" by (simp add: bigint_normal_def redundant_limb_def)
  moreover have "bigint_val [- 5 :: u64] = - 5" "bigint_val [1, 1 :: u64] = 2 ^ 64 + 1"
    by (simp_all add: bigint_val_single bigint_val_snoc [of "[1]", simplified])
  ultimately show ?thesis using js_bigint_cmp_correct [of "[- 5 :: u64]" "[1, 1]"] by simp
qed

section \<open>Powers\<close>

text \<open>
  What square and multiply needs of a multiplication: it keeps the invariant, multiplies the values,
  adds the sizes at most, and fails only in ways that are excused by the size it asked for.
\<close>

locale multiplier =
  fixes mul :: "'l \<Rightarrow> 'l \<Rightarrow> js_error + 'l"
    and val :: "'l \<Rightarrow> int"
    and ok :: "'l \<Rightarrow> bool"
    and sz :: "'l \<Rightarrow> nat"
    and fails :: "nat \<Rightarrow> js_error \<Rightarrow> bool"
  assumes mul_Inr: "\<lbrakk>ok x; ok y; mul x y = Inr r\<rbrakk> \<Longrightarrow> ok r \<and> val r = val x * val y \<and> sz r \<le> sz x + sz y"
    and mul_Inl: "\<lbrakk>ok x; ok y; mul x y = Inl e\<rbrakk> \<Longrightarrow> fails (sz x + sz y) e"
    and fails_mono: "fails n e \<Longrightarrow> n \<le> m \<Longrightarrow> fails m e"
begin

lemma div_pow2_step: "e div 2 ^ i = 2 * (e div 2 ^ Suc i) + of_bool (bit e i)" for e :: nat
proof -
  have "e div 2 ^ Suc i = (e div 2 ^ i) div 2" by (simp add: div_mult2_eq [symmetric] mult.commute)
  then show ?thesis using odd_two_times_div_two_succ [of "e div 2 ^ i"] by (cases "odd (e div 2 ^ i)") (simp_all add: bit_iff_odd)
qed

lemma square_step:
  assumes "ok a" "ok r" "val r = val a ^ k" "sz r \<le> sz a * k"
  shows "case js_bind (mul r r) (\<lambda>r1. if b then mul r1 a else Inr r1) of
      Inr r' \<Rightarrow> ok r' \<and> val r' = val a ^ (2 * k + of_bool b) \<and> sz r' \<le> sz a * (2 * k + of_bool b)
    | Inl e \<Rightarrow> fails (sz a * (2 * k + of_bool b)) e"
proof (cases "mul r r")
  case (Inl e)
  have "sz r + sz r \<le> sz a * (2 * k + of_bool b)" using assms(4) by (simp add: algebra_simps)
  then show ?thesis using Inl fails_mono [OF mul_Inl [OF assms(2,2) Inl]] by simp
next
  case (Inr r1)
  have r1: "ok r1" "val r1 = val a ^ (2 * k)" "sz r1 \<le> sz a * (2 * k)"
    using mul_Inr [OF assms(2,2) Inr] assms(3,4) by (auto simp: power_add mult_2 distrib_left)
  show ?thesis
  proof (cases b)
    case b: True
    have le: "sz r1 + sz a \<le> sz a * (2 * k + of_bool b)" using r1(3) b by simp
    show ?thesis
    proof (cases "mul r1 a")
      case m: (Inl e)
      show ?thesis using b Inr m fails_mono [OF mul_Inl [OF r1(1) assms(1) m] le] by simp
    next
      case m: (Inr r2)
      show ?thesis using b Inr m mul_Inr [OF r1(1) assms(1) m] r1(2) le by simp
    qed
  next
    case False
    then show ?thesis using Inr r1 by simp
  qed
qed

lemma js_bind_assoc: "js_bind (js_bind x f) g = js_bind x (\<lambda>y. js_bind (f y) g)"
  by (cases x) simp_all

lemma pow_loop_correct:
  assumes "ok a" "ok r" "val r = val a ^ (e div 2 ^ i)" "sz r \<le> sz a * (e div 2 ^ i)"
  shows "case pow_loop mul a e i r of Inr r' \<Rightarrow> ok r' \<and> val r' = val a ^ e \<and> sz r' \<le> sz a * e | Inl err \<Rightarrow> fails (sz a * e) err"
  using assms
proof (induction i arbitrary: r)
  case 0
  then show ?case by simp
next
  case (Suc i)
  let ?s = "js_bind (mul r r) (\<lambda>r1. if bit e i then mul r1 a else Inr r1)"
  have eq: "pow_loop mul a e (Suc i) r = js_bind ?s (pow_loop mul a e i)" by (simp add: js_bind_assoc)
  note st = square_step [OF Suc.prems, of "bit e i", folded div_pow2_step]
  show ?case
  proof (cases ?s)
    case (Inl err)
    have "sz a * (e div 2 ^ i) \<le> sz a * e" by simp
    then show ?thesis unfolding eq Inl using st [unfolded Inl] fails_mono by simp
  next
    case (Inr r')
    then show ?thesis unfolding eq Inr using st [unfolded Inr] Suc.IH [OF Suc.prems(1)] by simp
  qed
qed

end

definition js_fails :: "'a::len itself \<Rightarrow> js_context \<Rightarrow> nat \<Rightarrow> js_error \<Rightarrow> bool" where
  "js_fails _ ctx n e \<longleftrightarrow> js_computes ctx n 0 (Inl e :: js_error + 'a word list)"

lemma js_computes_Inl: "js_computes ctx n V (Inl e :: js_error + 'a::len word list) = js_fails TYPE('a) ctx n e"
  by (simp add: js_fails_def js_computes_def)

lemma length_js_bigint_mul:
  fixes a b :: "'a::len word list"
  assumes "a \<noteq> []" and "b \<noteq> []" and "js_bigint_mul ctx a b = Inr r"
  shows "length r \<le> length a + length b"
proof -
  define p where "p = mp_mul_basecase a b"
  define p1 where "p1 = (if js_bigint_sign a \<noteq> 0 then take (length a) p @ fst (mp_sub (drop (length a) p) b 0) else p)"
  define p2 where "p2 = (if js_bigint_sign b \<noteq> 0 then take (length b) p1 @ fst (mp_sub (drop (length b) p1) a 0) else p1)"
  have "length p = length a + length b" using mp_mul_basecase_value(2) [OF assms(1,2)] by (simp add: p_def)
  then have "length p1 = length a + length b" using mp_sub_tail(2) [of p "length a" b] by (simp add: p1_def)
  then have "length p2 = length a + length b" using mp_sub_tail(2) [of p1 "length b" a] by (simp add: p2_def)
  moreover have "r = js_bigint_normalize p2"
    using assms(3) by (auto simp: js_bigint_mul_def js_bind_Inr_iff Let_def p_def p1_def p2_def)
  ultimately show ?thesis
    using normalize1_value [of "length p2" p2] assms(1) by (cases a) (simp_all add: js_bigint_normalize_def)
qed

interpretation bigint_multiplier: multiplier "js_bigint_mul ctx :: 'a word list \<Rightarrow> 'a word list \<Rightarrow> js_error + 'a word list"
    bigint_val bigint_normal length "js_fails TYPE('a) ctx"
  for ctx :: js_context and dummy :: "'a::len itself"
proof unfold_locales
  fix x y r :: "'a word list"
  assume "bigint_normal x" "bigint_normal y" and r: "js_bigint_mul ctx x y = Inr r"
  then have "x \<noteq> []" "y \<noteq> []" by (auto simp: bigint_normal_def)
  then show "bigint_normal r \<and> bigint_val r = bigint_val x * bigint_val y \<and> length r \<le> length x + length y"
    using js_bigint_mul_value [OF _ _ r] length_js_bigint_mul [OF _ _ r] by blast
next
  fix x y :: "'a word list" and e
  assume "js_bigint_mul ctx x y = Inl e"
  then show "js_fails TYPE('a) ctx (length x + length y) e"
    using js_computes_too_large js_bigint_mul_Inl by (fastforce simp: js_fails_def)
next
  fix n m e
  assume "js_fails TYPE('a) ctx n e" "n \<le> m"
  then show "js_fails TYPE('a) ctx m e" using js_computes_mono by (auto simp: js_fails_def)
qed

lemma power_of_two_limb:
  fixes v :: "'a::len word"
  assumes "v \<noteq> 0" and "v AND (v - 1) = 0"
  shows "uint v = 2 ^ (LENGTH('a) - 1 - js_limb_clz v)" and "LENGTH('a) - 1 - js_limb_clz v < LENGTH('a)"
proof -
  define n where "n = LENGTH('a) - 1 - js_limb_clz v"
  have pos: "0 < uint v" using assms(1) by (simp add: word_neq_0_conv word_less_def)
  have c: "js_limb_clz v < LENGTH('a)" "2 ^ n \<le> uint v" "uint v < 2 ^ Suc n"
    using clz_from_bounds [of v "LENGTH('a)"] pos by (simp_all add: js_limb_clz_def n_def Suc_diff_Suc)
  show lt: "LENGTH('a) - 1 - js_limb_clz v < LENGTH('a)" by simp
  have m: "uint (v - 1) = uint v - 1" using pos by (simp add: uint_minus_word)
  have bit: "bit w n" if "2 ^ n \<le> uint w" "uint w < 2 ^ Suc n" for w :: "'a word"
  proof -
    have "uint w div 2 ^ n = 1" using that by (simp add: int_div_eq_iff)
    then show ?thesis using bit_uint_iff [of w n] by (auto simp: bit_iff_odd [of "uint w"])
  qed
  have "uint v = 2 ^ n"
  proof (rule ccontr)
    assume "uint v \<noteq> 2 ^ n"
    then have "bit v n" "bit (v - 1) n" using bit c(2,3) m by simp_all
    then have "bit (v AND (v - 1)) n" by (simp add: bit_and_iff)
    then show False using assms(2) by simp
  qed
  then show "uint v = 2 ^ (LENGTH('a) - 1 - js_limb_clz v)" by (simp add: n_def)
qed

text \<open>The limbs of a power of two, possibly negated, that \<^verbatim>\<open>js_bigint_pow\<close> writes directly.\<close>

lemma single_bit_bigint:
  fixes e1 :: nat and neg :: bool
  defines "q \<equiv> e1 div LENGTH('a)" and "s \<equiv> e1 mod LENGTH('a)"
  defines "r \<equiv> (replicate ((e1 + LENGTH('a) + 1 - of_bool neg) div LENGTH('a)) 0)
                 [q := push_bit s (if neg then - 1 else 1 :: 'a::len word)]"
  shows "q < (e1 + LENGTH('a) + 1 - of_bool neg) div LENGTH('a)"
    and "bigint_normal r" and "bigint_val r = (if neg then - (2 ^ e1) else 2 ^ e1)"
proof -
  let ?L = "LENGTH('a)"
  have e1: "e1 = ?L * q + s" and s: "s < ?L" by (simp_all add: q_def s_def)
  have len: "(e1 + ?L + 1 - of_bool neg) div ?L = Suc q + of_bool (\<not> neg \<and> s = ?L - 1)"
  proof -
    have "e1 + ?L + 1 - of_bool neg = ?L * Suc q + (s + of_bool (\<not> neg))" using e1 by simp
    moreover have "(s + of_bool (\<not> neg)) div ?L = of_bool (\<not> neg \<and> s = ?L - 1)"
      using s by (auto simp: div_eq_0_iff)
    ultimately show ?thesis by (simp only: div_mult_self4 len_gt_0 less_imp_neq [THEN not_sym] add.commute)
        (metis div_mult_self2 len_gt_0 less_numeral_extra(3))
  qed
  show "q < (e1 + ?L + 1 - of_bool neg) div ?L" unfolding len by simp
  define x where "x = (push_bit s (if neg then - 1 else 1) :: 'a word)"
  define t where "t = (if \<not> neg \<and> s = ?L - 1 then [x, 0] else [x])"
  have upd: "(replicate (Suc q + k) 0)[q := x] = replicate q 0 @ x # replicate k 0" for k
    by (induction q) simp_all
  have r: "r = replicate q 0 @ t"
    unfolding r_def len x_def [symmetric] t_def upd by simp
  have ux: "uint x = 2 ^ s" if "\<not> neg" 
  proof -
    have "uint x = take_bit ?L (push_bit s (uint (1 :: 'a word)))"
      unfolding x_def using that by (simp only: unsigned_push_bit_eq if_False)
    then show ?thesis using s by (simp add: push_bit_eq_mult take_bit_int_eq_self)
  qed
  have xn: "sint x = - (2 ^ s)" if neg
    using that s sint_shl_top(2) [of "0 :: 'a word" s] by (simp add: x_def)
  have xp: "sint x = 2 ^ s" if "\<not> neg" "s \<noteq> ?L - 1"
    using that s ux sint_shl_top(1) [of x "Suc s"] by simp
  have nz: "x \<noteq> 0" using ux xn by (cases neg) auto
  have vt: "bigint_val t = (if neg then - (2 ^ s) else 2 ^ s)"
    using xn xp ux by (auto simp: t_def bigint_val_single bigint_val_snoc [of "[x]" 0, simplified])
  have "bigint_normal [x, 0]" if "\<not> neg" "s = ?L - 1"
  proof -
    have "drop_bit (?L - 1) x = 1"
      using ux [OF that(1)] that(2) by (simp add: word_uint_eq_iff uint_drop_bit)
    then show ?thesis by (simp add: bigint_normal_def redundant_limb_def)
  qed
  then have "bigint_normal t" "\<not> (length t = 1 \<and> t ! 0 = 0)" using nz by (auto simp: t_def)
  then show "bigint_normal r" unfolding r by (rule bigint_normal_zeros)
  have "t \<noteq> []" by (simp add: t_def)
  then show "bigint_val r = (if neg then - (2 ^ e1) else 2 ^ e1)"
    unfolding r bigint_val_zeros [OF \<open>t \<noteq> []\<close>] vt by (simp add: e1 power_add power_mult)
qed

lemma sint_sign: "sint (x :: 'a::len word) = (if sint x < 0 then uint x - 2 ^ LENGTH('a) else uint x)"
proof (cases "2 ^ LENGTH('a) \<le> 2 * uint x")
  case True
  then have "sint x = uint x - 2 ^ LENGTH('a)" by (simp add: sint_cases_int)
  then show ?thesis using uint_lt2p [of x] by auto
next
  case False
  then have "sint x = uint x" by (simp add: sint_cases_int)
  then show ?thesis using uint_ge_0 [of x] by auto
qed

lemma pow_exponent:
  fixes b :: "'a::len word list"
  assumes L: "32 \<le> LENGTH('a)" and b: "bigint_normal b" "0 < bigint_val b"
  shows "length b > 1 \<or> uint (b ! 0) > 2 ^ 31 - 1 \<Longrightarrow> JS_BIGINT_MAX_SIZE TYPE('a) < nat (bigint_val b)"
    and "\<not> (length b > 1 \<or> uint (b ! 0) > 2 ^ 31 - 1) \<Longrightarrow> nat (bigint_val b) = unat (b ! 0)"
proof -
  have "JS_BIGINT_MAX_SIZE TYPE('a) \<le> 1048576" by (simp add: JS_BIGINT_MAX_SIZE_def)
  then have max: "int (JS_BIGINT_MAX_SIZE TYPE('a)) < 2 ^ 31 - 1" by simp
  have ne: "b \<noteq> []" using b(1) by (simp add: bigint_normal_def)
  have one: "bigint_val b = uint (b ! 0)" if "length b = 1"
  proof -
    have "b = [b ! 0]" using that by (auto simp: length_Suc_conv)
    then have "bigint_val b = sint (b ! 0)" using bigint_val_single by metis
    then show ?thesis using sint_sign [of "b ! 0"] b(2) by (simp split: if_splits)
  qed
  { assume "length b > 1 \<or> uint (b ! 0) > 2 ^ 31 - 1"
    then have "2 ^ 31 - 1 < bigint_val b"
    proof (cases "length b = 1")
      case True
      then show ?thesis using one \<open>length b > 1 \<or> _\<close> by auto
    next
      case False
      then have l: "length b = Suc (length b - 1)" "0 < length b - 1" using ne by (cases b; simp)+
      have "(2 :: int) ^ 32 \<le> 2 ^ (LENGTH('a) * (length b - 1))"
        using L l(2) mult_le_mono [of 32 "LENGTH('a)" 1 "length b - 1"] by (intro power_increasing) simp_all
      then show ?thesis using bigint_normal_large [OF b(1) l] b(2) by auto
    qed
    then show "JS_BIGINT_MAX_SIZE TYPE('a) < nat (bigint_val b)" using max by linarith }
  { assume "\<not> (length b > 1 \<or> uint (b ! 0) > 2 ^ 31 - 1)"
    then have "length b = 1" using ne by (cases b) auto
    then show "nat (bigint_val b) = unat (b ! 0)" using one by simp }
qed

lemma pow_general_correct:
  fixes a b :: "'a::len word list"
  assumes L: "32 \<le> LENGTH('a)" and a: "bigint_normal a" and b: "bigint_normal b" "0 < bigint_val b"
  defines "n \<equiv> nat (bigint_val b)"
  shows "js_computes ctx (length a * n) (bigint_val a ^ n) (pow_general ctx a b) \<or>
    pow_general ctx a b = Inl (RangeError ''BigInt is too large'') \<and> JS_BIGINT_MAX_SIZE TYPE('a) < length a * n"
proof (cases "length b > 1 \<or> uint (b ! 0) > 2 ^ 31 - 1")
  case True
  have "1 \<le> length a" using a by (cases a) (simp_all add: bigint_normal_def)
  then have "n \<le> length a * n" by simp
  then have "JS_BIGINT_MAX_SIZE TYPE('a) < length a * n"
    using pow_exponent(1) [OF L b True] unfolding n_def by (rule order.strict_trans2 [rotated])
  then show ?thesis using True by (simp add: pow_general_def)
next
  case False
  define e i where "e = (ucast (b ! 0) :: u32)" and "i = 32 - clz_from e 32 - 1"
  have n: "n = unat (b ! 0)" "0 < n" using pow_exponent(2) [OF L b False] b(2) by (simp_all add: n_def)
  have "uint (b ! 0) < 2 ^ 32" using False by auto
  then have ue: "uint e = uint (b ! 0)" by (simp add: e_def unsigned_ucast_eq take_bit_int_eq_self)
  then have en: "unat e = n" unfolding n(1) by (simp only: unat_eq_nat_uint)
  have "0 < uint e" unfolding ue using n(2) unfolding n(1) by (simp only: unat_eq_nat_uint zero_less_nat_eq)
  then have "clz_from e 32 < 32 \<and> 2 ^ (31 - clz_from e 32) \<le> uint e \<and> uint e < 2 ^ (32 - clz_from e 32)"
    using clz_from_bounds [of e 32] uint_lt2p [of e] by simp
  then have "2 ^ i \<le> uint e \<and> uint e < 2 ^ Suc i"
  proof -
    assume c: "clz_from e 32 < 32 \<and> 2 ^ (31 - clz_from e 32) \<le> uint e \<and> uint e < 2 ^ (32 - clz_from e 32)"
    then have "i = 31 - clz_from e 32" "Suc i = 32 - clz_from e 32" unfolding i_def by linarith+
    then show ?thesis using c by (simp only:)
  qed
  then have c: "2 ^ i \<le> uint e" "uint e < 2 * 2 ^ i" by simp_all
  then have "uint e div 2 ^ i = 1" by (simp add: int_div_eq_iff)
  then have d: "n div 2 ^ i = 1"
  proof -
    have "int (n div 2 ^ i) = uint e div 2 ^ i" unfolding en [symmetric] by (simp add: zdiv_int)
    then show ?thesis using \<open>uint e div 2 ^ i = 1\<close> by linarith
  qed
  have "js_computes ctx (length a * n) (bigint_val a ^ n)
      (js_bind (js_bigint_new ctx (length a) :: js_error + 'a word list) (\<lambda>_. pow_loop (js_bigint_mul ctx) a n i a))"
  proof (rule js_computes_new)
    show "length a \<le> length a * n" using n(2) by simp
    show "js_computes ctx (length a * n) (bigint_val a ^ n) (pow_loop (js_bigint_mul ctx) a n i a)"
      using bigint_multiplier.pow_loop_correct [of a a n i ctx] a d
      by (cases "pow_loop (js_bigint_mul ctx) a n i a") (simp_all add: js_computes_Inl)
  qed
  moreover have "pow_general ctx a b =
      js_bind (js_bigint_new ctx (length a) :: js_error + 'a word list) (\<lambda>_. pow_loop (js_bigint_mul ctx) a n i a)"
    using False en by (simp add: pow_general_def e_def i_def Let_def)
  ultimately show ?thesis by simp
qed

lemma pow_two_power_correct:
  fixes a b :: "'a::len word list"
  assumes L: "32 \<le> LENGTH('a)" and a: "length a = 1" and b: "bigint_normal b" "0 < bigint_val b"
    and v: "\<not> a ! 0 \<le> 1" "v = (if sint (a ! 0) < 0 then - (a ! 0) else a ! 0)" "v AND (v - 1) = 0"
  defines "n \<equiv> nat (bigint_val b)"
  shows "js_computes ctx n (bigint_val a ^ n) (pow_two_power ctx v (sint (a ! 0) < 0) b) \<or>
    pow_two_power ctx v (sint (a ! 0) < 0) b = Inl (RangeError ''BigInt is too large'') \<and> JS_BIGINT_MAX_SIZE TYPE('a) < n"
proof (cases "length b > 1 \<or> uint (b ! 0) > 2 ^ 31 - 1")
  case True
  then show ?thesis using pow_exponent(1) [OF L b True] by (simp add: pow_two_power_def n_def Let_def)
next
  case False
  let ?L = "LENGTH('a)"
  define k where "k = ?L - 1 - js_limb_clz v"
  define e1 where "e1 = unat (b ! 0) * k"
  define is_neg where "is_neg \<longleftrightarrow> sint (a ! 0) < 0"
  define neg where "neg \<longleftrightarrow> is_neg \<and> b ! 0 AND 1 \<noteq> 0"
  have n: "n = unat (b ! 0)" "0 < n" using pow_exponent(2) [OF L b False] b(2) by (simp_all add: n_def)
  have odd: "b ! 0 AND 1 \<noteq> 0 \<longleftrightarrow> odd n" 
  proof -
    have "b ! 0 AND 1 \<noteq> 0 \<longleftrightarrow> unat (b ! 0 AND 1) \<noteq> 0" by (simp add: unat_eq_zero)
    also have "\<dots> \<longleftrightarrow> odd n" unfolding n(1) unsigned_and_eq by (simp add: and_one_eq odd_iff_mod_2_eq_one)
    finally show ?thesis .
  qed
  have nz: "v \<noteq> 0" using v(1,2) by auto
  have uv: "uint v = 2 ^ k" "k < ?L" using power_of_two_limb [OF nz v(3)] by (simp_all add: k_def)
  have va: "bigint_val a = (if is_neg then - (2 ^ k) else 2 ^ k)"
  proof -
    have "a = [a ! 0]" using a by (auto simp: length_Suc_conv)
    then have s: "bigint_val a = sint (a ! 0)" using bigint_val_single by metis
    have "uint v = (if is_neg then 2 ^ ?L - uint (a ! 0) else uint (a ! 0))"
    proof -
      have "0 < uint (a ! 0)" using v(1) by (auto simp: word_le_def not_le)
      then show ?thesis using v(2) uint_minus_word [of 0 "a ! 0"] by (simp add: is_neg_def)
    qed
    moreover have "sint (a ! 0) = (if is_neg then uint (a ! 0) - 2 ^ ?L else uint (a ! 0))"
      unfolding is_neg_def by (rule sint_sign)
    ultimately show ?thesis using s uv(1) by simp
  qed
  have kpos: "k \<le> ?L - 2" if "\<not> is_neg"
  proof -
    have "2 * bigint_val a < 2 ^ ?L" using bigint_val_range(2) [of a] a by (cases a) simp_all
    then have "(2 :: int) ^ Suc k < 2 ^ ?L" using va that by simp
    then have "Suc k < ?L" by (rule power_less_imp_less_exp [rotated]) simp
    then show ?thesis by simp
  qed
  have pw: "bigint_val a ^ n = (if neg then - (2 ^ e1) else 2 ^ e1)"
    unfolding va neg_def odd using n by (auto simp: e1_def mult.commute power_mult)
  have big: "JS_BIGINT_MAX_SIZE TYPE('a) < n" if "e1 > JS_BIGINT_MAX_SIZE TYPE('a) * ?L"
  proof -
    have "n * k \<le> n * ?L" using uv(2) by simp
    then have "JS_BIGINT_MAX_SIZE TYPE('a) * ?L < n * ?L" using that unfolding e1_def n(1) by linarith
    then show ?thesis by simp
  qed
  have size: "(e1 + ?L + 1 - of_bool neg) div ?L \<le> n"
  proof -
    have le: "n * k + n * j \<le> n * ?L" if "k \<le> ?L - j" "j \<le> ?L" for j
      using mult_le_mono2 [of "k + j" ?L n] that by (simp add: distrib_left)
    have two: "2 \<le> n" if "\<not> odd n" using that n(2) by (cases "n = 1") auto
    have "n * k + ?L + 1 - of_bool neg < n * ?L + ?L"
    proof (cases is_neg)
      case True
      then have "n * k + n \<le> n * ?L" using le [of 1] uv(2) L by simp
      moreover have "of_bool neg = (1 :: nat) \<or> of_bool neg = (0 :: nat) \<and> 2 \<le> n"
        using True two by (auto simp: neg_def odd)
      ultimately show ?thesis using n(2) by linarith
    next
      case False
      then have "n * k + n * 2 \<le> n * ?L" using le [of 2] kpos L by simp
      then show ?thesis using n(2) by linarith
    qed
    then have "e1 + ?L + 1 - of_bool neg < Suc n * ?L" by (simp add: e1_def n(1))
    then show ?thesis by (simp only: less_mult_imp_div_less less_Suc_eq_le [symmetric])
  qed
  have eq: "pow_two_power ctx v is_neg b =
    (if e1 > JS_BIGINT_MAX_SIZE TYPE('a) * ?L then Inl (RangeError ''BigInt is too large'')
     else js_bind (js_bigint_new ctx ((e1 + ?L + 1 - of_bool neg) div ?L) :: js_error + 'a word list)
        (\<lambda>r. Inr ((replicate (length r) 0) [e1 div ?L := push_bit (e1 mod ?L) (if neg then - 1 else 1)])))"
  proof (cases "js_bigint_new ctx ((e1 + ?L + 1 - of_bool neg) div ?L) :: js_error + 'a word list")
    case (Inl e)
    show ?thesis
      unfolding pow_two_power_def Let_def k_def [symmetric] e1_def [symmetric] neg_def [symmetric] if_not_P [OF False] Inl
      by (simp only: js_bind_simps)
  next
    case (Inr r)
    have "e1 div ?L < length r"
      using js_bigint_new_Inr [OF Inr] single_bit_bigint(1) [where 'a = 'a, of e1 neg] by (simp only:)
    then have "store (replicate (length r) 0) (e1 div ?L) x = Some ((replicate (length r) 0)[e1 div ?L := x])" for x :: "'a word"
      by (simp add: store_def)
    then show ?thesis
      unfolding pow_two_power_def Let_def k_def [symmetric] e1_def [symmetric] neg_def [symmetric] if_not_P [OF False] Inr
      by (simp only: js_bind_simps option.case)
  qed
  show ?thesis
  proof (cases "e1 > JS_BIGINT_MAX_SIZE TYPE('a) * ?L")
    case True
    then show ?thesis using big eq by (simp add: is_neg_def)
  next
    case False
    have "js_computes ctx n (bigint_val a ^ n) (pow_two_power ctx v is_neg b)"
      unfolding eq if_not_P [OF False]
      by (rule js_computes_new [OF size]) (simp only: js_computes_Inr pw single_bit_bigint(2,3) simp_thms)
    then show ?thesis by (simp add: is_neg_def)
  qed
qed

lemma bigint_normal_zero:
  assumes "bigint_normal b" and "bigint_val b = 0"
  shows "length b = 1 \<and> b ! 0 = (0 :: 'a::len word)"
proof -
  have "length b = 1"
  proof (rule ccontr)
    assume "length b \<noteq> 1"
    then have "length b = Suc (length b - 1)" "0 < length b - 1"
      using assms(1) by (cases b; simp add: bigint_normal_def)+
    from bigint_normal_large [OF assms(1) this] show False using assms(2) by auto
  qed
  moreover from this have "b = [b ! 0]" by (auto simp: length_Suc_conv)
  ultimately show ?thesis using assms(2) bigint_val_single [of "b ! 0"] by (metis signed_eq_0_iff)
qed

lemma limb_parity:
  assumes "b \<noteq> []" and "0 \<le> bigint_val b"
  shows "b ! 0 AND 1 = of_bool (odd (nat (bigint_val b)))"
proof -
  have "bit (bigint_val b) 0 \<longleftrightarrow> bit (b ! 0) 0" using bit_bigint_val [OF assms(1), of 0] assms(1) by simp
  then have "odd (bigint_val b) \<longleftrightarrow> odd (b ! 0)" by (simp only: bit_0)
  then show ?thesis using assms(2) by (simp add: and_one_eq even_nat_iff mod_2_eq_odd)
qed

lemma js_bigint_pow_single:
  fixes a b :: "'a::len word list"
  assumes L: "32 \<le> LENGTH('a)" and a: "length a = 1" and b: "bigint_normal b" "0 < bigint_val b"
  defines "n \<equiv> nat (bigint_val b)"
  shows "a ! 0 \<le> 1 \<Longrightarrow> bigint_val a ^ n = sint (a ! 0)"
    and "a ! 0 = - 1 \<Longrightarrow> bigint_val a ^ n = sint (1 - 2 * (b ! 0 AND 1))"
proof -
  have n: "0 < n" using b(2) by (simp add: n_def)
  have "a = [a ! 0]" using a by (auto simp: length_Suc_conv)
  then have va: "bigint_val a = sint (a ! 0)" using bigint_val_single by metis
  { assume "a ! 0 \<le> 1"
    then have "a ! 0 = 0 \<or> a ! 0 = 1" 
    proof -
      have "uint (a ! 0) = 0 \<or> uint (a ! 0) = 1"
        using uint_ge_0 [of "a ! 0"] \<open>a ! 0 \<le> 1\<close> unfolding word_le_def uint_1 by linarith
      then show ?thesis by (simp add: word_uint_eq_iff)
    qed
    then show "bigint_val a ^ n = sint (a ! 0)" using L n unfolding va by auto }
  { assume "a ! 0 = - 1"
    then show "bigint_val a ^ n = sint (1 - 2 * (b ! 0 AND 1))"
      using limb_parity [of b] b L unfolding va by (auto simp: n_def bigint_normal_def) }
qed

text \<open>C7 Exponentiation, by single bits when the base is a power of two and by square and multiply otherwise, returns the normal form of the exact power; it gives up only when memory is exhausted or the operands already need more limbs than the limit.\<close>

theorem js_bigint_pow_correct:
  fixes a b :: "'a::len word list"
  assumes L: "32 \<le> LENGTH('a)" and a: "bigint_normal a" and b: "bigint_normal b" "0 \<le> bigint_val b"
  defines "n \<equiv> nat (bigint_val b)"
  shows "js_computes ctx (max 1 (length a * n)) (bigint_val a ^ n) (js_bigint_pow ctx a b) \<or>
    js_bigint_pow ctx a b = Inl (RangeError ''BigInt is too large'') \<and> JS_BIGINT_MAX_SIZE TYPE('a) < length a * n"
proof -
  have ne: "a \<noteq> []" "b \<noteq> []" using a b by (simp_all add: bigint_normal_def)
  have sb: "js_bigint_sign b = 0" using js_bigint_sign_nonzero [OF ne(2)] b(2) by auto
  show ?thesis
  proof (cases "length b = 1 \<and> b ! 0 = 0")
    case True
    then have "b = [0]" by (auto simp: length_Suc_conv)
    then have "bigint_val b = 0" by (simp add: bigint_val_single)
    then show ?thesis
      using True sb L js_computes_new_si [of 1 1 "1 :: 'a word" ctx] by (simp add: js_bigint_pow_def n_def)
  next
    case False
    then have nz: "(length b = 1 \<and> b ! 0 = 0) = False" by blast
    have pos: "0 < bigint_val b" using bigint_normal_zero [OF b(1)] b(2) False by force
    note gen = pow_general_correct [OF L a b(1) pos, of ctx, folded n_def]
    have le: "length a * n \<le> max 1 (length a * n)" "1 \<le> max 1 (length a * n)" by simp_all
    consider "length a \<noteq> 1" | "length a = 1" "a ! 0 \<le> 1" | "length a = 1" "\<not> a ! 0 \<le> 1" "a ! 0 = - 1"
      | "length a = 1" "\<not> a ! 0 \<le> 1" "a ! 0 \<noteq> - 1" by blast
    then show ?thesis
    proof cases
      case 1
      then have "js_bigint_pow ctx a b = pow_general ctx a b" unfolding js_bigint_pow_def nz using sb by simp
      then show ?thesis using gen js_computes_mono [OF _ le(1)] by auto
    next
      case 2
      then show ?thesis unfolding js_bigint_pow_def nz
        using sb js_computes_new_si [OF le(2) js_bigint_pow_single(1) [OF L 2(1) b(1) pos 2(2), folded n_def]]
        by (auto simp: Let_def)
    next
      case 3
      then show ?thesis unfolding js_bigint_pow_def nz
        using sb js_computes_new_si [OF le(2) js_bigint_pow_single(2) [OF L 3(1) b(1) pos 3(3), folded n_def]]
        by (auto simp: Let_def)
    next
      case 4
      define v where "v = (if sint (a ! 0) < 0 then - (a ! 0) else a ! 0)"
      have eq: "js_bigint_pow ctx a b =
          (if v AND (v - 1) = 0 then pow_two_power ctx v (sint (a ! 0) < 0) b else pow_general ctx a b)"
        unfolding js_bigint_pow_def nz using 4 sb by (simp add: Let_def v_def)
      show ?thesis
        using gen pow_two_power_correct [OF L 4(1) b(1) pos 4(2) v_def, of ctx, folded n_def] 4(1) js_computes_mono [OF _ le(1)]
        unfolding eq by (auto split: if_splits)
    qed
  qed
qed

theorem js_bigint_pow_correct_witness:
  "js_computes \<lparr>js_alloc_ok = \<lambda>_. True, js_fill = 7\<rparr> 5 (243 :: int)
     (js_bigint_pow \<lparr>js_alloc_ok = \<lambda>_. True, js_fill = 7\<rparr> [3 :: u64] [5])"
  using js_bigint_pow_correct [of "[3 :: u64]" "[5]" "\<lparr>js_alloc_ok = \<lambda>_. True, js_fill = 7\<rparr>"]
  by (simp add: bigint_val_single JS_BIGINT_MAX_SIZE_def)

text \<open>A negative exponent raises the documented RangeError.\<close>

theorem js_bigint_pow_negative:
  assumes "b \<noteq> []" and "bigint_val b < 0"
  shows "js_bigint_pow ctx a b = Inl (RangeError ''BigInt negative exponent'')"
  using assms js_bigint_sign_nonzero [of b] by (simp add: js_bigint_pow_def)

theorem js_bigint_pow_negative_witness:
  "js_bigint_pow \<lparr>js_alloc_ok = \<lambda>_. True, js_fill = 7\<rparr> [2 :: u64] [- 1] = Inl (RangeError ''BigInt negative exponent'')"
  by (rule js_bigint_pow_negative) (simp_all add: bigint_val_single)

end
