(* ===== verification/Bigint_Float.thy ===== *)
theory Bigint_Float
  imports Bigint_Ops
begin

text \<open>
  Conversions between \<^verbatim>\<open>JSBigInt\<close> and the machine integers and doubles of \<^verbatim>\<open>quickjs.c\<close>, in the build with
  64-bit limbs. A double is its IEEE 754 bit pattern (\<^verbatim>\<open>uint64_as_float64\<close>). The main result is that
  \<^verbatim>\<open>js_bigint_to_float64\<close> rounds to nearest, ties to even.
\<close>

section \<open>Machine integers\<close>

definition js_bigint_set_si64 :: "u64 \<Rightarrow> u64 list" where
  "js_bigint_set_si64 a = js_bigint_set_si a"

definition js_bigint_set_short :: "u64 \<Rightarrow> u64 list" where
  "js_bigint_set_short val = js_bigint_set_si val"

definition js_bigint_new_si64 :: "js_context \<Rightarrow> u64 \<Rightarrow> js_error + u64 list" where
  "js_bigint_new_si64 ctx a = js_bigint_new_si ctx a"

definition js_bigint_new_ui64 :: "js_context \<Rightarrow> u64 \<Rightarrow> js_error + u64 list" where
  "js_bigint_new_ui64 ctx a =
     (if uint a \<le> 2 ^ 63 - 1 then js_bigint_new_si64 ctx a
      else js_bind (js_bigint_new ctx ((65 + 64 - 1) div 64)) (\<lambda>r. Inr (r[0 := a, 1 := 0])))"

definition js_bigint_get_si_sat :: "u64 list \<Rightarrow> u64" where
  "js_bigint_get_si_sat a =
     (if length a = 1 then a ! 0
      else if js_bigint_sign a \<noteq> 0 then word_of_int (- (2 ^ 63)) else word_of_int (2 ^ 63 - 1))"

section \<open>Mantissa and exponent\<close>

text \<open>One limb of \<^verbatim>\<open>abs(a)\<close>: complement and add when the sign is set.\<close>

definition abs_limb :: "u64 \<Rightarrow> u64 \<Rightarrow> u64 \<Rightarrow> u64 \<times> u64" where
  "abs_limb sg carry x = (let v = (x XOR - sg) + carry in (v, of_bool (v < carry)))"

fun abs_low :: "u64 \<Rightarrow> u64 list \<Rightarrow> u64 \<Rightarrow> u64 \<Rightarrow> u64 \<times> u64" where
  "abs_low sg [] carry low_bits = (carry, low_bits)"
| "abs_low sg (x # xs) carry low_bits =
     (let (v, c) = abs_limb sg carry x in abs_low sg xs c (low_bits OR v))"

fun abs_high :: "u64 \<Rightarrow> u64 list \<Rightarrow> int \<Rightarrow> nat \<Rightarrow> u64 \<Rightarrow> u64 list" where
  "abs_high sg tab i 0 carry = []"
| "abs_high sg tab i (Suc k) carry =
     (if i < 0 then 0 # abs_high sg tab (i + 1) k carry
      else let (v, c) = abs_limb sg carry (tab ! nat i) in v # abs_high sg tab (i + 1) k c)"

definition mant_normalize :: "u64 \<Rightarrow> u64 \<Rightarrow> u64 \<times> nat" where
  "mant_normalize a1 a0 =
     (let (b1, b0, shift) =
        (if a1 = 0 then (a0, 0, 64)
         else let shift = js_limb_clz a1 in
           (if shift \<noteq> 0 then push_bit shift a1 OR drop_bit (64 - shift) a0 else a1,
            if shift \<noteq> 0 then push_bit shift a0 else a0, shift))
      in (b1 OR of_bool (b0 \<noteq> 0), shift))"

definition js_bigint_get_mant_exp :: "u64 list \<Rightarrow> u64 \<times> int" where
  "js_bigint_get_mant_exp a =
     (let n2 = 2; n1 = int (length a) - int n2; sg = js_bigint_sign a;
          (carry, low_bits) = abs_low sg (take (nat n1) a) sg 0;
          t = abs_high sg a n1 n2 carry;
          (a1, shift) = mant_normalize (t ! 1) (t ! 0 OR of_bool (low_bits \<noteq> 0))
      in (a1, int (length a) * 64 - int shift - 1))"

section \<open>Conversion to double\<close>

text \<open>\<^verbatim>\<open>1 << (n - 1)\<close> is computed in \<^verbatim>\<open>int\<close>; the only caller has \<open>n = 10\<close>.\<close>

definition shr_rndn :: "u64 \<Rightarrow> nat \<Rightarrow> u64" where
  "shr_rndn a n = (let addend = (drop_bit n a AND 1) + (push_bit (n - 1) 1 - 1) in drop_bit n (a + addend))"

definition float64_pack :: "u64 \<Rightarrow> int \<Rightarrow> u64 \<Rightarrow> u64" where
  "float64_pack sg be mant = push_bit 63 sg OR push_bit 52 (word_of_int be) OR mant"

text \<open>
  The reference: the double nearest to an integer, ties to even, infinity when out of range. It is also
  what the C conversion of an \<^verbatim>\<open>int64_t\<close> to \<^verbatim>\<open>double\<close> does.
\<close>

definition round_half_even :: "int \<Rightarrow> nat \<Rightarrow> int" where
  "round_half_even x k =
     (let q = x div 2 ^ k; r = x mod 2 ^ k in
      if 2 * r > 2 ^ k \<or> 2 * r = 2 ^ k \<and> odd q then q + 1 else q)"

fun ilog2 :: "nat \<Rightarrow> nat" where
  "ilog2 n = (if n < 2 then 0 else Suc (ilog2 (n div 2)))"

declare ilog2.simps [simp del]

definition float64_of_int :: "int \<Rightarrow> u64" where
  "float64_of_int v =
     (if v = 0 then 0
      else
        let s = of_bool (v < 0); m = \<bar>v\<bar>; e = ilog2 (nat m);
            r = (if e \<le> 52 then m * 2 ^ (52 - e) else round_half_even m (e - 52));
            (r', e') = (if r = 2 ^ 53 then (2 ^ 52, e + 1) else (r, e))
        in if e' > 1023 then float64_pack s 2047 0
           else float64_pack s (int e' + 1023) (word_of_int (r' - 2 ^ 52)))"

definition js_bigint_to_float64 :: "u64 list \<Rightarrow> u64" where
  "js_bigint_to_float64 a =
     (if length a = 1 then float64_of_int (sint (a ! 0))
      else
        let sg = js_bigint_sign a; (mant, e) = js_bigint_get_mant_exp a;
            (mant', e') =
              (if e > 1023 then (0, 1024)
               else
                 let m1 = drop_bit 1 mant OR (mant AND 1); m2 = shr_rndn m1 10;
                     (m3, e3) = (if m2 \<ge> push_bit 53 1 then (drop_bit 1 m2, e + 1) else (m2, e))
                 in (m3 AND (push_bit 52 1 - 1), e3))
        in float64_pack sg (e' + 1023) mant')"

section \<open>Conversion from double and comparison\<close>

definition f64_exp :: "u64 \<Rightarrow> int" where
  "f64_exp a = uint (drop_bit 52 a AND (push_bit 11 1 - 1))"

definition f64_mant :: "u64 \<Rightarrow> u64" where
  "f64_mant a = a AND (push_bit 52 1 - 1)"

text \<open>The value of \<^verbatim>\<open>*pres\<close> and the result; memory errors come with \<open>0\<close>.\<close>

definition js_bigint_from_float64 :: "js_context \<Rightarrow> u64 \<Rightarrow> nat \<times> (js_error + u64 list) option" where
  "js_bigint_from_float64 ctx a =
     (let sg = drop_bit 63 a; e = f64_exp a; mant = f64_mant a in
      if e = 2047 then (2, None)
      else if e = 0 \<and> mant = 0 then (0, Some (js_bigint_new_si ctx 0))
      else
        let e1 = e - 1023 in
        if e1 < 0 then (1, None)
        else
          let m1 = mant OR push_bit 52 1; shift = nat (52 - e1) in
          if e1 < 52 \<and> m1 AND (push_bit shift 1 - 1) \<noteq> 0 then (1, None)
          else
            let (m2, e2) = (if e1 < 52 then (drop_bit shift m1, 0) else (m1, nat (e1 - 52)));
                m3 = (if sg \<noteq> 0 then - m2 else m2)
            in (0, Some (js_bigint_shl ctx (js_bigint_set_si64 m3) e2)))"

definition js_bigint_float64_cmp :: "u64 list \<Rightarrow> u64 \<Rightarrow> int" where
  "js_bigint_float64_cmp a b1 =
     (let b_sign = uint (drop_bit 63 b1); e = f64_exp b1; mant = f64_mant b1; a_sign = uint (js_bigint_sign a) in
      if e = 2047 then (if mant \<noteq> 0 then 2 else 2 * b_sign - 1)
      else if e = 0 \<and> mant = 0 then (if length a = 1 \<and> a ! 0 = 0 then 0 else 1 - 2 * a_sign)
      else if length a = 1 \<and> a ! 0 = 0 then 2 * b_sign - 1
      else if a_sign \<noteq> b_sign then 1 - 2 * a_sign
      else
        let e1 = e - 1023; (a_mant, f) = js_bigint_get_mant_exp a in
        if f \<noteq> e1 then (if f < e1 then - 1 else 1)
        else
          let m1 = push_bit 11 (mant OR push_bit 52 1) in
          if a_mant < m1 then 2 * a_sign - 1 else if a_mant > m1 then 1 - 2 * a_sign else 0)"

section \<open>The absolute value, limb by limb\<close>

fun abs_limbs :: "u64 \<Rightarrow> u64 list \<Rightarrow> u64 \<Rightarrow> u64 list \<times> u64" where
  "abs_limbs sg [] carry = ([], carry)"
| "abs_limbs sg (x # xs) carry =
     (let (v, c) = abs_limb sg carry x; (vs, c') = abs_limbs sg xs c in (v # vs, c'))"

lemma abs_limbs_append:
  "abs_limbs sg (xs @ ys) c = (let (r1, c1) = abs_limbs sg xs c; (r2, c2) = abs_limbs sg ys c1 in (r1 @ r2, c2))"
  by (induction xs arbitrary: c) (auto simp: Let_def split: prod.splits)

lemma abs_limbs_neg: "abs_limbs 1 xs c = mp_neg_loop xs c"
  by (induction xs arbitrary: c) (auto simp: abs_limb_def Let_def split: prod.splits)

lemma abs_limbs_pos: "abs_limbs 0 xs 0 = (xs, 0)"
  by (induction xs) (auto simp: abs_limb_def Let_def)

lemma length_abs_limbs: "length (fst (abs_limbs sg xs c)) = length xs"
  by (induction xs arbitrary: c) (auto simp: Let_def case_prod_beta)

lemma js_bigint_sign_cases: "js_bigint_sign a = 0 \<or> js_bigint_sign a = (1 :: 'a::len word)"
  using uint_top_bit [of "a ! (length a - 1)"] unfolding js_bigint_sign_def by (auto simp: word_uint_eq_iff split: if_splits)

lemma abs_limbs_mp_abs: "fst (abs_limbs (js_bigint_sign a) a (js_bigint_sign a)) = mp_abs a"
  using js_bigint_sign_cases [of a] by (auto simp: mp_abs_def mp_neg_def abs_limbs_neg abs_limbs_pos)

lemma abs_low_limbs:
  "abs_low sg xs c low = (snd (abs_limbs sg xs c), fold (\<lambda>v l. l OR v) (fst (abs_limbs sg xs c)) low)"
  by (induction xs arbitrary: c low) (auto simp: Let_def case_prod_beta)

lemma word_or_eq_0: "(x OR y = 0) = (x = 0 \<and> y = (0 :: 'a::len word))"
  by (metis or.left_neutral or_eq_0_iff)

lemma mp_val_eq_0_iff: "mp_val xs = 0 \<longleftrightarrow> (\<forall>x\<in>set xs. x = (0 :: 'a::len word))"
proof (induction xs)
  case (Cons x xs)
  have "mp_val (x # xs) = 0 \<longleftrightarrow> uint x = 0 \<and> mp_val xs = 0"
    using mp_val_nonneg [of xs] by (simp add: add_nonneg_eq_0_iff)
  then show ?case using Cons by (auto simp: uint_0_iff)
qed simp

lemma fold_or_eq_0: "fold (\<lambda>v l. l OR v) xs low = 0 \<longleftrightarrow> low = 0 \<and> mp_val xs = (0 :: int)" for xs :: "u64 list"
  unfolding mp_val_eq_0_iff by (induction xs arbitrary: low) (auto simp: word_or_eq_0)

text \<open>The two top limbs of \<open>|a|\<close> and whether anything lies below them.\<close>

lemma split_last_two:
  assumes "length a = Suc (Suc n)"
  shows "\<exists>b u v. a = b @ [u, v] \<and> length b = n"
proof (cases a rule: rev_cases)
  case (snoc xs v)
  with assms show ?thesis by (cases xs rule: rev_cases) auto
qed (use assms in simp)

lemma get_mant_exp_limbs:
  assumes "length a = Suc (Suc n)"
  obtains l x y where "mp_abs a = l @ [x, y]" and "length l = n"
    and "js_bigint_get_mant_exp a =
      (let (m, shift) = mant_normalize y (x OR of_bool (mp_val l \<noteq> 0)) in (m, int (length a) * 64 - int shift - 1))"
proof -
  define sg where "sg = js_bigint_sign a"
  obtain b u v where a: "a = b @ [u, v]" "length b = n"
    using split_last_two [OF assms] by blast
  obtain l c where l: "abs_limbs sg b sg = (l, c)" by fastforce
  obtain x c1 where x: "abs_limb sg c u = (x, c1)" by fastforce
  obtain y c2 where y: "abs_limb sg c1 v = (y, c2)" by fastforce
  have "mp_abs a = l @ [x, y]"
    unfolding abs_limbs_mp_abs [symmetric] sg_def [symmetric] by (simp add: a(1) abs_limbs_append l x y)
  moreover have "length l = n" using length_abs_limbs [of sg b sg] l a(2) by simp
  moreover have "js_bigint_get_mant_exp a =
      (let (m, shift) = mant_normalize y (x OR of_bool (mp_val l \<noteq> 0)) in (m, int (length a) * 64 - int shift - 1))"
  proof -
    have "take n a = b" "a ! n = u" "a ! Suc n = v" using a by (simp_all add: nth_append)
    then show ?thesis
      unfolding js_bigint_get_mant_exp_def
      using assms l x y by (simp add: sg_def [symmetric] abs_low_limbs numeral_2_eq_2 fold_or_eq_0 Let_def nat_add_distrib)
  qed
  ultimately show thesis by (rule that)
qed

lemma get_mant_exp_single:
  assumes "length a = 1"
  obtains y where "mp_abs a = [y]"
    and "js_bigint_get_mant_exp a = (let (m, shift) = mant_normalize y 0 in (m, 63 - int shift))"
proof -
  obtain u where a: "a = [u]" using assms by (auto simp: length_Suc_conv)
  obtain y c where y: "abs_limb (js_bigint_sign a) (js_bigint_sign a) u = (y, c)" by fastforce
  have "mp_abs a = [y]" unfolding abs_limbs_mp_abs [symmetric] using y by (simp add: a)
  moreover have "js_bigint_get_mant_exp a = (let (m, shift) = mant_normalize y 0 in (m, 63 - int shift))"
    unfolding js_bigint_get_mant_exp_def using y by (simp add: a numeral_2_eq_2 Let_def)
  ultimately show thesis by (rule that)
qed

section \<open>Rounding with a sticky bit\<close>

text \<open>The quotient by a power of two whose lowest bit also records a non-zero remainder.\<close>

definition sticky :: "int \<Rightarrow> nat \<Rightarrow> int" where
  "sticky x j = (let q = x div 2 ^ j in if x mod 2 ^ j \<noteq> 0 \<and> even q then q + 1 else q)"

lemma div_mod_pow2_add:
  fixes x :: int
  shows "x div 2 ^ (j + k) = x div 2 ^ j div 2 ^ k"
    and "x mod 2 ^ (j + k) = 2 ^ j * (x div 2 ^ j mod 2 ^ k) + x mod 2 ^ j"
  by (simp_all add: power_add zdiv_zmult2_eq zmod_zmult2_eq)

lemma even_plus_1:
  fixes q :: int
  assumes "even q" and "1 \<le> k"
  shows "(q + 1) div 2 ^ k = q div 2 ^ k" and "(q + 1) mod 2 ^ k = q mod 2 ^ k + 1"
    and "even (q mod 2 ^ k)" and "q mod 2 ^ k + 1 < 2 ^ k"
proof -
  obtain k' where k: "k = Suc k'" using assms(2) by (cases k) auto
  obtain p where q: "q = 2 * p" using assms(1) by blast
  have d: "(2 :: int) ^ k = 2 * 2 ^ k'" by (simp add: k)
  have m: "q mod 2 ^ k = 2 * (p mod 2 ^ k')" unfolding q d by (simp add: mod_mult_mult1)
  then show "even (q mod 2 ^ k)" by simp
  have lt: "p mod 2 ^ k' < 2 ^ k'" by simp
  then have "2 * (p mod 2 ^ k') + 1 < 2 * 2 ^ k'" by linarith
  then show b: "q mod 2 ^ k + 1 < 2 ^ k" unfolding m unfolding d .
  define c t where "c = q div 2 ^ k" and "t = q mod 2 ^ k + 1"
  have eq: "q + 1 = t + 2 ^ k * c" by (simp add: c_def t_def)
  have t: "0 \<le> t" "t < 2 ^ k" using b by (simp_all add: t_def)
  have "(q + 1) div 2 ^ k = c + t div 2 ^ k" "(q + 1) mod 2 ^ k = t mod 2 ^ k" unfolding eq by simp_all
  then show "(q + 1) div 2 ^ k = q div 2 ^ k" "(q + 1) mod 2 ^ k = q mod 2 ^ k + 1"
    using div_pos_pos_trivial [OF t] mod_pos_pos_trivial [OF t] by (simp_all only: c_def t_def add_0_right)
qed

lemma sticky_parts:
  assumes "1 \<le> k"
  shows "sticky x j div 2 ^ k = x div 2 ^ (j + k)"
    and "sticky x j mod 2 ^ k = x div 2 ^ j mod 2 ^ k + of_bool (x mod 2 ^ j \<noteq> 0 \<and> even (x div 2 ^ j))"
  using even_plus_1 [OF _ assms, of "x div 2 ^ j"] by (auto simp: sticky_def Let_def div_mod_pow2_add)

lemma sticky_sticky:
  assumes "1 \<le> k"
  shows "sticky (sticky x j) k = sticky x (j + k)"
proof -
  let ?q = "x div 2 ^ j" and ?r = "x mod 2 ^ j"
  have "sticky x j mod 2 ^ k \<noteq> 0 \<longleftrightarrow> ?q mod 2 ^ k \<noteq> 0 \<or> ?r \<noteq> 0"
  proof (cases "even ?q")
    case True
    have "0 \<le> ?q mod 2 ^ k" by simp
    then have "?q mod 2 ^ k + 1 \<noteq> 0" by linarith
    then show ?thesis unfolding sticky_parts(2) [OF assms] using True by auto
  next
    case False
    then have "?q mod 2 ^ k \<noteq> 0" using assms by (metis mod_0_imp_dvd dvd_trans dvd_power One_nat_def Suc_le_lessD)
    then show ?thesis unfolding sticky_parts(2) [OF assms] using False by simp
  qed
  moreover have "x mod 2 ^ (j + k) \<noteq> 0 \<longleftrightarrow> ?q mod 2 ^ k \<noteq> 0 \<or> ?r \<noteq> 0"
    unfolding div_mod_pow2_add by (simp add: add_nonneg_eq_0_iff)
  ultimately show ?thesis unfolding sticky_def [of "sticky x j"] sticky_def [of x "j + k"] sticky_parts(1) [OF assms] by simp
qed

lemma sticky_scale: "s \<le> k \<Longrightarrow> sticky (2 ^ s * x) k = sticky x (k - s)"
proof -
  assume "s \<le> k"
  then have "(2 :: int) ^ k = 2 ^ s * 2 ^ (k - s)" by (simp flip: power_add)
  then show ?thesis by (simp add: sticky_def mod_mult_mult1)
qed

lemma round_half_even_sticky:
  assumes "2 \<le> k"
  shows "round_half_even (sticky x j) k = round_half_even x (j + k)"
proof -
  let ?q = "x div 2 ^ j" and ?r = "x mod 2 ^ j" and ?J = "2 ^ j :: int" and ?K = "2 ^ k :: int"
  define p where "p = ?q mod ?K"
  define h where "h = (2 ^ (k - 2) :: int)"
  have "k = 2 + (k - 2)" using assms by simp
  then have "?K = 2 ^ 2 * h" unfolding h_def by (metis power_add)
  then have h: "?K = 4 * h" by simp
  have r: "0 \<le> ?r" "?r < ?J" by simp_all
  have S: "sticky x j mod ?K = p + of_bool (?r \<noteq> 0 \<and> even ?q)" "x mod 2 ^ (j + k) = ?J * p + ?r"
    using sticky_parts(2) [of k x j] assms div_mod_pow2_add by (simp_all add: p_def)
  have pq: "even p \<longleftrightarrow> even ?q" unfolding p_def h by (simp add: dvd_mod_iff)
  let ?b = "of_bool (?r \<noteq> 0 \<and> even ?q) :: int"
  define A Y where "A = ?J * (2 * h)" and "Y = ?J * p + ?r"
  have K: "?J * ?K = 2 * A" unfolding h A_def by simp
  have cmp: "(2 * h < p + ?b \<longleftrightarrow> A < Y) \<and> (p + ?b = 2 * h \<longleftrightarrow> Y = A)"
  proof -
    consider "p < 2 * h" | "p = 2 * h" | "2 * h < p" by linarith
    then show ?thesis
    proof cases
      case 1
      then have "?J * (p + 1) \<le> A" unfolding A_def by (intro mult_left_mono) simp_all
      then have "Y < A" using r unfolding Y_def by (simp only: distrib_left mult_1_right)
      moreover have "p + ?b < 2 * h"
      proof (cases "even p")
        case True
        then have "p + 1 \<noteq> 2 * h" by (metis even_mult_iff even_numeral odd_add odd_one)
        then show ?thesis using 1 by (auto simp: of_bool_def)
      qed (use 1 pq in simp)
      ultimately show ?thesis by auto
    next
      case 2
      then have "even ?q" using pq by simp
      moreover have "?r = 0 \<or> 0 < ?r" using r by linarith
      ultimately show ?thesis using 2 by (auto simp: A_def Y_def)
    next
      case 3
      then have "A < ?J * p" unfolding A_def by (intro mult_strict_left_mono) simp_all
      then have "A < Y" using r unfolding Y_def by linarith
      moreover have "2 * h < p + ?b" using 3 by simp
      ultimately show ?thesis by auto
    qed
  qed
  then have gt: "2 * (p + ?b) > ?K \<longleftrightarrow> 2 * (?J * p + ?r) > ?J * ?K"
    and eq: "2 * (p + ?b) = ?K \<longleftrightarrow> 2 * (?J * p + ?r) = ?J * ?K"
    unfolding K Y_def [symmetric] unfolding h by auto
  have P: "(2 :: int) ^ (j + k) = ?J * ?K" by (rule power_add)
  have k: "1 \<le> k" using assms by simp
  show ?thesis
    unfolding round_half_even_def Let_def sticky_parts(1) [OF k] S unfolding gt eq unfolding P ..
qed

section \<open>Mantissa and exponent of a big integer\<close>

lemma uint_or_of_bool:
  "uint (x OR of_bool s) = uint x + of_bool (s \<and> even (uint x))" for x :: "'a::len word"
proof (cases "s \<and> even (uint x)")
  case True
  then have "uint (x OR 1) = uint x OR 1" by (simp add: unsigned_or_eq)
  also have "\<dots> = uint x + 1" using True by (simp add: or_one_eq)
  finally show ?thesis using True by simp
next
  case False
  have "uint (x OR 1) = uint x OR 1" by (simp add: unsigned_or_eq)
  then show ?thesis using False by (cases s) (simp_all only: of_bool_eq or_one_eq or.right_neutral simp_thms even_plus_one_iff add_0_right)
qed

lemma shl_two_limbs:
  fixes x y :: u64
  assumes "y \<noteq> 0"
  defines "s \<equiv> js_limb_clz y"
  defines "b1 \<equiv> if s \<noteq> 0 then push_bit s y OR drop_bit (64 - s) x else y"
    and "b0 \<equiv> if s \<noteq> 0 then push_bit s x else x"
  shows "uint b0 + 2 ^ 64 * uint b1 = 2 ^ s * (uint x + 2 ^ 64 * uint y)"
proof (cases "s = 0")
  case False
  have s: "s < 64" "2 ^ s * uint y < 2 ^ 64" using js_limb_clz_bounds [OF assms(1)] by (simp_all add: s_def)
  obtain rs c where sh: "mp_shl [x, y] s = (rs, c)" by fastforce
  have "mp_val rs + 2 ^ (64 * 2) * uint c = 2 ^ s * mp_val [x, y]" using mp_shl_value [OF sh] s by (simp del: power_numeral mp_val.simps)
  moreover have "rs = [b0, b1]" "c = drop_bit (64 - s) y"
    using sh False by (auto simp: mp_shl_def b0_def b1_def)
  moreover have "drop_bit (64 - s) y = 0"
  proof -
    have "2 ^ s * uint y < 2 ^ s * 2 ^ (64 - s)" using s by (simp flip: power_add)
    then have "uint y < 2 ^ (64 - s)" by simp
    then show ?thesis by (simp add: word_uint_eq_iff uint_drop_bit)
  qed
  ultimately show ?thesis by simp
qed (simp add: b0_def b1_def)

lemma mant_normalize_value:
  fixes x y :: u64
  assumes "mant_normalize y x = (m, shift)"
  shows "y \<noteq> 0 \<Longrightarrow> shift = js_limb_clz y \<and> uint m = sticky (uint x + 2 ^ 64 * uint y) (64 - shift)"
    and "y = 0 \<Longrightarrow> shift = 64 \<and> m = x"
proof -
  { assume y: "y \<noteq> 0"
    define s where "s = js_limb_clz y"
    define b1 b0 where "b1 = (if s \<noteq> 0 then push_bit s y OR drop_bit (64 - s) x else y)"
      and "b0 = (if s \<noteq> 0 then push_bit s x else x)"
    have s: "s \<le> 64" using js_limb_clz_bounds(1) [OF y] by (simp add: s_def)
    have P: "2 ^ s * (uint x + 2 ^ 64 * uint y) = uint b0 + 2 ^ 64 * uint b1"
      using shl_two_limbs [OF y, of x, folded s_def, folded b0_def b1_def] by (rule sym)
    have m: "m = b1 OR of_bool (b0 \<noteq> 0)" "shift = s"
      using assms y
      unfolding mant_normalize_def Let_def s_def [symmetric] if_not_P [OF y] b0_def [symmetric] b1_def [symmetric] by simp_all
    have b0: "0 \<le> uint b0" "uint b0 < 2 ^ 64" using uint_lt2p [of b0] by simp_all
    have "sticky (2 ^ s * (uint x + 2 ^ 64 * uint y)) 64 = uint b1 + of_bool (uint b0 \<noteq> 0 \<and> even (uint b1))"
      unfolding P sticky_def Let_def
      using div_pos_pos_trivial [OF b0] mod_pos_pos_trivial [OF b0] by (simp del: power_numeral uint_ge_0)
    then have "uint m = sticky (uint x + 2 ^ 64 * uint y) (64 - s)"
      unfolding m(1) uint_or_of_bool sticky_scale [OF s, symmetric] by (simp add: uint_0_iff)
    then show "shift = js_limb_clz y \<and> uint m = sticky (uint x + 2 ^ 64 * uint y) (64 - shift)"
      using m(2) by (simp add: s_def) }
  { assume "y = 0"
    then show "shift = 64 \<and> m = x" using assms by (auto simp: mant_normalize_def) }
qed

text \<open>
  The mantissa holds the 64 leading bits of \<open>|a|\<close>, its lowest bit made sticky, and the exponent is the
  position of the leading bit.
\<close>

lemma get_mant_exp_large:
  assumes a: "bigint_normal a" and len: "2 \<le> length a" and g: "js_bigint_get_mant_exp a = (mant, e)"
  shows "63 \<le> e" and "2 ^ nat e \<le> \<bar>bigint_val a\<bar>" and "\<bar>bigint_val a\<bar> < 2 ^ Suc (nat e)"
    and "uint mant = sticky \<bar>bigint_val a\<bar> (nat e - 63)"
proof -
  define M where "M = \<bar>bigint_val a\<bar>"
  obtain n where n: "length a = Suc (Suc n)" using len by (metis numeral_2_eq_2 le_Suc_ex add_Suc)
  obtain l x y where lxy: "mp_abs a = l @ [x, y]" "length l = n"
    and eq: "js_bigint_get_mant_exp a =
      (let (m, shift) = mant_normalize y (x OR of_bool (mp_val l \<noteq> 0)) in (m, int (length a) * 64 - int shift - 1))"
    by (rule get_mant_exp_limbs [OF n])
  obtain shift where mn: "mant_normalize y (x OR of_bool (mp_val l \<noteq> 0)) = (mant, shift)"
    and e: "e = int (length a) * 64 - int shift - 1" using eq g by (auto simp: Let_def split: prod.splits)
  let ?N = "2 ^ (64 * n) :: int"
  have M: "M = mp_val l + ?N * (uint x + 2 ^ 64 * uint y)"
    using mp_abs_value(2) [of a] a lxy by (simp add: M_def bigint_normal_def mp_val_append)
  have l: "0 \<le> mp_val l" "mp_val l < ?N" using mp_val_lt [of l] lxy(2) by simp_all
  define T where "T = uint x + 2 ^ 64 * uint y"
  have T': "uint (x OR of_bool (mp_val l \<noteq> 0)) + 2 ^ 64 * uint y = sticky M (64 * n)"
  proof -
    have "M div ?N = T" "M mod ?N = mp_val l"
      unfolding M T_def [symmetric] using div_pos_pos_trivial [OF l] mod_pos_pos_trivial [OF l] by simp_all
    moreover have "even T \<longleftrightarrow> even (uint x)" by (simp add: T_def)
    ultimately show ?thesis unfolding uint_or_of_bool sticky_def Let_def by (simp add: T_def)
  qed
  have x: "0 \<le> uint x" "uint x < 2 ^ 64" using uint_lt2p [of x] by simp_all
  have up: "M < ?N * (2 ^ 64 * (uint y + 1))"
  proof -
    have "M < ?N * (T + 1)" unfolding M T_def [symmetric] using l by (simp add: distrib_left)
    also have "\<dots> \<le> ?N * (2 ^ 64 * (uint y + 1))"
      using x by (intro mult_left_mono) (simp_all add: T_def distrib_left)
    finally show ?thesis .
  qed
  have "63 \<le> e \<and> 2 ^ nat e \<le> M \<and> M < 2 ^ Suc (nat e) \<and> uint mant = sticky M (nat e - 63)"
  proof (cases "y = 0")
    case True
    have sm: "shift = 64" "mant = x OR of_bool (mp_val l \<noteq> 0)" using mant_normalize_value(2) [OF mn True] by simp_all
    have ne: "nat e = 64 * n + 63" "63 \<le> e" using e n sm(1) by simp_all
    have P: "(2 :: int) ^ (64 * n + 64) = ?N * 2 ^ 64" by (simp add: power_add)
    have "2 ^ (64 * Suc n) \<le> 2 * M" using bigint_normal_large [OF a n] by (auto simp: M_def)
    then have "2 ^ (64 * n + 63) \<le> M" by (simp add: power_add)
    moreover have "M < 2 ^ (64 * n + 64)" using up True unfolding P by simp
    ultimately show ?thesis using T' True sm(2) ne by (simp add: add.commute)
  next
    case False
    have sm: "shift = js_limb_clz y" "uint mant = sticky (sticky M (64 * n)) (64 - shift)"
      using mant_normalize_value(1) [OF mn False] unfolding T' by simp_all
    have s: "shift < 64" "2 ^ 64 \<le> 2 * (2 ^ shift * uint y)" "2 ^ shift * uint y < 2 ^ 64"
      using js_limb_clz_bounds [OF False] by (simp_all add: sm(1))
    have ne: "nat e = 64 * n + 64 + (63 - shift)" "Suc (nat e) = 64 * n + 64 + (64 - shift)" "63 \<le> e"
      using e n s(1) by simp_all
    have "nat e - 63 = 64 * n + (64 - shift)" using ne(1) s(1) by linarith
    then have mant: "uint mant = sticky M (nat e - 63)"
      unfolding sm(2) using sticky_sticky [of "64 - shift" M "64 * n"] s(1) by simp
    have S: "(2 :: int) ^ 64 = 2 ^ shift * 2 ^ (64 - shift)" "(2 :: int) ^ 64 = 2 * (2 ^ shift * 2 ^ (63 - shift))"
      using s(1) by (simp_all flip: power_add power_Suc)
    have "2 ^ (63 - shift) \<le> uint y" using s(2) unfolding S(2) by simp
    then have "2 ^ 64 * 2 ^ (63 - shift) \<le> 2 ^ 64 * uint y" by simp
    then have "?N * (2 ^ 64 * 2 ^ (63 - shift)) \<le> ?N * T"
      using x(1) unfolding T_def by (intro mult_left_mono zero_le_power) linarith+
    then have lo: "2 ^ nat e \<le> M" using l(1) unfolding M T_def [symmetric] ne(1) power_add mult.assoc by linarith
    have "uint y < 2 ^ (64 - shift)" using s(3) unfolding S(1) by simp
    then have "?N * (2 ^ 64 * (uint y + 1)) \<le> ?N * (2 ^ 64 * 2 ^ (64 - shift))"
      by (intro mult_left_mono) simp_all
    then have "M < 2 ^ Suc (nat e)" using up unfolding ne(2) power_add mult.assoc by (rule order.strict_trans2 [rotated])
    then show ?thesis using ne(3) mant lo by blast
  qed
  then show "63 \<le> e" "2 ^ nat e \<le> \<bar>bigint_val a\<bar>" "\<bar>bigint_val a\<bar> < 2 ^ Suc (nat e)"
    "uint mant = sticky \<bar>bigint_val a\<bar> (nat e - 63)" unfolding M_def by blast+
qed

lemma get_mant_exp_small:
  assumes len: "length a = 1" and nz: "bigint_val a \<noteq> 0" and g: "js_bigint_get_mant_exp a = (mant, e)"
  shows "0 \<le> e" and "e \<le> 63" and "uint mant = \<bar>bigint_val a\<bar> * 2 ^ nat (63 - e)"
    and "2 ^ nat e \<le> \<bar>bigint_val a\<bar>" and "\<bar>bigint_val a\<bar> < 2 ^ Suc (nat e)"
proof -
  obtain y where y: "mp_abs a = [y]"
    and eq: "js_bigint_get_mant_exp a = (let (m, shift) = mant_normalize y 0 in (m, 63 - int shift))"
    by (rule get_mant_exp_single [OF len])
  obtain shift where mn: "mant_normalize y 0 = (mant, shift)" and e: "e = 63 - int shift"
    using eq g by (auto simp: Let_def split: prod.splits)
  have M: "\<bar>bigint_val a\<bar> = uint y" using mp_abs_value(2) [of a] y len by (cases a) simp_all
  have y0: "y \<noteq> 0" using nz M by auto
  note sm = mant_normalize_value(1) [OF mn y0]
  have s: "shift < 64" "2 ^ 64 \<le> 2 * (2 ^ shift * uint y)" "2 ^ shift * uint y < 2 ^ 64"
    using js_limb_clz_bounds [OF y0] sm by simp_all
  have S: "(2 :: int) ^ 64 = 2 ^ shift * 2 ^ (64 - shift)" "(2 :: int) ^ 64 = 2 * (2 ^ shift * 2 ^ (63 - shift))"
    using s(1) by (simp_all flip: power_add power_Suc)
  have ne: "nat e = 63 - shift" "Suc (nat e) = 64 - shift" "nat (63 - e) = shift" using e s(1) by simp_all
  show "0 \<le> e" "e \<le> 63" using e s(1) by simp_all
  show "2 ^ nat e \<le> \<bar>bigint_val a\<bar>" unfolding M ne(1) using s(2) unfolding S(2) by simp
  show "\<bar>bigint_val a\<bar> < 2 ^ Suc (nat e)" unfolding M ne(2) using s(3) unfolding S(1) by simp
  have "uint mant = sticky (2 ^ 64 * uint y) (64 - shift)" using sm by simp
  also have "2 ^ 64 * uint y = 2 ^ (64 - shift) * (2 ^ shift * uint y)" unfolding S(1) by simp
  also have "sticky \<dots> (64 - shift) = 2 ^ shift * uint y"
    using sticky_scale [of "64 - shift" "64 - shift" "2 ^ shift * uint y"] by (simp add: sticky_def)
  finally show "uint mant = \<bar>bigint_val a\<bar> * 2 ^ nat (63 - e)" unfolding M ne(3) by simp
qed

section \<open>Rounding\<close>

lemma ilog2_eq: "2 ^ e \<le> n \<Longrightarrow> n < 2 ^ Suc e \<Longrightarrow> ilog2 n = e"
proof (induction e arbitrary: n)
  case 0
  then show ?case by (simp add: ilog2.simps [of n])
next
  case (Suc e)
  have "ilog2 (n div 2) = e" using Suc.prems by (intro Suc.IH) auto
  moreover have "\<not> n < 2"
  proof -
    have "(2 :: nat) ^ 1 \<le> 2 ^ Suc e" by (intro power_increasing) simp_all
    then show ?thesis using Suc.prems(1) unfolding power_one_right by linarith
  qed
  ultimately show ?case by (simp add: ilog2.simps [of n])
qed

lemma round_half_even_addend:
  fixes x :: int
  assumes "1 \<le> n"
  shows "(x + (x div 2 ^ n mod 2 + (2 ^ (n - 1) - 1))) div 2 ^ n = round_half_even x n"
proof -
  define D H q r where "D = (2 ^ n :: int)" and "H = (2 ^ (n - 1) :: int)" and "q = x div 2 ^ n" and "r = x mod 2 ^ n"
  have D: "D = 2 * H" using assms by (simp add: D_def H_def flip: power_Suc)
  have H: "1 \<le> H" by (simp add: H_def)
  have x: "x = q * D + r" unfolding q_def r_def D_def by (rule div_mult_mod_eq [symmetric])
  have r: "0 \<le> r" "r < D" by (simp_all add: r_def D_def)
  have Dpos: "0 < D" using D H by linarith
  have qm: "q mod 2 = of_bool (odd q)" by (simp add: mod2_eq_if)
  have "(x + (q mod 2 + (H - 1))) div D = (if 2 * r > D \<or> 2 * r = D \<and> odd q then q + 1 else q)"
    unfolding int_div_eq_iff [OF Dpos] x qm using r D H by (auto simp: distrib_right)
  then show ?thesis by (simp add: round_half_even_def Let_def q_def r_def D_def H_def)
qed

lemma shr_rndn_value:
  assumes "1 \<le> n" and "n < 64" and "uint a < 2 ^ 63"
  shows "uint (shr_rndn a n) = round_half_even (uint a) n"
proof -
  define H where "H = (2 ^ (n - 1) :: int)"
  have H: "1 \<le> H" "H \<le> 2 ^ 62" unfolding H_def using assms(2) by (simp, intro power_increasing) simp_all
  have p: "uint (push_bit (n - 1) (1 :: u64)) = H"
    using assms(2) unfolding unsigned_push_bit_eq by (simp add: H_def push_bit_eq_mult take_bit_int_eq_self)
  have "uint (push_bit (n - 1) 1 - 1 :: u64) = H - 1" using uint_minus_word [of "push_bit (n - 1) 1" "1 :: u64"] p H by simp
  moreover have "uint (drop_bit n a AND 1) = uint a div 2 ^ n mod 2"
    unfolding unsigned_and_eq uint_drop_bit unsigned_1 by (rule and_one_eq)
  ultimately have add: "uint ((drop_bit n a AND 1) + (push_bit (n - 1) 1 - 1)) = uint a div 2 ^ n mod 2 + (H - 1)"
    unfolding uint_word_ariths using H by (simp add: mod_pos_pos_trivial)
  have "uint (a + ((drop_bit n a AND 1) + (push_bit (n - 1) 1 - 1))) = uint a + (uint a div 2 ^ n mod 2 + (H - 1))"
    unfolding uint_word_ariths(1) [of a] add using H assms(3) by (simp add: mod_pos_pos_trivial)
  then show ?thesis
    unfolding shr_rndn_def Let_def uint_drop_bit round_half_even_addend [OF assms(1), symmetric] H_def by simp
qed

lemma halve_sticky: "uint (drop_bit 1 m OR (m AND 1)) = sticky (uint m) 1" for m :: u64
proof -
  have "m AND 1 = of_bool (odd m)" by (simp add: and_one_eq mod2_eq_if)
  moreover have "odd m \<longleftrightarrow> odd (uint m)" using bit_uint_iff [of m 0] by (simp add: bit_0)
  ultimately show ?thesis 
    using uint_or_of_bool [of "drop_bit 1 m" "odd m"] unfolding uint_drop_bit
    by (simp add: sticky_def Let_def mod2_eq_if)
qed

lemma round_half_even_range:
  assumes "A * 2 ^ k \<le> M" and "M < B * 2 ^ k"
  shows "A \<le> round_half_even M k" and "round_half_even M k \<le> B"
proof -
  have "A \<le> M div 2 ^ k" "M div 2 ^ k < B"
    using int_div_less_iff [of "2 ^ k" M A] int_div_less_iff [of "2 ^ k" M B] assms by (simp_all add: not_less [symmetric])
  then show "A \<le> round_half_even M k" "round_half_even M k \<le> B" by (auto simp: round_half_even_def Let_def)
qed

lemma float64_overflow:
  assumes "2 ^ e \<le> \<bar>v\<bar>" and "\<bar>v\<bar> < 2 ^ Suc e" and "1023 < e"
  shows "float64_of_int v = float64_pack (of_bool (v < 0)) 2047 0"
proof -
  have "ilog2 (nat \<bar>v\<bar>) = e"
    using assms by (intro ilog2_eq) (simp_all add: nat_le_iff le_nat_iff nat_less_iff del: power_Suc)
  moreover have "v \<noteq> 0" using assms(1) by auto
  ultimately show ?thesis using assms(3) by (auto simp: float64_of_int_def Let_def)
qed

lemma float64_rounded:
  assumes "2 ^ e \<le> \<bar>v\<bar>" and "\<bar>v\<bar> < 2 ^ Suc e" and "63 \<le> e" and "e \<le> 1023"
  defines "r \<equiv> round_half_even \<bar>v\<bar> (e - 52)"
  shows "float64_of_int v = (if r = 2 ^ 53 then float64_pack (of_bool (v < 0)) (int e + 1024) 0
    else float64_pack (of_bool (v < 0)) (int e + 1023) (word_of_int (r - 2 ^ 52)))"
proof -
  have "ilog2 (nat \<bar>v\<bar>) = e"
    using assms by (intro ilog2_eq) (simp_all add: nat_le_iff le_nat_iff nat_less_iff del: power_Suc)
  moreover have "v \<noteq> 0" using assms(1) by auto
  ultimately show ?thesis
    using assms(3,4) unfolding float64_of_int_def Let_def r_def [symmetric] by (cases "e = 1023") (auto simp: r_def add.commute)
qed

lemma float64_fraction:
  fixes m :: u64
  assumes "2 ^ 52 \<le> uint m" and "uint m \<le> 2 ^ 53"
  shows "m \<ge> push_bit 53 1 \<longleftrightarrow> uint m = 2 ^ 53"
    and "uint m = 2 ^ 53 \<Longrightarrow> drop_bit 1 m AND (push_bit 52 1 - 1) = 0"
    and "uint m \<noteq> 2 ^ 53 \<Longrightarrow> m AND (push_bit 52 1 - 1) = word_of_int (uint m - 2 ^ 52)"
proof -
  show "m \<ge> push_bit 53 1 \<longleftrightarrow> uint m = 2 ^ 53" using assms(2) by (auto simp: word_le_def)
  { assume "uint m = 2 ^ 53"
    then have "m = 2 ^ 53" by (simp add: word_uint_eq_iff)
    then show "drop_bit 1 m AND (push_bit 52 1 - 1) = 0" by simp }
  { assume ne: "uint m \<noteq> 2 ^ 53"
    have "(push_bit 52 1 - 1 :: u64) = mask 52" by (simp add: mask_eq_exp_minus_1)
    then have "uint (m AND (push_bit 52 1 - 1)) = uint m mod 2 ^ 52" by (simp only: uint_and_mask)
    also have "\<dots> = uint m - 2 ^ 52"
      using mod_pos_pos_trivial [of "uint m - 2 ^ 52" "2 ^ 52"] assms ne by (simp add: minus_mod_self2)
    finally show "m AND (push_bit 52 1 - 1) = word_of_int (uint m - 2 ^ 52)"
      by (metis word_of_int_uint) }
qed

text \<open>C11 A big integer of any size converts to the double nearest to its value, ties to even, and to the infinity of its sign when it is out of range.\<close>

theorem js_bigint_to_float64_correct:
  assumes "bigint_normal a"
  shows "js_bigint_to_float64 a = float64_of_int (bigint_val a)"
proof (cases "length a = 1")
  case True
  then have "a = [a ! 0]" by (auto simp: length_Suc_conv)
  then have "bigint_val a = sint (a ! 0)" using bigint_val_single by metis
  then show ?thesis using True by (simp add: js_bigint_to_float64_def)
next
  case False
  define M where "M = \<bar>bigint_val a\<bar>"
  have ne: "a \<noteq> []" and len: "2 \<le> length a" using assms False by (cases a; simp add: bigint_normal_def Suc_le_eq)+
  obtain mant e where g: "js_bigint_get_mant_exp a = (mant, e)" by fastforce
  note b = get_mant_exp_large [OF assms len g, folded M_def]
  have sg: "js_bigint_sign a = of_bool (bigint_val a < 0)"
    using js_bigint_sign_value [OF ne] by (simp add: word_uint_eq_iff)
  show ?thesis
  proof (cases "e > 1023")
    case True
    then have "float64_of_int (bigint_val a) = float64_pack (of_bool (bigint_val a < 0)) 2047 0"
      using b(2,3) by (intro float64_overflow) (auto simp: M_def)
    then show ?thesis using True False g sg by (simp add: js_bigint_to_float64_def Let_def)
  next
    case le: False
    define k where "k = nat e - 52"
    define m2 where "m2 = shr_rndn (drop_bit 1 mant OR (mant AND 1)) 10"
    have ke: "nat e - 63 + 1 + 10 = k" using b(1) by (simp add: k_def)
    have h: "uint (drop_bit 1 mant OR (mant AND 1)) = sticky M (nat e - 63 + 1)"
      unfolding halve_sticky b(4) by (rule sticky_sticky) simp
    have lt: "uint (drop_bit 1 mant OR (mant AND 1)) < 2 ^ 63"
    proof -
      have "uint mant div 2 < 2 ^ 63" using uint_lt2p [of mant] by simp
      moreover have "sticky (uint mant) 1 div 2 ^ 1 = uint mant div 2 ^ (1 + 1)" by (rule sticky_parts) simp
      ultimately show ?thesis unfolding halve_sticky by (auto simp: sticky_def Let_def)
    qed
    have m2: "uint m2 = round_half_even M k"
    proof -
      have "uint m2 = round_half_even (sticky M (nat e - 63 + 1)) 10"
        unfolding m2_def h [symmetric] by (rule shr_rndn_value) (use lt in simp_all)
      also have "\<dots> = round_half_even M k" unfolding ke [symmetric] by (rule round_half_even_sticky) simp
      finally show ?thesis .
    qed
    have M: "2 ^ 52 * 2 ^ k \<le> M" "M < 2 ^ 53 * 2 ^ k"
      using b(1-3) by (simp_all only: power_add [symmetric] k_def) (simp_all add: le_nat_iff)
    note f = float64_fraction [of m2, unfolded m2, OF round_half_even_range [OF M]]
    have R: "float64_of_int (bigint_val a) =
      (if round_half_even M k = 2 ^ 53 then float64_pack (of_bool (bigint_val a < 0)) (int (nat e) + 1024) 0
       else float64_pack (of_bool (bigint_val a < 0)) (int (nat e) + 1023) (word_of_int (round_half_even M k - 2 ^ 52)))"
      unfolding M_def k_def by (rule float64_rounded) (use b le in \<open>simp_all add: M_def\<close>)
    have "js_bigint_to_float64 a =
      (if m2 \<ge> push_bit 53 1 then float64_pack (of_bool (bigint_val a < 0)) (e + 1 + 1023) (drop_bit 1 m2 AND (push_bit 52 1 - 1))
       else float64_pack (of_bool (bigint_val a < 0)) (e + 1023) (m2 AND (push_bit 52 1 - 1)))"
      unfolding js_bigint_to_float64_def Let_def g prod.case if_not_P [OF False] if_not_P [OF le] m2_def [symmetric] sg
      by (cases "m2 \<ge> push_bit 53 1") (simp_all only: if_True if_False prod.case)
    then show ?thesis
      unfolding R f(1) using f(2,3) b(1) by (cases "round_half_even M k = 2 ^ 53") (simp_all only: if_True if_False int_nat_eq, simp_all add: add.commute)
  qed
qed

theorem js_bigint_to_float64_correct_witness:
  "js_bigint_to_float64 [1, - (2 ^ 62)] = float64_of_int (bigint_val [1 :: u64, - (2 ^ 62)])"
  by (rule js_bigint_to_float64_correct) (simp add: bigint_normal_def redundant_limb_def)

section \<open>From doubles\<close>

text \<open>The value of a finite double, scaled by \<open>2 ^ 1074\<close> to an integer.\<close>

definition f64_scaled :: "u64 \<Rightarrow> int" where
  "f64_scaled b =
     (if drop_bit 63 b \<noteq> 0 then - 1 else 1) *
     (if f64_exp b = 0 then uint (f64_mant b) else (uint (f64_mant b) + 2 ^ 52) * 2 ^ (nat (f64_exp b) - 1))"

lemma f64_fields:
  "0 \<le> f64_exp b" "f64_exp b < 2048" "0 \<le> uint (f64_mant b)" "uint (f64_mant b) < 2 ^ 52"
  "uint (drop_bit 63 b) = of_bool (drop_bit 63 b \<noteq> 0)"
proof -
  have m: "(push_bit 11 1 - 1 :: u64) = mask 11" "(push_bit 52 1 - 1 :: u64) = mask 52" by (simp_all add: mask_eq_exp_minus_1)
  show "0 \<le> f64_exp b" "0 \<le> uint (f64_mant b)" by (simp_all add: f64_exp_def)
  show "f64_exp b < 2048" "uint (f64_mant b) < 2 ^ 52"
    unfolding f64_exp_def f64_mant_def m uint_and_mask by simp_all
  have "uint (drop_bit 63 b) = 0 \<or> uint (drop_bit 63 b) = 1" using uint_top_bit [of b] by (auto split: if_splits)
  then show "uint (drop_bit 63 b) = of_bool (drop_bit 63 b \<noteq> 0)" by (auto simp: uint_0_iff)
qed

lemma uint_hidden_bit:
  "uint (m OR push_bit 52 1) = uint m + 2 ^ 52" if "uint m < 2 ^ 52" for m :: u64
proof -
  have "uint (m OR push_bit 52 1) = uint (push_bit 52 1 OR m)" by (simp add: or.commute)
  also have "\<dots> = uint (1 :: u64) * 2 ^ 52 mod 2 ^ 64 + uint m" using uint_push_bit_or [of m 52 1] that by simp
  finally show ?thesis by simp
qed

definition f64_magnitude :: "u64 \<Rightarrow> int" where
  "f64_magnitude b =
     (if f64_exp b = 0 then uint (f64_mant b) else (uint (f64_mant b) + 2 ^ 52) * 2 ^ (nat (f64_exp b) - 1))"

lemma f64_scaled_magnitude: "f64_scaled b = (if drop_bit 63 b \<noteq> 0 then - f64_magnitude b else f64_magnitude b)"
  by (simp add: f64_scaled_def f64_magnitude_def)

lemma f64_magnitude_bounds:
  "\<not> (f64_exp b = 0 \<and> f64_mant b = 0) \<Longrightarrow> 0 < f64_magnitude b"
  "0 \<le> f64_magnitude b"
  "0 < f64_exp b \<Longrightarrow> 2 ^ (nat (f64_exp b) + 51) \<le> f64_magnitude b"
  "f64_magnitude b < 2 ^ (nat (f64_exp b) + 52)"
proof -
  note f = f64_fields [of b]
  let ?e = "nat (f64_exp b)"
  define m where "m = uint (f64_mant b)"
  have m: "0 \<le> m" "m < 2 ^ 52" using f(3,4) by (simp_all add: m_def)
  have small: "f64_magnitude b = m" if "f64_exp b = 0" using that by (simp add: f64_magnitude_def m_def)
  have large: "2 ^ (?e + 51) \<le> f64_magnitude b \<and> f64_magnitude b < 2 ^ (?e + 52)" if "f64_exp b \<noteq> 0"
  proof -
    have e: "?e + 51 = 52 + (?e - 1)" "?e + 52 = 53 + (?e - 1)" using that f(1) by simp_all
    have "2 ^ 52 * 2 ^ (?e - 1) \<le> (m + 2 ^ 52) * 2 ^ (?e - 1)" using m by (intro mult_right_mono) simp_all
    moreover have "(m + 2 ^ 52) * 2 ^ (?e - 1) < 2 ^ 53 * 2 ^ (?e - 1)" using m by (intro mult_strict_right_mono) simp_all
    ultimately show ?thesis using that unfolding e power_add by (simp only: f64_magnitude_def m_def if_False simp_thms)
  qed
  have pw: "(0 :: int) < 2 ^ (?e + 51)" by simp
  show "0 \<le> f64_magnitude b" using small large m pw by (cases "f64_exp b = 0") (simp, linarith)
  show "0 < f64_magnitude b" if "\<not> (f64_exp b = 0 \<and> f64_mant b = 0)"
  proof (cases "f64_exp b = 0")
    case True
    then have "m \<noteq> 0" using that by (simp add: m_def uint_0_iff)
    then show ?thesis using small [OF True] m by simp
  next
    case False
    show ?thesis using large [OF False] pw by linarith
  qed
  show "2 ^ (?e + 51) \<le> f64_magnitude b" if "0 < f64_exp b" using large that by auto
  show "f64_magnitude b < 2 ^ (?e + 52)" using small large m(2) by (cases "f64_exp b = 0") (simp, blast)
qed

lemma f64_small_not_integral:
  assumes "f64_exp b < 1023" and "\<not> (f64_exp b = 0 \<and> f64_mant b = 0)"
  shows "\<not> 2 ^ 1074 dvd f64_scaled b"
proof
  assume "2 ^ 1074 dvd f64_scaled b"
  then have d: "2 ^ 1074 dvd f64_magnitude b" unfolding f64_scaled_magnitude by (simp only: dvd_minus_iff split: if_splits)
  have "f64_magnitude b < 2 ^ (nat (f64_exp b) + 52)" by (rule f64_magnitude_bounds)
  also have "\<dots> \<le> 2 ^ 1074" using assms(1) by (intro power_increasing) simp_all
  finally show False using zdvd_imp_le [OF d f64_magnitude_bounds(1) [OF assms(2)]] by linarith
qed

lemma f64_scaled_large:
  assumes "1023 \<le> f64_exp b"
  defines "m \<equiv> uint (f64_mant b) + 2 ^ 52" and "k \<equiv> nat (f64_exp b - 1023)"
    and "s \<equiv> (if drop_bit 63 b \<noteq> 0 then - 1 else 1 :: int)"
  shows "k < 52 \<Longrightarrow> 2 ^ 1074 dvd f64_scaled b \<longleftrightarrow> 2 ^ (52 - k) dvd m"
    and "k < 52 \<Longrightarrow> 2 ^ (52 - k) dvd m \<Longrightarrow> f64_scaled b div 2 ^ 1074 = s * (m div 2 ^ (52 - k))"
    and "52 \<le> k \<Longrightarrow> f64_scaled b = (s * m * 2 ^ (k - 52)) * 2 ^ 1074"
proof -
  have F: "f64_scaled b = 2 ^ (k + 1022) * (s * m)"
  proof -
    have "nat (f64_exp b) - 1 = k + 1022" using assms(1) by (simp add: k_def)
    then show ?thesis using assms(1) by (simp add: f64_scaled_def m_def s_def)
  qed
  { assume k: "k < 52"
    then have P: "(2 :: int) ^ 1074 = 2 ^ (k + 1022) * 2 ^ (52 - k)" by (simp only: power_add [symmetric]) simp
    have dv: "2 ^ (52 - k) dvd s * m \<longleftrightarrow> 2 ^ (52 - k) dvd m" by (simp add: s_def)
    show "2 ^ 1074 dvd f64_scaled b \<longleftrightarrow> 2 ^ (52 - k) dvd m"
      unfolding F P dvd_times_left_cancel_iff [OF power_not_zero [OF zero_neq_numeral [THEN not_sym]]] by (rule dv)
    assume "2 ^ (52 - k) dvd m"
    then have "s * m div 2 ^ (52 - k) = s * (m div 2 ^ (52 - k))" by (simp add: div_mult_swap)
    then show "f64_scaled b div 2 ^ 1074 = s * (m div 2 ^ (52 - k))" unfolding F P by simp }
  { assume k: "52 \<le> k"
    then have "(2 :: int) ^ (k + 1022) = 2 ^ (k - 52) * 2 ^ 1074" by (simp only: power_add [symmetric]) simp
    then show "f64_scaled b = (s * m * 2 ^ (k - 52)) * 2 ^ 1074" unfolding F by (simp only: mult_ac) }
qed

lemma js_bigint_from_float64_large:
  assumes e: "1023 \<le> f64_exp b" "f64_exp b \<noteq> 2047"
  shows "\<not> 2 ^ 1074 dvd f64_scaled b \<Longrightarrow> js_bigint_from_float64 ctx b = (1, None)"
    and "2 ^ 1074 dvd f64_scaled b \<Longrightarrow> \<exists>r'. js_bigint_from_float64 ctx b = (0, Some r') \<and>
      js_computes ctx 16 (f64_scaled b div 2 ^ 1074) r'"
proof -
  note f = f64_fields [of b]
  define k where "k = nat (f64_exp b - 1023)"
  define s where "s = (if drop_bit 63 b \<noteq> 0 then - 1 else 1 :: int)"
  define m1 where "m1 = f64_mant b OR push_bit 52 1"
  define m2 where "m2 = (if k < 52 then drop_bit (52 - k) m1 else m1)"
  define m3 where "m3 = (if drop_bit 63 b \<noteq> 0 then - m2 else m2)"
  have um: "uint m1 = uint (f64_mant b) + 2 ^ 52" using uint_hidden_bit [OF f(4)] by (simp add: m1_def)
  have k: "f64_exp b - 1023 = int k" "k \<le> 1023" using e f(2) by (simp_all add: k_def)
  have sh: "nat (52 - int k) = 52 - k" "nat (int k - 52) = k - 52" by simp_all
  have low: "m1 AND (push_bit (52 - k) 1 - 1) = 0 \<longleftrightarrow> 2 ^ (52 - k) dvd uint m1"
  proof -
    have "(push_bit (52 - k) 1 - 1 :: u64) = mask (52 - k)" by (simp add: mask_eq_exp_minus_1 push_bit_eq_mult)
    then have "m1 AND (push_bit (52 - k) 1 - 1) = 0 \<longleftrightarrow> uint m1 mod 2 ^ (52 - k) = 0"
      using uint_and_mask [of m1 "52 - k"] by (simp add: uint_0_iff [symmetric])
    then show ?thesis by (simp add: dvd_eq_mod_eq_0)
  qed
  have eq: "js_bigint_from_float64 ctx b =
    (if k < 52 \<and> \<not> 2 ^ (52 - k) dvd uint m1 then (1, None)
     else (0, Some (js_bigint_shl ctx [m3] (if k < 52 then 0 else k - 52))))"
    using e k sh low unfolding js_bigint_from_float64_def Let_def m1_def [symmetric]
    by (auto simp: m2_def m3_def js_bigint_set_si64_def js_bigint_set_si_def)
  note L = f64_scaled_large [OF e(1), folded um, folded k_def s_def]
  have v3: "sint m3 = s * uint m2"
  proof -
    have "uint m1 < 2 ^ 53" using um f(4) by simp
    moreover from this have "uint m1 < 2 ^ 53 * 2 ^ (52 - k)"
      by (rule order.strict_trans2) (simp add: mult_le_cancel_left1)
    then have "uint m1 div 2 ^ (52 - k) < 2 ^ 53" by (simp only: int_div_less_iff [OF zero_less_power [OF zero_less_numeral]])
    ultimately have lt: "uint m2 < 2 ^ 53" by (simp add: m2_def uint_drop_bit)
    then have "sint m2 = uint m2" by (simp add: sint_cases_int)
    moreover have "sint (- m2) = - sint m2"
    proof (cases "uint m2 = 0")
      case False
      then have "uint (- m2) = 2 ^ 64 - uint m2" using uint_minus_word [of 0 m2] uint_ge_0 [of m2] by simp
      then show ?thesis using lt unfolding sint_cases_int by simp
    qed (simp add: uint_0_iff)
    ultimately show ?thesis by (simp add: m3_def s_def)
  qed
  have comp: "js_computes ctx 16 (sint m3 * 2 ^ n) (js_bigint_shl ctx [m3] n)" if "n \<le> 971" for n
  proof -
    have "1 + n div 64 \<le> 16" using that by simp
    then show ?thesis
      using js_computes_mono [OF js_bigint_shl_computes [of "[m3]" ctx n]] by (simp add: bigint_val_single)
  qed
  show "js_bigint_from_float64 ctx b = (1, None)" if "\<not> 2 ^ 1074 dvd f64_scaled b"
    using that L(1,3) unfolding eq by (cases "k < 52") auto
  show "\<exists>r'. js_bigint_from_float64 ctx b = (0, Some r') \<and> js_computes ctx 16 (f64_scaled b div 2 ^ 1074) r'"
    if "2 ^ 1074 dvd f64_scaled b"
  proof (cases "k < 52")
    case True
    then have "f64_scaled b div 2 ^ 1074 = sint m3 * 2 ^ 0" "2 ^ (52 - k) dvd uint m1"
      using L(1,2) that by (simp_all add: v3 m2_def uint_drop_bit)
    then show ?thesis using True comp [of 0] unfolding eq by simp
  next
    case False
    then have "f64_scaled b div 2 ^ 1074 = sint m3 * 2 ^ (k - 52)" using L(3) by (simp add: v3 m2_def)
    then show ?thesis using False comp [of "k - 52"] k(2) unfolding eq by simp
  qed
qed

text \<open>C15 A double converts to the big integer it stands for exactly when it is finite and integral; a fraction and a double that is not finite are told apart.\<close>

theorem js_bigint_from_float64_correct:
  "case js_bigint_from_float64 ctx b of
     (code, r) \<Rightarrow>
       if f64_exp b = 2047 then code = 2 \<and> r = None
       else if \<not> 2 ^ 1074 dvd f64_scaled b then code = 1 \<and> r = None
       else code = 0 \<and> (\<exists>r'. r = Some r' \<and> js_computes ctx 16 (f64_scaled b div 2 ^ 1074) r')"
proof -
  consider "f64_exp b = 2047" | "f64_exp b = 0" "f64_mant b = 0"
    | "f64_exp b < 1023" "\<not> (f64_exp b = 0 \<and> f64_mant b = 0)" | "1023 \<le> f64_exp b" "f64_exp b \<noteq> 2047" by linarith
  then show ?thesis
  proof cases
    case 1
    then show ?thesis by (simp add: js_bigint_from_float64_def)
  next
    case 2
    then have "f64_scaled b = 0" by (simp add: f64_scaled_def)
    then show ?thesis using 2 js_computes_new_si [of 16 0 "0 :: u64" ctx] by (simp add: js_bigint_from_float64_def)
  next
    case 3
    then show ?thesis using f64_small_not_integral [OF 3] by (auto simp: js_bigint_from_float64_def Let_def)
  next
    case 4
    show ?thesis
    proof (cases "2 ^ 1074 dvd f64_scaled b")
      case True
      obtain r' where r': "js_bigint_from_float64 ctx b = (0, Some r')" "js_computes ctx 16 (f64_scaled b div 2 ^ 1074) r'"
        using js_bigint_from_float64_large(2) [OF 4 True] by blast
      then show ?thesis using True 4(2) unfolding r'(1) prod.case by (simp only: simp_thms if_False) blast
    next
      case False
      show ?thesis unfolding js_bigint_from_float64_large(1) [OF 4 False] prod.case using False 4(2) by (simp only: simp_thms if_True if_False)
    qed
  qed
qed

lemma sticky_cmp:
  assumes "even m"
  shows "(sticky x j < m \<longleftrightarrow> x < m * 2 ^ j) \<and> (m < sticky x j \<longleftrightarrow> m * 2 ^ j < x)"
proof -
  define q r J where "q = x div 2 ^ j" and "r = x mod 2 ^ j" and "J = (2 ^ j :: int)"
  have x: "x = q * J + r" unfolding q_def r_def J_def by (rule div_mult_mod_eq [symmetric])
  have r: "0 \<le> r" "r < J" "0 < J" by (simp_all add: r_def J_def)
  have st: "sticky x j = (if r \<noteq> 0 \<and> even q then q + 1 else q)" by (simp add: sticky_def Let_def q_def r_def)
  consider "q + 1 \<le> m" | "q = m" | "m + 1 \<le> q" by linarith
  then show ?thesis
  proof cases
    case 1
    then have "(q + 1) * J \<le> m * J" using r by (intro mult_right_mono) simp_all
    then have "x < m * J" unfolding x using r by (simp add: distrib_right)
    moreover have "sticky x j < m"
    proof (cases "even q")
      case True
      then have "q + 1 \<noteq> m" using assms by auto
      then show ?thesis using 1 unfolding st by auto
    qed (use 1 st in auto)
    ultimately show ?thesis by (simp add: J_def)
  next
    case 2
    then show ?thesis unfolding st J_def [symmetric] using r assms by (auto simp: x)
  next
    case 3
    then have "(m + 1) * J \<le> q * J" using r by (intro mult_right_mono) simp_all
    then have "m * J < x" unfolding x using r by (simp add: distrib_right)
    then show ?thesis using 3 unfolding st J_def by auto
  qed
qed

lemma get_mant_exp_cmp:
  assumes a: "bigint_normal a" "bigint_val a \<noteq> 0" and g: "js_bigint_get_mant_exp a = (mant, f)"
  shows "0 \<le> f \<and> 2 ^ nat f \<le> \<bar>bigint_val a\<bar> \<and> \<bar>bigint_val a\<bar> < 2 ^ Suc (nat f)"
    and "even m \<Longrightarrow> (uint mant < m \<longleftrightarrow> \<bar>bigint_val a\<bar> * 2 ^ 63 < m * 2 ^ nat f) \<and>
      (m < uint mant \<longleftrightarrow> m * 2 ^ nat f < \<bar>bigint_val a\<bar> * 2 ^ 63)"
proof -
  define V where "V = \<bar>bigint_val a\<bar>"
  have "0 \<le> f \<and> 2 ^ nat f \<le> V \<and> V < 2 ^ Suc (nat f) \<and>
      (even m \<longrightarrow> (uint mant < m \<longleftrightarrow> V * 2 ^ 63 < m * 2 ^ nat f) \<and> (m < uint mant \<longleftrightarrow> m * 2 ^ nat f < V * 2 ^ 63))" for m
  proof (cases "length a = 1")
    case True
    note v = get_mant_exp_small [OF True a(2) g, folded V_def]
    have "nat (63 - f) + nat f = 63" using v(1,2) by simp
    then have "(2 :: int) ^ nat (63 - f) * 2 ^ nat f = 2 ^ 63" by (simp only: power_add [symmetric])
    then have "V * 2 ^ 63 = uint mant * 2 ^ nat f" unfolding v(3) by (simp only: mult.assoc)
    then have "(uint mant < m \<longleftrightarrow> V * 2 ^ 63 < m * 2 ^ nat f) \<and> (m < uint mant \<longleftrightarrow> m * 2 ^ nat f < V * 2 ^ 63)" by simp
    then show ?thesis using v by blast
  next
    case False
    have "2 \<le> length a" using a(1) False by (cases a) (simp_all add: bigint_normal_def Suc_le_eq)
    note v = get_mant_exp_large [OF a(1) this g, folded V_def]
    have "nat f - 63 + 63 = nat f" using v(1) by simp
    then have P: "m * 2 ^ nat f = m * 2 ^ (nat f - 63) * 2 ^ 63" by (metis power_add mult.assoc)
    have c: "(V * 2 ^ 63 < X * 2 ^ 63 \<longleftrightarrow> V < X) \<and> (X * 2 ^ 63 < V * 2 ^ 63 \<longleftrightarrow> X < V)" for X :: int
      by (simp only: mult_less_cancel_right_pos zero_less_power zero_less_numeral simp_thms)
    show ?thesis using v sticky_cmp [of m V "nat f - 63"] c unfolding P v(4) by auto
  qed
  then show "0 \<le> f \<and> 2 ^ nat f \<le> \<bar>bigint_val a\<bar> \<and> \<bar>bigint_val a\<bar> < 2 ^ Suc (nat f)"
    "even m \<Longrightarrow> (uint mant < m \<longleftrightarrow> \<bar>bigint_val a\<bar> * 2 ^ 63 < m * 2 ^ nat f) \<and>
      (m < uint mant \<longleftrightarrow> m * 2 ^ nat f < \<bar>bigint_val a\<bar> * 2 ^ 63)" unfolding V_def by blast+
qed

lemma float64_cmp_magnitude:
  fixes b :: u64
  assumes a: "bigint_normal a" "bigint_val a \<noteq> 0" and g: "js_bigint_get_mant_exp a = (a_mant, f)"
  defines "m1 \<equiv> push_bit 11 (f64_mant b OR push_bit 52 1)" and "X \<equiv> \<bar>bigint_val a\<bar> * 2 ^ 1074"
  shows "f < f64_exp b - 1023 \<Longrightarrow> X < f64_magnitude b"
    and "f > f64_exp b - 1023 \<Longrightarrow> X > f64_magnitude b"
    and "f = f64_exp b - 1023 \<Longrightarrow> a_mant < m1 \<longleftrightarrow> X < f64_magnitude b"
    and "f = f64_exp b - 1023 \<Longrightarrow> m1 < a_mant \<longleftrightarrow> f64_magnitude b < X"
proof -
  note f = f64_fields [of b] and mb = f64_magnitude_bounds [of b]
  let ?e = "nat (f64_exp b)"
  have v: "0 \<le> f" "2 ^ nat f \<le> \<bar>bigint_val a\<bar>" "\<bar>bigint_val a\<bar> < 2 ^ Suc (nat f)" using get_mant_exp_cmp(1) [OF a g] by blast+
  have X: "2 ^ (nat f + 1074) \<le> X" "X < 2 ^ (Suc (nat f) + 1074)"
    unfolding X_def power_add using v(2,3) by (simp_all only: mult_right_mono mult_strict_right_mono zero_le_power zero_less_power zero_le_numeral zero_less_numeral)
  { assume lt: "f < f64_exp b - 1023"
    then have "Suc (nat f) + 1074 \<le> ?e + 51" using v(1) by linarith
    then have "(2 :: int) ^ (Suc (nat f) + 1074) \<le> 2 ^ (?e + 51)" by (intro power_increasing) simp_all
    moreover have "2 ^ (?e + 51) \<le> f64_magnitude b" using mb(3) lt v(1) by simp
    ultimately show "X < f64_magnitude b" using X(2) by linarith }
  { assume gt: "f > f64_exp b - 1023"
    then have "?e + 52 \<le> nat f + 1074" using v(1) f(1) by linarith
    then have "(2 :: int) ^ (?e + 52) \<le> 2 ^ (nat f + 1074)" by (intro power_increasing) simp_all
    then show "X > f64_magnitude b" using X(1) mb(4) by linarith }
  { assume eq: "f = f64_exp b - 1023"
    define m where "m = uint (f64_mant b) + 2 ^ 52"
    have um: "uint m1 = m * 2 ^ 11"
    proof -
      have "uint (f64_mant b OR push_bit 52 1) = m" using uint_hidden_bit [OF f(4)] by (simp add: m_def)
      moreover have "m < 2 ^ 53" "0 \<le> m" using f(3,4) by (simp_all add: m_def)
      ultimately show ?thesis unfolding m1_def uint_push_bit by (simp add: mod_pos_pos_trivial)
    qed
    have "even (uint m1)" unfolding um by simp
    note c = get_mant_exp_cmp(2) [OF a g this]
    have "?e - 1 = 11 + nat f + 1011" using eq v(1) by simp
    then have "2 ^ (?e - 1) = (2 :: int) ^ 11 * 2 ^ nat f * 2 ^ 1011" by (simp only: power_add)
    then have F: "f64_magnitude b = uint m1 * 2 ^ nat f * 2 ^ 1011"
      using eq v(1) unfolding f64_magnitude_def um m_def by (simp only: mult.assoc split: if_splits) simp
    have "(2 :: int) ^ 1074 = 2 ^ 63 * 2 ^ 1011" by (simp only: power_add [symmetric]) simp
    then have X': "X = \<bar>bigint_val a\<bar> * 2 ^ 63 * 2 ^ 1011" unfolding X_def by (simp only: mult.assoc)
    have s: "(Y * 2 ^ 1011 < Z * 2 ^ 1011 \<longleftrightarrow> Y < Z)" for Y Z :: int
      by (simp only: mult_less_cancel_right_pos zero_less_power zero_less_numeral)
    show "a_mant < m1 \<longleftrightarrow> X < f64_magnitude b" "m1 < a_mant \<longleftrightarrow> f64_magnitude b < X"
      unfolding F X' s word_less_def using c by blast+ }
qed

text \<open>C16 Comparing a big integer with a finite double gives the sign of the exact difference whenever one of the two is not negative.\<close>

theorem js_bigint_float64_cmp_correct:
  assumes a: "bigint_normal a" and b: "f64_exp b \<noteq> 2047" and nn: "0 \<le> bigint_val a \<or> 0 \<le> f64_scaled b"
  shows "js_bigint_float64_cmp a b = sgn (bigint_val a * 2 ^ 1074 - f64_scaled b)"
proof -
  define P where "P = (2 ^ 1074 :: int)"
  have P: "0 < P" by (simp add: P_def)
  have ne: "a \<noteq> []" using a by (simp add: bigint_normal_def)
  have sa: "uint (js_bigint_sign a) = of_bool (bigint_val a < 0)" using js_bigint_sign_value [OF ne] by simp
  have az: "length a = 1 \<and> a ! 0 = 0 \<longleftrightarrow> bigint_val a = 0"
    using bigint_normal_zero [OF a] by (auto simp: length_Suc_conv bigint_val_single)
  note mb = f64_magnitude_bounds [of b] and sb = f64_fields(5) [of b]
  obtain a_mant f where g: "js_bigint_get_mant_exp a = (a_mant, f)" by fastforce
  show ?thesis
  proof (cases "f64_exp b = 0 \<and> f64_mant b = 0")
    case True
    then have F: "f64_scaled b = 0" by (simp add: f64_scaled_def)
    show ?thesis
      using True b unfolding F js_bigint_float64_cmp_def Let_def az sa P_def [symmetric]
      using P by (auto simp: sgn_if zero_less_mult_iff)
  next
    case bz: False
    show ?thesis
    proof (cases "bigint_val a = 0")
      case True
      then show ?thesis
        using b bz mb(1) [OF bz] unfolding js_bigint_float64_cmp_def Let_def az sb f64_scaled_magnitude by (simp add: sgn_if)
    next
      case nz: False
      show ?thesis
      proof (cases "bigint_val a < 0 \<longleftrightarrow> drop_bit 63 b \<noteq> 0")
        case False
        have "js_bigint_float64_cmp a b = 1 - 2 * of_bool (bigint_val a < 0)"
          using b bz nz False unfolding js_bigint_float64_cmp_def Let_def az sa sb by auto
        moreover have "bigint_val a < 0 \<Longrightarrow> bigint_val a * P < 0" "0 < bigint_val a \<Longrightarrow> 0 < bigint_val a * P"
          using P by (simp_all add: mult_neg_pos)
        ultimately show ?thesis
          using False nz mb(1) [OF bz] unfolding f64_scaled_magnitude P_def [symmetric]
          by (cases "bigint_val a < 0") (auto simp: sgn_if)
      next
        case True
        then have pos: "0 < bigint_val a" "drop_bit 63 b = 0"
          using nn nz mb(1) [OF bz] unfolding f64_scaled_magnitude by (auto split: if_splits)
        note c = float64_cmp_magnitude [OF a nz g, of b]
        have "js_bigint_float64_cmp a b =
          (if f \<noteq> f64_exp b - 1023 then (if f < f64_exp b - 1023 then - 1 else 1)
           else if a_mant < push_bit 11 (f64_mant b OR push_bit 52 1) then - 1
           else if a_mant > push_bit 11 (f64_mant b OR push_bit 52 1) then 1 else 0)"
        proof -
          have s0: "of_bool (bigint_val a < 0) = (0 :: int)" "of_bool (drop_bit 63 b \<noteq> 0) = (0 :: int)" using pos by simp_all
          show ?thesis
            unfolding js_bigint_float64_cmp_def Let_def az sa sb g prod.case if_not_P [OF b] if_not_P [OF bz] if_not_P [OF nz] s0
            by (simp only: simp_thms if_False mult_zero_right diff_0 diff_zero)
        qed
        also have "\<dots> = sgn (bigint_val a * 2 ^ 1074 - f64_scaled b)"
          using c pos unfolding f64_scaled_magnitude P_def [symmetric]
          by (cases f "f64_exp b - 1023" rule: linorder_cases) (auto simp: sgn_if)
        finally show ?thesis .
      qed
    qed
  qed
qed

theorem js_bigint_float64_cmp_correct_witness:
  "js_bigint_float64_cmp [1, 1] 0x43F0000000000000 = sgn (bigint_val [1 :: u64, 1] * 2 ^ 1074 - f64_scaled 0x43F0000000000000)"
proof (rule js_bigint_float64_cmp_correct)
  show "bigint_normal [1 :: u64, 1]" by (simp add: bigint_normal_def redundant_limb_def)
  show "f64_exp 0x43F0000000000000 \<noteq> 2047" by code_simp
  show "0 \<le> bigint_val [1 :: u64, 1] \<or> 0 \<le> f64_scaled 0x43F0000000000000" by code_simp
qed

text \<open>The comparison is wrong for two negative operands of different magnitude: \<open>-100n\<close> compares above \<open>-5.5\<close>.\<close>

theorem js_bigint_float64_cmp_negative_wrong:
  "js_bigint_float64_cmp [- 100] 0xC016000000000000 = 1 \<and>
   bigint_val [- 100 :: u64] * 2 ^ 1074 < f64_scaled 0xC016000000000000"
proof
  show "js_bigint_float64_cmp [- 100] 0xC016000000000000 = 1" by code_simp
  show "bigint_val [- 100 :: u64] * 2 ^ 1074 < f64_scaled 0xC016000000000000" by code_simp
qed

section \<open>Machine integers\<close>

text \<open>C17 An unsigned 64-bit integer converts to the big integer of the same value, and reading a big integer back saturates to the signed 64-bit range.\<close>

theorem js_bigint_int64_conversions:
  assumes "bigint_normal a"
  shows "js_computes ctx 2 (uint n) (js_bigint_new_ui64 ctx n) \<and>
    sint (js_bigint_get_si_sat a) = max (- (2 ^ 63)) (min (2 ^ 63 - 1) (bigint_val a))"
proof
  show "js_computes ctx 2 (uint n) (js_bigint_new_ui64 ctx n)"
  proof (cases "uint n \<le> 2 ^ 63 - 1")
    case True
    then have "sint n = uint n" by (simp add: sint_cases_int)
    then show ?thesis using True js_computes_new_si [of 2 "uint n" n ctx] by (simp add: js_bigint_new_ui64_def js_bigint_new_si64_def)
  next
    case False
    have "js_computes ctx 2 (uint n) (js_bind (js_bigint_new ctx 2) (\<lambda>r. Inr (r[0 := n, 1 := 0])))"
    proof (rule js_computes_new)
      fix r0 :: "u64 list"
      assume "length r0 = 2"
      then have "r0[0 := n, 1 := 0] = [n, 0]" by (auto simp: numeral_2_eq_2 length_Suc_conv)
      moreover have "bigint_val [n, 0] = uint n" using bigint_val_snoc [of "[n]" 0] by simp
      moreover have "drop_bit 63 n \<noteq> 0"
        using False uint_top_bit [of n] by (auto simp: word_uint_eq_iff)
      then have "bigint_normal [n, 0]" by (simp add: bigint_normal_def redundant_limb_def)
      ultimately show "js_computes ctx 2 (uint n) (Inr (r0[0 := n, 1 := 0]))" by simp
    qed simp
    then show ?thesis using False by (simp add: js_bigint_new_ui64_def)
  qed
  show "sint (js_bigint_get_si_sat a) = max (- (2 ^ 63)) (min (2 ^ 63 - 1) (bigint_val a))"
  proof (cases "length a = 1")
    case True
    then have "a = [a ! 0]" by (auto simp: length_Suc_conv)
    then have "bigint_val a = sint (a ! 0)" using bigint_val_single by metis
    then show ?thesis using True sint_range [of "a ! 0"] by (simp add: js_bigint_get_si_sat_def)
  next
    case False
    have ne: "a \<noteq> []" using assms by (simp add: bigint_normal_def)
    have l: "length a = Suc (length a - 1)" "0 < length a - 1" using ne False by (cases a; simp)+
    have "(2 :: int) ^ 64 \<le> 2 ^ (64 * (length a - 1))" using l(2) by (intro power_increasing) simp_all
    then have big: "bigint_val a < - (2 ^ 63) \<or> 2 ^ 63 \<le> bigint_val a" using bigint_normal_large [OF assms l] by auto
    show ?thesis
      using False big js_bigint_sign_nonzero [OF ne] by (auto simp: js_bigint_get_si_sat_def sint_cases_int uint_word_of_int)
  qed
qed

theorem js_bigint_int64_conversions_witness:
  "js_computes \<lparr>js_alloc_ok = \<lambda>_. True, js_fill = 7\<rparr> 2 (uint (- 1 :: u64)) (js_bigint_new_ui64 \<lparr>js_alloc_ok = \<lambda>_. True, js_fill = 7\<rparr> (- 1)) \<and>
   sint (js_bigint_get_si_sat [5]) = max (- (2 ^ 63)) (min (2 ^ 63 - 1) (bigint_val [5 :: u64]))"
  by (rule js_bigint_int64_conversions) simp

end
