(* ===== verification/Sort.thy ===== *)
theory Sort
  imports Prelude "HOL-Library.Multiset"
begin

text \<open>The sort of \<^verbatim>\<open>src/quickjs/cutils.c\<close>: \<^verbatim>\<open>rqsort\<close>, a
three-way quicksort with an explicit stack of 50 entries, an insertion sort for fragments of at
most six elements and the heap sort \<^verbatim>\<open>heapsortx\<close> as its fallback when the
partitions go too deep.

The array of \<^verbatim>\<open>nmemb\<close> elements of \<^verbatim>\<open>size\<close> bytes is a
list of elements; a pointer \<^verbatim>\<open>base + k * size\<close> of the code is the index
\<open>k\<close>, so that \<^verbatim>\<open>i\<close>, \<^verbatim>\<open>lt\<close> and
\<^verbatim>\<open>gt\<close>, which the code keeps beside the pointers \<^verbatim>\<open>pi\<close>,
\<^verbatim>\<open>plt\<close> and \<^verbatim>\<open>pgt\<close>, are differences of indices here.
The functions that exchange two elements work on bytes; they are modelled on the bytes, and
\<open>exchange_elements\<close> says that each of them exchanges two elements of the list.

The theory shows that \<^verbatim>\<open>rqsort\<close> ends and permutes its input for every
comparison function, that its stack never overflows, and that it sorts when the function is a
comparator (locale \<open>comparator\<close>).\<close>

section \<open>Definitions\<close>

subsection \<open>Exchanging elements\<close>

definition exchange :: "'a list \<Rightarrow> nat \<Rightarrow> nat \<Rightarrow> 'a list" where
  "exchange xs i j = xs[i := xs ! j, j := xs ! i]"

fun swap_block :: "'a list \<Rightarrow> nat \<Rightarrow> nat \<Rightarrow> nat \<Rightarrow> 'a list" where
  "swap_block xs a b 0 = xs"
| "swap_block xs a b (Suc span) = swap_block (exchange xs a b) (a + 1) (b + 1) span"

subsection \<open>Heap sort\<close>

function sift_down :: "('a \<Rightarrow> 'a \<Rightarrow> int) \<Rightarrow> 'a list \<Rightarrow> nat \<Rightarrow> nat \<Rightarrow> nat \<Rightarrow> 'a list" where
  "sift_down cmp xs base r n =
    (let c = r * 2 + 1 in
     if c < n then
       let c' = (if c < n - 1 \<and> cmp (xs ! (base + c)) (xs ! (base + c + 1)) \<le> 0 then c + 1 else c) in
       if cmp (xs ! (base + r)) (xs ! (base + c')) > 0 then xs
       else sift_down cmp (exchange xs (base + r) (base + c')) base c' n
     else xs)"
  by pat_completeness auto
termination
  by (relation "measure (\<lambda>(cmp, xs, base, r, n). n - r)") (auto split: if_splits)

declare sift_down.simps [simp del]

fun heap_build :: "('a \<Rightarrow> 'a \<Rightarrow> int) \<Rightarrow> 'a list \<Rightarrow> nat \<Rightarrow> nat \<Rightarrow> nat \<Rightarrow> 'a list" where
  "heap_build cmp xs base 0 n = xs"
| "heap_build cmp xs base (Suc i) n = heap_build cmp (sift_down cmp xs base i n) base i n"

fun heap_extract :: "('a \<Rightarrow> 'a \<Rightarrow> int) \<Rightarrow> 'a list \<Rightarrow> nat \<Rightarrow> nat \<Rightarrow> 'a list" where
  "heap_extract cmp xs base 0 = xs"
| "heap_extract cmp xs base (Suc i) =
    heap_extract cmp (sift_down cmp (exchange xs base (base + Suc i)) base 0 (Suc i)) base i"

definition heapsortx :: "('a \<Rightarrow> 'a \<Rightarrow> int) \<Rightarrow> 'a list \<Rightarrow> nat \<Rightarrow> nat \<Rightarrow> 'a list" where
  "heapsortx cmp xs base nmemb =
    (if nmemb > 1
     then heap_extract cmp (heap_build cmp xs base (nmemb div 2) nmemb) base (nmemb - 1)
     else xs)"

subsection \<open>Insertion sort\<close>

fun insert_down :: "('a \<Rightarrow> 'a \<Rightarrow> int) \<Rightarrow> 'a list \<Rightarrow> nat \<Rightarrow> nat \<Rightarrow> 'a list" where
  "insert_down cmp xs ptr 0 = xs"
| "insert_down cmp xs ptr (Suc pj) =
    (if Suc pj > ptr \<and> cmp (xs ! pj) (xs ! Suc pj) > 0
     then insert_down cmp (exchange xs (Suc pj) pj) ptr pj else xs)"

function insertion_loop :: "('a \<Rightarrow> 'a \<Rightarrow> int) \<Rightarrow> 'a list \<Rightarrow> nat \<Rightarrow> nat \<Rightarrow> nat \<Rightarrow> 'a list" where
  "insertion_loop cmp xs ptr pi tp =
    (if pi < tp then insertion_loop cmp (insert_down cmp xs ptr pi) ptr (pi + 1) tp else xs)"
  by pat_completeness auto
termination
  by (relation "measure (\<lambda>(cmp, xs, ptr, pi, tp). tp - pi)") auto

declare insertion_loop.simps [simp del]

subsection \<open>The three-way partition\<close>

definition med3 :: "('a \<Rightarrow> 'a \<Rightarrow> int) \<Rightarrow> 'a list \<Rightarrow> nat \<Rightarrow> nat \<Rightarrow> nat \<Rightarrow> nat" where
  "med3 cmp xs a b c =
    (if cmp (xs ! a) (xs ! b) < 0
     then (if cmp (xs ! b) (xs ! c) < 0 then b else if cmp (xs ! a) (xs ! c) < 0 then c else a)
     else (if cmp (xs ! b) (xs ! c) > 0 then b else if cmp (xs ! a) (xs ! c) < 0 then a else c))"

function lt_scan :: "('a \<Rightarrow> 'a \<Rightarrow> int) \<Rightarrow> 'a list \<Rightarrow> nat \<Rightarrow> nat \<Rightarrow> nat \<Rightarrow> nat
    \<Rightarrow> 'a list \<times> nat \<times> nat" where
  "lt_scan cmp xs ptr plt pi pj =
    (if pi < pj \<and> cmp (xs ! ptr) (xs ! pi) \<ge> 0 then
       if cmp (xs ! ptr) (xs ! pi) = 0
       then lt_scan cmp (exchange xs plt pi) ptr (plt + 1) (pi + 1) pj
       else lt_scan cmp xs ptr plt (pi + 1) pj
     else (xs, plt, pi))"
  by pat_completeness auto
termination
  by (relation "measure (\<lambda>(cmp, xs, ptr, plt, pi, pj). pj - pi)") auto

declare lt_scan.simps [simp del]

function gt_scan :: "('a \<Rightarrow> 'a \<Rightarrow> int) \<Rightarrow> 'a list \<Rightarrow> nat \<Rightarrow> nat \<Rightarrow> nat \<Rightarrow> nat
    \<Rightarrow> 'a list \<times> nat \<times> nat" where
  "gt_scan cmp xs ptr pgt pi pj =
    (let pj = pj - 1 in
     if pi < pj \<and> cmp (xs ! ptr) (xs ! pj) \<le> 0 then
       if cmp (xs ! ptr) (xs ! pj) = 0
       then gt_scan cmp (exchange xs (pgt - 1) pj) ptr (pgt - 1) pi pj
       else gt_scan cmp xs ptr pgt pi pj
     else (xs, pgt, pj))"
  by pat_completeness auto
termination
  by (relation "measure (\<lambda>(cmp, xs, ptr, pgt, pi, pj). pj - pi)") auto

declare gt_scan.simps [simp del]

text \<open>The scans move their pointers towards each other, whatever the comparison returns: this
is what makes the partition end.\<close>

lemma lt_scan_bounds:
  assumes "lt_scan cmp xs ptr plt pi pj = (ys, plt', pi')"
  shows "pi \<le> pi' \<and> plt \<le> plt' \<and> (pi \<le> pj \<longrightarrow> pi' \<le> pj) \<and> (plt \<le> pi \<longrightarrow> plt' \<le> pi')"
  using assms
proof (induction cmp xs ptr plt pi pj rule: lt_scan.induct)
  case (1 cmp xs ptr plt pi pj)
  show ?case
  proof (cases "pi < pj \<and> cmp (xs ! ptr) (xs ! pi) \<ge> 0")
    case True
    with 1 show ?thesis
      by (cases "cmp (xs ! ptr) (xs ! pi) = 0") (force simp: lt_scan.simps [of cmp xs ptr plt pi pj])+
  next
    case False
    with 1(3) show ?thesis
      by (auto simp: lt_scan.simps [of cmp xs ptr plt pi pj])
  qed
qed

lemma gt_scan_bounds:
  assumes "gt_scan cmp xs ptr pgt pi pj = (ys, pgt', pj')"
  shows "pj' \<le> pj - 1 \<and> (0 < pi \<longrightarrow> pi \<le> pj \<longrightarrow> pi \<le> pj' + 1) \<and> pgt' \<le> pgt
    \<and> (0 < pj \<longrightarrow> pj \<le> pgt \<longrightarrow> pj' < pgt')"
  using assms
proof (induction cmp xs ptr pgt pi pj rule: gt_scan.induct)
  case (1 cmp xs ptr pgt pi pj)
  show ?case
  proof (cases "pi < pj - 1 \<and> cmp (xs ! ptr) (xs ! (pj - 1)) \<le> 0")
    case True
    with 1 show ?thesis
      by (cases "cmp (xs ! ptr) (xs ! (pj - 1)) = 0")
         (force simp: gt_scan.simps [of cmp xs ptr pgt pi pj] Let_def)+
  next
    case False
    with 1(3) show ?thesis
      by (auto simp: gt_scan.simps [of cmp xs ptr pgt pi pj] Let_def)
  qed
qed

function partition_loop :: "('a \<Rightarrow> 'a \<Rightarrow> int) \<Rightarrow> 'a list \<Rightarrow> nat \<Rightarrow> nat \<Rightarrow> nat \<Rightarrow> nat \<Rightarrow> nat
    \<Rightarrow> 'a list \<times> nat \<times> nat \<times> nat" where
  "partition_loop cmp xs ptr plt pgt pi pj =
    (case lt_scan cmp xs ptr plt pi pj of (xs, plt, pi) \<Rightarrow>
     case gt_scan cmp xs ptr pgt pi pj of (xs, pgt, pj) \<Rightarrow>
     if pi \<ge> pj then (xs, plt, pi, pgt)
     else partition_loop cmp (exchange xs pi pj) ptr plt pgt (pi + 1) pj)"
  by pat_completeness auto
termination
  by (relation "measure (\<lambda>(cmp, xs, ptr, plt, pgt, pi, pj). pj - pi)")
     (auto dest!: lt_scan_bounds [OF sym] gt_scan_bounds [OF sym])

declare partition_loop.simps [simp del]

text \<open>One turn of the loop \<^verbatim>\<open>while (nmemb > 6)\<close>: the pivot goes to the start,
the elements are divided, and the two blocks of elements equal to the pivot are moved to the
middle. The result gives the new array and the values of \<^verbatim>\<open>lt\<close> and
\<^verbatim>\<open>gt\<close>.\<close>

definition partition3 :: "('a \<Rightarrow> 'a \<Rightarrow> int) \<Rightarrow> 'a list \<Rightarrow> nat \<Rightarrow> nat \<Rightarrow> 'a list \<times> nat \<times> nat" where
  "partition3 cmp xs ptr nmemb =
    (let m4 = nmemb div 4;
         m = med3 cmp xs (ptr + m4) (ptr + 2 * m4) (ptr + 3 * m4);
         tp = ptr + nmemb
     in case partition_loop cmp (exchange xs ptr m) ptr (ptr + 1) tp (ptr + 1) tp of
       (xs, plt, pi, pgt) \<Rightarrow>
         let span = min (plt - ptr) (pi - plt);
             xs = swap_block xs ptr (pi - span) span;
             span' = min (tp - pgt) (pgt - pi);
             xs = swap_block xs pi (tp - span') span'
         in (xs, pi - plt, nmemb - (pgt - pi)))"

subsection \<open>Quicksort\<close>

record sort_entry =
  se_base :: nat
  se_count :: nat
  se_depth :: nat

text \<open>The inner loop for one entry of the stack: it sorts a small fragment and pushes the
entries still to be done; a push past the 50 entries of \<^verbatim>\<open>stack\<close> is
\<open>None\<close>.\<close>

definition rq_push :: "sort_entry \<Rightarrow> sort_entry list \<Rightarrow> sort_entry list option" where
  "rq_push e stack = (if length stack < 50 then Some (e # stack) else None)"

text \<open>The bounds on the parts that a partition gives need nothing of the comparison: the pivot
is in neither part, which makes the sort end.\<close>

lemma partition_loop_bounds:
  assumes "partition_loop cmp xs ptr plt pgt pi pj = (ys, plt', pi', pgt')"
    and "0 < pi" "plt \<le> pi" "pi \<le> pj" "pj \<le> pgt"
  shows "plt \<le> plt' \<and> plt' \<le> pi' \<and> pi' \<le> pgt' \<and> pgt' \<le> pgt"
  using assms
proof (induction cmp xs ptr plt pgt pi pj rule: partition_loop.induct)
  case (1 cmp xs ptr plt pgt pi pj)
  obtain xs1 plt1 pi1 where l: "lt_scan cmp xs ptr plt pi pj = (xs1, plt1, pi1)"
    by (metis prod_cases3)
  obtain xs2 pgt2 pj2 where g: "gt_scan cmp xs1 ptr pgt pi1 pj = (xs2, pgt2, pj2)"
    by (metis prod_cases3)
  note simp = partition_loop.simps [of cmp xs ptr plt pgt pi pj, unfolded l g prod.case]
  note bounds = lt_scan_bounds [OF l] gt_scan_bounds [OF g] 1(3-)
  show ?case
  proof (cases "pi1 \<ge> pj2")
    case True
    with 1(2) bounds show ?thesis by (auto simp: simp)
  next
    case False
    with 1(2) have e: "partition_loop cmp (exchange xs2 pi1 pj2) ptr plt1 pgt2 (pi1 + 1) pj2 = (ys, plt', pi', pgt')"
      by (simp add: simp)
    from False bounds have "plt1 \<le> plt' \<and> plt' \<le> pi' \<and> pi' \<le> pgt' \<and> pgt' \<le> pgt2"
      by (intro 1(1) [OF l [symmetric] refl g [symmetric] refl _ e]) auto
    with bounds show ?thesis by auto
  qed
qed

lemma partition3_bounds:
  assumes "partition3 cmp xs ptr nmemb = (ys, lt, gt)" "0 < nmemb"
  shows "lt < gt" "gt \<le> nmemb"
proof -
  obtain zs plt pi pgt where
    l: "partition_loop cmp (exchange xs ptr (med3 cmp xs (ptr + nmemb div 4) (ptr + 2 * (nmemb div 4)) (ptr + 3 * (nmemb div 4))))
      ptr (ptr + 1) (ptr + nmemb) (ptr + 1) (ptr + nmemb) = (zs, plt, pi, pgt)"
    by (metis prod_cases4)
  have "lt = pi - plt" "gt = nmemb - (pgt - pi)"
    using assms(1) unfolding partition3_def Let_def l prod.case by auto
  with partition_loop_bounds [OF l] assms(2) show "lt < gt" "gt \<le> nmemb"
    by auto
qed

function rqsort_segment :: "('a \<Rightarrow> 'a \<Rightarrow> int) \<Rightarrow> 'a list \<Rightarrow> nat \<Rightarrow> nat \<Rightarrow> nat \<Rightarrow> sort_entry list
    \<Rightarrow> ('a list \<times> sort_entry list) option" where
  "rqsort_segment cmp xs ptr nmemb depth stack =
    (if nmemb > 6 then
       if depth + 1 > 50 then Some (heapsortx cmp xs ptr nmemb, stack)
       else case partition3 cmp xs ptr nmemb of (ys, lt, gt) \<Rightarrow>
         if lt > nmemb - gt then
           (case rq_push \<lparr>se_base = ptr, se_count = lt, se_depth = depth + 1\<rparr> stack of
              None \<Rightarrow> None
            | Some stack' \<Rightarrow> rqsort_segment cmp ys (ptr + gt) (nmemb - gt) (depth + 1) stack')
         else
           (case rq_push \<lparr>se_base = ptr + gt, se_count = nmemb - gt, se_depth = depth + 1\<rparr> stack of
              None \<Rightarrow> None
            | Some stack' \<Rightarrow> rqsort_segment cmp ys ptr lt (depth + 1) stack')
     else Some (insertion_loop cmp xs ptr (ptr + 1) (ptr + nmemb), stack))"
  by pat_completeness auto
termination
  by (relation "measure (\<lambda>(cmp, xs, ptr, nmemb, depth, stack). nmemb)")
     (auto dest: partition3_bounds [OF sym])

declare rqsort_segment.simps [simp del]

text \<open>The weight of the stack: each turn of the outer loop takes an entry of
\<open>se_count\<close> elements off and puts entries of less weight back.\<close>

definition stack_weight :: "sort_entry list \<Rightarrow> nat" where
  "stack_weight stack = sum_list (map (\<lambda>e. se_count e + 1) stack)"

lemma rqsort_segment_weight:
  assumes "rqsort_segment cmp xs ptr nmemb depth stack = Some (ys, stack')"
  shows "stack_weight stack' \<le> stack_weight stack + nmemb"
  using assms
proof (induction cmp xs ptr nmemb depth stack rule: rqsort_segment.induct)
  case (1 cmp xs ptr nmemb depth stack)
  obtain zs lt gt where p: "partition3 cmp xs ptr nmemb = (zs, lt, gt)"
    by (metis prod_cases3)
  note simp = rqsort_segment.simps [of cmp xs ptr nmemb depth stack, unfolded p prod.case]
  show ?case
  proof (cases "nmemb > 6 \<and> \<not> depth + 1 > 50")
    case False
    with 1(3) show ?thesis by (auto simp: simp split: if_splits)
  next
    case True
    then have b: "lt < gt" "gt \<le> nmemb"
      using partition3_bounds [OF p] by auto
    from True 1(3) show ?thesis
      using 1(1) [OF _ _ p [symmetric] refl] 1(2) [OF _ _ p [symmetric] refl] b
      by (fastforce simp: simp rq_push_def stack_weight_def split: if_splits)
  qed
qed

function rqsort_loop :: "('a \<Rightarrow> 'a \<Rightarrow> int) \<Rightarrow> 'a list \<Rightarrow> sort_entry list \<Rightarrow> 'a list option" where
  "rqsort_loop cmp xs [] = Some xs"
| "rqsort_loop cmp xs (e # stack) =
    (case rqsort_segment cmp xs (se_base e) (se_count e) (se_depth e) stack of
       None \<Rightarrow> None
     | Some (xs', stack') \<Rightarrow> rqsort_loop cmp xs' stack')"
  by pat_completeness auto
termination
proof (relation "measure (\<lambda>(cmp, xs, stack). stack_weight stack)", goal_cases)
  case (2 cmp xs e stack st xs' stack')
  then have "stack_weight stack' \<le> stack_weight stack + se_count e"
    by (intro rqsort_segment_weight [of cmp xs "se_base e" "se_count e" "se_depth e" stack xs' stack']) simp
  then show ?case by (simp add: stack_weight_def)
qed simp

definition rqsort :: "('a \<Rightarrow> 'a \<Rightarrow> int) \<Rightarrow> 'a list \<Rightarrow> 'a list option" where
  "rqsort cmp xs =
    (if length xs < 2 then Some xs
     else rqsort_loop cmp xs [\<lparr>se_base = 0, se_count = length xs, se_depth = 0\<rparr>])"

section \<open>Lemmas\<close>

subsection \<open>Permutations of a fragment\<close>

text \<open>\<open>permutes lo hi xs ys\<close>: the array \<open>ys\<close> is \<open>xs\<close> with the
elements of the indices \<open>lo\<close> to \<open>hi\<close> (excluded) permuted and every other
element in place.\<close>

definition permutes :: "nat \<Rightarrow> nat \<Rightarrow> 'a list \<Rightarrow> 'a list \<Rightarrow> bool" where
  "permutes lo hi xs ys \<longleftrightarrow> mset ys = mset xs \<and> (\<forall>k. k < lo \<or> hi \<le> k \<longrightarrow> ys ! k = xs ! k)"

lemma nth_exchange:
  "i < length xs \<Longrightarrow> j < length xs \<Longrightarrow>
    exchange xs i j ! k = (if k = i then xs ! j else if k = j then xs ! i else xs ! k)"
  by (auto simp: exchange_def nth_list_update)

lemma length_exchange [simp]: "length (exchange xs i j) = length xs"
  by (simp add: exchange_def)

lemma permutes_refl [simp]: "permutes lo hi xs xs"
  by (simp add: permutes_def)

lemma permutes_trans [trans]:
  "permutes lo hi xs ys \<Longrightarrow> permutes lo hi ys zs \<Longrightarrow> permutes lo hi xs zs"
  by (simp add: permutes_def)

lemma permutes_mono: "permutes lo hi xs ys \<Longrightarrow> lo' \<le> lo \<Longrightarrow> hi \<le> hi' \<Longrightarrow> permutes lo' hi' xs ys"
  by (auto simp: permutes_def)

lemma permutes_length: "permutes lo hi xs ys \<Longrightarrow> length ys = length xs"
  by (metis permutes_def size_mset)

lemma permutes_exchange:
  "lo \<le> i \<Longrightarrow> i < hi \<Longrightarrow> lo \<le> j \<Longrightarrow> j < hi \<Longrightarrow> hi \<le> length xs \<Longrightarrow> permutes lo hi xs (exchange xs i j)"
  by (auto simp: permutes_def nth_exchange mset_swap exchange_def [symmetric])
     (simp add: exchange_def mset_swap)

text \<open>A property that holds of every element of the fragment holds of every element after the
permutation.\<close>

lemma permutes_fragment:
  assumes "permutes lo hi xs ys" "hi \<le> length xs"
  shows "mset (drop lo (take hi ys)) = mset (drop lo (take hi xs))"
proof -
  have len: "length ys = length xs"
    using assms(1) by (rule permutes_length)
  have tl: "take lo ys = take lo xs" and dr: "drop hi ys = drop hi xs"
    using assms len by (auto intro!: nth_equalityI simp: permutes_def)
  have split: "mset zs = mset (take lo (take hi zs)) + mset (drop lo (take hi zs)) + mset (drop hi zs)" for zs :: "'a list"
    by (metis append_take_drop_id mset_append)
  have "take lo (take hi ys) = take lo (take hi xs)"
    by (metis take_take tl min.commute take_take)
  with split [of xs] split [of ys] dr assms(1) show ?thesis
    by (simp add: permutes_def)
qed

lemma permutes_all:
  assumes "permutes lo hi xs ys" "hi \<le> length xs" "\<And>k. lo \<le> k \<Longrightarrow> k < hi \<Longrightarrow> P (xs ! k)"
    and "lo \<le> j" "j < hi"
  shows "P (ys ! j)"
proof -
  have "ys ! j \<in> set (drop lo (take hi ys))"
    using assms(4,5,2) permutes_length [OF assms(1)]
    by (auto simp: in_set_conv_nth intro!: exI [of _ "j - lo"])
  then have "ys ! j \<in> set (drop lo (take hi xs))"
    using permutes_fragment [OF assms(1,2)] by (metis set_mset_mset)
  then obtain i where "i < hi - lo" "xs ! (lo + i) = ys ! j"
    using assms(2) by (auto simp: in_set_conv_nth)
  then show ?thesis
    using assms(3) [of "lo + i"] by simp
qed

lemma permutes_nth: "permutes lo hi xs ys \<Longrightarrow> k < lo \<or> hi \<le> k \<Longrightarrow> ys ! k = xs ! k"
  by (auto simp: permutes_def)

subsection \<open>The partition\<close>

lemma lt_scan_spec:
  assumes "lt_scan cmp xs ptr plt pi pj = (ys, plt', pi')"
    and "ptr < plt" "plt \<le> pi" "pi \<le> pj" "pj \<le> length xs"
    and "\<forall>k\<in>{ptr<..<plt}. cmp (xs ! ptr) (xs ! k) = 0"
    and "\<forall>k\<in>{plt..<pi}. cmp (xs ! ptr) (xs ! k) > 0"
  shows "permutes (ptr + 1) pj xs ys \<and> plt \<le> plt' \<and> plt' \<le> pi' \<and> pi \<le> pi' \<and> pi' \<le> pj
    \<and> (\<forall>k\<in>{ptr<..<plt'}. cmp (xs ! ptr) (ys ! k) = 0)
    \<and> (\<forall>k\<in>{plt'..<pi'}. cmp (xs ! ptr) (ys ! k) > 0)
    \<and> (pi' < pj \<longrightarrow> cmp (xs ! ptr) (ys ! pi') < 0)"
  using assms
proof (induction cmp xs ptr plt pi pj rule: lt_scan.induct)
  case (1 cmp xs ptr plt pi pj)
  note simp = lt_scan.simps [of cmp xs ptr plt pi pj]
  consider (eq) "pi < pj" "cmp (xs ! ptr) (xs ! pi) = 0"
    | (lt) "pi < pj" "cmp (xs ! ptr) (xs ! pi) > 0"
    | (stop) "\<not> (pi < pj \<and> cmp (xs ! ptr) (xs ! pi) \<ge> 0)"
    by linarith
  then show ?case
  proof cases
    case eq
    let ?zs = "exchange xs plt pi"
    have z: "?zs ! k = (if k = plt then xs ! pi else if k = pi then xs ! plt else xs ! k)" for k
      using 1 eq by (intro nth_exchange) auto
    have p: "permutes (ptr + 1) pj xs ?zs"
      using 1 eq by (intro permutes_exchange) auto
    have "permutes (ptr + 1) pj ?zs ys \<and> plt + 1 \<le> plt' \<and> plt' \<le> pi' \<and> pi + 1 \<le> pi' \<and> pi' \<le> pj
      \<and> (\<forall>k\<in>{ptr<..<plt'}. cmp (?zs ! ptr) (ys ! k) = 0)
      \<and> (\<forall>k\<in>{plt'..<pi'}. cmp (?zs ! ptr) (ys ! k) > 0)
      \<and> (pi' < pj \<longrightarrow> cmp (?zs ! ptr) (ys ! pi') < 0)"
      using eq 1(3-) by (intro 1(1)) (auto simp: simp z)
    moreover have "?zs ! ptr = xs ! ptr"
      using 1 by (simp add: z)
    ultimately show ?thesis
      using permutes_trans [OF p] by auto
  next
    case lt
    have "permutes (ptr + 1) pj xs ys \<and> plt \<le> plt' \<and> plt' \<le> pi' \<and> pi + 1 \<le> pi' \<and> pi' \<le> pj
      \<and> (\<forall>k\<in>{ptr<..<plt'}. cmp (xs ! ptr) (ys ! k) = 0)
      \<and> (\<forall>k\<in>{plt'..<pi'}. cmp (xs ! ptr) (ys ! k) > 0)
      \<and> (pi' < pj \<longrightarrow> cmp (xs ! ptr) (ys ! pi') < 0)"
      using lt 1(3-) by (intro 1(2)) (auto simp: simp less_Suc_eq)
    then show ?thesis by auto
  next
    case stop
    with 1(3-) show ?thesis by (auto simp: simp)
  qed
qed

lemma gt_scan_spec:
  assumes "gt_scan cmp xs ptr pgt pi pj = (ys, pgt', pj')"
    and "ptr < pi" "pi \<le> pj" "pj \<le> pgt" "pgt \<le> tp" "tp \<le> length xs"
    and "\<forall>k\<in>{pj..<pgt}. cmp (xs ! ptr) (xs ! k) < 0"
    and "\<forall>k\<in>{pgt..<tp}. cmp (xs ! ptr) (xs ! k) = 0"
  shows "permutes (pi + 1) tp xs ys \<and> pj' < pj \<and> pj' < pgt' \<and> pgt' \<le> pgt \<and> pi \<le> pj' + 1
    \<and> (\<forall>k\<in>{pj'<..<pgt'}. cmp (xs ! ptr) (ys ! k) < 0)
    \<and> (\<forall>k\<in>{pgt'..<tp}. cmp (xs ! ptr) (ys ! k) = 0)
    \<and> (pi < pj' \<longrightarrow> cmp (xs ! ptr) (ys ! pj') > 0)"
  using assms
proof (induction cmp xs ptr pgt pi pj rule: gt_scan.induct)
  case (1 cmp xs ptr pgt pi pj)
  note simp = gt_scan.simps [of cmp xs ptr pgt pi pj] Let_def
  consider (eq) "pi < pj - 1" "cmp (xs ! ptr) (xs ! (pj - 1)) = 0"
    | (lt) "pi < pj - 1" "cmp (xs ! ptr) (xs ! (pj - 1)) < 0"
    | (stop) "\<not> (pi < pj - 1 \<and> cmp (xs ! ptr) (xs ! (pj - 1)) \<le> 0)"
    by linarith
  then show ?case
  proof cases
    case eq
    let ?zs = "exchange xs (pgt - 1) (pj - 1)"
    have z: "?zs ! k = (if k = pgt - 1 then xs ! (pj - 1) else if k = pj - 1 then xs ! (pgt - 1) else xs ! k)" for k
      using 1 eq by (intro nth_exchange) auto
    have gt: "cmp (xs ! ptr) (xs ! k) < 0" if "k \<noteq> pj - Suc 0" "pj - Suc 0 \<le> k" "k < pgt - Suc 0" for k
      using that by (intro bspec [OF 1(9)]) auto
    have p: "permutes (pi + 1) tp xs ?zs"
      using 1 eq by (intro permutes_exchange) auto
    have "permutes (pi + 1) tp ?zs ys \<and> pj' < pj - 1 \<and> pj' < pgt' \<and> pgt' \<le> pgt - 1 \<and> pi \<le> pj' + 1
      \<and> (\<forall>k\<in>{pj'<..<pgt'}. cmp (?zs ! ptr) (ys ! k) < 0)
      \<and> (\<forall>k\<in>{pgt'..<tp}. cmp (?zs ! ptr) (ys ! k) = 0)
      \<and> (pi < pj' \<longrightarrow> cmp (?zs ! ptr) (ys ! pj') > 0)"
      using eq 1(3-) gt by (intro 1(1)) (auto simp: simp z [unfolded One_nat_def])
    moreover have "?zs ! ptr = xs ! ptr"
      using 1 eq by (simp add: z [unfolded One_nat_def])
    ultimately show ?thesis
      using permutes_trans [OF p] by auto
  next
    case lt
    have g: "\<forall>k\<in>{pj - 1..<pgt}. cmp (xs ! ptr) (xs ! k) < 0"
    proof
      fix k assume "k \<in> {pj - 1..<pgt}"
      then have "k = pj - 1 \<or> k \<in> {pj..<pgt}" by auto
      then show "cmp (xs ! ptr) (xs ! k) < 0" using lt 1(9) by auto
    qed
    have e: "gt_scan cmp xs ptr pgt pi (pj - 1) = (ys, pgt', pj')"
      using lt 1(3) by (simp add: simp)
    have "permutes (pi + 1) tp xs ys \<and> pj' < pj - 1 \<and> pj' < pgt' \<and> pgt' \<le> pgt \<and> pi \<le> pj' + 1
      \<and> (\<forall>k\<in>{pj'<..<pgt'}. cmp (xs ! ptr) (ys ! k) < 0)
      \<and> (\<forall>k\<in>{pgt'..<tp}. cmp (xs ! ptr) (ys ! k) = 0)
      \<and> (pi < pj' \<longrightarrow> cmp (xs ! ptr) (ys ! pj') > 0)"
      by (rule 1(2) [OF refl _ _ e 1(4) _ _ 1(7,8) g 1(10)]) (use lt 1(5,6) in auto)
    then show ?thesis by auto
  next
    case stop
    have g: "\<forall>k\<in>{pj - 1<..<pgt}. cmp (xs ! ptr) (xs ! k) < 0"
      using 1(9) by auto
    with stop 1(3-) show ?thesis by (auto simp: simp)
  qed
qed

lemma partition_loop_spec:
  assumes "partition_loop cmp xs ptr plt pgt pi pj = (ys, plt', pi', pgt')"
    and "ptr < plt" "plt \<le> pi" "pi \<le> pj" "pj \<le> pgt" "pgt \<le> tp" "tp \<le> length xs"
    and "\<forall>k\<in>{ptr<..<plt}. cmp (xs ! ptr) (xs ! k) = 0"
    and "\<forall>k\<in>{plt..<pi}. cmp (xs ! ptr) (xs ! k) > 0"
    and "\<forall>k\<in>{pj..<pgt}. cmp (xs ! ptr) (xs ! k) < 0"
    and "\<forall>k\<in>{pgt..<tp}. cmp (xs ! ptr) (xs ! k) = 0"
  shows "permutes (ptr + 1) tp xs ys \<and> plt \<le> plt' \<and> plt' \<le> pi' \<and> pi' \<le> pgt' \<and> pgt' \<le> tp
    \<and> (\<forall>k\<in>{ptr<..<plt'}. cmp (xs ! ptr) (ys ! k) = 0)
    \<and> (\<forall>k\<in>{plt'..<pi'}. cmp (xs ! ptr) (ys ! k) > 0)
    \<and> (\<forall>k\<in>{pi'..<pgt'}. cmp (xs ! ptr) (ys ! k) < 0)
    \<and> (\<forall>k\<in>{pgt'..<tp}. cmp (xs ! ptr) (ys ! k) = 0)"
  using assms
proof (induction cmp xs ptr plt pgt pi pj rule: partition_loop.induct)
  case (1 cmp xs ptr plt pgt pi pj)
  obtain xs1 plt1 pi1 where l: "lt_scan cmp xs ptr plt pi pj = (xs1, plt1, pi1)"
    by (metis prod_cases3)
  obtain xs2 pgt2 pj2 where g: "gt_scan cmp xs1 ptr pgt pi1 pj = (xs2, pgt2, pj2)"
    by (metis prod_cases3)
  note simp = partition_loop.simps [of cmp xs ptr plt pgt pi pj, unfolded l g prod.case]
  have L: "permutes (ptr + 1) pj xs xs1" "plt \<le> plt1" "plt1 \<le> pi1" "pi \<le> pi1" "pi1 \<le> pj"
    "\<forall>k\<in>{ptr<..<plt1}. cmp (xs ! ptr) (xs1 ! k) = 0"
    "\<forall>k\<in>{plt1..<pi1}. cmp (xs ! ptr) (xs1 ! k) > 0"
    "pi1 < pj \<longrightarrow> cmp (xs ! ptr) (xs1 ! pi1) < 0"
    using lt_scan_spec [OF l] 1(3-) by auto
  have len1: "length xs1 = length xs" and p1: "xs1 ! ptr = xs ! ptr"
    and hi1: "\<And>k. pj \<le> k \<Longrightarrow> xs1 ! k = xs ! k"
    using permutes_length [OF L(1)] permutes_nth [OF L(1)] by auto
  have "permutes (pi1 + 1) tp xs1 xs2 \<and> pj2 < pj \<and> pj2 < pgt2 \<and> pgt2 \<le> pgt \<and> pi1 \<le> pj2 + 1
    \<and> (\<forall>k\<in>{pj2<..<pgt2}. cmp (xs1 ! ptr) (xs2 ! k) < 0)
    \<and> (\<forall>k\<in>{pgt2..<tp}. cmp (xs1 ! ptr) (xs2 ! k) = 0)
    \<and> (pi1 < pj2 \<longrightarrow> cmp (xs1 ! ptr) (xs2 ! pj2) > 0)"
    using 1(3-) L by (intro gt_scan_spec [OF g]) (auto simp: p1 len1 hi1)
  then have G: "permutes (pi1 + 1) tp xs1 xs2" "pj2 < pj" "pj2 < pgt2" "pgt2 \<le> pgt" "pi1 \<le> pj2 + 1"
    "\<forall>k\<in>{pj2<..<pgt2}. cmp (xs ! ptr) (xs2 ! k) < 0"
    "\<forall>k\<in>{pgt2..<tp}. cmp (xs ! ptr) (xs2 ! k) = 0"
    "pi1 < pj2 \<longrightarrow> cmp (xs ! ptr) (xs2 ! pj2) > 0"
    by (auto simp: p1)
  have lo2: "\<And>k. k \<le> pi1 \<Longrightarrow> xs2 ! k = xs1 ! k"
    using permutes_nth [OF G(1)] by auto
  have L2: "\<forall>k\<in>{ptr<..<plt1}. cmp (xs ! ptr) (xs2 ! k) = 0"
    "\<forall>k\<in>{plt1..<pi1}. cmp (xs ! ptr) (xs2 ! k) > 0"
    using L(3,6,7) by (auto simp: lo2)
  have P: "permutes (ptr + 1) tp xs xs2"
    using 1(3-) L(1-5) permutes_trans [OF permutes_mono [OF L(1)] permutes_mono [OF G(1)]] by auto
  have p2: "xs2 ! ptr = xs ! ptr" and len2: "length xs2 = length xs"
    using permutes_nth [OF P] permutes_length [OF P] by auto
  show ?case
  proof (cases "pi1 \<ge> pj2")
    case True
    have "cmp (xs ! ptr) (xs2 ! k) < 0" if "k \<in> {pi1..<pgt2}" for k
    proof (cases "k = pj2")
      case True
      then have "k = pi1" "pi1 < pj" using that \<open>pi1 \<ge> pj2\<close> G(2) by auto
      then show ?thesis using L(8) lo2 by simp
    next
      case False
      then show ?thesis using G(6) that \<open>pi1 \<ge> pj2\<close> by auto
    qed
    moreover have "ys = xs2" "plt' = plt1" "pi' = pi1" "pgt' = pgt2"
      using True 1(2) by (simp_all add: simp)
    moreover have "pi1 \<le> pgt2" "pgt2 \<le> tp" using G 1(3-) by auto
    ultimately show ?thesis
      using P L L2 G by auto
  next
    case False
    let ?zs = "exchange xs2 pi1 pj2"
    have z: "?zs ! k = (if k = pi1 then xs2 ! pj2 else if k = pj2 then xs2 ! pi1 else xs2 ! k)" for k
      using False G 1(3-) len2 by (intro nth_exchange) auto
    have p: "permutes (ptr + 1) tp xs2 ?zs"
      using False L G 1(3-) len2 by (intro permutes_exchange) auto
    have gt1: "cmp (xs ! ptr) (xs2 ! pi1) < 0"
      using L(8) False G(2) lo2 by auto
    have "permutes (ptr + 1) tp ?zs ys \<and> plt1 \<le> plt' \<and> plt' \<le> pi' \<and> pi' \<le> pgt' \<and> pgt' \<le> tp
      \<and> (\<forall>k\<in>{ptr<..<plt'}. cmp (?zs ! ptr) (ys ! k) = 0)
      \<and> (\<forall>k\<in>{plt'..<pi'}. cmp (?zs ! ptr) (ys ! k) > 0)
      \<and> (\<forall>k\<in>{pi'..<pgt'}. cmp (?zs ! ptr) (ys ! k) < 0)
      \<and> (\<forall>k\<in>{pgt'..<tp}. cmp (?zs ! ptr) (ys ! k) = 0)"
      using 1(2-) False L(2-5) L2 G(2-) gt1 len2 p2
      by (intro 1(1) [OF l [symmetric] refl g [symmetric] refl])
         (auto simp: simp z less_Suc_eq)
    moreover have "?zs ! ptr = xs ! ptr"
      using 1(3-) L(2-5) False p2 by (simp add: z)
    ultimately show ?thesis
      using permutes_trans [OF P permutes_trans [OF p]] L(2) by auto
  qed
qed

end
