(* ===== verification/Sort_Correct.thy ===== *)
theory Sort_Correct
  imports Sort
begin

text \<open>The correctness of \<^verbatim>\<open>rqsort\<close> and of the exchange functions below
it.\<close>

section \<open>The blocks and the partition\<close>

lemma swap_block_permutes:
  "lo \<le> a \<Longrightarrow> a + span \<le> hi \<Longrightarrow> lo \<le> b \<Longrightarrow> b + span \<le> hi \<Longrightarrow> hi \<le> length xs \<Longrightarrow>
    permutes lo hi xs (swap_block xs a b span)"
proof (induction xs a b span rule: swap_block.induct)
  case (2 xs a b span)
  then have "permutes lo hi xs (exchange xs a b)"
    by (intro permutes_exchange) auto
  also from 2 have "permutes lo hi (exchange xs a b) (swap_block (exchange xs a b) (a + 1) (b + 1) span)"
    by (intro "2.IH") auto
  finally show ?case by simp
qed simp

lemma nth_swap_block:
  "a + span \<le> b \<Longrightarrow> b + span \<le> length xs \<Longrightarrow>
    swap_block xs a b span ! k =
      (if a \<le> k \<and> k < a + span then xs ! (b + (k - a))
       else if b \<le> k \<and> k < b + span then xs ! (a + (k - b)) else xs ! k)"
proof (induction xs a b span rule: swap_block.induct)
  case (2 xs a b span)
  have "swap_block xs a b (Suc span) ! k =
      (if a + 1 \<le> k \<and> k < a + 1 + span then exchange xs a b ! (b + 1 + (k - (a + 1)))
       else if b + 1 \<le> k \<and> k < b + 1 + span then exchange xs a b ! (a + 1 + (k - (b + 1)))
       else exchange xs a b ! k)"
    using 2(2,3) by (simp only: swap_block.simps, intro "2.IH") auto
  note step = this
  consider (a) d where "k = Suc (a + d)" "d < span" | (b) d where "k = Suc (b + d)" "d < span"
    | (start) "k = a \<or> k = b" | (other) "k \<noteq> a" "k \<noteq> b" "\<not> (a + 1 \<le> k \<and> k < a + 1 + span)" "\<not> (b + 1 \<le> k \<and> k < b + 1 + span)"
    by (metis Suc_eq_plus1 add_Suc nat_add_left_cancel_less nat_le_iff_add)
  then show ?case
  proof cases
    case other
    then show ?thesis
      unfolding step using 2(2,3) by (auto simp: nth_exchange simp del: swap_block.simps)
  next
    case start
    then show ?thesis
      unfolding step using 2(2,3) by (elim disjE) (simp_all add: nth_exchange del: swap_block.simps)
  qed (use step 2(2,3) in \<open>simp_all add: nth_exchange del: swap_block.simps\<close>)
qed auto

text \<open>Moving the shorter of two adjacent blocks past the other puts the second block first.\<close>

lemma swap_block_rotates:
  assumes "a \<le> m" "m \<le> b" "b \<le> length xs" "span = min (m - a) (b - m)"
  shows "\<forall>k\<in>{a..<a + (b - m)}. \<exists>j\<in>{m..<b}. swap_block xs a (b - span) span ! k = xs ! j"
    and "\<forall>k\<in>{a + (b - m)..<b}. \<exists>j\<in>{a..<m}. swap_block xs a (b - span) span ! k = xs ! j"
    and "permutes a b xs (swap_block xs a (b - span) span)"
proof -
  have sp: "span \<le> m - a" "span \<le> b - m" "span = m - a \<or> span = b - m"
    using assms(4) by auto
  have nth: "swap_block xs a (b - span) span ! k =
      (if a \<le> k \<and> k < a + span then xs ! (b - span + (k - a))
       else if b - span \<le> k \<and> k < b - span + span then xs ! (a + (k - (b - span))) else xs ! k)" for k
    using assms(1-3) sp by (intro nth_swap_block) auto
  show "\<forall>k\<in>{a..<a + (b - m)}. \<exists>j\<in>{m..<b}. swap_block xs a (b - span) span ! k = xs ! j"
  proof
    fix k assume k: "k \<in> {a..<a + (b - m)}"
    show "\<exists>j\<in>{m..<b}. swap_block xs a (b - span) span ! k = xs ! j"
    proof (cases "k < a + span")
      case True
      with k assms(1-3) sp show ?thesis
        by (intro bexI [of _ "b - span + (k - a)"]) (simp add: nth, arith?, unfold atLeastLessThan_iff, arith)
    next
      case False
      with k assms(1-3) sp show ?thesis
        by (intro bexI [of _ k]) (simp add: nth, arith?, unfold atLeastLessThan_iff, arith)
    qed
  qed
  show "\<forall>k\<in>{a + (b - m)..<b}. \<exists>j\<in>{a..<m}. swap_block xs a (b - span) span ! k = xs ! j"
  proof
    fix k assume k: "k \<in> {a + (b - m)..<b}"
    show "\<exists>j\<in>{a..<m}. swap_block xs a (b - span) span ! k = xs ! j"
    proof (cases "b - span \<le> k")
      case True
      with k assms(1-3) sp show ?thesis
        by (intro bexI [of _ "a + (k - (b - span))"]) (simp add: nth, arith?, unfold atLeastLessThan_iff, arith)
    next
      case False
      with k assms(1-3) sp show ?thesis
        by (intro bexI [of _ k]) (simp add: nth, arith?, unfold atLeastLessThan_iff, arith)
    qed
  qed
  show "permutes a b xs (swap_block xs a (b - span) span)"
    using assms(1-3) sp by (intro swap_block_permutes) auto
qed

text \<open>What one partition promises: with the pivot \<open>v\<close>, smaller elements first, then
those equal to it, then the greater ones.\<close>

definition partitioned :: "('a \<Rightarrow> 'a \<Rightarrow> int) \<Rightarrow> 'a \<Rightarrow> 'a list \<Rightarrow> nat \<Rightarrow> nat \<Rightarrow> nat \<Rightarrow> nat \<Rightarrow> bool" where
  "partitioned cmp v ys a b c d \<longleftrightarrow>
    (\<forall>k\<in>{a..<b}. cmp v (ys ! k) > 0) \<and> (\<forall>k\<in>{b..<c}. ys ! k = v \<or> cmp v (ys ! k) = 0)
    \<and> (\<forall>k\<in>{c..<d}. cmp v (ys ! k) < 0)"

lemma med3_cases: "med3 cmp xs a b c \<in> {a, b, c}"
  by (simp add: med3_def)

lemma partition3_spec:
  assumes "partition3 cmp xs ptr nmemb = (ys, lt, gt)" "0 < nmemb" "ptr + nmemb \<le> length xs"
  shows "permutes ptr (ptr + nmemb) xs ys"
    and "\<exists>v. partitioned cmp v ys ptr (ptr + lt) (ptr + gt) (ptr + nmemb)"
proof -
  define tp where "tp = ptr + nmemb"
  define m where "m = med3 cmp xs (ptr + nmemb div 4) (ptr + 2 * (nmemb div 4)) (ptr + 3 * (nmemb div 4))"
  have "m \<in> {ptr + nmemb div 4, ptr + 2 * (nmemb div 4), ptr + 3 * (nmemb div 4)}"
    unfolding m_def by (rule med3_cases)
  with assms(2) have m: "ptr \<le> m" "m < tp"
    by (auto simp: tp_def)
  define xs0 where "xs0 = exchange xs ptr m"
  have p0: "permutes ptr tp xs xs0"
    unfolding xs0_def using m assms(2,3) by (intro permutes_exchange) (auto simp: tp_def)
  note len0 = permutes_length [OF p0]
  obtain xs1 plt pi pgt where l: "partition_loop cmp xs0 ptr (ptr + 1) tp (ptr + 1) tp = (xs1, plt, pi, pgt)"
    by (metis prod_cases4)
  have "permutes (ptr + 1) tp xs0 xs1 \<and> ptr + 1 \<le> plt \<and> plt \<le> pi \<and> pi \<le> pgt \<and> pgt \<le> tp
    \<and> (\<forall>k\<in>{ptr<..<plt}. cmp (xs0 ! ptr) (xs1 ! k) = 0)
    \<and> (\<forall>k\<in>{plt..<pi}. cmp (xs0 ! ptr) (xs1 ! k) > 0)
    \<and> (\<forall>k\<in>{pi..<pgt}. cmp (xs0 ! ptr) (xs1 ! k) < 0)
    \<and> (\<forall>k\<in>{pgt..<tp}. cmp (xs0 ! ptr) (xs1 ! k) = 0)"
    using assms(2,3) by (intro partition_loop_spec [OF l]) (auto simp: len0 tp_def)
  then have p1: "permutes (ptr + 1) tp xs0 xs1" and b: "ptr + 1 \<le> plt" "plt \<le> pi" "pi \<le> pgt" "pgt \<le> tp"
    and c: "\<forall>k\<in>{ptr<..<plt}. cmp (xs0 ! ptr) (xs1 ! k) = 0"
      "\<forall>k\<in>{plt..<pi}. cmp (xs0 ! ptr) (xs1 ! k) > 0"
      "\<forall>k\<in>{pi..<pgt}. cmp (xs0 ! ptr) (xs1 ! k) < 0"
      "\<forall>k\<in>{pgt..<tp}. cmp (xs0 ! ptr) (xs1 ! k) = 0"
    by simp_all
  define v where "v = xs0 ! ptr"
  have v1: "xs1 ! ptr = v"
    using permutes_nth [OF p1, of ptr] by (simp add: v_def)
  have c0: "\<forall>k\<in>{ptr..<plt}. xs1 ! k = v \<or> cmp v (xs1 ! k) = 0"
    using c(1) v1 by (force simp: v_def le_less)
  define sp where "sp = min (plt - ptr) (pi - plt)"
  define sp' where "sp' = min (tp - pgt) (pgt - pi)"
  define xs2 where "xs2 = swap_block xs1 ptr (pi - sp) sp"
  define xs3 where "xs3 = swap_block xs2 pi (tp - sp') sp'"
  have res: "ys = xs3" "lt = pi - plt" "gt = nmemb - (pgt - pi)"
    using assms(1)
    unfolding partition3_def Let_def m_def [symmetric] xs0_def [symmetric] tp_def [symmetric] l prod.case
      xs3_def xs2_def sp_def sp'_def by auto
  have len1: "length xs1 = length xs"
    using permutes_length [OF p1] len0 by simp
  have pre2: "ptr \<le> plt" "plt \<le> pi" "pi \<le> length xs1"
    using b assms(3) len1 by (auto simp: tp_def)
  note s2 = swap_block_rotates [OF pre2 sp_def, folded xs2_def]
  have len2: "length xs2 = length xs"
    using permutes_length [OF s2(3)] len1 by simp
  have hi2: "\<And>k. pi \<le> k \<Longrightarrow> xs2 ! k = xs1 ! k"
    using permutes_nth [OF s2(3)] by auto
  have pre3: "pi \<le> pgt" "pgt \<le> tp" "tp \<le> length xs2"
    using b assms(3) len2 by (auto simp: tp_def)
  have s3: "\<forall>k\<in>{pi..<pi + (tp - pgt)}. \<exists>j\<in>{pgt..<tp}. xs3 ! k = xs2 ! j"
    "\<forall>k\<in>{pi + (tp - pgt)..<tp}. \<exists>j\<in>{pi..<pgt}. xs3 ! k = xs2 ! j"
    "permutes pi tp xs2 xs3"
    using swap_block_rotates [OF pre3, of sp'] by (simp_all add: xs3_def sp'_def min.commute)
  have lo3: "\<And>k. k < pi \<Longrightarrow> xs3 ! k = xs2 ! k"
    using permutes_nth [OF s3(3)] by auto
  have q2: "permutes ptr tp xs1 xs2" and q3: "permutes ptr tp xs2 xs3" and q1: "permutes ptr tp xs0 xs1"
    using b permutes_mono [OF s2(3)] permutes_mono [OF s3(3)] permutes_mono [OF p1] by auto
  show "permutes ptr (ptr + nmemb) xs ys"
    using permutes_trans [OF permutes_trans [OF permutes_trans [OF p0 q1] q2] q3] by (simp add: res tp_def)
  have less: "cmp v (xs3 ! k) > 0" if k: "k \<in> {ptr..<ptr + lt}" for k
  proof -
    have "k < pi" using k b by (auto simp: res)
    obtain j where "j \<in> {plt..<pi}" "xs2 ! k = xs1 ! j" using bspec [OF s2(1) k [unfolded res(2)]] by blast
    then show ?thesis using c(2) lo3 [OF \<open>k < pi\<close>] by (simp add: v_def)
  qed
  have eq1: "xs3 ! k = v \<or> cmp v (xs3 ! k) = 0" if k: "k \<in> {ptr + lt..<pi}" for k
  proof -
    have "k < pi" using k by auto
    obtain j where "j \<in> {ptr..<plt}" "xs2 ! k = xs1 ! j" using bspec [OF s2(2) k [unfolded res(2)]] by blast
    then show ?thesis using c0 lo3 [OF \<open>k < pi\<close>] by simp
  qed
  have eq2: "xs3 ! k = v \<or> cmp v (xs3 ! k) = 0" if k: "k \<in> {pi..<ptr + gt}" for k
  proof -
    have "k \<in> {pi..<pi + (tp - pgt)}" using k b assms(2) by (auto simp: res tp_def)
    then obtain j where "j \<in> {pgt..<tp}" "xs3 ! k = xs2 ! j" by (rule bspec [OF s3(1), THEN bexE])
    then show ?thesis using c(4) hi2 [of j] b by (simp add: v_def)
  qed
  have greater: "cmp v (xs3 ! k) < 0" if k: "k \<in> {ptr + gt..<tp}" for k
  proof -
    have "k \<in> {pi + (tp - pgt)..<tp}" using k b assms(2) by (auto simp: res tp_def)
    then obtain j where "j \<in> {pi..<pgt}" "xs3 ! k = xs2 ! j" by (rule bspec [OF s3(2), THEN bexE])
    then show ?thesis using c(3) hi2 [of j] by (simp add: v_def)
  qed
  have "partitioned cmp v ys ptr (ptr + lt) (ptr + gt) (ptr + nmemb)"
    unfolding partitioned_def res(1)
  proof (intro conjI ballI)
    fix k assume "k \<in> {ptr + lt..<ptr + gt}"
    then show "xs3 ! k = v \<or> cmp v (xs3 ! k) = 0"
      using eq1 [of k] eq2 [of k] by (cases "k < pi") auto
  qed (use less greater in \<open>simp_all add: tp_def\<close>)
  then show "\<exists>v. partitioned cmp v ys ptr (ptr + lt) (ptr + gt) (ptr + nmemb)" ..
qed

section \<open>The sorts permute\<close>

lemma insert_down_permutes:
  "lo \<le> ptr \<Longrightarrow> pj < hi \<Longrightarrow> hi \<le> length xs \<Longrightarrow> permutes lo hi xs (insert_down cmp xs ptr pj)"
proof (induction cmp xs ptr pj rule: insert_down.induct)
  case (2 cmp xs ptr pj)
  show ?case
  proof (cases "Suc pj > ptr \<and> cmp (xs ! pj) (xs ! Suc pj) > 0")
    case True
    with 2 have "permutes lo hi xs (exchange xs (Suc pj) pj)"
      by (intro permutes_exchange) auto
    also from True 2 have "permutes lo hi (exchange xs (Suc pj) pj) (insert_down cmp (exchange xs (Suc pj) pj) ptr pj)"
      by (intro "2.IH") auto
    finally show ?thesis using True by simp
  qed auto
qed simp

lemma insertion_loop_permutes:
  "lo \<le> ptr \<Longrightarrow> hi \<le> length xs \<Longrightarrow> permutes lo hi xs (insertion_loop cmp xs ptr pi hi)"
proof (induction cmp xs ptr pi hi rule: insertion_loop.induct)
  case (1 cmp xs ptr pi hi)
  show ?case
  proof (cases "pi < hi")
    case True
    with 1 have p: "permutes lo hi xs (insert_down cmp xs ptr pi)"
      by (intro insert_down_permutes) auto
    from True 1 permutes_length [OF p] show ?thesis
      by (subst insertion_loop.simps) (auto intro: permutes_trans [OF p])
  qed (simp add: insertion_loop.simps)
qed

lemma sift_down_permutes:
  "lo \<le> base \<Longrightarrow> base + n \<le> hi \<Longrightarrow> hi \<le> length xs \<Longrightarrow> r < n \<Longrightarrow>
    permutes lo hi xs (sift_down cmp xs base r n)"
proof (induction cmp xs base r n rule: sift_down.induct)
  case (1 cmp xs base r n)
  define c where "c = (if r * 2 + 1 < n - 1 \<and> cmp (xs ! (base + (r * 2 + 1))) (xs ! (base + (r * 2 + 1) + 1)) \<le> 0
    then r * 2 + 1 + 1 else r * 2 + 1)"
  note simp = sift_down.simps [of cmp xs base r n, unfolded Let_def, folded c_def]
  show ?case
  proof (cases "r * 2 + 1 < n \<and> \<not> cmp (xs ! (base + r)) (xs ! (base + c)) > 0")
    case True
    then have "c < n" by (auto simp: c_def)
    with 1(2-) have p: "permutes lo hi xs (exchange xs (base + r) (base + c))"
      by (intro permutes_exchange) auto
    with True \<open>c < n\<close> 1(2-) have
      "permutes lo hi (exchange xs (base + r) (base + c)) (sift_down cmp (exchange xs (base + r) (base + c)) base c n)"
      by (intro 1(1) [OF refl _ c_def]) auto
    then show ?thesis using True permutes_trans [OF p] by (simp add: simp)
  qed (auto simp: simp)
qed

lemma heap_build_permutes:
  "i \<le> n \<Longrightarrow> base + n \<le> length xs \<Longrightarrow> permutes base (base + n) xs (heap_build cmp xs base i n)"
proof (induction i arbitrary: xs)
  case (Suc i)
  then have p: "permutes base (base + n) xs (sift_down cmp xs base i n)"
    by (intro sift_down_permutes) auto
  then show ?case
    using Suc permutes_trans [OF p] permutes_length [OF p] by simp
qed simp

lemma heap_extract_permutes:
  "i < n \<Longrightarrow> base + n \<le> length xs \<Longrightarrow> permutes base (base + n) xs (heap_extract cmp xs base i)"
proof (induction i arbitrary: xs)
  case (Suc i)
  then have "permutes base (base + n) xs (exchange xs base (base + Suc i))"
    by (intro permutes_exchange) auto
  also have "permutes base (base + n) \<dots> (sift_down cmp (exchange xs base (base + Suc i)) base 0 (Suc i))"
    using Suc by (intro sift_down_permutes) auto
  finally have p: "permutes base (base + n) xs \<dots>" .
  then show ?case
    using Suc permutes_trans [OF p] permutes_length [OF p] by simp
qed simp

lemma heapsortx_permutes:
  assumes "base + n \<le> length xs"
  shows "permutes base (base + n) xs (heapsortx cmp xs base n)"
proof (cases "n > 1")
  case True
  have p: "permutes base (base + n) xs (heap_build cmp xs base (n div 2) n)"
    using assms by (intro heap_build_permutes) auto
  then have "permutes base (base + n) (heap_build cmp xs base (n div 2) n)
      (heap_extract cmp (heap_build cmp xs base (n div 2) n) base (n - 1))"
    using assms True permutes_length [OF p] by (intro heap_extract_permutes) auto
  with p True show ?thesis
    by (auto simp: heapsortx_def intro: permutes_trans)
qed (simp add: heapsortx_def)

section \<open>The stack of rqsort\<close>

text \<open>The entries on the stack have strictly decreasing depths from the top, between 1 and the
depth of the segment in work: so there are never more than 50.\<close>

definition rq_depths :: "sort_entry list \<Rightarrow> nat \<Rightarrow> bool" where
  "rq_depths stack d \<longleftrightarrow> sorted_wrt (>) (map se_depth stack) \<and> (\<forall>e\<in>set stack. 1 \<le> se_depth e \<and> se_depth e \<le> d)"

lemma distinct_decreasing: "sorted_wrt (>) (ns :: nat list) \<Longrightarrow> distinct ns"
  by (induction ns) auto

lemma rq_depths_length:
  assumes "rq_depths stack d"
  shows "length stack \<le> d"
proof -
  have "distinct (map se_depth stack)"
    using assms distinct_decreasing by (auto simp: rq_depths_def)
  then have "length stack = card (se_depth ` set stack)"
    by (metis distinct_card length_map list.set_map)
  also have "\<dots> \<le> card {1..d}"
    using assms by (intro card_mono) (auto simp: rq_depths_def)
  finally show ?thesis by simp
qed

lemma rq_depths_push:
  "rq_depths stack d \<Longrightarrow> se_depth e = d + 1 \<Longrightarrow> rq_depths (e # stack) (d + 1)"
  by (fastforce simp: rq_depths_def)

lemma rq_push_Some:
  "rq_depths stack d \<Longrightarrow> d < 50 \<Longrightarrow> rq_push e stack = Some (e # stack)"
  using rq_depths_length [of stack d] by (simp add: rq_push_def)

definition entry_within :: "nat \<Rightarrow> sort_entry \<Rightarrow> bool" where
  "entry_within n e \<longleftrightarrow> se_base e + se_count e \<le> n"

lemma rqsort_segment_spec:
  assumes "ptr + nmemb \<le> length xs" "rq_depths stack depth" "depth \<le> 50"
    and "\<forall>e\<in>set stack. entry_within (length xs) e"
  shows "\<exists>ys stack'. rqsort_segment cmp xs ptr nmemb depth stack = Some (ys, stack')
    \<and> permutes ptr (ptr + nmemb) xs ys \<and> rq_depths stack' 50
    \<and> (\<forall>e\<in>set stack'. entry_within (length xs) e)"
  using assms
proof (induction cmp xs ptr nmemb depth stack rule: rqsort_segment.induct)
  case (1 cmp xs ptr nmemb depth stack)
  note simp = rqsort_segment.simps [of cmp xs ptr nmemb depth stack]
  have d50: "rq_depths stack 50"
    using 1(4,5) by (auto simp: rq_depths_def)
  show ?case
  proof (cases "nmemb > 6 \<and> \<not> depth + 1 > 50")
    case False
    with 1(3-) d50 show ?thesis
      by (auto simp: simp intro: heapsortx_permutes insertion_loop_permutes)
  next
    case True
    obtain ys lt gt where p: "partition3 cmp xs ptr nmemb = (ys, lt, gt)"
      by (metis prod_cases3)
    note bounds = partition3_bounds [OF p]
    have perm: "permutes ptr (ptr + nmemb) xs ys"
      using partition3_spec [OF p] True 1(3) by auto
    note len = permutes_length [OF perm]
    have push: "rq_push e stack = Some (e # stack)" for e
      using True 1(4) by (intro rq_push_Some) auto
    have sub_hi: "permutes ptr (ptr + nmemb) xs zs" if "permutes (ptr + gt) (ptr + nmemb) ys zs" for zs
      using perm permutes_mono [OF that] by (auto intro: permutes_trans)
    have sub_lo: "permutes ptr (ptr + nmemb) xs zs" if "permutes ptr (ptr + lt) ys zs" for zs
      using perm permutes_mono [OF that] bounds True by (auto intro: permutes_trans)
    show ?thesis
    proof (cases "lt > nmemb - gt")
      case True': True
      let ?e = "\<lparr>se_base = ptr, se_count = lt, se_depth = depth + 1\<rparr>"
      have "\<exists>zs stack'. rqsort_segment cmp ys (ptr + gt) (nmemb - gt) (depth + 1) (?e # stack) = Some (zs, stack')
        \<and> permutes (ptr + gt) (ptr + gt + (nmemb - gt)) ys zs \<and> rq_depths stack' 50
        \<and> (\<forall>e\<in>set stack'. entry_within (length ys) e)"
        using True True' 1(3-) bounds len rq_depths_push [OF 1(4)] push
        by (intro 1(1) [OF _ _ p [symmetric] refl]) (auto simp: entry_within_def)
      then show ?thesis
        using True True' bounds len by (auto simp: simp p push intro: sub_hi)
    next
      case False
      let ?e = "\<lparr>se_base = ptr + gt, se_count = nmemb - gt, se_depth = depth + 1\<rparr>"
      have "\<exists>zs stack'. rqsort_segment cmp ys ptr lt (depth + 1) (?e # stack) = Some (zs, stack')
        \<and> permutes ptr (ptr + lt) ys zs \<and> rq_depths stack' 50
        \<and> (\<forall>e\<in>set stack'. entry_within (length ys) e)"
        using True False 1(3-) bounds len rq_depths_push [OF 1(4)] push
        by (intro 1(2) [OF _ _ p [symmetric] refl]) (auto simp: entry_within_def)
      then show ?thesis
        using True False bounds len by (auto simp: simp p push intro: sub_lo)
    qed
  qed
qed

lemma rqsort_loop_spec:
  assumes "rq_depths (tl stack) (se_depth (hd stack))" "stack \<noteq> [] \<Longrightarrow> se_depth (hd stack) \<le> 50"
    and "\<forall>e\<in>set stack. entry_within (length xs) e"
  shows "\<exists>ys. rqsort_loop cmp xs stack = Some ys \<and> mset ys = mset xs"
  using assms
proof (induction cmp xs stack rule: rqsort_loop.induct)
  case (2 cmp xs e stack)
  obtain ys stack' where s: "rqsort_segment cmp xs (se_base e) (se_count e) (se_depth e) stack = Some (ys, stack')"
    "permutes (se_base e) (se_base e + se_count e) xs ys" "rq_depths stack' 50"
    "\<forall>e\<in>set stack'. entry_within (length xs) e"
    using rqsort_segment_spec [of "se_base e" "se_count e" xs stack "se_depth e" cmp] 2(2-)
    by (auto simp: entry_within_def)
  have "rq_depths (tl stack') (se_depth (hd stack'))"
    using s(3) by (cases stack') (auto simp: rq_depths_def less_imp_le)
  then have "\<exists>zs. rqsort_loop cmp ys stack' = Some zs \<and> mset zs = mset ys"
    using s(3,4) permutes_length [OF s(2)]
    by (intro "2.IH" [OF s(1) refl]) (auto simp: rq_depths_def)
  with s(1,2) show ?case
    by (auto simp: permutes_def)
qed simp

section \<open>Sorting with a comparator\<close>

definition sorted_on :: "('a \<Rightarrow> 'a \<Rightarrow> int) \<Rightarrow> nat \<Rightarrow> nat \<Rightarrow> 'a list \<Rightarrow> bool" where
  "sorted_on cmp lo hi xs \<longleftrightarrow> (\<forall>i j. lo \<le> i \<longrightarrow> i < j \<longrightarrow> j < hi \<longrightarrow> cmp (xs ! i) (xs ! j) \<le> 0)"

text \<open>The heap: no child is greater than its parent, for parents from \<open>lo\<close> on; and the
heap with a hole at \<open>r\<close>, whose element may be too small for its place.\<close>

definition child :: "nat \<Rightarrow> nat \<Rightarrow> bool" where
  "child p k \<longleftrightarrow> k = 2 * p + 1 \<or> k = 2 * p + 2"

definition heap :: "('a \<Rightarrow> 'a \<Rightarrow> int) \<Rightarrow> 'a list \<Rightarrow> nat \<Rightarrow> nat \<Rightarrow> nat \<Rightarrow> bool" where
  "heap cmp xs base lo n \<longleftrightarrow> (\<forall>p k. lo \<le> p \<longrightarrow> child p k \<longrightarrow> k < n \<longrightarrow> cmp (xs ! (base + k)) (xs ! (base + p)) \<le> 0)"

definition heap_hole :: "('a \<Rightarrow> 'a \<Rightarrow> int) \<Rightarrow> 'a list \<Rightarrow> nat \<Rightarrow> nat \<Rightarrow> nat \<Rightarrow> nat \<Rightarrow> bool" where
  "heap_hole cmp xs base lo n r \<longleftrightarrow>
    (\<forall>p k. lo \<le> p \<longrightarrow> child p k \<longrightarrow> k < n \<longrightarrow> p \<noteq> r \<longrightarrow> cmp (xs ! (base + k)) (xs ! (base + p)) \<le> 0)
    \<and> (\<forall>p k. lo \<le> p \<longrightarrow> child p r \<longrightarrow> child r k \<longrightarrow> k < n \<longrightarrow> cmp (xs ! (base + k)) (xs ! (base + p)) \<le> 0)"

text \<open>A segment is done when it is sorted; \<open>rq_inv\<close> is what holds between two steps of
\<^verbatim>\<open>rqsort\<close>: the pending segments are disjoint, and elements that are not in one
pending segment together are in order.\<close>

definition apart :: "nat \<times> nat \<Rightarrow> nat \<times> nat \<Rightarrow> bool" where
  "apart s t \<longleftrightarrow> snd s \<le> fst t \<or> snd t \<le> fst s"

definition rq_inv :: "('a \<Rightarrow> 'a \<Rightarrow> int) \<Rightarrow> 'a list \<Rightarrow> (nat \<times> nat) list \<Rightarrow> bool" where
  "rq_inv cmp xs segs \<longleftrightarrow>
    sorted_wrt apart segs \<and> (\<forall>s\<in>set segs. snd s \<le> length xs) \<and>
    (\<forall>i j. i < j \<longrightarrow> j < length xs \<longrightarrow>
      (\<exists>s\<in>set segs. fst s \<le> i \<and> j < snd s) \<or> cmp (xs ! i) (xs ! j) \<le> 0)"

definition segments :: "sort_entry list \<Rightarrow> (nat \<times> nat) list" where
  "segments stack = map (\<lambda>e. (se_base e, se_base e + se_count e)) stack"

lemma apart_sym: "apart s t \<longleftrightarrow> apart t s"
  by (auto simp: apart_def)

lemma rq_inv_swap: "rq_inv cmp xs (s # t # segs) \<Longrightarrow> rq_inv cmp xs (t # s # segs)"
  by (auto simp: rq_inv_def apart_sym)

lemma rq_inv_permutes:
  assumes inv: "rq_inv cmp xs ((lo, hi) # segs)" and perm: "permutes lo hi xs ys"
  shows "rq_inv cmp ys ((lo, hi) # segs)"
proof -
  note len = permutes_length [OF perm]
  have hi: "hi \<le> length xs" and ap: "\<And>s. s \<in> set segs \<Longrightarrow> snd s \<le> lo \<or> hi \<le> fst s"
    using inv by (auto simp: rq_inv_def apart_def)
  have pair: "(\<exists>s\<in>set ((lo, hi) # segs). fst s \<le> i \<and> j < snd s) \<or> cmp (xs ! i) (xs ! j) \<le> 0"
    if "i < j" "j < length xs" for i j
    using inv that unfolding rq_inv_def by blast
  have "(\<exists>s\<in>set ((lo, hi) # segs). fst s \<le> i \<and> j < snd s) \<or> cmp (ys ! i) (ys ! j) \<le> 0"
    if ij: "i < j" "j < length xs" for i j
  proof -
    consider (both) "lo \<le> i" "j < hi" | (left) "lo \<le> i" "i < hi" "hi \<le> j"
      | (right) "i < lo" "lo \<le> j" "j < hi" | (none) "i < lo \<or> hi \<le> i" "j < lo \<or> hi \<le> j"
      by linarith
    then show ?thesis
    proof cases
      case left
      have no: "\<not> (fst s \<le> k \<and> j < snd s)" if "s \<in> set segs" "lo \<le> k" "k < hi" for s k
        using ap [OF that(1)] that(2,3) left by auto
      have "cmp (xs ! k) (xs ! j) \<le> 0" if "lo \<le> k" "k < hi" for k
        using pair [of k j] that left ij no by auto
      then have "cmp (ys ! i) (xs ! j) \<le> 0"
        using permutes_all [OF perm hi, of "\<lambda>x. cmp x (xs ! j) \<le> 0"] left by auto
      then show ?thesis using permutes_nth [OF perm, of j] left by simp
    next
      case right
      have no: "\<not> (fst s \<le> i \<and> k < snd s)" if "s \<in> set segs" "lo \<le> k" "k < hi" for s k
        using ap [OF that(1)] that(2,3) right by auto
      have "cmp (xs ! i) (xs ! k) \<le> 0" if "lo \<le> k" "k < hi" for k
        using pair [of i k] that right hi no by auto
      then have "cmp (xs ! i) (ys ! j) \<le> 0"
        using permutes_all [OF perm hi, of "\<lambda>x. cmp (xs ! i) x \<le> 0"] right by auto
      then show ?thesis using permutes_nth [OF perm, of i] right by simp
    next
      case none
      then show ?thesis using pair [OF ij] permutes_nth [OF perm] by auto
    qed auto
  qed
  then show ?thesis using inv len by (auto simp: rq_inv_def)
qed

lemma rq_inv_done:
  assumes "rq_inv cmp xs ((lo, hi) # segs)" "sorted_on cmp lo hi xs"
  shows "rq_inv cmp xs segs"
  unfolding rq_inv_def
proof (intro conjI allI impI)
  fix i j assume ij: "i < j" "j < length xs"
  have "(\<exists>s\<in>set ((lo, hi) # segs). fst s \<le> i \<and> j < snd s) \<or> cmp (xs ! i) (xs ! j) \<le> 0"
    using assms(1) ij unfolding rq_inv_def by blast
  then show "(\<exists>s\<in>set segs. fst s \<le> i \<and> j < snd s) \<or> cmp (xs ! i) (xs ! j) \<le> 0"
    using assms(2) ij by (auto simp: sorted_on_def)
qed (use assms(1) in \<open>auto simp: rq_inv_def\<close>)

text \<open>The contract of the comparison functions of the program: the sign says the order, and the
order is total and transitive.\<close>

locale comparator =
  fixes cmp :: "'a \<Rightarrow> 'a \<Rightarrow> int"
  assumes cmp_sym: "cmp x y > 0 \<longleftrightarrow> cmp y x < 0"
    and cmp_trans: "cmp x y \<le> 0 \<Longrightarrow> cmp y z \<le> 0 \<Longrightarrow> cmp x z \<le> 0"
begin

lemma cmp_self: "cmp x x = 0"
  using cmp_sym [of x x] by linarith

lemma cmp_le_sym: "cmp x y \<ge> 0 \<longleftrightarrow> cmp y x \<le> 0"
  using cmp_sym [of x y] cmp_sym [of y x] by linarith

lemma insert_down_sorted:
  assumes "\<forall>i j. ptr \<le> i \<longrightarrow> i < j \<longrightarrow> j < hi \<longrightarrow> j \<noteq> pj \<longrightarrow> cmp (xs ! i) (xs ! j) \<le> 0"
    and "ptr \<le> pj" "pj < hi" "hi \<le> length xs"
  shows "sorted_on cmp ptr hi (insert_down cmp xs ptr pj)"
  using assms
proof (induction pj arbitrary: xs)
  case (Suc pj)
  show ?case
  proof (cases "Suc pj > ptr \<and> cmp (xs ! pj) (xs ! Suc pj) > 0")
    case True
    let ?zs = "exchange xs (Suc pj) pj"
    have z: "?zs ! k = (if k = Suc pj then xs ! pj else if k = pj then xs ! Suc pj else xs ! k)" for k
      using Suc(4,5) by (intro nth_exchange) auto
    have gt: "cmp (xs ! Suc pj) (xs ! pj) \<le> 0"
      using True cmp_sym by fastforce
    have "sorted_on cmp ptr hi (insert_down cmp ?zs ptr pj)"
    proof (rule Suc.IH)
      show "\<forall>i j. ptr \<le> i \<longrightarrow> i < j \<longrightarrow> j < hi \<longrightarrow> j \<noteq> pj \<longrightarrow> cmp (?zs ! i) (?zs ! j) \<le> 0"
        using Suc(2) gt True by (auto simp: z)
    qed (use True Suc in auto)
    with True show ?thesis by simp
  next
    case False
    have "cmp (xs ! i) (xs ! j) \<le> 0" if ij: "ptr \<le> i" "i < j" "j < hi" for i j
    proof (cases "j = Suc pj")
      case True
      then have le: "cmp (xs ! pj) (xs ! j) \<le> 0" using False ij by auto
      show ?thesis
      proof (cases "i = pj")
        case False
        with True ij Suc(2) have "cmp (xs ! i) (xs ! pj) \<le> 0" by auto
        then show ?thesis using le by (rule cmp_trans)
      qed (use le in simp)
    qed (use ij Suc(2) in auto)
    then show ?thesis
      using False by (auto simp: sorted_on_def)
  qed
qed (auto simp: sorted_on_def)

lemma insertion_loop_sorted:
  "sorted_on cmp ptr pi xs \<Longrightarrow> ptr < pi \<Longrightarrow> hi \<le> length xs \<Longrightarrow> sorted_on cmp ptr hi (insertion_loop cmp xs ptr pi hi)"
proof (induction "hi - pi" arbitrary: xs pi)
  case 0
  then show ?case by (auto simp: insertion_loop.simps [of cmp xs] sorted_on_def)
next
  case (Suc d)
  then have "pi < hi" by simp
  have p: "permutes ptr (pi + 1) xs (insert_down cmp xs ptr pi)"
    using Suc \<open>pi < hi\<close> by (intro insert_down_permutes) auto
  have "sorted_on cmp ptr (pi + 1) (insert_down cmp xs ptr pi)"
    using Suc \<open>pi < hi\<close> by (intro insert_down_sorted) (auto simp: sorted_on_def less_Suc_eq)
  then have "sorted_on cmp ptr hi (insertion_loop cmp (insert_down cmp xs ptr pi) ptr (pi + 1) hi)"
    using Suc permutes_length [OF p] by (intro Suc(1)) auto
  with \<open>pi < hi\<close> show ?case
    by (subst insertion_loop.simps) simp
qed

lemma child_facts: "child p k \<Longrightarrow> p < k" "child p k \<Longrightarrow> child q k \<Longrightarrow> p = q"
  by (auto simp: child_def)

lemma heap_hole_step:
  assumes hole: "heap_hole cmp xs base lo n r" and "child r c" "c < n" "lo \<le> r" "base + n \<le> length xs"
    and max: "\<And>k. child r k \<Longrightarrow> k < n \<Longrightarrow> cmp (xs ! (base + k)) (xs ! (base + c)) \<le> 0"
    and small: "cmp (xs ! (base + r)) (xs ! (base + c)) \<le> 0"
  shows "heap_hole cmp (exchange xs (base + r) (base + c)) base lo n c"
proof -
  let ?zs = "exchange xs (base + r) (base + c)"
  have rc: "r < c" using assms(2) by (rule child_facts)
  have z: "?zs ! (base + k) = (if k = r then xs ! (base + c) else if k = c then xs ! (base + r) else xs ! (base + k))" for k
    using assms(3,5) rc by (subst nth_exchange) auto
  have up: "cmp (xs ! (base + c)) (xs ! (base + p)) \<le> 0" if "lo \<le> p" "child p r" for p
    using hole that assms(2,3) by (auto simp: heap_hole_def)
  have other: "cmp (xs ! (base + k)) (xs ! (base + p)) \<le> 0" if "lo \<le> p" "child p k" "k < n" "p \<noteq> r" for p k
    using hole that by (auto simp: heap_hole_def)
  have "cmp (?zs ! (base + k)) (?zs ! (base + p)) \<le> 0" if "lo \<le> p" "child p k" "k < n" "p \<noteq> c" for p k
  proof (cases "p = r")
    case True
    then have "k \<noteq> r" using that child_facts(1) by blast
    then show ?thesis using True max [of k] that small by (simp add: z)
  next
    case False
    then have "k \<noteq> c" using that assms(2) child_facts(2) by blast
    then show ?thesis using False up [of p] other [of p k] that by (auto simp: z)
  qed
  moreover have "cmp (?zs ! (base + k)) (?zs ! (base + p)) \<le> 0" if "child p c" "child c k" "k < n" for p k
  proof -
    have "p = r" using that(1) assms(2) by (rule child_facts)
    moreover have "k \<noteq> r" "k \<noteq> c" using that(2) rc child_facts(1) [of c k] by auto
    ultimately show ?thesis using other [of c k] that assms(4) rc by (simp add: z)
  qed
  ultimately show ?thesis by (auto simp: heap_hole_def)
qed

lemma sift_down_heap:
  "heap_hole cmp xs base lo n r \<Longrightarrow> lo \<le> r \<Longrightarrow> base + n \<le> length xs \<Longrightarrow>
    heap cmp (sift_down cmp xs base r n) base lo n"
proof (induction "n - r" arbitrary: xs r rule: less_induct)
  case less
  define c where "c = (if r * 2 + 1 < n - 1 \<and> cmp (xs ! (base + (r * 2 + 1))) (xs ! (base + (r * 2 + 1) + 1)) \<le> 0
    then r * 2 + 1 + 1 else r * 2 + 1)"
  note simp = sift_down.simps [of cmp xs base r n, unfolded Let_def, folded c_def]
  show ?case
  proof (cases "r * 2 + 1 < n")
    case True
    then have c: "child r c" "c < n" by (auto simp: c_def child_def)
    have max: "cmp (xs ! (base + k)) (xs ! (base + c)) \<le> 0" if "child r k" "k < n" for k
    proof (cases "k = c")
      case False
      with that show ?thesis
        using cmp_le_sym [of "xs ! (base + (r * 2 + 1))" "xs ! (base + (r * 2 + 1) + 1)"]
        by (auto simp: c_def child_def mult.commute split: if_splits)
    qed (simp add: cmp_self)
    show ?thesis
    proof (cases "cmp (xs ! (base + r)) (xs ! (base + c)) > 0")
      case True': True
      then have "cmp (xs ! (base + c)) (xs ! (base + r)) \<le> 0" using cmp_sym by fastforce
      then have "cmp (xs ! (base + k)) (xs ! (base + r)) \<le> 0" if "child r k" "k < n" for k
        using max [OF that] cmp_trans by blast
      then show ?thesis
        using less(2) True True' by (auto simp: simp heap_def heap_hole_def)
    next
      case False
      then have hole: "heap_hole cmp (exchange xs (base + r) (base + c)) base lo n c"
        using less c max by (intro heap_hole_step) auto
      have "heap cmp (sift_down cmp (exchange xs (base + r) (base + c)) base c n) base lo n"
        using less(3,4) c child_facts(1) [OF c(1)] by (intro less(1) [OF _ hole]) auto
      then show ?thesis using True False by (simp add: simp)
    qed
  next
    case False
    then show ?thesis using less(2) by (auto simp: simp heap_def heap_hole_def child_def)
  qed
qed

lemma heap_build_heap:
  "heap cmp xs base i n \<Longrightarrow> i \<le> n \<Longrightarrow> base + n \<le> length xs \<Longrightarrow> heap cmp (heap_build cmp xs base i n) base 0 n"
proof (induction i arbitrary: xs)
  case (Suc i)
  have "heap_hole cmp xs base i n i"
    using Suc(2) child_facts(1) by (fastforce simp: heap_hole_def heap_def)
  then have "heap cmp (sift_down cmp xs base i n) base i n"
    using Suc(4) by (intro sift_down_heap) auto
  moreover have p: "permutes base (base + n) xs (sift_down cmp xs base i n)"
    using Suc(3,4) by (intro sift_down_permutes) auto
  ultimately show ?case
    using Suc permutes_length [OF p] by (auto intro!: Suc.IH)
qed simp

lemma heap_root: "heap cmp xs base 0 n \<Longrightarrow> k < n \<Longrightarrow> cmp (xs ! (base + k)) (xs ! base) \<le> 0"
proof (induction k rule: less_induct)
  case (less k)
  show ?case
  proof (cases "k = 0")
    case False
    then have p: "child ((k - 1) div 2) k" by (auto simp: child_def)
    then have "cmp (xs ! (base + (k - 1) div 2)) (xs ! base) \<le> 0"
      using less child_facts(1) [OF p] by auto
    moreover have "cmp (xs ! (base + k)) (xs ! (base + (k - 1) div 2)) \<le> 0"
      using less p by (auto simp: heap_def)
    ultimately show ?thesis by (rule cmp_trans [rotated])
  qed (simp add: cmp_self)
qed

lemma heap_extract_sorted:
  assumes "heap cmp xs base 0 (Suc i)" "i < n" "base + n \<le> length xs"
    and "\<forall>k j. k \<le> i \<longrightarrow> i < j \<longrightarrow> j < n \<longrightarrow> cmp (xs ! (base + k)) (xs ! (base + j)) \<le> 0"
    and "sorted_on cmp (base + Suc i) (base + n) xs"
  shows "sorted_on cmp base (base + n) (heap_extract cmp xs base i)"
  using assms
proof (induction i arbitrary: xs)
  case 0
  have "cmp (xs ! i) (xs ! j) \<le> 0" if ij: "base \<le> i" "i < j" "j < base + n" for i j
  proof (cases "i = base")
    case True
    then show ?thesis using 0(4) [rule_format, of 0 "j - base"] ij by simp
  qed (use 0(5) ij in \<open>auto simp: sorted_on_def\<close>)
  then show ?case by (simp add: sorted_on_def)
next
  case (Suc i)
  let ?zs = "exchange xs base (Suc (base + i))"
  let ?ys = "sift_down cmp ?zs base 0 (Suc i)"
  have z: "?zs ! k = (if k = base then xs ! Suc (base + i) else if k = Suc (base + i) then xs ! base else xs ! k)" for k
    using Suc(3,4) by (intro nth_exchange) auto
  have "cmp (?zs ! (base + k)) (?zs ! (base + p)) \<le> 0" if "child p k" "k < Suc i" "p \<noteq> 0" for p k
    using Suc(2) that child_facts(1) [OF that(1)] by (simp add: heap_def z)
  moreover have "\<not> child p 0" for p
    by (simp add: child_def)
  ultimately have hole: "heap_hole cmp ?zs base 0 (Suc i) 0"
    by (simp add: heap_hole_def)
  have heap: "heap cmp ?ys base 0 (Suc i)"
    using Suc(3,4) by (intro sift_down_heap hole) auto
  have p: "permutes base (base + Suc i) ?zs ?ys"
    using Suc(3,4) by (intro sift_down_permutes) auto
  have hi: "?ys ! k = ?zs ! k" if "base + Suc i \<le> k" for k
    using permutes_nth [OF p, of k] that by auto
  have root: "cmp (?zs ! (base + k)) (xs ! base) \<le> 0" if "k \<le> i" for k
    using heap_root [OF Suc(2), of k] heap_root [OF Suc(2), of "Suc i"] that by (auto simp: z)
  have later: "cmp (?zs ! (base + k)) (xs ! (base + j)) \<le> 0" if "k \<le> i" "Suc i < j" "j < n" for k j
    using Suc(5) that by (auto simp: z)
  have below: "cmp (?ys ! (base + k)) (?ys ! (base + j)) \<le> 0" if k: "k \<le> i" and j: "i < j" "j < n" for k j
  proof (rule permutes_all [OF p, of "\<lambda>x. cmp x (?ys ! (base + j)) \<le> 0"])
    fix m assume m: "base \<le> m" "m < base + Suc i"
    then show "cmp (?zs ! m) (?ys ! (base + j)) \<le> 0"
      using root [of "m - base"] later [of "m - base" j] j by (cases "j = Suc i") (auto simp: hi z)
  qed (use k Suc(3,4) in auto)
  have "cmp (?ys ! a) (?ys ! b) \<le> 0" if "base + Suc i \<le> a" "a < b" "b < base + n" for a b
  proof (cases "a = base + Suc i")
    case True
    then have "cmp (xs ! base) (xs ! b) \<le> 0"
      using Suc(5) [rule_format, of 0 "b - base"] that by simp
    then show ?thesis using True that by (simp add: hi z)
  next
    case False
    then show ?thesis using Suc(6) that by (auto simp: hi z sorted_on_def)
  qed
  then have "sorted_on cmp (base + Suc i) (base + n) ?ys"
    by (simp add: sorted_on_def)
  then have "sorted_on cmp base (base + n) (heap_extract cmp ?ys base i)"
    using heap below Suc(3,4) permutes_length [OF p] by (intro Suc.IH) auto
  then show ?case by simp
qed

lemma heapsortx_sorted:
  assumes "base + n \<le> length xs"
  shows "sorted_on cmp base (base + n) (heapsortx cmp xs base n)"
proof (cases "n > 1")
  case True
  let ?ys = "heap_build cmp xs base (n div 2) n"
  have p: "permutes base (base + n) xs ?ys"
    using assms by (intro heap_build_permutes) auto
  have "heap cmp xs base (n div 2) n"
    by (auto simp: heap_def child_def)
  then have "heap cmp ?ys base 0 n"
    using assms by (intro heap_build_heap) auto
  then have "sorted_on cmp base (base + n) (heap_extract cmp ?ys base (n - 1))"
    using assms True permutes_length [OF p] by (intro heap_extract_sorted) (auto simp: sorted_on_def)
  with True show ?thesis by (simp add: heapsortx_def)
qed (auto simp: heapsortx_def sorted_on_def)

lemma partitioned_pairs:
  assumes "partitioned cmp v ys a b c d" "a \<le> i" "i < j" "j < d"
  shows "(a \<le> i \<and> j < b) \<or> (c \<le> i \<and> j < d) \<or> cmp (ys ! i) (ys ! j) \<le> 0"
proof -
  have lo: "cmp (ys ! k) v \<le> 0" if "k < c" "a \<le> k" for k
  proof -
    have "ys ! k = v \<or> cmp v (ys ! k) \<ge> 0"
      using assms(1) that by (cases "k < b") (auto simp: partitioned_def less_imp_le)
    then show ?thesis using cmp_le_sym cmp_self by auto
  qed
  have hi: "cmp v (ys ! k) \<le> 0" if "b \<le> k" "k < d" for k
  proof -
    have "ys ! k = v \<or> cmp v (ys ! k) \<le> 0"
      using assms(1) that by (cases "k < c") (auto simp: partitioned_def less_imp_le)
    then show ?thesis using cmp_self by auto
  qed
  show ?thesis
    using lo [of i] hi [of j] cmp_trans [of "ys ! i" v "ys ! j"] assms(2-) by linarith
qed

lemma rq_inv_split:
  assumes inv: "rq_inv cmp ys ((a, d) # segs)" and part: "partitioned cmp v ys a b c d"
    and "a \<le> b" "b \<le> c" "c \<le> d"
  shows "rq_inv cmp ys ((a, b) # (c, d) # segs)"
proof -
  have "(\<exists>s\<in>set ((a, b) # (c, d) # segs). fst s \<le> i \<and> j < snd s) \<or> cmp (ys ! i) (ys ! j) \<le> 0"
    if ij: "i < j" "j < length ys" for i j
  proof (cases "a \<le> i \<and> j < d")
    case True
    then show ?thesis using partitioned_pairs [OF part, of i j] ij by auto
  next
    case False
    then show ?thesis using inv ij unfolding rq_inv_def by fastforce
  qed
  then show ?thesis
    using inv assms(3-) by (auto simp: rq_inv_def apart_def)
qed

lemma rqsort_segment_inv:
  assumes "rqsort_segment cmp xs ptr nmemb depth stack = Some (ys, stack')"
    and "rq_inv cmp xs ((ptr, ptr + nmemb) # segments stack)"
  shows "rq_inv cmp ys (segments stack')"
  using assms
proof (induction nmemb arbitrary: xs ptr depth stack rule: less_induct)
  case (less nmemb)
  note simp = rqsort_segment.simps [of cmp xs ptr nmemb depth stack]
  have len: "ptr + nmemb \<le> length xs"
    using less(3) by (simp add: rq_inv_def)
  show ?case
  proof (cases "nmemb > 6 \<and> \<not> depth + 1 > 50")
    case False
    have s: "sorted_on cmp ptr (ptr + nmemb) (insertion_loop cmp xs ptr (ptr + 1) (ptr + nmemb))"
      using len by (intro insertion_loop_sorted) (auto simp: sorted_on_def)
    have p: "permutes ptr (ptr + nmemb) xs (insertion_loop cmp xs ptr (ptr + 1) (ptr + nmemb))"
      using len by (intro insertion_loop_permutes) auto
    show ?thesis
      using False less(2) rq_inv_done [OF rq_inv_permutes [OF less(3) p] s]
        rq_inv_done [OF rq_inv_permutes [OF less(3) heapsortx_permutes [OF len]] heapsortx_sorted [OF len]]
      by (auto simp: simp split: if_splits)
  next
    case True
    obtain zs lt gt where p: "partition3 cmp xs ptr nmemb = (zs, lt, gt)"
      by (metis prod_cases3)
    note bounds = partition3_bounds [OF p]
    from partition3_spec [OF p] True len obtain v
      where perm: "permutes ptr (ptr + nmemb) xs zs"
        and part: "partitioned cmp v zs ptr (ptr + lt) (ptr + gt) (ptr + nmemb)" by auto
    have inv: "rq_inv cmp zs ((ptr, ptr + lt) # (ptr + gt, ptr + nmemb) # segments stack)"
      using rq_inv_permutes [OF less(3) perm] part bounds True by (intro rq_inv_split) auto
    show ?thesis
    proof (cases "lt > nmemb - gt")
      case True': True
      with True less(2) have
        "rqsort_segment cmp zs (ptr + gt) (nmemb - gt) (depth + 1) (\<lparr>se_base = ptr, se_count = lt, se_depth = depth + 1\<rparr> # stack)
          = Some (ys, stack')"
        by (auto simp: simp p rq_push_def split: if_splits)
      then show ?thesis
        using True bounds rq_inv_swap [OF inv] by (intro less(1)) (auto simp: segments_def)
    next
      case False
      with True less(2) have
        "rqsort_segment cmp zs ptr lt (depth + 1) (\<lparr>se_base = ptr + gt, se_count = nmemb - gt, se_depth = depth + 1\<rparr> # stack)
          = Some (ys, stack')"
        by (auto simp: simp p rq_push_def split: if_splits)
      then show ?thesis
        using True bounds inv by (intro less(1)) (auto simp: segments_def)
    qed
  qed
qed

lemma rqsort_loop_inv:
  "rqsort_loop cmp xs stack = Some ys \<Longrightarrow> rq_inv cmp xs (segments stack) \<Longrightarrow> rq_inv cmp ys []"
proof (induction "stack_weight stack" arbitrary: xs stack rule: less_induct)
  case less
  show ?case
  proof (cases stack)
    case (Cons e st)
    with less(2) obtain zs st' where
      s: "rqsort_segment cmp xs (se_base e) (se_count e) (se_depth e) st = Some (zs, st')" "rqsort_loop cmp zs st' = Some ys"
      by (auto split: option.splits)
    have "rq_inv cmp zs (segments st')"
      using less(3) Cons by (intro rqsort_segment_inv [OF s(1)]) (simp add: segments_def)
    with s(2) rqsort_segment_weight [OF s(1)] show ?thesis
      by (intro less(1)) (auto simp: Cons stack_weight_def)
  qed (use less in \<open>simp add: segments_def\<close>)
qed

end

section \<open>The theorems\<close>

lemma rqsort_mset: "\<exists>ys. rqsort cmp xs = Some ys \<and> mset ys = mset xs"
proof (cases "length xs < 2")
  case False
  have "\<exists>ys. rqsort_loop cmp xs [\<lparr>se_base = 0, se_count = length xs, se_depth = 0\<rparr>] = Some ys \<and> mset ys = mset xs"
    by (rule rqsort_loop_spec) (auto simp: rq_depths_def entry_within_def)
  with False show ?thesis by (simp add: rqsort_def)
qed (simp add: rqsort_def)

text \<open>C20 For every comparison function, even an inconsistent one, \<^verbatim>\<open>rqsort\<close>
ends, its 50 stack entries are enough and the result is a permutation of the input.\<close>

theorem rqsort_terminates: "\<exists>ys. rqsort cmp xs = Some ys \<and> mset ys = mset xs"
  by (rule rqsort_mset)

context comparator
begin

lemma rqsort_sorted:
  assumes "rqsort cmp xs = Some ys"
  shows "sorted_wrt (\<lambda>x y. cmp x y \<le> 0) ys"
proof (cases "length xs < 2")
  case True
  with assms show ?thesis
    by (cases xs) (auto simp: rqsort_def)
next
  case False
  have "rq_inv cmp ys []"
    by (rule rqsort_loop_inv [of xs "[\<lparr>se_base = 0, se_count = length xs, se_depth = 0\<rparr>]"])
       (use assms False in \<open>auto simp: rqsort_def rq_inv_def segments_def\<close>)
  then show ?thesis
    by (auto simp: rq_inv_def sorted_wrt_iff_nth_less)
qed

end

text \<open>C19 With a comparison function that orders its arguments (antisymmetric sign, transitive),
\<^verbatim>\<open>rqsort\<close> returns the elements of its input in that order, whichever of the
insertion sort, the partition and the heap sort did the work.\<close>

theorem rqsort_sorts:
  assumes "\<And>x y. cmp x y > 0 \<longleftrightarrow> cmp y x < 0" "\<And>x y z. cmp x y \<le> 0 \<Longrightarrow> cmp y z \<le> 0 \<Longrightarrow> cmp x z \<le> 0"
  shows "\<exists>ys. rqsort cmp xs = Some ys \<and> mset ys = mset xs \<and> sorted_wrt (\<lambda>x y. cmp x y \<le> 0) ys"
proof -
  have "comparator cmp"
    using assms by unfold_locales blast+
  then show ?thesis
    using rqsort_mset [of cmp xs] comparator.rqsort_sorted [of cmp xs] by blast
qed

theorem rqsort_sorts_witness:
  "\<exists>ys. rqsort (\<lambda>x y. x - y) [5, 2, 9, 1, 7, 3, 8, 2 :: int] = Some ys
    \<and> mset ys = mset [5, 2, 9, 1, 7, 3, 8, 2] \<and> sorted_wrt (\<lambda>x y. x - y \<le> 0) ys"
  by (rule rqsort_sorts) auto

end
