(* ===== verification/Sort_Exchange.thy ===== *)
theory Sort_Exchange
  imports Sort_Correct "HOL-Library.Word"
begin

text \<open>The functions of \<^verbatim>\<open>src/quickjs/cutils.c\<close> that exchange two elements
of the array to be sorted, on its bytes. Each of them copies units of 1, 2, 4, 8 or 16 bytes;
\<^verbatim>\<open>exchange_func\<close> chooses one from the alignment of the array and the size of
an element. The array starts at offset 0 of the memory here, and \<^verbatim>\<open>base\<close> is
its address. The theory shows that the choice is right for single elements and for the blocks of
elements of the partition: the bytes read as elements are exchanged.\<close>

section \<open>Definitions\<close>

type_synonym memory = "8 word list"

definition mem_get :: "nat \<Rightarrow> memory \<Rightarrow> nat \<Rightarrow> memory" where
  "mem_get w mem p = take w (drop p mem)"

definition mem_put :: "memory \<Rightarrow> nat \<Rightarrow> memory \<Rightarrow> memory" where
  "mem_put mem p bs = take p mem @ bs @ drop (p + length bs) mem"

text \<open>\<^verbatim>\<open>t = *ap; *ap = *bp; *bp = t\<close> on units of \<open>w\<close> bytes, and a loop
of it that steps both pointers.\<close>

definition exchange_unit :: "nat \<Rightarrow> memory \<Rightarrow> nat \<Rightarrow> nat \<Rightarrow> memory" where
  "exchange_unit w mem ap bp =
    (let t = mem_get w mem ap;
         mem = mem_put mem ap (mem_get w mem bp)
     in mem_put mem bp t)"

fun exchange_units :: "nat \<Rightarrow> memory \<Rightarrow> nat \<Rightarrow> nat \<Rightarrow> nat \<Rightarrow> memory" where
  "exchange_units w mem ap bp 0 = mem"
| "exchange_units w mem ap bp (Suc sz) = exchange_units w (exchange_unit w mem ap bp) (ap + w) (bp + w) sz"

definition exchange_bytes :: "memory \<Rightarrow> nat \<Rightarrow> nat \<Rightarrow> nat \<Rightarrow> memory" where
  "exchange_bytes mem a b sz = exchange_units 1 mem a b sz"

definition exchange_one_byte :: "memory \<Rightarrow> nat \<Rightarrow> nat \<Rightarrow> nat \<Rightarrow> memory" where
  "exchange_one_byte mem a b sz = exchange_unit 1 mem a b"

definition exchange_int16s :: "memory \<Rightarrow> nat \<Rightarrow> nat \<Rightarrow> nat \<Rightarrow> memory" where
  "exchange_int16s mem a b sz = exchange_units 2 mem a b (sz div 2)"

definition exchange_one_int16 :: "memory \<Rightarrow> nat \<Rightarrow> nat \<Rightarrow> nat \<Rightarrow> memory" where
  "exchange_one_int16 mem a b sz = exchange_unit 2 mem a b"

definition exchange_int32s :: "memory \<Rightarrow> nat \<Rightarrow> nat \<Rightarrow> nat \<Rightarrow> memory" where
  "exchange_int32s mem a b sz = exchange_units 4 mem a b (sz div 4)"

definition exchange_one_int32 :: "memory \<Rightarrow> nat \<Rightarrow> nat \<Rightarrow> nat \<Rightarrow> memory" where
  "exchange_one_int32 mem a b sz = exchange_unit 4 mem a b"

definition exchange_int64s :: "memory \<Rightarrow> nat \<Rightarrow> nat \<Rightarrow> nat \<Rightarrow> memory" where
  "exchange_int64s mem a b sz = exchange_units 8 mem a b (sz div 8)"

definition exchange_one_int64 :: "memory \<Rightarrow> nat \<Rightarrow> nat \<Rightarrow> nat \<Rightarrow> memory" where
  "exchange_one_int64 mem a b sz = exchange_unit 8 mem a b"

definition exchange_one_int128 :: "memory \<Rightarrow> nat \<Rightarrow> nat \<Rightarrow> nat \<Rightarrow> memory" where
  "exchange_one_int128 mem a b sz =
    (let t = mem_get 8 mem a;
         u = mem_get 8 mem (a + 8);
         mem = mem_put mem a (mem_get 8 mem b);
         mem = mem_put mem (a + 8) (mem_get 8 mem (b + 8));
         mem = mem_put mem b t
     in mem_put mem (b + 8) u)"

fun exchange_pairs :: "memory \<Rightarrow> nat \<Rightarrow> nat \<Rightarrow> nat \<Rightarrow> memory" where
  "exchange_pairs mem ap bp 0 = mem"
| "exchange_pairs mem ap bp (Suc sz) = exchange_pairs (exchange_one_int128 mem ap bp 16) (ap + 16) (bp + 16) sz"

definition exchange_int128s :: "memory \<Rightarrow> nat \<Rightarrow> nat \<Rightarrow> nat \<Rightarrow> memory" where
  "exchange_int128s mem a b sz = exchange_pairs mem a b (sz div 16)"

definition exchange_func :: "64 word \<Rightarrow> 64 word \<Rightarrow> memory \<Rightarrow> nat \<Rightarrow> nat \<Rightarrow> nat \<Rightarrow> memory" where
  "exchange_func base sz =
    (let v = (base OR sz) AND 15 in
     if v = 0 then if sz = 16 then exchange_one_int128 else exchange_int128s
     else if v = 8 then if sz = 8 then exchange_one_int64 else exchange_int64s
     else if v = 4 \<or> v = 12 then if sz = 4 then exchange_one_int32 else exchange_int32s
     else if v = 2 \<or> v = 6 \<or> v = 10 \<or> v = 14 then if sz = 2 then exchange_one_int16 else exchange_int16s
     else if sz = 1 then exchange_one_byte else exchange_bytes)"

text \<open>The memory read as an array of elements of \<open>sz\<close> bytes.\<close>

definition elements :: "nat \<Rightarrow> memory \<Rightarrow> memory list" where
  "elements sz mem = map (\<lambda>k. mem_get sz mem (k * sz)) [0..<length mem div sz]"

section \<open>Lemmas\<close>

text \<open>The specification of all of them: the bytes of two equal or disjoint ranges are
exchanged.\<close>

definition disjoint_or_same :: "nat \<Rightarrow> nat \<Rightarrow> nat \<Rightarrow> bool" where
  "disjoint_or_same a b m \<longleftrightarrow> a = b \<or> a + m \<le> b \<or> b + m \<le> a"

definition swapped :: "memory \<Rightarrow> nat \<Rightarrow> nat \<Rightarrow> nat \<Rightarrow> memory \<Rightarrow> bool" where
  "swapped mem a b m mem' \<longleftrightarrow> length mem' = length mem \<and>
    (\<forall>p < length mem. mem' ! p =
      (if a \<le> p \<and> p < a + m then mem ! (b + (p - a))
       else if b \<le> p \<and> p < b + m then mem ! (a + (p - b)) else mem ! p))"

lemma length_mem_get: "p + w \<le> length mem \<Longrightarrow> length (mem_get w mem p) = w"
  by (simp add: mem_get_def)

lemma length_mem_put: "p + length bs \<le> length mem \<Longrightarrow> length (mem_put mem p bs) = length mem"
  by (simp add: mem_put_def)

lemma nth_mem_get: "p + w \<le> length mem \<Longrightarrow> k < w \<Longrightarrow> mem_get w mem p ! k = mem ! (p + k)"
  by (simp add: mem_get_def)

lemma nth_mem_put:
  "p + length bs \<le> length mem \<Longrightarrow> k < length mem \<Longrightarrow>
    mem_put mem p bs ! k = (if p \<le> k \<and> k < p + length bs then bs ! (k - p) else mem ! k)"
  by (auto simp: mem_put_def nth_append)

lemmas mem_range_simps = length_mem_get length_mem_put nth_mem_get nth_mem_put

lemma exchange_unit_swapped:
  "disjoint_or_same a b w \<Longrightarrow> a + w \<le> length mem \<Longrightarrow> b + w \<le> length mem \<Longrightarrow>
    swapped mem a b w (exchange_unit w mem a b)"
  by (auto simp: swapped_def exchange_unit_def Let_def mem_range_simps disjoint_or_same_def)

lemma exchange_one_int128_swapped:
  "disjoint_or_same a b 16 \<Longrightarrow> a + 16 \<le> length mem \<Longrightarrow> b + 16 \<le> length mem \<Longrightarrow>
    swapped mem a b 16 (exchange_one_int128 mem a b sz)"
  by (auto simp: swapped_def exchange_one_int128_def Let_def mem_range_simps disjoint_or_same_def)

lemma swapped_append:
  assumes "swapped mem a b m mem1" "swapped mem1 (a + m) (b + m) m' mem2" "disjoint_or_same a b (m + m')"
    and "a + m + m' \<le> length mem" "b + m + m' \<le> length mem"
  shows "swapped mem a b (m + m') mem2"
proof -
  have len: "length mem1 = length mem" "length mem2 = length mem"
    using assms(1,2) by (auto simp: swapped_def)
  have m1: "mem1 ! p = (if a \<le> p \<and> p < a + m then mem ! (b + (p - a))
      else if b \<le> p \<and> p < b + m then mem ! (a + (p - b)) else mem ! p)" if "p < length mem" for p
    using assms(1) that by (simp add: swapped_def)
  have m2: "mem2 ! p = (if a + m \<le> p \<and> p < a + m + m' then mem1 ! (b + m + (p - (a + m)))
      else if b + m \<le> p \<and> p < b + m + m' then mem1 ! (a + m + (p - (b + m))) else mem1 ! p)"
    if "p < length mem" for p
    using assms(2) that by (simp add: swapped_def len)
  have "mem2 ! p = (if a \<le> p \<and> p < a + (m + m') then mem ! (b + (p - a))
      else if b \<le> p \<and> p < b + (m + m') then mem ! (a + (p - b)) else mem ! p)" if p: "p < length mem" for p
  proof -
    consider (a) d where "p = a + m + d" "d < m'" | (b) d where "p = b + m + d" "d < m'"
        "\<not> (a + m \<le> p \<and> p < a + m + m')"
      | (other) "\<not> (a + m \<le> p \<and> p < a + m + m')" "\<not> (b + m \<le> p \<and> p < b + m + m')"
      by (metis nat_add_left_cancel_less nat_le_iff_add)
    then show ?thesis
    proof cases
      case a
      have "mem2 ! p = mem1 ! (b + m + d)" using a m2 [OF p] by simp
      moreover have "mem1 ! (b + m + d) = mem ! (b + m + d)"
        using a assms(3-) m1 [of "b + m + d"] by (auto simp: disjoint_or_same_def)
      ultimately show ?thesis using a by (simp add: add.assoc)
    next
      case b
      have "mem2 ! p = mem1 ! (a + m + d)" using b by (subst m2 [OF p], subst if_not_P) auto
      moreover have "mem1 ! (a + m + d) = mem ! (a + m + d)"
        using b assms(3-) m1 [of "a + m + d"] by (auto simp: disjoint_or_same_def)
      ultimately show ?thesis
        using b assms(3) by (auto simp: add.assoc disjoint_or_same_def)
    next
      case other
      have "mem2 ! p = mem1 ! p"
        using m2 [OF p] unfolding if_not_P [OF other(1)] if_not_P [OF other(2)] .
      with other m1 [OF p] show ?thesis by auto
    qed
  qed
  then show ?thesis by (simp add: swapped_def len)
qed

lemma disjoint_or_same_step:
  "disjoint_or_same a b (w + m) \<Longrightarrow> disjoint_or_same a b w \<and> disjoint_or_same (a + w) (b + w) m"
  by (auto simp: disjoint_or_same_def)

lemma exchange_units_swapped:
  "disjoint_or_same a b (w * n) \<Longrightarrow> a + w * n \<le> length mem \<Longrightarrow> b + w * n \<le> length mem \<Longrightarrow>
    swapped mem a b (w * n) (exchange_units w mem a b n)"
proof (induction n arbitrary: mem a b)
  case (Suc n)
  then have d: "disjoint_or_same a b w" "disjoint_or_same (a + w) (b + w) (w * n)"
    using disjoint_or_same_step [of a b w "w * n"] by auto
  have s: "swapped mem a b w (exchange_unit w mem a b)"
    using Suc d by (intro exchange_unit_swapped) auto
  then have "swapped (exchange_unit w mem a b) (a + w) (b + w) (w * n) (exchange_units w mem a b (Suc n))"
    using Suc d by (simp add: swapped_def Suc.IH [unfolded swapped_def])
  with s show ?case
    using Suc swapped_append [OF s, of "w * n"] by (simp add: add.assoc)
qed (auto simp: swapped_def)

lemma exchange_pairs_swapped:
  "disjoint_or_same a b (16 * n) \<Longrightarrow> a + 16 * n \<le> length mem \<Longrightarrow> b + 16 * n \<le> length mem \<Longrightarrow>
    swapped mem a b (16 * n) (exchange_pairs mem a b n)"
proof (induction n arbitrary: mem a b)
  case (Suc n)
  then have d: "disjoint_or_same a b 16" "disjoint_or_same (a + 16) (b + 16) (16 * n)"
    using disjoint_or_same_step [of a b 16 "16 * n"] by auto
  have s: "swapped mem a b 16 (exchange_one_int128 mem a b 16)"
    using Suc d by (intro exchange_one_int128_swapped) auto
  then have "swapped (exchange_one_int128 mem a b 16) (a + 16) (b + 16) (16 * n) (exchange_pairs mem a b (Suc n))"
    using Suc d by (simp add: swapped_def Suc.IH [unfolded swapped_def])
  with s show ?case
    using Suc swapped_append [OF s, of "16 * n"] by (simp add: add.assoc)
qed (auto simp: swapped_def)

lemma aligned_mask:
  fixes base sz :: "64 word"
  assumes "((base OR sz) AND 15) AND m = 0" "15 AND m = m"
  shows "sz AND m = 0"
proof -
  have "sz AND m = sz AND ((base OR sz) AND (15 AND m))"
    by (simp add: assms(2) word_bw_assocs [symmetric])
  also have "\<dots> = sz AND (((base OR sz) AND 15) AND m)"
    by (simp add: word_bw_assocs)
  finally show ?thesis using assms(1) by simp
qed

lemma aligned_dvd:
  fixes base sz :: "64 word"
  shows "(base OR sz) AND 15 = 0 \<Longrightarrow> 16 dvd unat sz"
    and "(base OR sz) AND 15 = 8 \<Longrightarrow> 8 dvd unat sz"
    and "(base OR sz) AND 15 \<in> {4, 12} \<Longrightarrow> 4 dvd unat sz"
    and "(base OR sz) AND 15 \<in> {2, 6, 10, 14} \<Longrightarrow> 2 dvd unat sz"
proof -
  have dvd: "2 ^ k dvd unat sz" if "sz AND mask k = 0" for k
  proof -
    from that have "take_bit k sz = 0"
      by (simp add: take_bit_eq_mask)
    then have "take_bit k (unat sz) = 0"
      by (simp flip: unsigned_take_bit_eq)
    then show ?thesis by (simp add: take_bit_eq_mod dvd_eq_mod_eq_0)
  qed
  note masks = dvd [of 4] dvd [of 3] dvd [of 2] dvd [of 1]
  show "(base OR sz) AND 15 = 0 \<Longrightarrow> 16 dvd unat sz"
    using masks(1) aligned_mask [of base sz 15] by (simp add: mask_eq_decr_exp)
  show "(base OR sz) AND 15 = 8 \<Longrightarrow> 8 dvd unat sz"
    using masks(2) aligned_mask [of base sz 7] by (simp add: mask_eq_decr_exp)
  show "(base OR sz) AND 15 \<in> {4, 12} \<Longrightarrow> 4 dvd unat sz"
    using masks(3) aligned_mask [of base sz 3] by (auto simp: mask_eq_decr_exp)
  show "(base OR sz) AND 15 \<in> {2, 6, 10, 14} \<Longrightarrow> 2 dvd unat sz"
    using masks(4) aligned_mask [of base sz 1] by (auto simp: mask_eq_decr_exp)
qed

lemma exchange_func_swapped:
  fixes base sz :: "64 word"
  assumes "disjoint_or_same a b m" "a + m \<le> length mem" "b + m \<le> length mem"
    and "unat sz' dvd m" "m = unat sz \<or> 16 < unat sz"
    and "(base OR sz) AND 15 = (base OR sz') AND 15"
  shows "swapped mem a b m (exchange_func base sz mem a b m)"
proof -
  have units: "swapped mem a b m (exchange_units w mem a b (m div w))" if "w dvd m" for w
    using exchange_units_swapped [of a b w "m div w" mem] assms(1-3) that by simp
  have pairs: "swapped mem a b m (exchange_pairs mem a b (m div 16))" if "16 dvd m"
    using exchange_pairs_swapped [of a b "m div 16" mem] assms(1-3) that by simp
  have unit: "swapped mem a b m (exchange_unit m mem a b)"
    using assms(1-3) by (rule exchange_unit_swapped)
  have one: "m = unat n" if "sz = n" "unat n \<le> 16" for n
    using that assms(5) by auto
  have unit1: "swapped mem a b m (exchange_unit (unat n) mem a b)" if "sz = n" "unat n \<le> 16" for n
    using unit one [OF that] by simp
  define v where "v = (base OR sz) AND 15"
  have dvd: "v = 0 \<Longrightarrow> 16 dvd m" "v = 8 \<Longrightarrow> 8 dvd m" "v \<in> {4, 12} \<Longrightarrow> 4 dvd m" "v \<in> {2, 6, 10, 14} \<Longrightarrow> 2 dvd m"
    using aligned_dvd [of base sz'] assms(4,6) dvd_trans by (auto simp: v_def)
  have pair1: "swapped mem a b m (exchange_one_int128 mem a b m)" if "sz = 16"
    using exchange_one_int128_swapped [of a b mem m] assms(1-3) one [OF that] by simp
  have f0: "swapped mem a b m ((if sz = 16 then exchange_one_int128 else exchange_int128s) mem a b m)" if "v = 0"
    using pair1 pairs dvd(1) [OF that] by (simp add: exchange_int128s_def)
  have f8: "swapped mem a b m ((if sz = 8 then exchange_one_int64 else exchange_int64s) mem a b m)" if "v = 8"
    using units dvd(2) [OF that] unit1 [of 8] by (simp add: exchange_int64s_def exchange_one_int64_def)
  have f4: "swapped mem a b m ((if sz = 4 then exchange_one_int32 else exchange_int32s) mem a b m)" if "v \<in> {4, 12}"
    using units dvd(3) [OF that] unit1 [of 4] by (simp add: exchange_int32s_def exchange_one_int32_def)
  have f2: "swapped mem a b m ((if sz = 2 then exchange_one_int16 else exchange_int16s) mem a b m)" if "v \<in> {2, 6, 10, 14}"
    using units dvd(4) [OF that] unit1 [of 2] by (simp add: exchange_int16s_def exchange_one_int16_def)
  have f1: "swapped mem a b m ((if sz = 1 then exchange_one_byte else exchange_bytes) mem a b m)"
    using units [of 1] unit1 [of 1] by (simp add: exchange_bytes_def exchange_one_byte_def)
  show ?thesis
    unfolding exchange_func_def Let_def v_def [symmetric]
  proof (cases "v \<in> {0, 8, 4, 12, 2, 6, 10, 14}")
    case False
    then show "swapped mem a b m ((if v = 0 then if sz = 16 then exchange_one_int128 else exchange_int128s
     else if v = 8 then if sz = 8 then exchange_one_int64 else exchange_int64s
     else if v = 4 \<or> v = 12 then if sz = 4 then exchange_one_int32 else exchange_int32s
     else if v = 2 \<or> v = 6 \<or> v = 10 \<or> v = 14 then if sz = 2 then exchange_one_int16 else exchange_int16s
     else if sz = 1 then exchange_one_byte else exchange_bytes) mem a b m)"
      using f1 by simp
  qed (use f0 f8 f4 f2 in \<open>elim insertE; simp\<close>)
qed

lemma length_elements [simp]: "length (elements sz mem) = length mem div sz"
  by (simp add: elements_def)

lemma nth_elements: "k < length mem div sz \<Longrightarrow> elements sz mem ! k = mem_get sz mem (k * sz)"
  by (simp add: elements_def)

lemma block_index:
  fixes k t s :: nat
  assumes "t < s"
  shows "a * s \<le> k * s + t \<longleftrightarrow> a \<le> k" "k * s + t < a * s \<longleftrightarrow> k < a"
proof -
  have q: "(k * s + t) div s = k" using assms by simp
  have s: "0 < s" using assms by simp
  show "a * s \<le> k * s + t \<longleftrightarrow> a \<le> k"
    using less_eq_div_iff_mult_less_eq [OF s, of a "k * s + t"] q by simp
  show "k * s + t < a * s \<longleftrightarrow> k < a"
    using div_less_iff_less_mult [OF s, of "k * s + t" a] q by simp
qed

text \<open>Exchanged bytes of whole elements are exchanged elements.\<close>

lemma swapped_elements:
  assumes "swapped mem (a * s) (b * s) (span * s) mem'" "length mem = n * s" "0 < s"
    and "a + span \<le> n" "b + span \<le> n" "k < n"
  shows "elements s mem' ! k =
    (if a \<le> k \<and> k < a + span then elements s mem ! (b + (k - a))
     else if b \<le> k \<and> k < b + span then elements s mem ! (a + (k - b)) else elements s mem ! k)"
proof -
  have len: "length mem' = length mem"
    using assms(1) by (simp add: swapped_def)
  have in_range: "j * s + t < length mem" if "j < n" "t < s" for j t
    unfolding assms(2) using that by (simp add: block_index)
  have fits: "j * s + s \<le> length mem" if "j < n" for j
    using that unfolding assms(2) by (metis add.commute mult_Suc mult_le_mono1 Suc_leI)
  have el: "elements s m ! j = map (\<lambda>t. m ! (j * s + t)) [0..<s]" if "length m = length mem" "j < n" for m j
    using that fits [OF that(2)] assms(2,3)
    by (subst nth_elements) (auto simp: mem_get_def intro!: nth_equalityI)
  have nth: "mem' ! (k * s + t) =
      (if a \<le> k \<and> k < a + span then mem ! ((b + (k - a)) * s + t)
       else if b \<le> k \<and> k < b + span then mem ! ((a + (k - b)) * s + t) else mem ! (k * s + t))"
    if t: "t < s" for t
  proof -
    have m: "mem' ! (k * s + t) = (if a * s \<le> k * s + t \<and> k * s + t < (a + span) * s then mem ! (b * s + (k * s + t - a * s))
       else if b * s \<le> k * s + t \<and> k * s + t < (b + span) * s then mem ! (a * s + (k * s + t - b * s))
       else mem ! (k * s + t))"
      using assms(1) in_range [OF assms(6) t] by (simp add: swapped_def add_mult_distrib)
    have d: "j * s + (k * s + t - i * s) = (j + (k - i)) * s + t" if "i \<le> k" for i j
      using that by (auto simp: le_iff_add algebra_simps)
    show ?thesis
      unfolding m block_index [OF t] using d by auto
  qed
  show ?thesis
    using assms(4-6) len by (auto simp: el nth)
qed

lemma swap_elements:
  assumes "swapped mem (i * s) (j * s) s mem'" "length mem = n * s" "0 < s" "i < n" "j < n"
  shows "elements s mem' = exchange (elements s mem) i j"
proof (rule nth_equalityI)
  have len: "length mem' = length mem"
    using assms(1) by (simp add: swapped_def)
  then show "length (elements s mem') = length (exchange (elements s mem) i j)"
    by simp
  fix k assume "k < length (elements s mem')"
  then have "k < n" using assms(2,3) len by simp
  then show "elements s mem' ! k = exchange (elements s mem) i j ! k"
    using swapped_elements [of mem i s j 1 mem' n k] assms
    by (auto simp: nth_exchange)
qed

lemma disjoint_or_same_elements: "0 < s \<Longrightarrow> disjoint_or_same (i * s) (j * s) s"
  by (cases i j rule: linorder_cases)
     (auto simp: disjoint_or_same_def, (metis Suc_leI add.commute mult_Suc mult_le_mono1)+)

lemma exchange_func_elements:
  fixes base sz :: "64 word"
  assumes "length mem = n * unat sz" "sz \<noteq> 0"
  shows "i < n \<Longrightarrow> j < n \<Longrightarrow>
      elements (unat sz) (exchange_func base sz mem (i * unat sz) (j * unat sz) (unat sz))
        = exchange (elements (unat sz) mem) i j"
    and "a + span \<le> b \<Longrightarrow> b + span \<le> n \<Longrightarrow>
      elements (unat sz) (exchange_func base (sz OR 128) mem (a * unat sz) (b * unat sz) (span * unat sz))
        = swap_block (elements (unat sz) mem) a b span"
proof -
  let ?s = "unat sz"
  have s: "0 < ?s"
    using assms(2) by (simp add: unat_gt_0)
  have fits: "p * ?s + q * ?s \<le> length mem" if "p + q \<le> n" for p q
    using that by (simp add: assms(1) flip: add_mult_distrib)
  show "elements ?s (exchange_func base sz mem (i * ?s) (j * ?s) ?s) = exchange (elements ?s mem) i j"
    if ij: "i < n" "j < n"
    using ij fits [of i 1] fits [of j 1] assms(1) s
    by (intro swap_elements exchange_func_swapped [of _ _ _ _ sz] disjoint_or_same_elements) auto
  have mask: "(base OR (sz OR 128)) AND 15 = (base OR sz) AND 15"
    by (simp add: word_ao_dist)
  have large: "16 < unat (sz OR 128)"
  proof -
    have "unat (128 :: 64 word) \<le> unat (sz OR 128)"
      unfolding word_le_nat_alt [symmetric] by (rule le_word_or1)
    then show ?thesis by simp
  qed
  show "elements ?s (exchange_func base (sz OR 128) mem (a * ?s) (b * ?s) (span * ?s))
      = swap_block (elements ?s mem) a b span" (is "elements ?s ?mem = _")
    if ab: "a + span \<le> b" "b + span \<le> n"
  proof -
    have "(a + span) * ?s \<le> b * ?s"
      using ab(1) by simp
    then have "disjoint_or_same (a * ?s) (b * ?s) (span * ?s)"
      by (simp add: disjoint_or_same_def add_mult_distrib)
    then have sw: "swapped mem (a * ?s) (b * ?s) (span * ?s) ?mem"
      using fits [of a span] fits [of b span] ab mask large
      by (intro exchange_func_swapped [of _ _ _ _ sz]) auto
    then have len: "length ?mem = length mem"
      by (simp add: swapped_def)
    show ?thesis
    proof (rule nth_equalityI)
      have "permutes 0 n (elements ?s mem) (swap_block (elements ?s mem) a b span)"
        using ab assms(1) s by (intro swap_block_permutes) auto
      then show "length (elements ?s ?mem) = length (swap_block (elements ?s mem) a b span)"
        using len by (simp add: permutes_length)
      fix k assume "k < length (elements ?s ?mem)"
      then have "k < n" using assms(1) s len by simp
      then show "elements ?s ?mem ! k = swap_block (elements ?s mem) a b span ! k"
        using swapped_elements [OF sw assms(1) s] ab nth_swap_block [OF ab(1), of "elements ?s mem"] assms(1) s
        by simp
    qed
  qed
qed

text \<open>C21 The function chosen by \<^verbatim>\<open>exchange_func\<close> for the address of the
array and the size of its elements exchanges two elements of it and leaves every other byte; the
one chosen for blocks (with \<^verbatim>\<open>size | 128\<close>) exchanges two disjoint blocks of
elements. So on the bytes \<^verbatim>\<open>rqsort\<close> does what the model says on
elements.\<close>

theorem exchange_elements:
  fixes base sz :: "64 word"
  assumes "length mem = n * unat sz" "sz \<noteq> 0"
  shows "(i < n \<longrightarrow> j < n \<longrightarrow>
      elements (unat sz) (exchange_func base sz mem (i * unat sz) (j * unat sz) (unat sz))
        = exchange (elements (unat sz) mem) i j)
    \<and> (a + span \<le> b \<longrightarrow> b + span \<le> n \<longrightarrow>
      elements (unat sz) (exchange_func base (sz OR 128) mem (a * unat sz) (b * unat sz) (span * unat sz))
        = swap_block (elements (unat sz) mem) a b span)"
  using exchange_func_elements [OF assms] by blast

theorem exchange_elements_witness:
  "elements 2 (exchange_func 4096 2 [1, 2, 3, 4, 5, 6, 7, 8] 0 6 2)
      = exchange (elements 2 [1, 2, 3, 4, 5, 6, 7, 8]) 0 3
    \<and> elements 2 (exchange_func 4096 (2 OR 128) [1, 2, 3, 4, 5, 6, 7, 8] 0 4 4)
      = swap_block (elements 2 [1, 2, 3, 4, 5, 6, 7, 8]) 0 2 2"
  using exchange_elements [of "[1, 2, 3, 4, 5, 6, 7, 8]" 4 2 0 3 4096 0 2 2] by simp

end
