(* ===== verification/Char_Range.thy ===== *)
theory Char_Range
  imports Sort_Correct Cutils_Bytes
begin

text \<open>The sets of code points of \<^verbatim>\<open>src/quickjs/libunicode.c\<close> and
\<^verbatim>\<open>libunicode.h\<close> (\<^verbatim>\<open>CharRange\<close> and the
\<^verbatim>\<open>cr_\<close> functions), on which the regular expression compiler computes its
character classes. A \<^verbatim>\<open>CharRange\<close> is an increasing array of points: the code
points from an even index to the next point are in the set.

The field \<open>cr_points\<close> holds the \<^verbatim>\<open>len\<close> points in use,
\<open>cr_size\<close> is the number of points that the allocated block has room for, and
\<open>cr_realloc_func\<close> says for which sizes in bytes the allocator of the struct returns a
block. An operation returns the struct and the C result, 0 or -1. The integers \<^verbatim>\<open>len\<close>
and \<^verbatim>\<open>size\<close> are not bounded here: in C they would overflow beyond
\<open>2 ^ 31 div 3\<close> points, an array of 2.8 gigabytes.

The theory shows that the operations compute union, intersection, symmetric difference, difference
and complement on canonical arrays, that every result is canonical, and that an error is returned
only when the allocator failed.\<close>

section \<open>Definitions\<close>

record char_range =
  cr_points :: "u32 list"
  cr_size :: int
  cr_realloc_func :: "int \<Rightarrow> bool"

definition UINT32_MAX :: u32 where
  "UINT32_MAX = 0xFFFFFFFF"

abbreviation cr_len :: "char_range \<Rightarrow> nat" where
  "cr_len cr \<equiv> length (cr_points cr)"

definition cr_init :: "(int \<Rightarrow> bool) \<Rightarrow> (int \<Rightarrow> bool) option \<Rightarrow> char_range" where
  "cr_init cr_default_realloc realloc_func =
    \<lparr>cr_points = [], cr_size = 0,
     cr_realloc_func = (case realloc_func of None \<Rightarrow> cr_default_realloc | Some f \<Rightarrow> f)\<rparr>"

definition cr_realloc :: "char_range \<Rightarrow> int \<Rightarrow> char_range \<times> int" where
  "cr_realloc cr sz =
    (if sz > cr_size cr then
       let new_size = max sz (cr_size cr * 3 div 2) in
       if cr_realloc_func cr (new_size * 4) then (cr\<lparr>cr_size := new_size\<rparr>, 0) else (cr, -1)
     else (cr, 0))"

definition cr_copy :: "char_range \<Rightarrow> char_range \<Rightarrow> char_range \<times> int" where
  "cr_copy cr cr1 =
    (case cr_realloc cr (int (cr_len cr1)) of (cr, r) \<Rightarrow>
     if r \<noteq> 0 then (cr, -1) else (cr\<lparr>cr_points := cr_points cr1\<rparr>, 0))"

definition cr_add_point :: "char_range \<Rightarrow> u32 \<Rightarrow> char_range \<times> int" where
  "cr_add_point cr v =
    (case (if int (cr_len cr) \<ge> cr_size cr then cr_realloc cr (int (cr_len cr) + 1) else (cr, 0)) of (cr, r) \<Rightarrow>
     if r \<noteq> 0 then (cr, -1) else (cr\<lparr>cr_points := cr_points cr @ [v]\<rparr>, 0))"

definition cr_add_interval :: "char_range \<Rightarrow> u32 \<Rightarrow> u32 \<Rightarrow> char_range \<times> int" where
  "cr_add_interval cr c1 c2 =
    (case (if int (cr_len cr) + 2 > cr_size cr then cr_realloc cr (int (cr_len cr) + 2) else (cr, 0)) of (cr, r) \<Rightarrow>
     if r \<noteq> 0 then (cr, -1) else (cr\<lparr>cr_points := cr_points cr @ [c1, c2]\<rparr>, 0))"

subsection \<open>Compression\<close>

function cr_merge_end :: "u32 list \<Rightarrow> nat \<Rightarrow> nat \<Rightarrow> nat" where
  "cr_merge_end pt len j =
    (if j + 3 < len \<and> pt ! (j + 1) = pt ! (j + 2) then cr_merge_end pt len (j + 2) else j)"
  by pat_completeness auto
termination by (relation "measure (\<lambda>(pt, len, j). len - j)") auto

declare cr_merge_end.simps [simp del]

lemma cr_merge_end_ge: "j \<le> cr_merge_end pt len j"
proof (induction pt len j rule: cr_merge_end.induct)
  case (1 pt len j)
  then show ?case
    by (cases "j + 3 < len \<and> pt ! (j + 1) = pt ! (j + 2)") (auto simp: cr_merge_end.simps [of pt len j])
qed

lemma cr_merge_end_less: "i < len \<Longrightarrow> len - Suc (Suc (cr_merge_end pt len i)) + i < len"
  using cr_merge_end_ge [of i pt len] by arith

lemma cr_merge_end_even: "even (cr_merge_end pt len j) = even j"
proof (induction pt len j rule: cr_merge_end.induct)
  case (1 pt len j)
  then show ?case
    by (cases "j + 3 < len \<and> pt ! (j + 1) = pt ! (j + 2)") (auto simp: cr_merge_end.simps [of pt len j])
qed

text \<open>The points are written back into the array that is read.\<close>

function cr_compress_loop :: "u32 list \<Rightarrow> nat \<Rightarrow> nat \<Rightarrow> nat \<Rightarrow> u32 list \<times> nat" where
  "cr_compress_loop pt len i k =
    (if i + 1 < len then
       if pt ! i = pt ! (i + 1) then cr_compress_loop pt len (i + 2) k
       else
         let j = cr_merge_end pt len i;
             pt = pt[k := pt ! i];
             pt = pt[k + 1 := pt ! (j + 1)]
         in cr_compress_loop pt len (j + 2) (k + 2)
     else (pt, k))"
  by pat_completeness auto
termination
  by (relation "measure (\<lambda>(pt, len, i, k). len - i)")
     (use cr_merge_end_ge in \<open>auto simp: less_diff_conv le_imp_less_Suc intro: cr_merge_end_less\<close>)

declare cr_compress_loop.simps [simp del]

definition cr_compress :: "char_range \<Rightarrow> char_range" where
  "cr_compress cr =
    (case cr_compress_loop (cr_points cr) (cr_len cr) 0 0 of (pt, k) \<Rightarrow> cr\<lparr>cr_points := take k pt\<rparr>)"

subsection \<open>Boolean operations\<close>

datatype char_range_op = CR_OP_UNION | CR_OP_INTER | CR_OP_XOR | CR_OP_SUB

text \<open>The next point of either array, in increasing order, with the advanced indices.\<close>

definition cr_next_point :: "u32 list \<Rightarrow> u32 list \<Rightarrow> nat \<Rightarrow> nat \<Rightarrow> (u32 \<times> nat \<times> nat) option" where
  "cr_next_point a_pt b_pt a_idx b_idx =
    (if a_idx < length a_pt \<and> b_idx < length b_pt then
       if a_pt ! a_idx < b_pt ! b_idx then Some (a_pt ! a_idx, a_idx + 1, b_idx)
       else if a_pt ! a_idx = b_pt ! b_idx then Some (a_pt ! a_idx, a_idx + 1, b_idx + 1)
       else Some (b_pt ! b_idx, a_idx, b_idx + 1)
     else if a_idx < length a_pt then Some (a_pt ! a_idx, a_idx + 1, b_idx)
     else if b_idx < length b_pt then Some (b_pt ! b_idx, a_idx, b_idx + 1)
     else None)"

fun cr_is_in :: "char_range_op \<Rightarrow> bool \<Rightarrow> bool \<Rightarrow> bool" where
  "cr_is_in CR_OP_UNION a b = (a \<or> b)"
| "cr_is_in CR_OP_INTER a b = (a \<and> b)"
| "cr_is_in CR_OP_XOR a b = (a \<noteq> b)"
| "cr_is_in CR_OP_SUB a b = (a \<and> \<not> b)"

lemma cr_next_point_progress:
  "cr_next_point a b i j = Some (v, i', j') \<Longrightarrow> length a - i' + (length b - j') < length a - i + (length b - j)"
  by (auto simp: cr_next_point_def split: if_splits)

function cr_op_loop :: "char_range \<Rightarrow> u32 list \<Rightarrow> u32 list \<Rightarrow> nat \<Rightarrow> nat \<Rightarrow> char_range_op \<Rightarrow> char_range \<times> int" where
  "cr_op_loop cr a_pt b_pt a_idx b_idx op =
    (case cr_next_point a_pt b_pt a_idx b_idx of
       None \<Rightarrow> (cr, 0)
     | Some (v, a_idx', b_idx') \<Rightarrow>
         if cr_is_in op (odd a_idx') (odd b_idx') \<noteq> odd (cr_len cr) then
           case cr_add_point cr v of (cr', r) \<Rightarrow>
             if r \<noteq> 0 then (cr', -1) else cr_op_loop cr' a_pt b_pt a_idx' b_idx' op
         else cr_op_loop cr a_pt b_pt a_idx' b_idx' op)"
  by pat_completeness auto
termination
  by (relation "measure (\<lambda>(cr, a, b, i, j, op). length a - i + (length b - j))")
     (auto dest: cr_next_point_progress)

declare cr_op_loop.simps [simp del]

definition cr_op :: "char_range \<Rightarrow> u32 list \<Rightarrow> u32 list \<Rightarrow> char_range_op \<Rightarrow> char_range \<times> int" where
  "cr_op cr a_pt b_pt op =
    (case cr_op_loop cr a_pt b_pt 0 0 op of (cr, r) \<Rightarrow>
     if r \<noteq> 0 then (cr, -1) else (cr_compress cr, 0))"

definition cr_op1 :: "char_range \<Rightarrow> u32 list \<Rightarrow> char_range_op \<Rightarrow> char_range \<times> int" where
  "cr_op1 cr b_pt op = cr_op (cr\<lparr>cr_points := [], cr_size := 0\<rparr>) (cr_points cr) b_pt op"

definition cr_union_interval :: "char_range \<Rightarrow> u32 \<Rightarrow> u32 \<Rightarrow> char_range \<times> int" where
  "cr_union_interval cr c1 c2 = cr_op1 cr [c1, c2 + 1] CR_OP_UNION"

definition cr_invert :: "char_range \<Rightarrow> char_range \<times> int" where
  "cr_invert cr =
    (case cr_realloc cr (int (cr_len cr) + 2) of (cr, r) \<Rightarrow>
     if r \<noteq> 0 then (cr, -1)
     else (cr_compress (cr\<lparr>cr_points := 0 # cr_points cr @ [UINT32_MAX]\<rparr>), 0))"

subsection \<open>Sorting intervals\<close>

text \<open>The array of points, read by \<^verbatim>\<open>rqsort\<close> as an array of pairs; the
comparison looks at the first point of each.\<close>

definition point_cmp :: "u32 \<times> u32 \<Rightarrow> u32 \<times> u32 \<Rightarrow> int" where
  "point_cmp p1 p2 = of_bool (fst p1 > fst p2) - of_bool (fst p1 < fst p2)"

fun point_pairs :: "u32 list \<Rightarrow> (u32 \<times> u32) list" where
  "point_pairs (s # e # pts) = (s, e) # point_pairs pts"
| "point_pairs _ = []"

fun cr_extend :: "u32 \<Rightarrow> (u32 \<times> u32) list \<Rightarrow> u32 \<times> (u32 \<times> u32) list" where
  "cr_extend e [] = (e, [])"
| "cr_extend e ((start1, end1) # ivs) =
    (if start1 > e then (e, (start1, end1) # ivs)
     else if end1 \<le> e then cr_extend e ivs
     else cr_extend end1 ivs)"

lemma cr_extend_length: "cr_extend e ivs = (e', ivs') \<Longrightarrow> length ivs' \<le> length ivs"
  by (induction e ivs rule: cr_extend.induct) (fastforce split: if_splits)+

function cr_remove_overlap :: "(u32 \<times> u32) list \<Rightarrow> u32 list" where
  "cr_remove_overlap [] = []"
| "cr_remove_overlap ((start, e) # ivs) =
    (case cr_extend e ivs of (e', ivs') \<Rightarrow> start # e' # cr_remove_overlap ivs')"
  by pat_completeness auto
termination
  by (relation "measure length") (auto dest!: cr_extend_length [OF sym])

definition cr_sort_and_remove_overlap :: "char_range \<Rightarrow> char_range option" where
  "cr_sort_and_remove_overlap cr =
    (case rqsort point_cmp (point_pairs (cr_points cr)) of
       None \<Rightarrow> None
     | Some ivs \<Rightarrow> Some (cr\<lparr>cr_points := cr_remove_overlap ivs\<rparr>))"

section \<open>Lemmas\<close>

subsection \<open>The set of an array of points\<close>

text \<open>A code point is in the set when an odd number of points is not above it.\<close>

definition cr_count :: "u32 \<Rightarrow> u32 list \<Rightarrow> nat" where
  "cr_count c pts = length (filter (\<lambda>p. p \<le> c) pts)"

definition cr_set :: "u32 list \<Rightarrow> u32 set" where
  "cr_set pts = {c. odd (cr_count c pts)}"

definition cr_sorted :: "u32 list \<Rightarrow> bool" where
  "cr_sorted pts \<longleftrightarrow> sorted pts \<and> even (length pts)"

definition cr_canonical :: "u32 list \<Rightarrow> bool" where
  "cr_canonical pts \<longleftrightarrow> sorted_wrt (<) pts \<and> even (length pts)"

lemma cr_count_simps [simp]:
  "cr_count c [] = 0"
  "cr_count c (p # pts) = of_bool (p \<le> c) + cr_count c pts"
  "cr_count c (xs @ ys) = cr_count c xs + cr_count c ys"
  by (auto simp: cr_count_def)

lemma cr_canonical_sorted: "cr_canonical pts \<Longrightarrow> cr_sorted pts"
  by (auto simp: cr_canonical_def cr_sorted_def strict_sorted_iff)

subsection \<open>Compression\<close>

text \<open>The compression on lists: the in-place loop computes it.\<close>

fun merge_points :: "u32 \<Rightarrow> u32 list \<Rightarrow> u32 \<times> u32 list" where
  "merge_points y (z # w # pts) = (if y = z then merge_points w pts else (y, z # w # pts))"
| "merge_points y pts = (y, pts)"

lemma merge_points_length: "merge_points y pts = (y', pts') \<Longrightarrow> length pts' \<le> length pts"
  by (induction y pts rule: merge_points.induct) (fastforce split: if_splits)+

function compress :: "u32 list \<Rightarrow> u32 list" where
  "compress (x # y # pts) =
    (if x = y then compress pts else case merge_points y pts of (y', pts') \<Rightarrow> x # y' # compress pts')"
| "compress [] = []"
| "compress [x] = []"
  by pat_completeness auto
termination
  by (relation "measure length") (auto dest!: merge_points_length [OF sym])

lemma compress_short: "length pts < 2 \<Longrightarrow> compress pts = []"
  by (cases pts rule: compress.cases) auto

lemma merge_points_set:
  "merge_points y pts = (y', pts') \<Longrightarrow> y' \<in> set (y # pts) \<and> set pts' \<subseteq> set pts"
  by (induction y pts rule: merge_points.induct) (auto split: if_splits)

lemma drop_nth2: "i + 1 < length pt \<Longrightarrow> drop i pt = pt ! i # pt ! (i + 1) # drop (i + 2) pt"
  by (metis Cons_nth_drop_Suc Suc_eq_plus1 Suc_lessD add_2_eq_Suc')

lemma cr_merge_end_points:
  "j + 1 < length pt \<Longrightarrow>
    merge_points (pt ! (j + 1)) (drop (j + 2) pt) =
      (pt ! (cr_merge_end pt (length pt) j + 1), drop (cr_merge_end pt (length pt) j + 2) pt)
    \<and> cr_merge_end pt (length pt) j + 1 < length pt"
proof (induction pt "length pt" j rule: cr_merge_end.induct)
  case (1 pt j)
  show ?case
  proof (cases "j + 3 < length pt")
    case True
    then have d: "drop (Suc (Suc j)) pt = pt ! Suc (Suc j) # pt ! Suc (Suc (Suc j)) # drop (Suc (Suc (Suc (Suc j)))) pt"
      using drop_nth2 [of "j + 2" pt] by simp
    show ?thesis
      using 1 True by (cases "pt ! (j + 1) = pt ! (j + 2)")
        (auto simp: cr_merge_end.simps [of pt "length pt" j] d eval_nat_numeral)
  next
    case False
    then have "drop (j + 2) pt = [] \<or> (\<exists>z. drop (j + 2) pt = [z])"
      by (cases "drop (j + 2) pt" rule: remdups_adj.cases)
         (auto dest: arg_cong [of _ _ length])
    with False 1 show ?thesis
      by (auto simp: cr_merge_end.simps [of pt "length pt" j])
  qed
qed

lemma cr_compress_loop_compress:
  "k \<le> i \<Longrightarrow> even i \<Longrightarrow> i \<le> length pt + 1 \<Longrightarrow> cr_compress_loop pt (length pt) i k = (pt', k') \<Longrightarrow>
    take k' pt' = take k pt @ compress (drop i pt)"
proof (induction "length pt - i" arbitrary: pt i k rule: less_induct)
  case less
  show ?case
  proof (cases "i + 1 < length pt")
    case True
    note d = drop_nth2 [OF True]
    define j where "j = cr_merge_end pt (length pt) i"
    define qt where "qt = pt[k := pt ! i, k + 1 := pt ! (j + 1)]"
    have ij: "i \<le> j" "j + 1 < length pt" "merge_points (pt ! (i + 1)) (drop (i + 2) pt) = (pt ! (j + 1), drop (j + 2) pt)"
      using cr_merge_end_ge cr_merge_end_points [OF True] by (auto simp: j_def)
    show ?thesis
    proof (cases "pt ! i = pt ! (i + 1)")
      case True': True
      with True less(5) have "cr_compress_loop pt (length pt) (i + 2) k = (pt', k')"
        by (simp add: cr_compress_loop.simps [of pt "length pt" i k])
      then have "take k' pt' = take k pt @ compress (drop (i + 2) pt)"
        using True less(2-4) by (intro less(1)) auto
      then show ?thesis using d True' by simp
    next
      case False
      have loop: "cr_compress_loop qt (length qt) (j + 2) (k + 2) = (pt', k')"
        using True False less(2,5) ij(1) by (simp add: cr_compress_loop.simps [of pt "length pt" i k] j_def [symmetric] qt_def Let_def)
      have "take k' pt' = take (k + 2) qt @ compress (drop (j + 2) qt)"
        using True less(2-4) ij(1,2) cr_merge_end_even [of pt "length pt" i]
        by (intro less(1) [OF _ _ _ _ loop]) (auto simp: qt_def j_def)
      moreover have "drop (j + 2) qt = drop (j + 2) pt"
        using less(2) ij(1) by (simp add: qt_def)
      moreover have "take (k + 2) qt = take k pt @ [pt ! i, pt ! (j + 1)]"
        using less(2) True by (simp add: qt_def take_Suc_conv_app_nth)
      ultimately show ?thesis using d False ij(3) by simp
    qed
  next
    case False
    then have "pt' = pt" "k' = k" "compress (drop i pt) = []"
      using less(5) by (auto simp: cr_compress_loop.simps [of pt "length pt" i k]
          intro!: compress_short)
    then show ?thesis by simp
  qed
qed

lemma cr_compress_points [simp]: "cr_points (cr_compress cr) = compress (cr_points cr)"
  using cr_compress_loop_compress [of 0 0 "cr_points cr"]
  by (simp add: cr_compress_def split: prod.splits)

lemma cr_compress_realloc_func [simp]: "cr_realloc_func (cr_compress cr) = cr_realloc_func cr"
  by (simp add: cr_compress_def split: prod.splits)

lemma merge_points_count:
  "merge_points y pts = (y', pts') \<Longrightarrow> odd (of_bool (y' \<le> c) + cr_count c pts') = odd (of_bool (y \<le> c) + cr_count c pts)"
  by (induction y pts rule: merge_points.induct) (auto split: if_splits)

lemma merge_points_even: "merge_points y pts = (y', pts') \<Longrightarrow> even (length pts') = even (length pts)"
  by (induction y pts rule: merge_points.induct) (auto split: if_splits)

text \<open>Compression keeps the set, and makes a sorted array canonical.\<close>

lemma compress_count: "even (length pts) \<Longrightarrow> odd (cr_count c (compress pts)) = odd (cr_count c pts)"
proof (induction pts rule: compress.induct)
  case (1 x y pts)
  obtain y' pts' where m: "merge_points y pts = (y', pts')" by fastforce
  show ?case
  proof (cases "x = y")
    case False
    then have "odd (cr_count c (compress pts')) = odd (cr_count c pts')"
      using 1(2) [OF _ m [symmetric]] 1(3) merge_points_even [OF m] by simp
    then show ?thesis
      using False m merge_points_count [OF m, of c] by auto
  qed (use 1 in simp)
qed auto

lemma merge_points_sorted:
  "merge_points y pts = (y', pts') \<Longrightarrow> sorted (y # pts) \<Longrightarrow> even (length pts) \<Longrightarrow>
    y \<le> y' \<and> sorted (y' # pts') \<and> (\<forall>z\<in>set pts'. y' < z)"
proof (induction y pts rule: merge_points.induct)
  case (1 y z w pts)
  show ?case
  proof (cases "y = z")
    case True
    with 1 show ?thesis by auto
  next
    case False
    with 1(3) have "y < z" "z \<le> w" "\<forall>x\<in>set pts. z \<le> x" by auto
    then have "\<forall>x\<in>set (z # w # pts). y < x" by auto
    with False 1(2,3) show ?thesis by auto
  qed
qed auto

lemma compress_canonical:
  "sorted pts \<Longrightarrow> even (length pts) \<Longrightarrow> cr_canonical (compress pts) \<and> set (compress pts) \<subseteq> set pts"
proof (induction pts rule: compress.induct)
  case (1 x y pts)
  obtain y' pts' where m: "merge_points y pts = (y', pts')" by fastforce
  show ?case
  proof (cases "x = y")
    case False
    have s: "y \<le> y'" "sorted (y' # pts')" "\<forall>z\<in>set pts'. y' < z" "even (length pts')"
      using merge_points_sorted [OF m] merge_points_even [OF m] 1(3,4) by auto
    then have c: "cr_canonical (compress pts')" "set (compress pts') \<subseteq> set pts'"
      using 1(2) [OF False m [symmetric]] by auto
    have x: "x < y'" using False s(1) 1(3) by auto
    have sub: "y' \<in> set (y # pts) \<and> set pts' \<subseteq> set pts"
      by (rule merge_points_set [OF m])
    have "\<forall>z\<in>set (compress pts'). y' < z \<and> x < z"
      using s(3) c(2) x by fastforce
    then show ?thesis
      using False m c x sub by (auto simp: cr_canonical_def)
  qed (use 1 in auto)
qed (auto simp: cr_canonical_def)

subsection \<open>Allocation\<close>

text \<open>Outcome of an operation that grows the array: either the allocator has refused a block, or
the points are the expected ones.\<close>

definition cr_gives :: "char_range \<Rightarrow> char_range \<times> int \<Rightarrow> (u32 list \<Rightarrow> bool) \<Rightarrow> bool" where
  "cr_gives cr res P \<longleftrightarrow>
    (snd res = -1 \<and> (\<exists>n. \<not> cr_realloc_func cr n) \<or> snd res = 0 \<and> P (cr_points (fst res)))
    \<and> cr_realloc_func (fst res) = cr_realloc_func cr"

lemma cr_realloc_cases:
  "cr_realloc cr sz = (cr, -1) \<and> (\<exists>n. \<not> cr_realloc_func cr n) \<or> (\<exists>n. cr_realloc cr sz = (cr\<lparr>cr_size := n\<rparr>, 0))"
proof (cases "sz > cr_size cr \<and> \<not> cr_realloc_func cr (max sz (cr_size cr * 3 div 2) * 4)")
  case True
  then have "cr_realloc cr sz = (cr, -1)" by (auto simp: cr_realloc_def Let_def)
  with True show ?thesis by blast
next
  case False
  then have "cr_realloc cr sz = (cr\<lparr>cr_size := if sz > cr_size cr then max sz (cr_size cr * 3 div 2) else cr_size cr\<rparr>, 0)"
    by (auto simp: cr_realloc_def Let_def)
  then show ?thesis by blast
qed

lemma cr_add_point_gives: "cr_gives cr (cr_add_point cr v) (\<lambda>pts. pts = cr_points cr @ [v])"
  using cr_realloc_cases [of cr "int (cr_len cr) + 1"] by (auto simp: cr_gives_def cr_add_point_def)

lemma cr_add_interval_gives: "cr_gives cr (cr_add_interval cr c1 c2) (\<lambda>pts. pts = cr_points cr @ [c1, c2])"
  using cr_realloc_cases [of cr "int (cr_len cr) + 2"] by (auto simp: cr_gives_def cr_add_interval_def)

lemma cr_copy_gives: "cr_gives cr (cr_copy cr cr1) (\<lambda>pts. pts = cr_points cr1)"
  using cr_realloc_cases [of cr "int (cr_len cr1)"] by (auto simp: cr_gives_def cr_copy_def)

subsection \<open>The Boolean operations\<close>

definition cr_op_sem :: "char_range_op \<Rightarrow> u32 set \<Rightarrow> u32 set \<Rightarrow> u32 set" where
  "cr_op_sem op A B = {c. cr_is_in op (c \<in> A) (c \<in> B)}"

lemma cr_op_sem_simps:
  "cr_op_sem CR_OP_UNION A B = A \<union> B" "cr_op_sem CR_OP_INTER A B = A \<inter> B"
  "cr_op_sem CR_OP_XOR A B = (A - B) \<union> (B - A)" "cr_op_sem CR_OP_SUB A B = A - B"
  by (auto simp: cr_op_sem_def)

text \<open>A step of the merge takes the smallest point left and drops it from the arrays it is in.\<close>

lemma cr_next_point_None: "cr_next_point a b i j = None \<longleftrightarrow> length a \<le> i \<and> length b \<le> j"
  by (auto simp: cr_next_point_def)

lemma cr_next_point_Some:
  assumes "cr_next_point a b i j = Some (v, i', j')" "sorted a" "sorted b"
  shows "\<forall>p\<in>set (drop i a) \<union> set (drop j b). v \<le> p"
    and "v \<le> c \<Longrightarrow> i + cr_count c (drop i a) = i' + cr_count c (drop i' a)"
    and "v \<le> c \<Longrightarrow> j + cr_count c (drop j b) = j' + cr_count c (drop j' b)"
    and "v \<in> set (drop i a) \<union> set (drop j b)"
    and "set (drop i' a) \<subseteq> set (drop i a)" "set (drop j' b) \<subseteq> set (drop j b)"
proof -
  have da: "drop i a = a ! i # drop (i + 1) a" if "i < length a"
    using that by (simp add: Cons_nth_drop_Suc)
  have db: "drop j b = b ! j # drop (j + 1) b" if "j < length b"
    using that by (simp add: Cons_nth_drop_Suc)
  have la: "\<forall>p\<in>set (drop i a). a ! i \<le> p" if "i < length a"
    using that assms(2) by (auto simp: in_set_conv_nth intro!: sorted_nth_mono)
  have lb: "\<forall>p\<in>set (drop j b). b ! j \<le> p" if "j < length b"
    using that assms(3) by (auto simp: in_set_conv_nth intro!: sorted_nth_mono)
  have "i < length a \<and> v = a ! i \<and> i' = i + 1 \<and> j' = j \<and> (length b \<le> j \<or> a ! i < b ! j \<and> j < length b)
    \<or> i < length a \<and> j < length b \<and> v = a ! i \<and> v = b ! j \<and> i' = i + 1 \<and> j' = j + 1
    \<or> j < length b \<and> v = b ! j \<and> i' = i \<and> j' = j + 1 \<and> (length a \<le> i \<or> b ! j < a ! i \<and> i < length a)"
    using assms(1) by (cases "a ! i" "b ! j" rule: linorder_cases)
      (auto simp: cr_next_point_def split: if_splits)
  then consider (a) "i < length a" "v = a ! i" "i' = i + 1" "j' = j" "length b \<le> j \<or> a ! i < b ! j \<and> j < length b"
    | (ab) "i < length a" "j < length b" "v = a ! i" "v = b ! j" "i' = i + 1" "j' = j + 1"
    | (b) "j < length b" "v = b ! j" "i' = i" "j' = j + 1" "length a \<le> i \<or> b ! j < a ! i \<and> i < length a"
    by blast
  note cases = this
  show "\<forall>p\<in>set (drop i a) \<union> set (drop j b). v \<le> p"
    using cases
  proof cases
    case a
    with la lb have "\<forall>p\<in>set (drop j b). a ! i \<le> p" by fastforce
    with la a show ?thesis by auto
  next
    case ab
    with la lb show ?thesis by auto
  next
    case b
    with la lb have "\<forall>p\<in>set (drop i a). b ! j \<le> p" by fastforce
    with lb b show ?thesis by auto
  qed
  show "i + cr_count c (drop i a) = i' + cr_count c (drop i' a)" if "v \<le> c"
    using cases that by cases (simp_all add: da)
  show "j + cr_count c (drop j b) = j' + cr_count c (drop j' b)" if "v \<le> c"
    using cases that by cases (simp_all add: db)
  show "v \<in> set (drop i a) \<union> set (drop j b)"
    using cases by cases (simp_all add: da db)
  show "set (drop i' a) \<subseteq> set (drop i a)" "set (drop j' b) \<subseteq> set (drop j b)"
    using cases by (cases; simp add: set_drop_subset_set_drop)+
qed

lemma cr_count_0: "\<forall>p\<in>set pts. c < p \<Longrightarrow> cr_count c pts = 0"
  by (auto simp: cr_count_def filter_empty_conv not_le)

definition cr_op_result :: "u32 list \<Rightarrow> u32 list \<Rightarrow> u32 list \<Rightarrow> nat \<Rightarrow> nat \<Rightarrow> char_range_op \<Rightarrow> u32 list \<Rightarrow> bool" where
  "cr_op_result P a b i j op R \<longleftrightarrow>
    (\<exists>Q. R = P @ Q \<and> sorted Q \<and> set Q \<subseteq> set (drop i a) \<union> set (drop j b)
      \<and> odd (length R) = cr_is_in op (odd (i + length (drop i a))) (odd (j + length (drop j b)))
      \<and> (\<forall>c. odd (length P + cr_count c Q) =
          cr_is_in op (odd (i + cr_count c (drop i a))) (odd (j + cr_count c (drop j b)))))"

lemma cr_op_result_step:
  assumes step: "cr_next_point a b i j = Some (v, i', j')" "sorted a" "sorted b"
    and inv: "odd (length P) = cr_is_in op (odd i) (odd j)"
    and res: "cr_op_result P' a b i' j' op R" and P': "P' = P \<or> P' = P @ [v]"
  shows "cr_op_result P a b i j op R"
proof -
  note s = cr_next_point_Some [OF step]
  obtain Q where Q: "R = P' @ Q" "sorted Q" "set Q \<subseteq> set (drop i' a) \<union> set (drop j' b)"
    "odd (length R) = cr_is_in op (odd (i' + length (drop i' a))) (odd (j' + length (drop j' b)))"
    "\<And>c. odd (length P' + cr_count c Q) =
      cr_is_in op (odd (i' + cr_count c (drop i' a))) (odd (j' + cr_count c (drop j' b)))"
    using res by (auto simp: cr_op_result_def)
  define Q' where "Q' = drop (length P) P' @ Q"
  have R: "R = P @ Q'" using P' Q(1) by (auto simp: Q'_def)
  have sub: "set Q' \<subseteq> set (drop i a) \<union> set (drop j b)"
    using P' Q(3) s(4-6) by (auto simp: Q'_def)
  have "sorted Q'"
    using P' Q(2,3) s(1,5,6) by (fastforce simp: Q'_def)
  moreover have "odd (length P + cr_count c Q') =
      cr_is_in op (odd (i + cr_count c (drop i a))) (odd (j + cr_count c (drop j b)))" for c
  proof (cases "v \<le> c")
    case True
    then have "length P + cr_count c Q' = length P' + cr_count c Q"
      using P' by (auto simp: Q'_def)
    then show ?thesis using Q(5) [of c] s(2,3) [OF True] by simp
  next
    case False
    then have "\<forall>p\<in>set (drop i a) \<union> set (drop j b). c < p" using s(1) by (auto simp: not_le intro: less_le_trans)
    then have "cr_count c Q' = 0" "cr_count c (drop i a) = 0" "cr_count c (drop j b) = 0"
      using sub by (auto intro!: cr_count_0)
    then show ?thesis using inv by simp
  qed
  moreover have "i + length (drop i a) = i' + length (drop i' a)" "j + length (drop j b) = j' + length (drop j' b)"
    using step(1) by (auto simp: cr_next_point_def split: if_splits)
  ultimately show ?thesis
    using R sub Q(4) unfolding cr_op_result_def by (metis (no_types, lifting))
qed

lemma cr_op_loop_gives:
  assumes "sorted a" "sorted b" "odd (cr_len cr) = cr_is_in op (odd i) (odd j)" "i \<le> length a" "j \<le> length b"
  shows "cr_gives cr (cr_op_loop cr a b i j op) (cr_op_result (cr_points cr) a b i j op)"
  using assms
proof (induction "length a - i + (length b - j)" arbitrary: cr i j rule: less_induct)
  case less
  show ?case
  proof (cases "cr_next_point a b i j")
    case None
    then have "cr_op_loop cr a b i j op = (cr, 0)"
      by (simp add: cr_op_loop.simps [of cr a b i j])
    with None less(4-) show ?thesis
      by (auto simp: cr_gives_def cr_op_result_def cr_next_point_None)
  next
    case (Some n)
    obtain v i' j' where n: "n = (v, i', j')" by (metis prod_cases3)
    note step = Some [unfolded n]
    have bounds: "i' \<le> length a" "j' \<le> length b"
      using step less(5,6) by (auto simp: cr_next_point_def split: if_splits)
    note IH = less(1) [OF cr_next_point_progress [OF step] less(2) less(3) _ bounds]
    note lift = cr_op_result_step [OF step less(2) less(3) less(4)]
    show ?thesis
    proof (cases "cr_is_in op (odd i') (odd j') = odd (cr_len cr)")
      case True
      with IH [of cr] lift [of "cr_points cr"] show ?thesis
        by (auto simp: cr_op_loop.simps [of cr a b i j] step cr_gives_def)
    next
      case False
      obtain cr' r where add: "cr_add_point cr v = (cr', r)" by fastforce
      with cr_add_point_gives [of cr v] have
        "r = -1 \<and> (\<exists>n. \<not> cr_realloc_func cr n) \<or> r = 0 \<and> cr_points cr' = cr_points cr @ [v]"
        "cr_realloc_func cr' = cr_realloc_func cr"
        by (auto simp: cr_gives_def)
      with False IH [of cr'] lift [of "cr_points cr @ [v]"] show ?thesis
        by (auto simp: cr_op_loop.simps [of cr a b i j] step cr_gives_def add)
    qed
  qed
qed

lemma cr_op_gives:
  assumes "cr_sorted a" "cr_sorted b" "cr_points cr = []"
  shows "cr_gives cr (cr_op cr a b op) (\<lambda>pts. cr_canonical pts \<and> cr_set pts = cr_op_sem op (cr_set a) (cr_set b))"
proof -
  obtain cr1 r where loop: "cr_op_loop cr a b 0 0 op = (cr1, r)" by fastforce
  have start: "\<not> cr_is_in op False False" by (cases op) auto
  have g: "cr_gives cr (cr_op_loop cr a b 0 0 op) (cr_op_result (cr_points cr) a b 0 0 op)"
    using assms start by (intro cr_op_loop_gives) (auto simp: cr_sorted_def)
  have res: "cr_canonical (compress pts) \<and> cr_set (compress pts) = cr_op_sem op (cr_set a) (cr_set b)"
    if "cr_op_result (cr_points cr) a b 0 0 op pts" for pts
  proof -
    have q: "sorted pts" "even (length pts)" "\<And>c. odd (cr_count c pts) = cr_is_in op (odd (cr_count c a)) (odd (cr_count c b))"
      using that assms start by (auto simp: cr_op_result_def cr_sorted_def)
    then show ?thesis
      using compress_canonical compress_count by (auto simp: cr_set_def cr_op_sem_def)
  qed
  show ?thesis
    using g res [of "cr_points cr1"] by (auto simp: cr_op_def loop cr_gives_def)
qed

lemma cr_op1_gives:
  assumes "cr_sorted (cr_points cr)" "cr_sorted b"
  shows "cr_gives cr (cr_op1 cr b op)
    (\<lambda>pts. cr_canonical pts \<and> cr_set pts = cr_op_sem op (cr_set (cr_points cr)) (cr_set b))"
  using cr_op_gives [OF assms, of "cr\<lparr>cr_points := [], cr_size := 0\<rparr>" op]
  by (simp add: cr_op1_def cr_gives_def)

lemma cr_set_interval: "cr_set [c1, c2] = (if c1 \<le> c2 then {c1..<c2} else {c2..<c1})"
  by (auto simp: cr_set_def)

lemma cr_union_interval_gives:
  assumes "cr_sorted (cr_points cr)" "c1 \<le> c2" "c2 < UINT32_MAX"
  shows "cr_gives cr (cr_union_interval cr c1 c2)
    (\<lambda>pts. cr_canonical pts \<and> cr_set pts = cr_set (cr_points cr) \<union> {c1..c2})"
proof -
  have "uint (c2 + 1) = uint c2 + 1"
    using assms(3) by (simp add: UINT32_MAX_def word_less_def uint_word_ariths)
  then have lt: "c < c2 + 1 \<longleftrightarrow> c \<le> c2" for c
    unfolding word_less_def word_le_def by linarith
  have le: "c1 \<le> c2 + 1"
    using lt [of c1] assms(2) by (simp only: less_imp_le)
  have "{c1..<c2 + 1} = {c1..c2}"
    unfolding atLeastLessThan_def atLeastAtMost_def lessThan_def atMost_def lt ..
  moreover have "cr_sorted [c1, c2 + 1]"
    using le by (simp only: cr_sorted_def sorted2 list.size) simp
  ultimately show ?thesis
    using cr_op1_gives [OF assms(1), of "[c1, c2 + 1]" CR_OP_UNION] le
    by (simp only: cr_union_interval_def cr_set_interval cr_op_sem_simps if_True)
qed

lemma u32_le_max: "(p :: u32) \<le> UINT32_MAX"
  unfolding word_le_def UINT32_MAX_def using uint_lt2p [of p] by simp

lemma cr_set_invert:
  assumes "even (length pts)"
  shows "cr_set (0 # pts @ [UINT32_MAX]) = {c. c < UINT32_MAX} - cr_set pts"
proof -
  have "c \<in> cr_set (0 # pts @ [UINT32_MAX]) \<longleftrightarrow> c < UINT32_MAX \<and> c \<notin> cr_set pts" for c
  proof (cases "c = UINT32_MAX")
    case True
    have "cr_count UINT32_MAX pts = length pts"
      by (simp add: cr_count_def u32_le_max)
    with True assms show ?thesis by (simp add: cr_set_def)
  next
    case False
    then have "c < UINT32_MAX"
      using u32_le_max [of c] by (simp add: order_less_le)
    then show ?thesis by (auto simp: cr_set_def)
  qed
  then show ?thesis by auto
qed

lemma cr_set_below: "even (length pts) \<Longrightarrow> c \<in> cr_set pts \<Longrightarrow> c < UINT32_MAX"
proof (rule ccontr)
  assume "even (length pts)" "c \<in> cr_set pts" "\<not> c < UINT32_MAX"
  moreover from this have "c = UINT32_MAX"
    using u32_le_max [of c] by (simp add: not_less antisym)
  then have "cr_count c pts = length pts"
    by (simp add: cr_count_def u32_le_max)
  ultimately show False by (simp add: cr_set_def)
qed

lemma cr_invert_gives:
  assumes "cr_sorted (cr_points cr)"
  shows "cr_gives cr (cr_invert cr)
    (\<lambda>pts. cr_canonical pts \<and> cr_set pts = {c. c < UINT32_MAX} - cr_set (cr_points cr))"
proof -
  let ?pts = "0 # cr_points cr @ [UINT32_MAX]"
  have "sorted ?pts" "even (length ?pts)"
    using assms u32_le_max by (auto simp: cr_sorted_def sorted_append)
  then have "cr_canonical (compress ?pts)" "cr_set (compress ?pts) = cr_set ?pts"
    using compress_canonical compress_count by (auto simp: cr_set_def)
  moreover have "cr_set ?pts = {c. c < UINT32_MAX} - cr_set (cr_points cr)"
    using assms by (intro cr_set_invert) (simp add: cr_sorted_def)
  ultimately show ?thesis
    using cr_realloc_cases [of cr "int (cr_len cr) + 2"]
    by (elim disjE exE conjE) (simp_all add: cr_gives_def cr_invert_def exI [of "\<lambda>n. \<not> cr_realloc_func cr n"] del: compress.simps)
qed

subsection \<open>Sorting intervals\<close>

interpretation point: comparator point_cmp
  by unfold_locales (auto simp: point_cmp_def split: if_splits)

definition intervals_set :: "(u32 \<times> u32) list \<Rightarrow> u32 set" where
  "intervals_set ivs = {c. \<exists>(s, e)\<in>set ivs. s \<le> c \<and> c < e}"

lemma intervals_set_Cons: "intervals_set ((s, e) # ivs) = {s..<e} \<union> intervals_set ivs"
  by (auto simp: intervals_set_def)

lemma cr_extend_spec:
  assumes "cr_extend e ivs = (e', ivs')" "sorted (map fst ivs)" "s < e"
    and "\<forall>iv\<in>set ivs. fst iv < snd iv \<and> s \<le> fst iv"
  shows "e \<le> e' \<and> {s..<e} \<union> intervals_set ivs = {s..<e'} \<union> intervals_set ivs'
    \<and> (\<forall>iv\<in>set ivs'. e' < fst iv) \<and> sorted (map fst ivs') \<and> set ivs' \<subseteq> set ivs"
  using assms
proof (induction e ivs rule: cr_extend.induct)
  case (2 e start1 end1 ivs)
  have iv: "intervals_set ((start1, end1) # ivs) = {start1..<end1} \<union> intervals_set ivs"
    by (rule intervals_set_Cons)
  consider (apart) "start1 > e" | (inside) "start1 \<le> e" "end1 \<le> e" | (longer) "start1 \<le> e" "e < end1"
    by fastforce
  then show ?case
  proof cases
    case apart
    with 2(4) have "\<forall>iv\<in>set ((start1, end1) # ivs). e < fst iv" by (auto intro: less_le_trans)
    with apart 2(3-) show ?thesis by auto
  next
    case inside
    from inside 2(5,6) have sub: "{start1..<end1} \<subseteq> {s..<e}" by auto
    from inside 2(3) have x: "cr_extend e ivs = (e', ivs')" by (simp add: leD)
    have "e \<le> e' \<and> {s..<e} \<union> intervals_set ivs = {s..<e'} \<union> intervals_set ivs'
      \<and> (\<forall>iv\<in>set ivs'. e' < fst iv) \<and> sorted (map fst ivs') \<and> set ivs' \<subseteq> set ivs"
      using inside x 2(4-) by (intro 2(1)) (auto simp: leD)
    with sub show ?thesis unfolding iv by auto
  next
    case longer
    from longer 2(5,6) have join: "{s..<e} \<union> {start1..<end1} = {s..<end1}" by auto
    from longer 2(3) have x: "cr_extend end1 ivs = (e', ivs')" by (simp add: leD not_le [THEN iffD2])
    have "end1 \<le> e' \<and> {s..<end1} \<union> intervals_set ivs = {s..<e'} \<union> intervals_set ivs'
      \<and> (\<forall>iv\<in>set ivs'. e' < fst iv) \<and> sorted (map fst ivs') \<and> set ivs' \<subseteq> set ivs"
      using longer x 2(4-) by (intro 2(2)) (auto simp: leD not_le [THEN iffD2] intro: less_trans)
    with join longer show ?thesis unfolding iv by (auto simp: Un_assoc [symmetric])
  qed
qed auto

lemma cr_remove_overlap_spec:
  assumes "sorted (map fst ivs)" "\<forall>iv\<in>set ivs. fst iv < snd iv"
  shows "cr_canonical (cr_remove_overlap ivs) \<and> cr_set (cr_remove_overlap ivs) = intervals_set ivs
    \<and> (\<forall>l. (\<forall>iv\<in>set ivs. l < fst iv) \<longrightarrow> (\<forall>p\<in>set (cr_remove_overlap ivs). l < p))"
  using assms
proof (induction ivs rule: cr_remove_overlap.induct)
  case 1
  show ?case by (simp add: cr_canonical_def cr_set_def intervals_set_def)
next
  case (2 start e ivs)
  obtain e' ivs' where x: "cr_extend e ivs = (e', ivs')" by fastforce
  have X: "e \<le> e'" "{start..<e} \<union> intervals_set ivs = {start..<e'} \<union> intervals_set ivs'"
    "\<forall>iv\<in>set ivs'. e' < fst iv" "sorted (map fst ivs')" "set ivs' \<subseteq> set ivs" "start < e"
    using cr_extend_spec [OF x, of start] 2(2,3) by auto
  let ?r = "cr_remove_overlap ivs'"
  have R: "cr_canonical ?r" "cr_set ?r = intervals_set ivs'"
    "\<And>l. \<forall>iv\<in>set ivs'. l < fst iv \<Longrightarrow> \<forall>p\<in>set ?r. l < p"
    using 2(1) [OF x [symmetric]] X(4,5) 2(3) by auto
  have above: "\<forall>p\<in>set ?r. e' < p" by (rule R(3) [OF X(3)])
  have "c \<in> cr_set (start # e' # ?r) \<longleftrightarrow> start \<le> c \<and> c < e' \<or> c \<in> cr_set ?r" for c
  proof (cases "c < e'")
    case True
    then have "cr_count c ?r = 0"
      using above by (intro cr_count_0) (auto intro: less_trans)
    with True show ?thesis by (auto simp: cr_set_def)
  next
    case False
    then have "start \<le> c" using X(1,6) by auto
    with False show ?thesis by (auto simp: cr_set_def)
  qed
  then have "cr_set (start # e' # ?r) = {start..<e'} \<union> intervals_set ivs'"
    using R(2) by auto
  also have "\<dots> = intervals_set ((start, e) # ivs)"
    using X(2) by (simp add: intervals_set_Cons)
  finally have "cr_set (start # e' # ?r) = intervals_set ((start, e) # ivs)" .
  moreover have "start < e'" using X(1,6) by auto
  moreover have "\<forall>p\<in>set ?r. start < p" using above \<open>start < e'\<close> by (auto intro: less_trans)
  ultimately show ?case
    using R(1,3) above X(5) by (auto simp: x cr_canonical_def intro: less_trans)
qed

lemma cr_sort_and_remove_overlap_spec:
  assumes "\<forall>iv\<in>set (point_pairs (cr_points cr)). fst iv < snd iv"
  shows "\<exists>cr'. cr_sort_and_remove_overlap cr = Some cr' \<and> cr_canonical (cr_points cr')
    \<and> cr_set (cr_points cr') = intervals_set (point_pairs (cr_points cr))"
proof -
  obtain ivs where s: "rqsort point_cmp (point_pairs (cr_points cr)) = Some ivs"
    "mset ivs = mset (point_pairs (cr_points cr))"
    using rqsort_mset by blast
  have "sorted_wrt (\<lambda>x y. point_cmp x y \<le> 0) ivs"
    by (rule point.rqsort_sorted [OF s(1)])
  then have "sorted (map fst ivs)"
    by (auto simp: sorted_wrt_map point_cmp_def elim!: sorted_wrt_mono_rel [rotated] split: if_splits)
  moreover have set: "set ivs = set (point_pairs (cr_points cr))"
    using s(2) by (metis set_mset_mset)
  ultimately show ?thesis
    using cr_remove_overlap_spec [of ivs] assms
    by (auto simp: cr_sort_and_remove_overlap_def s(1) intervals_set_def)
qed

section \<open>The theorems\<close>

text \<open>C22 On arrays of sorted points the Boolean operations compute the set operation, whatever
the array held in the struct before was, and leave a canonical array (strictly increasing, an even
number of points); the only other outcome is the error of a refused allocation.\<close>

theorem cr_op_correct:
  assumes "cr_sorted (cr_points cr)" "cr_sorted b"
  shows "(case cr_op1 cr b op of (cr', r) \<Rightarrow>
      r = -1 \<and> (\<exists>n. \<not> cr_realloc_func cr n)
      \<or> r = 0 \<and> cr_canonical (cr_points cr')
        \<and> cr_set (cr_points cr') =
            (case op of CR_OP_UNION \<Rightarrow> cr_set (cr_points cr) \<union> cr_set b
             | CR_OP_INTER \<Rightarrow> cr_set (cr_points cr) \<inter> cr_set b
             | CR_OP_XOR \<Rightarrow> (cr_set (cr_points cr) - cr_set b) \<union> (cr_set b - cr_set (cr_points cr))
             | CR_OP_SUB \<Rightarrow> cr_set (cr_points cr) - cr_set b))"
  using cr_op1_gives [OF assms, of op]
  by (cases op) (simp_all add: cr_gives_def cr_op_sem_simps case_prod_beta)

theorem cr_op_correct_witness:
  "case cr_op1 (cr_init (\<lambda>n. n \<le> 1000) None\<lparr>cr_points := [97, 123]\<rparr>) [65, 100] CR_OP_SUB of (cr', r) \<Rightarrow>
    r = -1 \<and> (\<exists>n. \<not> cr_realloc_func (cr_init (\<lambda>n. n \<le> 1000) None\<lparr>cr_points := [97, 123]\<rparr>) n)
    \<or> r = 0 \<and> cr_canonical (cr_points cr')
      \<and> cr_set (cr_points cr') = cr_set (cr_points (cr_init (\<lambda>n. n \<le> 1000) None\<lparr>cr_points := [97, 123]\<rparr>)) - cr_set [65, 100]"
  by (rule cr_op_correct [of "cr_init (\<lambda>n. n \<le> 1000) None\<lparr>cr_points := [97, 123]\<rparr>" "[65, 100]" CR_OP_SUB,
        unfolded char_range_op.case])
     (simp_all add: cr_sorted_def)

text \<open>Inverting a range complements it among the code points below
\<^verbatim>\<open>UINT32_MAX\<close>, so that inverting twice gives the set back.\<close>

theorem cr_invert_correct:
  assumes "cr_sorted (cr_points cr)" "\<forall>n. cr_realloc_func cr n"
  shows "snd (cr_invert cr) = 0
    \<and> cr_set (cr_points (fst (cr_invert cr))) = {c. c < UINT32_MAX} - cr_set (cr_points cr)
    \<and> cr_set (cr_points (fst (cr_invert (fst (cr_invert cr))))) = cr_set (cr_points cr)"
proof -
  let ?cr = "fst (cr_invert cr)"
  have 1: "snd (cr_invert cr) = 0" "cr_canonical (cr_points ?cr)" "cr_realloc_func ?cr = cr_realloc_func cr"
    "cr_set (cr_points ?cr) = {c. c < UINT32_MAX} - cr_set (cr_points cr)"
    using cr_invert_gives [OF assms(1)] assms(2) by (auto simp: cr_gives_def)
  then have "cr_set (cr_points (fst (cr_invert ?cr))) = {c. c < UINT32_MAX} - cr_set (cr_points ?cr)"
    using cr_invert_gives [OF cr_canonical_sorted, of ?cr] assms(2) by (auto simp: cr_gives_def)
  also have "\<dots> = cr_set (cr_points cr)"
    using cr_set_below [of "cr_points cr"] assms(1) unfolding 1(4) by (auto simp: cr_sorted_def)
  finally show ?thesis using 1 by blast
qed

theorem cr_invert_correct_witness:
  "snd (cr_invert (cr_init (\<lambda>n. True) None)) = 0
    \<and> cr_set (cr_points (fst (cr_invert (cr_init (\<lambda>n. True) None)))) = {c. c < UINT32_MAX} - cr_set []"
  using cr_invert_correct [of "cr_init (\<lambda>n. True) None"] by (simp add: cr_init_def cr_sorted_def)

text \<open>C23 Sorting intervals given in any order, with any overlaps, and merging them gives the
canonical array of their union.\<close>

theorem cr_sort_and_remove_overlap_correct:
  assumes "\<forall>iv\<in>set (point_pairs (cr_points cr)). fst iv < snd iv"
  shows "\<exists>cr'. cr_sort_and_remove_overlap cr = Some cr' \<and> cr_canonical (cr_points cr')
    \<and> cr_set (cr_points cr') = {c. \<exists>(s, e)\<in>set (point_pairs (cr_points cr)). s \<le> c \<and> c < e}"
  using cr_sort_and_remove_overlap_spec [OF assms] by (simp add: intervals_set_def)

theorem cr_sort_and_remove_overlap_correct_witness:
  "\<exists>cr'. cr_sort_and_remove_overlap (cr_init (\<lambda>n. True) None\<lparr>cr_points := [50, 60, 10, 20, 15, 55]\<rparr>) = Some cr'
    \<and> cr_canonical (cr_points cr')
    \<and> cr_set (cr_points cr') = {c. \<exists>(s, e)\<in>set (point_pairs (cr_points
        (cr_init (\<lambda>n. True) None\<lparr>cr_points := [50, 60, 10, 20, 15, 55]\<rparr>))). s \<le> c \<and> c < e}"
  by (rule cr_sort_and_remove_overlap_correct) simp

end
