(* ===== verification/Unicode_Props.thy ===== *)
theory Unicode_Props
  imports Unicode_Tables
begin

text \<open>The character property tests of \<^verbatim>\<open>src/quickjs/libunicode.c\<close> and
\<^verbatim>\<open>libunicode.h\<close> that decide which characters may be in an identifier and which
are cased. A property is a table of run lengths, coded in one to three bytes, with an index that
gives for every block of 32 bytes the code point at its start. A read outside of a table is
\<open>None\<close>.

The theory shows, for the four tables of the program, that every lookup ends inside the tables and
that the indexed lookup gives the same answer as a scan of the whole table from its start: the index
and the table agree. The check of each table is an evaluation in the kernel.\<close>

section \<open>Definitions\<close>

definition get_le24 :: "u8 list \<Rightarrow> nat \<Rightarrow> u32 option" where
  "get_le24 ptr off =
    (if off + 2 < length ptr
     then Some (ucast (ptr ! off) OR push_bit 8 (ucast (ptr ! (off + 1))) OR push_bit 16 (ucast (ptr ! (off + 2))))
     else None)"

definition UNICODE_INDEX_BLOCK_LEN :: nat where
  "UNICODE_INDEX_BLOCK_LEN = 32"

text \<open>The code point of an index entry: the low 21 bits.\<close>

definition index_code :: "u32 \<Rightarrow> u32" where
  "index_code v = v AND 0x1FFFFF"

function index_search :: "u8 list \<Rightarrow> u32 \<Rightarrow> nat \<Rightarrow> nat \<Rightarrow> nat option" where
  "index_search index_table c idx_min idx_max =
    (if idx_max - idx_min > 1 then
       let idx = (idx_max + idx_min) div 2 in
       case get_le24 index_table (idx * 3) of
         None \<Rightarrow> None
       | Some v \<Rightarrow>
           if c < index_code v then index_search index_table c idx_min idx
           else index_search index_table c idx idx_max
     else Some idx_min)"
  by pat_completeness auto
termination
  by (relation "measure (\<lambda>(t, c, i, j). j - i)") auto

declare index_search.simps [simp del]

text \<open>The result is the position, or -1 outside of the table, and the value of
\<^verbatim>\<open>*pcode\<close>.\<close>

definition get_index_pos :: "u32 \<Rightarrow> u8 list \<Rightarrow> nat \<Rightarrow> (int \<times> u32) option" where
  "get_index_pos c index_table index_table_len =
    (case get_le24 index_table 0 of
       None \<Rightarrow> None
     | Some v \<Rightarrow>
         if c < index_code v then Some (0, 0)
         else
           (case get_le24 index_table ((index_table_len - 1) * 3) of
              None \<Rightarrow> None
            | Some code \<Rightarrow>
                if c \<ge> code then Some (-1, 0)
                else
                  (case index_search index_table c 0 (index_table_len - 1) of
                     None \<Rightarrow> None
                   | Some idx_min \<Rightarrow>
                       (case get_le24 index_table (idx_min * 3) of
                          None \<Rightarrow> None
                        | Some v \<Rightarrow>
                            Some (int ((idx_min + 1) * UNICODE_INDEX_BLOCK_LEN + unat (drop_bit 21 v)), index_code v)))))"

text \<open>One code of the table: the one or two run lengths it stands for and the rest of the
bytes.\<close>

fun decode_run :: "u8 list \<Rightarrow> (u32 list \<times> u8 list) option" where
  "decode_run [] = None"
| "decode_run (b # p) =
    (if b < 64 then Some ([ucast (drop_bit 3 b) + 1, ucast (b AND 7) + 1], p)
     else if b \<ge> 0x80 then Some ([ucast b - 0x80 + 1], p)
     else if b < 0x60 then
       (case p of [] \<Rightarrow> None | p0 # p \<Rightarrow> Some ([(push_bit 8 (ucast b - 0x40) OR ucast p0) + 1], p))
     else
       (case p of p0 # p1 # p \<Rightarrow> Some ([(push_bit 16 (ucast b - 0x60) OR push_bit 8 (ucast p0) OR ucast p1) + 1], p)
        | _ \<Rightarrow> None))"

text \<open>The runs of one code: \<open>Inl\<close> is the answer, \<open>Inr\<close> the state after
them.\<close>

fun in_runs :: "u32 \<Rightarrow> u32 \<Rightarrow> bool \<Rightarrow> u32 list \<Rightarrow> bool + (u32 \<times> bool)" where
  "in_runs c code bt [] = Inr (code, bt)"
| "in_runs c code bt (n # ns) =
    (if c < code + n then Inl bt else in_runs c (code + n) (\<not> bt) ns)"

lemma decode_run_shorter: "decode_run p = Some (runs, p') \<Longrightarrow> length p' < length p"
  by (cases p rule: decode_run.cases) (auto split: if_splits list.splits)

function in_table_loop :: "u32 \<Rightarrow> u8 list \<Rightarrow> u32 \<Rightarrow> bool \<Rightarrow> bool option" where
  "in_table_loop c p code bt =
    (case decode_run p of
       None \<Rightarrow> None
     | Some (runs, p') \<Rightarrow>
         (case in_runs c code bt runs of
            Inl b \<Rightarrow> Some b
          | Inr (code', bt') \<Rightarrow> in_table_loop c p' code' bt'))"
  by pat_completeness auto
termination
  by (relation "measure (\<lambda>(c, p, code, bt). length p)") (auto dest: decode_run_shorter)

declare in_table_loop.simps [simp del]

definition lre_is_in_table :: "u32 \<Rightarrow> u8 list \<Rightarrow> u8 list \<Rightarrow> nat \<Rightarrow> bool option" where
  "lre_is_in_table c table index_table index_table_len =
    (case get_index_pos c index_table index_table_len of
       None \<Rightarrow> None
     | Some (pos, code) \<Rightarrow>
         if pos < 0 then Some False else in_table_loop c (drop (nat pos) table) code False)"

definition lre_is_case_ignorable :: "u32 \<Rightarrow> bool option" where
  "lre_is_case_ignorable c =
    lre_is_in_table c unicode_prop_Case_Ignorable_table unicode_prop_Case_Ignorable_index
      (length unicode_prop_Case_Ignorable_index div 3)"

definition lre_is_id_start :: "u32 \<Rightarrow> bool option" where
  "lre_is_id_start c =
    lre_is_in_table c unicode_prop_ID_Start_table unicode_prop_ID_Start_index
      (length unicode_prop_ID_Start_index div 3)"

definition lre_is_id_continue :: "u32 \<Rightarrow> bool option" where
  "lre_is_id_continue c =
    (case lre_is_id_start c of
       None \<Rightarrow> None
     | Some True \<Rightarrow> Some True
     | Some False \<Rightarrow>
         lre_is_in_table c unicode_prop_ID_Continue1_table unicode_prop_ID_Continue1_index
           (length unicode_prop_ID_Continue1_index div 3))"

section \<open>Checking a table\<close>

text \<open>The check runs on integers, where the kernel computes fast. A state
\<open>(pos, p, code, bt)\<close> of it is a state of the scan of the whole table; the entries of
the index have to be states of this scan with the bit cleared, and the scan has to reach the limit
of the table.\<close>

fun int_run :: "int list \<Rightarrow> (int list \<times> int \<times> int list) option" where
  "int_run [] = None"
| "int_run (b # p) =
    (if b < 64 then Some ([b div 8 + 1, b mod 8 + 1], 1, p)
     else if 128 \<le> b then Some ([b - 127], 1, p)
     else if b < 96 then (case p of [] \<Rightarrow> None | p0 # p \<Rightarrow> Some ([(b - 64) * 256 + p0 + 1], 2, p))
     else (case p of p0 # p1 # p \<Rightarrow> Some ([(b - 96) * 65536 + p0 * 256 + p1 + 1], 3, p) | _ \<Rightarrow> None))"

lemma int_run_shorter: "int_run p = Some (runs, w, p') \<Longrightarrow> length p' < length p"
  by (cases p rule: int_run.cases) (auto split: if_splits list.splits)

function table_walk :: "(int \<times> int) list \<Rightarrow> int \<Rightarrow> int list \<Rightarrow> int \<Rightarrow> bool
    \<Rightarrow> ((int \<times> int) list \<times> int \<times> int \<times> bool) option" where
  "table_walk es pos p code bt =
    (if es \<noteq> [] \<and> fst (hd es) = pos then
       if snd (hd es) = code \<and> \<not> bt then table_walk (tl es) pos p code bt else None
     else if p = [] then Some (es, pos, code, bt)
     else case int_run p of
         None \<Rightarrow> None
       | Some (runs, w, p') \<Rightarrow>
           if code < 0x40000000
           then table_walk es (pos + w) p' (code + sum_list runs) (if tl runs = [] then \<not> bt else bt)
           else None)"
  by pat_completeness auto
termination
  by (relation "measures [\<lambda>(e, pos, p, c, b). length p, \<lambda>(e, pos, p, c, b). length e]")
     (auto dest: int_run_shorter)

declare table_walk.simps [simp del]

lemma int_run_append: "int_run p = Some (runs, w, p') \<Longrightarrow> int_run (p @ q) = Some (runs, w, p' @ q)"
  by (cases p rule: int_run.cases) (auto split: if_splits list.splits)

text \<open>A table can be walked through in blocks.\<close>

lemma table_walk_append:
  "table_walk es pos p code bt = Some (es', pos', code', bt') \<Longrightarrow>
    table_walk es pos (p @ q) code bt = table_walk es' pos' q code' bt'"
proof (induction es pos p code bt rule: table_walk.induct)
  case (1 es pos p code bt)
  note simp = table_walk.simps [of es pos p code bt]
  consider (entry) "es \<noteq> []" "fst (hd es) = pos" | (fin) "\<not> (es \<noteq> [] \<and> fst (hd es) = pos)" "p = []"
    | (step) "\<not> (es \<noteq> [] \<and> fst (hd es) = pos)" "p \<noteq> []" by blast
  then show ?case
  proof cases
    case entry
    with 1(1,3) show ?thesis
      by (simp add: simp table_walk.simps [of es pos "p @ q"] split: if_splits)
  next
    case fin
    with 1(3) have "Some (es, pos, code, bt) = Some (es', pos', code', bt')"
      unfolding simp by simp
    with fin show ?thesis by simp
  next
    case step
    then obtain runs w p' where r: "int_run p = Some (runs, w, p')"
      using 1(3) by (auto simp: simp split: option.splits)
    have "code < 0x40000000"
      using step r 1(3) by (auto simp: simp split: if_splits)
    with 1(2,3) step r int_run_append [OF r, of q] show ?thesis
      by (auto simp: simp table_walk.simps [of es pos "p @ q"])
  qed
qed

fun int_index :: "int \<Rightarrow> int list \<Rightarrow> (int \<times> int) list" where
  "int_index pos (b0 # b1 # b2 # b3 # bs) =
    (let v = b0 + b1 * 256 + b2 * 65536
     in (pos + v div 0x200000, v mod 0x200000) # int_index (pos + 32) (b3 # bs))"
| "int_index pos _ = []"

fun int_limit :: "int list \<Rightarrow> int" where
  "int_limit (b0 # b1 # b2 # b3 # bs) = int_limit (b3 # bs)"
| "int_limit [b0, b1, b2] = b0 + b1 * 256 + b2 * 65536"
| "int_limit _ = 0"

definition table_ok :: "u8 list \<Rightarrow> u8 list \<Rightarrow> bool" where
  "table_ok table index_table \<longleftrightarrow>
    list_all (\<lambda>e. snd e \<le> int_limit (map uint index_table)) (int_index 32 (map uint index_table)) \<and>
    (case table_walk (int_index 32 (map uint index_table)) 0 (map uint table) 0 False of
       None \<Rightarrow> False
     | Some (es, pos, code, bt) \<Rightarrow> es = [] \<and> int_limit (map uint index_table) \<le> code)"

lemma Cased1_ok: "table_ok unicode_prop_Cased1_table unicode_prop_Cased1_index"
  by code_simp

lemma Case_Ignorable_walk_0:
  "table_walk (int_index 32 (map uint unicode_prop_Case_Ignorable_index)) 0 (map uint unicode_prop_Case_Ignorable_table_0) 0 False =
    Some ([(288, 7413), (320, 8320), (352, 40982), (384, 43206), (419, 43714), (449, 65110), (480, 67505), (512, 69634), (546, 70210), (577, 70852), (612, 72161), (640, 73032), (672, 92996), (705, 119171), (736, 123198)], 257, 6863, False)"
  by code_simp

lemma Case_Ignorable_walk_1:
  "table_walk [(288, 7413), (320, 8320), (352, 40982), (384, 43206), (419, 43714), (449, 65110), (480, 67505), (512, 69634), (546, 70210), (577, 70852), (612, 72161), (640, 73032), (672, 92996), (705, 119171), (736, 123198)] 257 (map uint unicode_prop_Case_Ignorable_table_1) 6863 False =
    Some ([(546, 70210), (577, 70852), (612, 72161), (640, 73032), (672, 92996), (705, 119171), (736, 123198)], 512, 69634, False)"
  by code_simp

lemma Case_Ignorable_walk_2:
  "table_walk [(546, 70210), (577, 70852), (612, 72161), (640, 73032), (672, 92996), (705, 119171), (736, 123198)] 512 (map uint unicode_prop_Case_Ignorable_table_2) 69634 False =
    Some ([], 764, 918000, False)"
  by code_simp

lemma Case_Ignorable_limit: "int_limit (map uint unicode_prop_Case_Ignorable_index) \<le> 918000"
  by code_simp

lemma Case_Ignorable_below:
  "list_all (\<lambda>e. snd e \<le> int_limit (map uint unicode_prop_Case_Ignorable_index)) (int_index 32 (map uint unicode_prop_Case_Ignorable_index))"
  by code_simp

lemma Case_Ignorable_ok: "table_ok unicode_prop_Case_Ignorable_table unicode_prop_Case_Ignorable_index"
  using Case_Ignorable_limit Case_Ignorable_below
  by (simp add: table_ok_def unicode_prop_Case_Ignorable_table_def table_walk_append [OF Case_Ignorable_walk_0]
    table_walk_append [OF Case_Ignorable_walk_1] Case_Ignorable_walk_2)

lemma ID_Start_walk_0:
  "table_walk (int_index 32 (map uint unicode_prop_ID_Start_index)) 0 (map uint unicode_prop_ID_Start_table_0) 0 False =
    Some ([(320, 6572), (356, 7616), (385, 8320), (416, 11632), (448, 12800), (480, 42973), (513, 43596), (545, 55239), (577, 65020), (609, 66205), (640, 66966), (672, 67743), (705, 68681), (737, 69750), (768, 70313), (800, 70832), (834, 72002), (864, 72848), (897, 77809), (929, 93072), (961, 110899), (992, 120070), (1024, 120771), (1057, 124927), (1088, 126563), (1122, 192094)], 288, 5787, False)"
  by code_simp

lemma ID_Start_walk_1:
  "table_walk [(320, 6572), (356, 7616), (385, 8320), (416, 11632), (448, 12800), (480, 42973), (513, 43596), (545, 55239), (577, 65020), (609, 66205), (640, 66966), (672, 67743), (705, 68681), (737, 69750), (768, 70313), (800, 70832), (834, 72002), (864, 72848), (897, 77809), (929, 93072), (961, 110899), (992, 120070), (1024, 120771), (1057, 124927), (1088, 126563), (1122, 192094)] 288 (map uint unicode_prop_ID_Start_table_1) 5787 False =
    Some ([(609, 66205), (640, 66966), (672, 67743), (705, 68681), (737, 69750), (768, 70313), (800, 70832), (834, 72002), (864, 72848), (897, 77809), (929, 93072), (961, 110899), (992, 120070), (1024, 120771), (1057, 124927), (1088, 126563), (1122, 192094)], 577, 65020, False)"
  by code_simp

lemma ID_Start_walk_2:
  "table_walk [(609, 66205), (640, 66966), (672, 67743), (705, 68681), (737, 69750), (768, 70313), (800, 70832), (834, 72002), (864, 72848), (897, 77809), (929, 93072), (961, 110899), (992, 120070), (1024, 120771), (1057, 124927), (1088, 126563), (1122, 192094)] 577 (map uint unicode_prop_ID_Start_table_2) 65020 False =
    Some ([(897, 77809), (929, 93072), (961, 110899), (992, 120070), (1024, 120771), (1057, 124927), (1088, 126563), (1122, 192094)], 864, 72848, False)"
  by code_simp

lemma ID_Start_walk_3:
  "table_walk [(897, 77809), (929, 93072), (961, 110899), (992, 120070), (1024, 120771), (1057, 124927), (1088, 126563), (1122, 192094)] 864 (map uint unicode_prop_ID_Start_table_3) 72848 False =
    Some ([], 1133, 205744, False)"
  by code_simp

lemma ID_Start_limit: "int_limit (map uint unicode_prop_ID_Start_index) \<le> 205744"
  by code_simp

lemma ID_Start_below:
  "list_all (\<lambda>e. snd e \<le> int_limit (map uint unicode_prop_ID_Start_index)) (int_index 32 (map uint unicode_prop_ID_Start_index))"
  by code_simp

lemma ID_Start_ok: "table_ok unicode_prop_ID_Start_table unicode_prop_ID_Start_index"
  using ID_Start_limit ID_Start_below
  by (simp add: table_ok_def unicode_prop_ID_Start_table_def table_walk_append [OF ID_Start_walk_0]
    table_walk_append [OF ID_Start_walk_1] table_walk_append [OF ID_Start_walk_2] ID_Start_walk_3)

lemma ID_Continue1_walk_0:
  "table_walk (int_index 32 (map uint unicode_prop_ID_Continue1_index)) 0 (map uint unicode_prop_ID_Continue1_table_0) 0 False =
    Some ([(384, 65040), (416, 68160), (448, 69827), (480, 70478), (512, 71233), (544, 72203), (576, 73130), (609, 93562), (641, 119365), (672, 123567)], 353, 43494, False)"
  by code_simp

lemma ID_Continue1_walk_1:
  "table_walk [(384, 65040), (416, 68160), (448, 69827), (480, 70478), (512, 71233), (544, 72203), (576, 73130), (609, 93562), (641, 119365), (672, 123567)] 353 (map uint unicode_prop_ID_Continue1_table_1) 43494 False =
    Some ([], 695, 918000, False)"
  by code_simp

lemma ID_Continue1_limit: "int_limit (map uint unicode_prop_ID_Continue1_index) \<le> 918000"
  by code_simp

lemma ID_Continue1_below:
  "list_all (\<lambda>e. snd e \<le> int_limit (map uint unicode_prop_ID_Continue1_index)) (int_index 32 (map uint unicode_prop_ID_Continue1_index))"
  by code_simp

lemma ID_Continue1_ok: "table_ok unicode_prop_ID_Continue1_table unicode_prop_ID_Continue1_index"
  using ID_Continue1_limit ID_Continue1_below
  by (simp add: table_ok_def unicode_prop_ID_Continue1_table_def table_walk_append [OF ID_Continue1_walk_0]
    ID_Continue1_walk_1)

section \<open>The scan\<close>

lemma uint_u8_bounds: "0 \<le> uint (b :: u8)" "uint (b :: u8) < 256"
  using uint_lt2p [of b] by auto

lemma uint_ucast_u8: "uint (ucast (b :: u8) :: u32) = uint b"
  using uint_u8_bounds [of b] by (simp add: uint_ucast)

lemma uint_bytes2:
  assumes "uint x < 0x10000"
  shows "uint (push_bit 8 x OR ucast (b0 :: u8) :: u32) = uint x * 256 + uint b0"
  using uint_push_bit_or [of "ucast b0 :: u32" 8 x] assms uint_u8_bounds [of b0]
  by (simp add: uint_ucast_u8)

lemma uint_bytes3:
  assumes "uint x < 0x100"
  shows "uint (push_bit 16 x OR push_bit 8 (ucast (b1 :: u8)) OR ucast (b0 :: u8) :: u32)
    = uint x * 65536 + uint b1 * 256 + uint b0"
proof -
  have low: "uint (push_bit 8 (ucast b1) OR ucast b0 :: u32) = uint b1 * 256 + uint b0"
    using uint_bytes2 [of "ucast b1" b0] uint_u8_bounds [of b1] by (simp add: uint_ucast_u8)
  have "uint (push_bit 16 x OR (push_bit 8 (ucast b1) OR ucast b0 :: u32))
      = uint x * 2 ^ 16 mod 2 ^ LENGTH(32) + uint (push_bit 8 (ucast b1) OR ucast b0 :: u32)"
    using low uint_u8_bounds [of b0] uint_u8_bounds [of b1] by (intro uint_push_bit_or) simp
  then show ?thesis
    unfolding low using assms by (simp add: or.assoc)
qed

lemma uint_plus1: "uint x < 0xFFFFFFFF \<Longrightarrow> uint (x + 1 :: u32) = uint x + 1"
  by (simp add: uint_word_ariths)

lemma uint_minus: "uint y \<le> uint x \<Longrightarrow> uint (x - y :: u32) = uint x - uint y"
  by (simp add: uint_sub_lem)

lemma ext_bound2:
  "64 \<le> (x :: int) \<Longrightarrow> x < 96 \<Longrightarrow> 0 \<le> y \<Longrightarrow> y < 256 \<Longrightarrow>
    0 < (x - 64) * 256 + y + 1 \<and> (x - 64) * 256 + y + 1 < 0x1000000"
  by simp

lemma ext_bound3:
  "96 \<le> (x :: int) \<Longrightarrow> x < 128 \<Longrightarrow> 0 \<le> y \<Longrightarrow> y < 256 \<Longrightarrow> 0 \<le> z \<Longrightarrow> z < 256 \<Longrightarrow>
    0 < (x - 96) * 65536 + y * 256 + z + 1 \<and> (x - 96) * 65536 + y * 256 + z + 1 < 0x1000000"
  by simp

text \<open>The code of the words is the code of the integers.\<close>

lemma int_run_decode:
  assumes "int_run (map uint p) = Some (runs, w, q)"
  shows "\<exists>runs' p'. decode_run p = Some (runs', p') \<and> map uint runs' = runs \<and> map uint p' = q
    \<and> p' = drop (nat w) p \<and> 0 < w \<and> (runs = [hd runs] \<or> (\<exists>m n. runs = [m, n])) \<and> (\<forall>n\<in>set runs. 0 < n \<and> n < 0x1000000)"
proof (cases p)
  case (Cons b p1)
  have lt: "b < 64 \<longleftrightarrow> uint b < 64" "0x80 \<le> b \<longleftrightarrow> 128 \<le> uint b" "b < 0x60 \<longleftrightarrow> uint b < 96"
    by (simp_all add: word_less_def word_le_def)
  note B = uint_u8_bounds [of b]
  consider (two) "uint b < 64" | (one) "128 \<le> uint b" | (ext1) "64 \<le> uint b" "uint b < 96" | (ext2) "96 \<le> uint b" "uint b < 128"
    by linarith
  then show ?thesis
  proof cases
    case two
    have d: "uint (drop_bit 3 b) = uint b div 8"
      by (simp add: uint_drop_bit)
    have m: "uint (b AND 7) = uint b mod 8"
      using uint_and_mask [of b 3] by (simp add: mask_eq_decr_exp)
    have "uint (ucast (drop_bit 3 b) + 1 :: u32) = uint b div 8 + 1" "uint (ucast (b AND 7) + 1 :: u32) = uint b mod 8 + 1"
      using B d m by (subst uint_plus1; simp add: uint_ucast_u8)+
    then show ?thesis
      using two assms B by (auto simp: Cons lt pos_imp_zdiv_nonneg_iff)
  next
    case one
    have "uint (ucast b - 0x80 + 1 :: u32) = uint b - 127"
      using one B by (subst uint_plus1; simp add: uint_minus uint_ucast_u8)
    then show ?thesis
      using one assms B by (auto simp: Cons lt)
  next
    case ext1
    have m: "uint (ucast b - 0x40 :: u32) = uint b - 64"
      using ext1 by (simp add: uint_minus uint_ucast_u8)
    have "uint ((push_bit 8 (ucast b - 0x40) OR ucast p0) + 1 :: u32) = (uint b - 64) * 256 + uint p0 + 1" for p0 :: u8
      using ext1 B uint_u8_bounds [of p0] by (subst uint_plus1; simp add: uint_bytes2 m)
    moreover have "0 < (uint b - 64) * 256 + uint p0 + 1 \<and> (uint b - 64) * 256 + uint p0 + 1 < 0x1000000" for p0 :: u8
      by (rule ext_bound2 [OF ext1 uint_u8_bounds])
    ultimately show ?thesis
      using ext1 assms by (cases p1) (auto simp: Cons lt simp del: left_diff_distrib_numeral)
  next
    case ext2
    have m: "uint (ucast b - 0x60 :: u32) = uint b - 96"
      using ext2 by (simp add: uint_minus uint_ucast_u8)
    have "uint ((push_bit 16 (ucast b - 0x60) OR push_bit 8 (ucast p0) OR ucast p1) + 1 :: u32)
        = (uint b - 96) * 65536 + uint p0 * 256 + uint p1 + 1" for p0 p1 :: u8
      using ext2 B uint_u8_bounds [of p0] uint_u8_bounds [of p1] by (subst uint_plus1; simp add: uint_bytes3 m)
    moreover have "0 < (uint b - 96) * 65536 + uint p0 * 256 + uint p1 + 1
        \<and> (uint b - 96) * 65536 + uint p0 * 256 + uint p1 + 1 < 0x1000000" for p0 p1 :: u8
      by (rule ext_bound3 [OF ext2 uint_u8_bounds uint_u8_bounds])
    ultimately show ?thesis
      using ext2 assms by (auto simp: Cons lt split: list.splits simp del: left_diff_distrib_numeral)
  qed
qed (use assms in simp)

lemma in_runs_step:
  assumes "uint code < 0x40000000" "map uint runs' = runs"
    and "runs = [hd runs] \<or> (\<exists>m n. runs = [m, n])" "\<forall>n\<in>set runs. 0 < n \<and> n < 0x1000000"
  shows "\<exists>code'. uint code' = uint code + sum_list runs \<and>
    (\<forall>c. if uint c < uint code + sum_list runs then \<exists>b. in_runs c code bt runs' = Inl b
      else in_runs c code bt runs' = Inr (code', if tl runs = [] then \<not> bt else bt))"
proof -
  have add: "uint (x + y) = uint x + uint y" if "uint x < 0x50000000" "uint y < 0x1000000" for x y :: u32
    using that by (simp add: uint_word_ariths)
  from assms(3) show ?thesis
  proof (elim disjE exE)
    assume "runs = [hd runs]"
    then obtain n where n: "runs' = [n]" "runs = [uint n]"
      using assms(2) by (cases runs') auto
    then have "uint (code + n) = uint code + uint n"
      using assms(1,4) by (intro add) auto
    then show ?thesis
      using n by (intro exI [of _ "code + n"]) (auto simp: word_less_def)
  next
    fix m n assume "runs = [m, n]"
    then obtain m' n' where n: "runs' = [m', n']" "runs = [uint m', uint n']"
      using assms(2) by (auto simp: map_eq_Cons_conv)
    then have b: "uint m' < 0x1000000" "uint n' < 0x1000000" "0 < uint m'" "0 < uint n'"
      using assms(4) by auto
    then have a: "uint (code + m') = uint code + uint m'" "uint (code + m' + n') = uint code + uint m' + uint n'"
      using assms(1) by (subst add; simp add: add)+
    then show ?thesis
      using n b by (intro exI [of _ "code + m' + n'"]) (auto simp: word_less_def)
  qed
qed

text \<open>The scan from the start of the table passes through every entry of the index, and ends
before the end of the table for every code point below the last code reached.\<close>

lemma table_walk_scan:
  assumes "table_walk es pos (map uint p) (uint code) bt = Some ([], pos', code', bt')"
  shows "uint code \<le> code'
    \<and> (\<forall>(ep, ec)\<in>set es. pos \<le> ep \<and> uint code \<le> ec \<and>
        (ec \<le> uint c \<longrightarrow> in_table_loop c p code bt = in_table_loop c (drop (nat (ep - pos)) p) (word_of_int ec) False))
    \<and> (uint code \<le> uint c \<longrightarrow> uint c < code' \<longrightarrow> in_table_loop c p code bt \<noteq> None)"
  using assms
proof (induction "length p + length es" arbitrary: es pos p code bt rule: less_induct)
  case less
  note simp = table_walk.simps [of es pos "map uint p" "uint code" bt]
  consider (entry) "es \<noteq> []" "fst (hd es) = pos" | (fin) "\<not> (es \<noteq> [] \<and> fst (hd es) = pos)" "p = []"
    | (step) "\<not> (es \<noteq> [] \<and> fst (hd es) = pos)" "p \<noteq> []" by blast
  then show ?case
  proof cases
    case entry
    with less(2) have hd: "snd (hd es) = uint code \<and> \<not> bt"
      and w: "table_walk (tl es) pos (map uint p) (uint code) bt = Some ([], pos', code', bt')"
      unfolding simp by (auto split: if_splits)
    from entry hd have es: "es = (pos, uint code) # tl es" and bt: "\<not> bt"
      by (cases es; auto)+
    show ?thesis
      using less(1) [OF _ w] bt entry(1) by (subst es, cases es) auto
  next
    case fin
    then have "Some (es, pos, uint code, bt) = Some ([], pos', code', bt')"
      using less(2) unfolding simp by (auto split: if_splits)
    with fin show ?thesis by simp
  next
    case step
    then obtain runs w q where r: "int_run (map uint p) = Some (runs, w, q)"
      using less(2) by (auto simp: simp split: option.splits)
    have c30: "uint code < 0x40000000"
      using step r less(2) by (auto simp: simp split: if_splits)
    obtain runs' p1 where d: "decode_run p = Some (runs', p1)" "map uint runs' = runs" "map uint p1 = q"
      "p1 = drop (nat w) p" "0 < w" "runs = [hd runs] \<or> (\<exists>m n. runs = [m, n])" "\<forall>n\<in>set runs. 0 < n \<and> n < 0x1000000"
      using int_run_decode [OF r] by (elim exE conjE) (rule that)
    obtain code1 where k: "uint code1 = uint code + sum_list runs"
      "\<And>c. if uint c < uint code + sum_list runs then \<exists>b. in_runs c code bt runs' = Inl b
      else in_runs c code bt runs' = Inr (code1, if tl runs = [] then \<not> bt else bt)"
      using in_runs_step [OF c30 d(2,6,7)] by blast
    have ge: "uint code \<le> uint code1"
      using k(1) d(7) sum_list_nonneg [of runs] by (simp add: less_imp_le)
    define bt1 where "bt1 = (if tl runs = [] then \<not> bt else bt)"
    have w1: "table_walk es (pos + w) (map uint p1) (uint code1) bt1 = Some ([], pos', code', bt')"
      using less(2) step r c30 by (simp add: simp d(3) k(1) bt1_def)
    have loop: "in_table_loop c p code bt = (if uint c < uint code1 then Some (projl (in_runs c code bt runs')) else in_table_loop c p1 code1 bt1)"
      using k(2) [of c] by (auto simp: in_table_loop.simps [of c p] d(1) k(1) bt1_def split: if_splits)
    have IH: "uint code1 \<le> code'"
      "\<And>ep ec. (ep, ec) \<in> set es \<Longrightarrow> pos + w \<le> ep \<and> uint code1 \<le> ec \<and>
        (ec \<le> uint c \<longrightarrow> in_table_loop c p1 code1 bt1 = in_table_loop c (drop (nat (ep - (pos + w))) p1) (word_of_int ec) False)"
      "uint code1 \<le> uint c \<Longrightarrow> uint c < code' \<Longrightarrow> in_table_loop c p1 code1 bt1 \<noteq> None"
      using less(1) [OF _ w1] decode_run_shorter [OF d(1)] by auto
    have drop: "drop (nat (ep - (pos + w))) p1 = drop (nat (ep - pos)) p" if "pos + w \<le> ep" for ep
    proof -
      have "nat (ep - (pos + w)) + nat w = nat (ep - pos)"
        using that d(5) by (simp add: nat_add_distrib [symmetric])
      then show ?thesis by (simp add: d(4))
    qed
    show ?thesis
      using ge IH loop drop d(5) by (fastforce split: if_splits)
  qed
qed

section \<open>The indexed lookup\<close>

lemma uint_get_le24:
  assumes "off + 2 < length ptr"
  shows "\<exists>v. get_le24 ptr off = Some v
    \<and> uint v = uint (ptr ! off) + uint (ptr ! (off + 1)) * 256 + uint (ptr ! (off + 2)) * 65536"
proof -
  have "uint (push_bit 16 (ucast (ptr ! (off + 2))) OR push_bit 8 (ucast (ptr ! (off + 1))) OR ucast (ptr ! off) :: u32)
      = uint (ptr ! (off + 2)) * 65536 + uint (ptr ! (off + 1)) * 256 + uint (ptr ! off)"
    using uint_bytes3 [of "ucast (ptr ! (off + 2))" "ptr ! (off + 1)" "ptr ! off"] uint_u8_bounds [of "ptr ! (off + 2)"]
    by (simp add: uint_ucast_u8)
  moreover have "ucast (ptr ! off) OR push_bit 8 (ucast (ptr ! (off + 1))) OR push_bit 16 (ucast (ptr ! (off + 2)))
      = (push_bit 16 (ucast (ptr ! (off + 2))) OR push_bit 8 (ucast (ptr ! (off + 1))) OR ucast (ptr ! off) :: u32)"
    by (simp only: or.commute or.left_commute or.assoc)
  ultimately show ?thesis
    using assms by (simp add: get_le24_def)
qed

lemma get_le24_drop: "get_le24 (b0 # b1 # b2 # ptr) (3 + off) = get_le24 ptr off"
  by (simp add: get_le24_def)

lemma uint_index_code: "uint (index_code v) = uint v mod 0x200000"
  using uint_and_mask [of v 21] by (simp add: index_code_def mask_eq_decr_exp)

lemma length_gt_3: "3 < length xs \<Longrightarrow> \<exists>b0 b1 b2 b3 bs. xs = b0 # b1 # b2 # b3 # bs"
  by (auto simp: Suc_le_eq [symmetric] Suc_le_length_iff numeral_eq_Suc)

lemma int_index_nth:
  assumes "get_le24 ptr (3 * i) = Some v" "3 * i + 3 < length ptr"
  shows "(pos + 32 * int i + uint v div 0x200000, uint v mod 0x200000) \<in> set (int_index pos (map uint ptr))"
  using assms
proof (induction i arbitrary: pos ptr)
  case 0
  then obtain b0 b1 b2 b3 bs where p: "ptr = b0 # b1 # b2 # b3 # bs"
    using length_gt_3 [of ptr] by auto
  with 0 uint_get_le24 [of 0 ptr] show ?case
    by (auto simp: Let_def)
next
  case (Suc i)
  then obtain b0 b1 b2 b3 bs where p: "ptr = b0 # b1 # b2 # b3 # bs"
    using length_gt_3 [of ptr] by auto
  have "get_le24 (b3 # bs) (3 * i) = Some v"
    using Suc(2) get_le24_drop [of b0 b1 b2 "b3 # bs" "3 * i"] by (simp add: p)
  then have "(pos + 32 + 32 * int i + uint v div 0x200000, uint v mod 0x200000) \<in> set (int_index (pos + 32) (map uint (b3 # bs)))"
    using Suc(3) by (intro Suc.IH) (auto simp: p)
  then show ?case
    by (simp add: p Let_def algebra_simps)
qed

lemma int_limit_last:
  "length ptr = 3 * Suc n \<Longrightarrow> \<exists>v. get_le24 ptr (3 * n) = Some v \<and> uint v = int_limit (map uint ptr)"
proof (induction n arbitrary: ptr)
  case 0
  then obtain b0 b1 b2 where p: "ptr = [b0, b1, b2]"
    by (auto simp: length_Suc_conv numeral_eq_Suc)
  then show ?case
    using uint_get_le24 [of 0 ptr] by auto
next
  case (Suc n)
  then obtain b0 b1 b2 b3 bs where p: "ptr = b0 # b1 # b2 # b3 # bs"
    using length_gt_3 [of ptr] by auto
  then show ?case
    using Suc.IH [of "b3 # bs"] Suc.prems get_le24_drop [of b0 b1 b2 "b3 # bs" "3 * n"] by simp
qed

lemma index_search_spec:
  assumes "i < j" "3 * j < length ptr" "get_le24 ptr (3 * i) = Some v" "index_code v \<le> c"
  shows "\<exists>k v. index_search ptr c i j = Some k \<and> k < j \<and> get_le24 ptr (3 * k) = Some v \<and> index_code v \<le> c"
  using assms
proof (induction "j - i" arbitrary: i j v rule: less_induct)
  case less
  define m where "m = (j + i) div 2"
  note simp = index_search.simps [of ptr c i j, folded m_def]
  show ?case
  proof (cases "j - i > 1")
    case True
    then have m: "i < m" "m < j" by (auto simp: m_def)
    obtain w where w: "get_le24 ptr (3 * m) = Some w"
      using uint_get_le24 [of "3 * m" ptr] m(2) less(3) by auto
    show ?thesis
    proof (cases "c < index_code w")
      case True': True
      have "\<exists>k v. index_search ptr c i m = Some k \<and> k < m \<and> get_le24 ptr (3 * k) = Some v \<and> index_code v \<le> c"
        using m less(3-5) by (intro less(1) [of m i v]) auto
      with True True' m w show ?thesis
        by (auto simp: simp Let_def mult.commute)
    next
      case False
      have "\<exists>k v. index_search ptr c m j = Some k \<and> k < j \<and> get_le24 ptr (3 * k) = Some v \<and> index_code v \<le> c"
        using m less(3) w False by (intro less(1) [of j m w]) auto
      with True False m w show ?thesis
        by (auto simp: simp Let_def mult.commute)
    qed
  next
    case False
    with less(2,4,5) show ?thesis by (auto simp: simp)
  qed
qed

text \<open>The lookup of a checked table is the scan of the table from its start.\<close>

lemma lre_is_in_table_scan:
  assumes ok: "table_ok table ptr" and len: "length ptr = 3 * Suc (Suc n)"
  shows "lre_is_in_table c table ptr (length ptr div 3) =
      (if int_limit (map uint ptr) \<le> uint c then Some False else in_table_loop c table 0 False)"
    and "uint c < int_limit (map uint ptr) \<Longrightarrow> in_table_loop c table 0 False \<noteq> None"
proof -
  define limit where "limit = int_limit (map uint ptr)"
  define es where "es = int_index 32 (map uint ptr)"
  obtain pos' code' bt' where walk: "table_walk es 0 (map uint table) (uint (0 :: u32)) False = Some ([], pos', code', bt')"
    and lim: "limit \<le> code'" and below: "\<And>e. e \<in> set es \<Longrightarrow> snd e \<le> limit"
    using ok by (auto simp: table_ok_def limit_def es_def list_all_iff split: option.splits)
  note scan = table_walk_scan [OF walk, of c]
  show total: "in_table_loop c table 0 False \<noteq> None" if "uint c < int_limit (map uint ptr)"
    using scan that lim by (simp add: limit_def)
  have entry: "in_table_loop c table 0 False = in_table_loop c (drop (nat ep) table) (word_of_int ec) False \<and> 0 \<le> ep \<and> ec \<le> limit"
    if "(ep, ec) \<in> set es" "ec \<le> uint c" for ep ec
    using scan that below [OF that(1)] by auto
  obtain last where last: "get_le24 ptr (3 * Suc n) = Some last" "uint last = limit"
    using int_limit_last [OF len] by (auto simp: limit_def)
  obtain v0 where v0: "get_le24 ptr 0 = Some v0"
    using uint_get_le24 [of 0 ptr] len by auto
  have e0: "(32 + uint v0 div 0x200000, uint v0 mod 0x200000) \<in> set es"
    using int_index_nth [of ptr 0 v0 32] v0 len by (simp add: es_def)
  show "lre_is_in_table c table ptr (length ptr div 3) =
      (if int_limit (map uint ptr) \<le> uint c then Some False else in_table_loop c table 0 False)"
  proof (cases "c < index_code v0")
    case True
    then have "uint c < limit"
      using below [OF e0] by (simp add: word_less_def uint_index_code)
    with True v0 show ?thesis
      by (simp add: lre_is_in_table_def get_index_pos_def limit_def)
  next
    case False
    note first = this
    show ?thesis
    proof (cases "last \<le> c")
      case True
      with first v0 last show ?thesis
        by (simp add: lre_is_in_table_def get_index_pos_def len limit_def word_le_def mult.commute)
    next
      case False
      obtain k v where k: "index_search ptr c 0 (Suc n) = Some k" "k < Suc n" "get_le24 ptr (3 * k) = Some v" "index_code v \<le> c"
        using index_search_spec [of 0 "Suc n" ptr v0 c] v0 first len by (auto simp: not_less)
      let ?ep = "32 + 32 * int k + uint v div 0x200000"
      have "(?ep, uint v mod 0x200000) \<in> set es"
        using int_index_nth [of ptr k v 32] k len by (simp add: es_def)
      then have e: "in_table_loop c table 0 False = in_table_loop c (drop (nat ?ep) table) (index_code v) False"
        using entry [of ?ep "uint v mod 0x200000"] k(4)
        by (simp add: word_le_def uint_index_code flip: uint_index_code)
      have "int (unat (drop_bit 21 v)) = uint v div 0x200000"
        by (simp add: uint_drop_bit)
      then have "get_index_pos c ptr (length ptr div 3) = Some (?ep, index_code v)"
        using first False v0 last k by (simp add: get_index_pos_def len mult.commute UNICODE_INDEX_BLOCK_LEN_def)
      moreover have "0 \<le> ?ep"
        by (simp add: pos_imp_zdiv_nonneg_iff)
      ultimately show ?thesis
        using False last e by (simp add: lre_is_in_table_def limit_def word_le_def not_le)
    qed
  qed
qed

section \<open>The theorems\<close>

text \<open>The set that a table codes: the code points below its limit for which the scan from the
start of the table says so.\<close>

definition table_set :: "u8 list \<Rightarrow> u8 list \<Rightarrow> u32 set" where
  "table_set table index_table =
    {c. uint c < int_limit (map uint index_table) \<and> in_table_loop c table 0 False = Some True}"

lemma lre_is_in_table_set:
  assumes "table_ok table ptr" "length ptr = 3 * Suc (Suc n)"
  shows "lre_is_in_table c table ptr (length ptr div 3) = Some (c \<in> table_set table ptr)"
  using lre_is_in_table_scan [OF assms, of c]
  by (cases "in_table_loop c table 0 False") (auto simp: table_set_def not_le [symmetric])

lemma index_lengths:
  "length unicode_prop_Cased1_index = 3 * Suc (Suc 4)"
  "length unicode_prop_Case_Ignorable_index = 3 * Suc (Suc 22)"
  "length unicode_prop_ID_Start_index = 3 * Suc (Suc 34)"
  "length unicode_prop_ID_Continue1_index = 3 * Suc (Suc 20)"
  by (simp_all add: unicode_prop_Cased1_index_def unicode_prop_Case_Ignorable_index_def
      unicode_prop_ID_Start_index_def unicode_prop_ID_Continue1_index_def)

text \<open>C24 For every code point the identifier tests end without reading outside of their tables,
and the binary search in the index together with the scan of one block gives the same answer as the
scan of the whole table from its first byte.\<close>

theorem lre_is_id_correct:
  "lre_is_id_start c = Some (c \<in> table_set unicode_prop_ID_Start_table unicode_prop_ID_Start_index)
    \<and> lre_is_id_continue c =
      Some (c \<in> table_set unicode_prop_ID_Start_table unicode_prop_ID_Start_index
        \<union> table_set unicode_prop_ID_Continue1_table unicode_prop_ID_Continue1_index)
    \<and> lre_is_case_ignorable c =
      Some (c \<in> table_set unicode_prop_Case_Ignorable_table unicode_prop_Case_Ignorable_index)"
  unfolding lre_is_id_start_def lre_is_id_continue_def lre_is_case_ignorable_def
    lre_is_in_table_set [OF ID_Start_ok index_lengths(3)]
    lre_is_in_table_set [OF ID_Continue1_ok index_lengths(4)]
    lre_is_in_table_set [OF Case_Ignorable_ok index_lengths(2)]
  by (auto split: bool.splits)

end
