(* ===== verification/Unicode_Case.thy ===== *)
theory Unicode_Case
  imports Unicode_Props "HOL-Library.Monad_Syntax"
begin

text \<open>The case conversions of \<^verbatim>\<open>src/quickjs/libunicode.c\<close>: upper case, lower case
and case folding of a character, and the canonicalisation of characters that case-insensitive
regular expressions use. The conversions read a table of runs of characters; the word of a run holds
its first code point (17 bits), its length (7 bits), its type (4 bits) and the high bits of its data.

The result of a conversion is the list of the one to three characters that the C function stores; a
read outside of a table is \<open>None\<close>. The theory checks the tables by evaluation (the runs are
disjoint and in order, and every index that a run holds is inside the table it refers to) and shows
that the binary search finds the run of a character and that no conversion reads outside of the
tables.\<close>

section \<open>Definitions\<close>

abbreviation (input) "RUN_TYPE_U \<equiv> 0 :: nat"
abbreviation (input) "RUN_TYPE_L \<equiv> 1 :: nat"
abbreviation (input) "RUN_TYPE_UF \<equiv> 2 :: nat"
abbreviation (input) "RUN_TYPE_LF \<equiv> 3 :: nat"
abbreviation (input) "RUN_TYPE_UL \<equiv> 4 :: nat"
abbreviation (input) "RUN_TYPE_LSU \<equiv> 5 :: nat"
abbreviation (input) "RUN_TYPE_U2L_399_EXT2 \<equiv> 6 :: nat"
abbreviation (input) "RUN_TYPE_UF_D20 \<equiv> 7 :: nat"
abbreviation (input) "RUN_TYPE_UF_D1_EXT \<equiv> 8 :: nat"
abbreviation (input) "RUN_TYPE_U_EXT \<equiv> 9 :: nat"
abbreviation (input) "RUN_TYPE_LF_EXT \<equiv> 10 :: nat"
abbreviation (input) "RUN_TYPE_UF_EXT2 \<equiv> 11 :: nat"
abbreviation (input) "RUN_TYPE_LF_EXT2 \<equiv> 12 :: nat"
abbreviation (input) "RUN_TYPE_UF_EXT3 \<equiv> 13 :: nat"

text \<open>The fields of a run.\<close>

definition run_code :: "u32 \<Rightarrow> u32" where
  "run_code v = drop_bit 15 v"

definition run_len :: "u32 \<Rightarrow> u32" where
  "run_len v = drop_bit 8 v AND 0x7f"

definition run_type :: "u32 \<Rightarrow> nat" where
  "run_type v = unat (drop_bit 4 v AND 0xf)"

definition run_data :: "u32 \<Rightarrow> u8 \<Rightarrow> u32" where
  "run_data v t2 = push_bit 8 (v AND 0xf) OR ucast t2"

definition conv_ext :: "u32 \<Rightarrow> u32 option" where
  "conv_ext i = map_option ucast (load case_conv_ext (unat i))"

text \<open>The binary search of \<^verbatim>\<open>lre_case_conv\<close>, \<^verbatim>\<open>lre_canonicalize\<close>
and \<^verbatim>\<open>lre_is_cased\<close>: \<open>Some None\<close> when no run holds the character, and
\<open>None\<close> for a read outside of the table.\<close>

function case_conv_search :: "u32 \<Rightarrow> int \<Rightarrow> int \<Rightarrow> (nat \<times> u32) option option" where
  "case_conv_search c idx_min idx_max =
    (if idx_min \<le> idx_max then
       let idx = (idx_max + idx_min) div 2 in
       (case load case_conv_table1 (nat idx) of
          None \<Rightarrow> None
        | Some v \<Rightarrow>
            if c < run_code v then case_conv_search c idx_min (idx - 1)
            else if c \<ge> run_code v + run_len v then case_conv_search c (idx + 1) idx_max
            else Some (Some (nat idx, v)))
     else Some None)"
  by pat_completeness auto
termination
  by (relation "measure (\<lambda>(c, i, j). nat (j - i + 1))") auto

declare case_conv_search.simps [simp del]

text \<open>\<^verbatim>\<open>conv_type\<close> is 0 for upper case, 1 for lower case and 2 for case folding.
A folding that gives several characters converts each of them to lower case.\<close>

function lre_case_conv_entry :: "u32 \<Rightarrow> nat \<Rightarrow> nat \<Rightarrow> u32 \<Rightarrow> u32 list option"
  and lre_case_conv :: "u32 \<Rightarrow> nat \<Rightarrow> u32 list option"
  and lre_case_conv1 :: "u32 \<Rightarrow> nat \<Rightarrow> u32 option" where
  "lre_case_conv_entry c conv_type idx v =
    (let is_lower = of_bool (conv_type \<noteq> 0) :: u32;
         type = run_type v;
         code = run_code v
     in do {
       t2 \<leftarrow> load case_conv_table2 idx;
       let data = run_data v t2;
       if type \<le> RUN_TYPE_LF then
         if conv_type = type mod 2 \<or> type \<ge> RUN_TYPE_UF \<and> conv_type = 2 then do {
           w \<leftarrow> load case_conv_table1 (unat data);
           Some [c - code + run_code w]
         }
         else Some [c]
       else if type = RUN_TYPE_UL then
         (let a = c - code in if a AND 1 \<noteq> 1 - is_lower then Some [c] else Some [(a XOR 1) + code])
       else if type = RUN_TYPE_LSU then
         (let a = c - code in
          if a = 1 then Some [c + (2 * is_lower - 1)]
          else if a = (1 - is_lower) * 2 then Some [c + (2 * is_lower - 1) * 2]
          else Some [c])
       else if type = RUN_TYPE_U2L_399_EXT2 then
         if is_lower = 0 then do {
           e \<leftarrow> conv_ext (drop_bit 6 data);
           Some [c - code + e, 0x399]
         }
         else do {
           e \<leftarrow> conv_ext (data AND 0x3f);
           Some [c - code + e]
         }
       else if type = RUN_TYPE_UF_D20 then
         if conv_type = 1 then Some [c] else Some [data + of_bool (conv_type = 2) * 0x20]
       else if type = RUN_TYPE_UF_D1_EXT then
         if conv_type = 1 then Some [c]
         else do {
           e \<leftarrow> conv_ext data;
           Some [e + of_bool (conv_type = 2)]
         }
       else if type = RUN_TYPE_U_EXT \<or> type = RUN_TYPE_LF_EXT then
         if is_lower \<noteq> of_nat (type - RUN_TYPE_U_EXT) then Some [c]
         else do {
           e \<leftarrow> conv_ext data;
           Some [e]
         }
       else if type = RUN_TYPE_LF_EXT2 then
         if is_lower = 0 then Some [c]
         else do {
           e0 \<leftarrow> conv_ext (drop_bit 6 data);
           e1 \<leftarrow> conv_ext (data AND 0x3f);
           Some [c - code + e0, e1]
         }
       else if type = RUN_TYPE_UF_EXT2 then
         if conv_type = 1 then Some [c]
         else do {
           e0 \<leftarrow> conv_ext (drop_bit 6 data);
           e1 \<leftarrow> conv_ext (data AND 0x3f);
           if conv_type = 2 then do {
             r0 \<leftarrow> lre_case_conv1 (c - code + e0) 1;
             r1 \<leftarrow> lre_case_conv1 e1 1;
             Some [r0, r1]
           }
           else Some [c - code + e0, e1]
         }
       else
         if conv_type = 1 then Some [c]
         else do {
           e0 \<leftarrow> conv_ext (drop_bit 8 data);
           e1 \<leftarrow> conv_ext (drop_bit 4 data AND 0xf);
           e2 \<leftarrow> conv_ext (data AND 0xf);
           if conv_type = 2 then do {
             r0 \<leftarrow> lre_case_conv1 e0 1;
             r1 \<leftarrow> lre_case_conv1 e1 1;
             r2 \<leftarrow> lre_case_conv1 e2 1;
             Some [r0, r1, r2]
           }
           else Some [e0, e1, e2]
         }
     })"
| "lre_case_conv c conv_type =
    (if c < 128 then
       if conv_type \<noteq> 0
       then Some [if 65 \<le> c \<and> c \<le> 90 then c - 65 + 97 else c]
       else Some [if 97 \<le> c \<and> c \<le> 122 then c - 97 + 65 else c]
     else
       case case_conv_search c 0 (int (length case_conv_table1) - 1) of
         None \<Rightarrow> None
       | Some None \<Rightarrow> Some [c]
       | Some (Some (idx, v)) \<Rightarrow> lre_case_conv_entry c conv_type idx v)"
| "lre_case_conv1 c conv_type = do { res \<leftarrow> lre_case_conv c conv_type; load res 0 }"
  by pat_completeness auto
termination
  by (relation "measure (\<lambda>s. case s of
      Inl (c, ct, idx, v) \<Rightarrow> (if ct = 2 then 3 else 0)
    | Inr (Inl (c, ct)) \<Rightarrow> (if ct = 2 then 4 else 1)
    | Inr (Inr (c, ct)) \<Rightarrow> (if ct = 2 then 5 else 2))") auto

declare lre_case_conv_entry.simps [simp del] lre_case_conv.simps [simp del] lre_case_conv1.simps [simp del]

definition lre_case_folding_entry :: "u32 \<Rightarrow> nat \<Rightarrow> u32 \<Rightarrow> bool \<Rightarrow> u32 option" where
  "lre_case_folding_entry c idx v is_unicode =
    (if is_unicode then do {
       res \<leftarrow> lre_case_conv_entry c 2 idx v;
       if length res = 1 then load res 0
       else if c = 0xfb06 then Some 0xfb05
       else if c = 0x01fd3 then Some 0x390
       else if c = 0x01fe3 then Some 0x3b0
       else Some c
     }
     else if c < 128 then Some (if 97 \<le> c \<and> c \<le> 122 then c - 97 + 65 else c)
     else do {
       res \<leftarrow> lre_case_conv_entry c 0 idx v;
       r0 \<leftarrow> load res 0;
       Some (if length res = 1 \<and> r0 \<ge> 128 then r0 else c)
     })"

definition lre_canonicalize :: "u32 \<Rightarrow> bool \<Rightarrow> u32 option" where
  "lre_canonicalize c is_unicode =
    (if c < 128 then
       if is_unicode
       then Some (if 65 \<le> c \<and> c \<le> 90 then c - 65 + 97 else c)
       else Some (if 97 \<le> c \<and> c \<le> 122 then c - 97 + 65 else c)
     else
       case case_conv_search c 0 (int (length case_conv_table1) - 1) of
         None \<Rightarrow> None
       | Some None \<Rightarrow> Some c
       | Some (Some (idx, v)) \<Rightarrow> lre_case_folding_entry c idx v is_unicode)"

definition lre_is_cased :: "u32 \<Rightarrow> bool option" where
  "lre_is_cased c =
    (case case_conv_search c 0 (int (length case_conv_table1) - 1) of
       None \<Rightarrow> None
     | Some (Some _) \<Rightarrow> Some True
     | Some None \<Rightarrow>
         lre_is_in_table c unicode_prop_Cased1_table unicode_prop_Cased1_index
           (length unicode_prop_Cased1_index div 3))"

section \<open>Lemmas\<close>

subsection \<open>The tables\<close>

text \<open>The properties of the tables, on integers so that they evaluate.\<close>

fun runs_sorted :: "int \<Rightarrow> (int \<times> int) list \<Rightarrow> bool" where
  "runs_sorted lo [] = True"
| "runs_sorted lo ((code, len) # rs) = (lo \<le> code \<and> 0 < len \<and> runs_sorted (code + len) rs)"

definition int_span :: "int \<Rightarrow> int \<times> int" where
  "int_span v = (v div 32768, v div 256 mod 128)"

definition int_run_ok :: "int \<Rightarrow> int \<Rightarrow> bool" where
  "int_run_ok v t2 =
    (let len = v div 256 mod 128; type = v div 16 mod 16; data = v mod 16 * 256 + t2 in
     if type \<le> 3 then data < 378
     else if type = 4 then even len
     else if type = 5 then len = 3
     else if type = 6 \<or> type = 11 \<or> type = 12 then data div 64 < 58 \<and> data mod 64 < 58
     else if type = 7 then True
     else if type \<le> 10 then data < 58
     else type = 13 \<and> data div 256 < 58)"

lemma table_sorted: "runs_sorted 0 (map int_span (map uint case_conv_table1))"
  by code_simp

lemma runs_ok: "list_all2 int_run_ok (map uint case_conv_table1) (map uint case_conv_table2)"
  by code_simp

lemma case_conv_lengths: "length case_conv_table1 = 378" "length case_conv_table2 = 378" "length case_conv_ext = 58"
  by (simp_all add: case_conv_table1_def case_conv_table2_def case_conv_ext_def)

subsection \<open>The runs\<close>

definition in_run :: "u32 \<Rightarrow> u32 \<Rightarrow> bool" where
  "in_run v c \<longleftrightarrow> run_code v \<le> c \<and> c < run_code v + run_len v"

lemma uint_run_fields:
  "uint (run_code v) = uint v div 32768"
  "uint (run_len v) = uint v div 256 mod 128"
  "int (run_type v) = uint v div 16 mod 16"
  "uint (run_data v t2) = uint v mod 16 * 256 + uint t2"
proof -
  have mask: "uint (w AND 0x7f :: u32) = uint w mod 128" "uint (w AND 0xf :: u32) = uint w mod 16" for w
    using uint_and_mask [of w 7] uint_and_mask [of w 4] by (simp_all add: mask_eq_exp_minus_1)
  show "uint (run_code v) = uint v div 32768" "uint (run_len v) = uint v div 256 mod 128"
    "int (run_type v) = uint v div 16 mod 16"
    by (simp_all add: run_code_def run_len_def run_type_def uint_drop_bit mask flip: uint_nat)
  have "uint (push_bit 8 (v AND 0xf) OR ucast t2 :: u32) = uint (v AND 0xf) * 2 ^ 8 + uint (ucast t2 :: u32)"
    using uint_u8_bounds [of t2] uint_push_bit_or [of "ucast t2 :: u32" 8 "v AND 0xf"]
    by (simp add: uint_ucast_u8 mask)
  then show "uint (run_data v t2) = uint v mod 16 * 256 + uint t2"
    by (simp add: run_data_def mask uint_ucast_u8)
qed

lemma run_bounds:
  "uint (run_code v) < 131072" "0 \<le> uint (run_len v)" "uint (run_len v) < 128" "run_type v < 16"
  "uint (run_code v + run_len v) = uint (run_code v) + uint (run_len v)"
proof -
  show c: "uint (run_code v) < 131072" and l: "uint (run_len v) < 128" "0 \<le> uint (run_len v)"
    using uint_le_max [of v] by (auto simp: uint_run_fields)
  show "uint (run_code v + run_len v) = uint (run_code v) + uint (run_len v)"
    using c l by (subst uint_plus_if') auto
  have "int (run_type v) < 16" by (simp add: uint_run_fields)
  then show "run_type v < 16" by simp
qed

lemma in_run_uint:
  "in_run v c \<longleftrightarrow> uint (run_code v) \<le> uint c \<and> uint c < uint (run_code v) + uint (run_len v)"
  by (simp add: in_run_def word_le_def word_less_def run_bounds)

lemma runs_sorted_nth:
  "runs_sorted lo rs \<Longrightarrow> j < length rs \<Longrightarrow>
     lo \<le> fst (rs ! j) \<and> 0 < snd (rs ! j) \<and> (\<forall>i<j. fst (rs ! i) + snd (rs ! i) \<le> fst (rs ! j))"
proof (induction lo rs arbitrary: j rule: runs_sorted.induct)
  case (2 lo code len rs)
  show ?case
  proof (cases j)
    case (Suc k)
    with 2 have "lo \<le> code" "0 < len"
      "code + len \<le> fst (rs ! k) \<and> 0 < snd (rs ! k) \<and> (\<forall>i<k. fst (rs ! i) + snd (rs ! i) \<le> fst (rs ! k))"
      by auto
    then show ?thesis using Suc by (auto simp: less_Suc_eq_0_disj)
  qed (use 2 in auto)
qed simp

lemma run_order:
  assumes "j < 378"
  shows "0 < uint (run_len (case_conv_table1 ! j))"
    and "i < j \<Longrightarrow> uint (run_code (case_conv_table1 ! i)) + uint (run_len (case_conv_table1 ! i))
      \<le> uint (run_code (case_conv_table1 ! j))"
  using runs_sorted_nth [OF table_sorted, of j] assms by (auto simp: case_conv_lengths uint_run_fields int_span_def)

lemma in_run_unique:
  assumes "i < 378" "j < 378" "in_run (case_conv_table1 ! i) c" "in_run (case_conv_table1 ! j) c"
  shows "i = j"
  using assms run_order(2) [of j i] run_order(2) [of i j] by (cases i j rule: linorder_cases) (auto simp: in_run_uint)

lemma in_run_later:
  assumes "i < 378" "j < 378" "in_run (case_conv_table1 ! i) c" "in_run (case_conv_table1 ! j) c'" "c \<le> c'"
  shows "i \<le> j"
  using assms run_order(2) [of i j] by (cases "j < i") (auto simp: in_run_uint word_le_def)

lemma run_at:
  assumes "i < 378"
  shows "load case_conv_table1 i = Some (case_conv_table1 ! i)" "load case_conv_table2 i = Some (case_conv_table2 ! i)"
    and "int_run_ok (uint (case_conv_table1 ! i)) (uint (case_conv_table2 ! i))"
  using runs_ok assms by (auto simp: load_def case_conv_lengths list_all2_conv_all_nth)

lemma case_conv_search_spec:
  "0 \<le> lo \<Longrightarrow> hi < 378 \<Longrightarrow>
    (case case_conv_search c lo hi of
       Some (Some (idx, v)) \<Rightarrow> idx < 378 \<and> v = case_conv_table1 ! idx \<and> in_run v c
     | Some None \<Rightarrow> \<forall>i. lo \<le> int i \<and> int i \<le> hi \<longrightarrow> \<not> in_run (case_conv_table1 ! i) c
     | None \<Rightarrow> False)"
proof (induction c lo hi rule: case_conv_search.induct)
  case (1 c lo hi)
  show ?case
  proof (cases "lo \<le> hi")
    case True
    define idx where "idx = (hi + lo) div 2"
    define v where "v = case_conv_table1 ! nat idx"
    have idx: "lo \<le> idx" "idx \<le> hi" "nat idx < 378" using True 1(3,4) by (auto simp: idx_def)
    have v: "load case_conv_table1 (nat idx) = Some v" using run_at(1) [OF idx(3)] by (simp add: v_def)
    have out: "\<not> in_run (case_conv_table1 ! i) c" if "int i \<le> hi" "c < run_code v" "idx \<le> int i" for i
    proof (cases "nat idx = i")
      case False
      then have "uint (run_code v) + uint (run_len v) \<le> uint (run_code (case_conv_table1 ! i))"
        using that idx 1(4) by (auto simp: v_def intro!: run_order(2))
      with that run_bounds(2) [of v] show ?thesis unfolding in_run_uint word_less_def by linarith
    qed (use that in \<open>auto simp: in_run_uint word_less_def v_def\<close>)
    have out': "\<not> in_run (case_conv_table1 ! i) c" if "run_code v + run_len v \<le> c" "int i \<le> idx" for i
    proof (cases "nat idx = i")
      case False
      then have "uint (run_code (case_conv_table1 ! i)) + uint (run_len (case_conv_table1 ! i)) \<le> uint (run_code v)"
        using that idx 1(4) by (auto simp: v_def intro!: run_order(2))
      with that run_bounds(2) [of v] show ?thesis unfolding in_run_uint word_le_def run_bounds(5) by linarith
    qed (use that in \<open>auto simp: in_run_uint word_le_def run_bounds v_def\<close>)
    have step: "case_conv_search c lo hi =
      (if c < run_code v then case_conv_search c lo (idx - 1)
       else if c \<ge> run_code v + run_len v then case_conv_search c (idx + 1) hi
       else Some (Some (nat idx, v)))"
      using True v by (subst case_conv_search.simps) (simp add: idx_def Let_def)
    note ih = 1(1) [OF True idx_def v] 1(2) [OF True idx_def v]
    consider "c < run_code v" | "\<not> c < run_code v" "run_code v + run_len v \<le> c" | "in_run v c"
      by (fastforce simp: in_run_def)
    then show ?thesis
    proof cases
      case less: 1
      have "\<not> in_run (case_conv_table1 ! i) c"
        if "\<forall>i. lo \<le> int i \<and> int i \<le> idx - 1 \<longrightarrow> \<not> in_run (case_conv_table1 ! i) c" "lo \<le> int i" "int i \<le> hi" for i
        using that out [OF that(3) less] by (cases "idx \<le> int i") auto
      with ih(1) [OF less] less 1(3,4) idx show ?thesis by (auto simp: step split: option.splits)
    next
      case more: 2
      have "\<not> in_run (case_conv_table1 ! i) c"
        if "\<forall>i. idx + 1 \<le> int i \<and> int i \<le> hi \<longrightarrow> \<not> in_run (case_conv_table1 ! i) c" "lo \<le> int i" "int i \<le> hi" for i
        using that out' [OF more(2)] by (cases "int i \<le> idx") auto
      with ih(2) [OF more] more 1(3,4) idx show ?thesis by (auto simp: step split: option.splits)
    next
      case 3
      then show ?thesis using idx by (auto simp: step in_run_def v_def)
    qed
  qed (auto simp: case_conv_search.simps [of c lo hi])
qed

subsection \<open>The conversion of one character\<close>

text \<open>Every result of a conversion of a character in a run is below this bound.\<close>

definition code_bound :: int where
  "code_bound = 262144"

definition conv_ok :: "u32 list option \<Rightarrow> bool" where
  "conv_ok r \<longleftrightarrow> (\<exists>res. r = Some res \<and> 1 \<le> length res \<and> length res \<le> 3 \<and> (\<forall>x\<in>set res. uint x < code_bound))"

lemma conv_ok_intros [intro]:
  "uint x < code_bound \<Longrightarrow> conv_ok (Some [x])"
  "uint x < code_bound \<Longrightarrow> uint y < code_bound \<Longrightarrow> conv_ok (Some [x, y])"
  "uint x < code_bound \<Longrightarrow> uint y < code_bound \<Longrightarrow> uint z < code_bound \<Longrightarrow> conv_ok (Some [x, y, z])"
  by (auto simp: conv_ok_def)

lemma unat_less: "uint (i :: u32) < numeral n \<Longrightarrow> unat i < numeral n"
  unfolding unat_eq_nat_uint by (simp only: nat_less_iff uint_ge_0 of_nat_numeral)

lemma conv_ext_ok: "uint i < 58 \<Longrightarrow> \<exists>e. conv_ext i = Some e \<and> uint e < 65536"
proof -
  assume i: "uint i < 58"
  then have "unat i < 58" by (rule unat_less)
  moreover have "uint (ucast w :: u32) < 65536" for w :: u16
    using uint_lt2p [of w] by (simp add: uint_ucast)
  ultimately show ?thesis by (simp add: conv_ext_def load_def case_conv_lengths)
qed

lemma uint_masks:
  "uint (w AND 0x3f :: u32) = uint w mod 64" "uint (w AND 0xf :: u32) = uint w mod 16" "uint (w AND 1 :: u32) = uint w mod 2"
  using uint_and_mask [of w 6] uint_and_mask [of w 4] uint_and_mask [of w 1] by (simp_all add: mask_eq_exp_minus_1)

lemma run_data_ok:
  fixes v :: u32 and t2 :: u8
  assumes "int_run_ok (uint v) (uint t2)"
  defines "data \<equiv> run_data v t2"
  shows "run_type v < 14" "uint data < 4096"
    "run_type v \<le> 3 \<Longrightarrow> uint data < 378"
    "run_type v = 4 \<Longrightarrow> even (uint (run_len v))"
    "run_type v = 5 \<Longrightarrow> uint (run_len v) = 3"
    "run_type v \<in> {6, 11, 12} \<Longrightarrow> uint (drop_bit 6 data) < 58 \<and> uint (data AND 0x3f) < 58"
    "run_type v \<in> {8, 9, 10} \<Longrightarrow> uint data < 58"
    "run_type v = 13 \<Longrightarrow> uint (drop_bit 8 data) < 58 \<and> uint (drop_bit 4 data AND 0xf) < 58 \<and> uint (data AND 0xf) < 58"
proof -
  let ?t = "int (run_type v)"
  have t: "uint v div 16 mod 16 = ?t" by (simp add: uint_run_fields)
  have d: "uint data = uint v mod 16 * 256 + uint t2" by (simp add: data_def uint_run_fields)
  have ok: "if ?t \<le> 3 then uint data < 378
     else if ?t = 4 then even (uint (run_len v))
     else if ?t = 5 then uint (run_len v) = 3
     else if ?t = 6 \<or> ?t = 11 \<or> ?t = 12 then uint data div 64 < 58 \<and> uint data mod 64 < 58
     else if ?t = 7 then True
     else if ?t \<le> 10 then uint data < 58
     else ?t = 13 \<and> uint data div 256 < 58"
    using assms(1) unfolding int_run_ok_def Let_def t d uint_run_fields(2) by simp
  have lt: "uint (drop_bit 4 data AND 0xf) < 58" "uint (data AND 0xf) < 58"
    by (simp_all add: uint_masks order.strict_trans [OF pos_mod_bound])
  show "uint data < 4096" using d uint_u8_bounds [of t2] pos_mod_bound [of 16 "uint v"] by linarith
  show "run_type v < 14" using ok by (auto split: if_splits)
  show "run_type v \<le> 3 \<Longrightarrow> uint data < 378" "run_type v = 4 \<Longrightarrow> even (uint (run_len v))" "run_type v = 5 \<Longrightarrow> uint (run_len v) = 3"
    "run_type v \<in> {6, 11, 12} \<Longrightarrow> uint (drop_bit 6 data) < 58 \<and> uint (data AND 0x3f) < 58"
    "run_type v \<in> {8, 9, 10} \<Longrightarrow> uint data < 58"
    "run_type v = 13 \<Longrightarrow> uint (drop_bit 8 data) < 58 \<and> uint (drop_bit 4 data AND 0xf) < 58 \<and> uint (data AND 0xf) < 58"
    using ok lt by (auto simp: uint_drop_bit uint_masks split: if_splits)
qed

lemma run_offset:
  assumes "in_run v c"
  shows "uint (c - run_code v) < 128" "uint (c - run_code v) < uint (run_len v)" "uint c < 131200"
  using assms run_bounds [of v] by (auto simp: in_run_uint uint_minus)

lemma offset_plus:
  assumes "in_run v c" "uint w < 131072"
  shows "uint (c - run_code v + w) < code_bound"
  using run_offset [OF assms(1)] assms(2) by (subst uint_plus_if') (auto simp: code_bound_def)

lemma run_types: "(t :: nat) < 14 \<Longrightarrow> t \<le> 3 \<or> t = 4 \<or> t = 5 \<or> t = 6 \<or> t = 7 \<or> t = 8 \<or> t = 9 \<or> t = 10 \<or> t = 11 \<or> t = 12 \<or> t = 13"
  by arith

lemma uint_xor_1: "uint (a XOR 1 :: u32) = (if even (uint a) then uint a + 1 else uint a - 1)"
proof -
  have "uint (a XOR 1) = uint a XOR 1" by (simp only: unsigned_xor_eq uint_1)
  then show ?thesis using xor_one_eq [of "uint a"] by simp
qed

lemma uint_plus_small: "uint x < 262144 \<Longrightarrow> uint y < 262144 \<Longrightarrow> uint (x + y :: u32) = uint x + uint y"
  by (subst uint_plus_if') simp

text \<open>The offset of a character in a run that holds it, on the integers.\<close>

lemma run_offset_eq:
  assumes "in_run v c"
  shows "c = run_code v + (c - run_code v)" "uint c = uint (run_code v) + uint (c - run_code v)"
  using assms by (auto simp: in_run_uint uint_minus)

lemma UL_conv:
  assumes "in_run v c"
  shows "uint ((c - run_code v XOR 1) + run_code v) =
    (if even (uint (c - run_code v)) then uint c + 1 else uint c - 1)"
  using run_offset [OF assms] run_offset_eq(2) [OF assms] run_bounds(1) [of v] uint_xor_1 [of "c - run_code v"]
  by (subst uint_plus_small) auto

lemma LSU_conv:
  assumes "in_run v c"
  shows "c - run_code v = 1 \<Longrightarrow> uint (c - 1) = uint c - 1"
    "c - run_code v = 2 \<Longrightarrow> uint (c - 2) = uint c - 2"
    "uint (c + 1) = uint c + 1" "uint (c + 2) = uint c + 2"
  using run_offset_eq [OF assms] run_offset(3) [OF assms] 
  by (auto simp: uint_plus_small)

lemma lre_case_conv_entry_ok:
  assumes idx: "idx < 378" and v: "v = case_conv_table1 ! idx" and c: "in_run v c"
    and conv1: "conv_type = 2 \<Longrightarrow> (\<And>x. uint x < code_bound \<Longrightarrow> \<exists>r. lre_case_conv1 x 1 = Some r \<and> uint r < code_bound)"
  shows "conv_ok (lre_case_conv_entry c conv_type idx v)"
proof -
  define t2 where "t2 = case_conv_table2 ! idx"
  define data where "data = run_data v t2"
  have t2: "load case_conv_table2 idx = Some t2" and ok: "int_run_ok (uint v) (uint t2)"
    using run_at [OF idx] by (simp_all add: t2_def v)
  note d = run_data_ok [OF ok, folded data_def]
  have cb: "uint c < code_bound" using run_offset [OF c] by (simp add: code_bound_def)
  have e: "uint x < 58 \<Longrightarrow> \<exists>e. conv_ext x = Some e \<and> uint e < 131072 \<and> uint e < code_bound" for x
    using conv_ext_ok [of x] by (fastforce simp: code_bound_def)
  note entry = lre_case_conv_entry.simps t2 data_def [symmetric] Let_def
  consider "run_type v \<le> 3" | "run_type v = 4" | "run_type v = 5" | "run_type v = 6" | "run_type v = 7" | "run_type v = 8"
    | "run_type v = 9 \<or> run_type v = 10" | "run_type v = 11" | "run_type v = 12" | "run_type v = 13"
    using run_types [OF d(1)] by blast
  then show ?thesis
  proof cases
    case 1
    then have "unat data < 378" using d(3) by (auto intro: unat_less)
    then have "load case_conv_table1 (unat data) = Some (case_conv_table1 ! unat data)" by (rule run_at)
    with 1 show ?thesis using cb by (auto simp: entry intro!: offset_plus [OF c] run_bounds)
  next
    case 2
    have "uint ((c - run_code v XOR 1) + run_code v) < code_bound"
      using UL_conv [OF c] run_offset(3) [OF c] by (auto simp: code_bound_def)
    with 2 cb show ?thesis by (cases "conv_type = 0") (auto simp: entry)
  next
    case 3
    note LSU_conv [OF c]
    with 3 cb run_offset(3) [OF c] show ?thesis by (cases "conv_type = 0") (auto simp: entry code_bound_def conv_ok_def)
  next
    case 4
    then obtain e1 e2 where "conv_ext (drop_bit 6 data) = Some e1" "conv_ext (data AND 0x3f) = Some e2" "uint e1 < 131072" "uint e2 < 131072"
      using d(6) e by blast
    moreover from this have "uint (c - run_code v + e1) < code_bound" "uint (c - run_code v + e2) < code_bound"
      by (auto intro!: offset_plus [OF c])
    moreover have "uint (0x399 :: u32) < code_bound" by (simp add: code_bound_def)
    ultimately show ?thesis using 4 by (cases "conv_type = 0") (simp_all add: entry conv_ok_intros)
  next
    case 5
    have "uint data < 262144" using d(2) by simp
    then have "uint (data + of_bool (conv_type = 2) * 0x20) < code_bound"
      using d(2) by (subst uint_plus_small) (auto simp: code_bound_def)
    with 5 cb show ?thesis by (auto simp: entry simp del: of_bool_eq_0_iff split del: split_of_bool)
  next
    case 6
    then obtain e1 where ex: "conv_ext data = Some e1" "uint e1 < 131072" using d(7) e by blast
    then have "uint (e1 + of_bool (conv_type = 2)) < code_bound"
      by (subst uint_plus_small) (auto simp: code_bound_def)
    with 6 ex cb show ?thesis by (auto simp: entry)
  next
    case 7
    then obtain e1 where "conv_ext data = Some e1" "uint e1 < code_bound" using d(7) e by blast
    with 7 cb show ?thesis
      by (elim disjE; cases "conv_type = 0") (simp_all add: entry conv_ok_intros)
  next
    case 8
    then obtain e1 e2 where ex: "conv_ext (drop_bit 6 data) = Some e1" "conv_ext (data AND 0x3f) = Some e2" "uint e1 < 131072" "uint e2 < code_bound"
      using d(6) e by blast
    then have b: "uint (c - run_code v + e1) < code_bound" by (intro offset_plus [OF c])
    show ?thesis
    proof (cases "conv_type = 2")
      case True
      then obtain r0 r1 where "lre_case_conv1 (c - run_code v + e1) 1 = Some r0" "lre_case_conv1 e2 1 = Some r1" "uint r0 < code_bound" "uint r1 < code_bound"
        using conv1 [OF True] b ex(4) by blast
      with 8 ex True show ?thesis by (auto simp: entry)
    qed (use 8 ex b cb in \<open>auto simp: entry\<close>)
  next
    case 9
    then obtain e1 e2 where "conv_ext (drop_bit 6 data) = Some e1" "conv_ext (data AND 0x3f) = Some e2" "uint e1 < 131072" "uint e2 < code_bound"
      using d(6) e by blast
    with 9 cb show ?thesis by (auto simp: entry intro!: offset_plus [OF c])
  next
    case 10
    then obtain e0 e1 e2 where ex: "conv_ext (drop_bit 8 data) = Some e0" "conv_ext (drop_bit 4 data AND 0xf) = Some e1" "conv_ext (data AND 0xf) = Some e2"
       "uint e0 < code_bound" "uint e1 < code_bound" "uint e2 < code_bound"
      using d(8) e by meson
    show ?thesis
    proof (cases "conv_type = 2")
      case True
      then obtain r0 r1 r2 where "lre_case_conv1 e0 1 = Some r0" "lre_case_conv1 e1 1 = Some r1" "lre_case_conv1 e2 1 = Some r2"
         "uint r0 < code_bound" "uint r1 < code_bound" "uint r2 < code_bound"
        using conv1 [OF True] ex(4-6) by metis
      with 10 ex True show ?thesis by (auto simp: entry)
    qed (use 10 ex cb in \<open>auto simp: entry\<close>)
  qed
qed

lemma search_cases:
  obtains (found) idx where "idx < 378" "in_run (case_conv_table1 ! idx) c"
      "case_conv_search c 0 (int (length case_conv_table1) - 1) = Some (Some (idx, case_conv_table1 ! idx))"
  | (missing) "\<forall>i<378. \<not> in_run (case_conv_table1 ! i) c"
      "case_conv_search c 0 (int (length case_conv_table1) - 1) = Some None"
  using case_conv_search_spec [of 0 "int (length case_conv_table1) - 1" c]
  by (auto simp: case_conv_lengths split: option.splits)

lemma ascii_bounds: "c < 128 \<Longrightarrow> 65 \<le> c \<and> c \<le> 90 \<Longrightarrow> uint (c - 65 + 97 :: u32) = uint c + 32"
  "c < 128 \<Longrightarrow> 97 \<le> c \<and> c \<le> 122 \<Longrightarrow> uint (c - 97 + 65 :: u32) = uint c - 32"
  by (simp_all add: word_le_def word_less_def uint_minus uint_plus_small)

lemma lre_case_conv_ok:
  assumes "uint c < code_bound"
    and "conv_type = 2 \<Longrightarrow> (\<And>x. uint x < code_bound \<Longrightarrow> \<exists>r. lre_case_conv1 x 1 = Some r \<and> uint r < code_bound)"
  shows "conv_ok (lre_case_conv c conv_type)"
proof (cases "c < 128")
  case True
  then have "uint c < 128" by (simp add: word_less_def)
  then show ?thesis
    using True ascii_bounds [OF True] assms(1) by (auto simp: lre_case_conv.simps conv_ok_def code_bound_def)
next
  case False
  show ?thesis
  proof (cases c rule: search_cases)
    case (found idx)
    then show ?thesis
      using False lre_case_conv_entry_ok [OF found(1) refl found(2) assms(2)] by (auto simp: lre_case_conv.simps)
  next
    case missing
    then show ?thesis using False assms(1) by (auto simp: lre_case_conv.simps)
  qed
qed

lemma lre_case_conv1_ok: "uint x < code_bound \<Longrightarrow> \<exists>r. lre_case_conv1 x 1 = Some r \<and> uint r < code_bound"
  using lre_case_conv_ok [of x 1] by (fastforce simp: lre_case_conv1.simps conv_ok_def load_def)

lemmas case_conv_entry_ok = lre_case_conv_entry_ok [OF _ refl _ lre_case_conv1_ok]

lemma in_run_below: "i < 378 \<Longrightarrow> in_run (case_conv_table1 ! i) c \<Longrightarrow> uint c < 131200"
  by (rule run_offset)

lemma lre_case_conv_total: "\<exists>res. lre_case_conv c conv_type = Some res \<and> 1 \<le> length res \<and> length res \<le> 3"
proof (cases "uint c < code_bound")
  case True
  then show ?thesis using lre_case_conv_ok [OF True lre_case_conv1_ok, of conv_type] unfolding conv_ok_def by blast
next
  case False
  then have "\<forall>i<378. \<not> in_run (case_conv_table1 ! i) c" "\<not> c < 128"
    using in_run_below by (fastforce simp: code_bound_def word_less_def)+
  then have "lre_case_conv c conv_type = Some [c]"
    by (cases c rule: search_cases) (auto simp: lre_case_conv.simps)
  then show ?thesis by simp
qed

lemma lre_case_folding_entry_ok:
  assumes "idx < 378" "in_run (case_conv_table1 ! idx) c"
  shows "\<exists>d. lre_case_folding_entry c idx (case_conv_table1 ! idx) is_unicode = Some d \<and> uint d < code_bound"
proof (cases "\<not> is_unicode \<and> c < 128")
  case True
  then show ?thesis
    using ascii_bounds [of c] by (auto simp: lre_case_folding_entry_def code_bound_def word_less_def)
next
  case False
  then obtain res where "lre_case_conv_entry c (if is_unicode then 2 else 0) idx (case_conv_table1 ! idx) = Some res"
    "1 \<le> length res" "\<forall>x\<in>set res. uint x < code_bound"
    using case_conv_entry_ok [OF assms, of "if is_unicode then 2 else 0"] by (auto simp: conv_ok_def split: if_splits)
  moreover have "uint c < code_bound" "uint (0xfb05 :: u32) < code_bound" "uint (0x390 :: u32) < code_bound" "uint (0x3b0 :: u32) < code_bound"
    using run_offset(3) [OF assms(2)] by (auto simp: code_bound_def)
  ultimately show ?thesis
    using False by (cases is_unicode) (auto simp: lre_case_folding_entry_def load_def)
qed

lemma lre_canonicalize_total: "\<exists>d. lre_canonicalize c is_unicode = Some d"
proof (cases c rule: search_cases)
  case (found idx)
  then show ?thesis using lre_case_folding_entry_ok [OF found(1,2), of is_unicode] by (auto simp: lre_canonicalize_def)
qed (auto simp: lre_canonicalize_def)

lemma lre_is_cased_eq:
  "lre_is_cased c = Some ((\<exists>i<378. in_run (case_conv_table1 ! i) c) \<or> c \<in> table_set unicode_prop_Cased1_table unicode_prop_Cased1_index)"
  by (cases c rule: search_cases) (auto simp: lre_is_cased_def lre_is_in_table_set [OF Cased1_ok index_lengths(1)])

section \<open>The theorem\<close>

text \<open>C26 Every conversion of every 32-bit character ends without reading outside of its tables:
an upper case, lower case or folding conversion stores between one and three characters, the size of
the buffer that the callers pass, a character that no run holds and that is not ASCII is its own
conversion, canonicalisation gives a character, and the test for a cased character says whether a
run or the table of the property holds it.\<close>

theorem lre_case_conv_safe:
  "\<exists>res d. lre_case_conv c conv_type = Some res \<and> 1 \<le> length res \<and> length res \<le> 3
    \<and> ((\<exists>v\<in>set case_conv_table1. in_run v c) \<or> c < 128 \<or> res = [c])
    \<and> lre_canonicalize c is_unicode = Some d
    \<and> lre_is_cased c =
        Some ((\<exists>v\<in>set case_conv_table1. in_run v c)
          \<or> c \<in> table_set unicode_prop_Cased1_table unicode_prop_Cased1_index)"
proof -
  have run: "(\<exists>v\<in>set case_conv_table1. in_run v c) \<longleftrightarrow> (\<exists>i<378. in_run (case_conv_table1 ! i) c)"
    by (auto simp: set_conv_nth [of case_conv_table1] case_conv_lengths)
  have "(\<exists>i<378. in_run (case_conv_table1 ! i) c) \<or> c < 128 \<or> res = [c]" if "lre_case_conv c conv_type = Some res" for res
    using that by (cases c rule: search_cases) (auto simp: lre_case_conv.simps)
  then show ?thesis
    using lre_case_conv_total [of c conv_type] lre_canonicalize_total [of c is_unicode]
    unfolding lre_is_cased_eq run by (elim exE conjE) auto
qed

end
