(* ===== verification/Unicode_Canonicalize.thy ===== *)
theory Unicode_Canonicalize
  imports Char_Range Unicode_Case
begin

text \<open>The sets of characters that a case conversion changes and the canonicalisation of a set of
characters (\<^verbatim>\<open>unicode_case1\<close> and \<^verbatim>\<open>cr_regexp_canonicalize\<close> of
\<^verbatim>\<open>src/quickjs/libunicode.c\<close>), with which case-insensitive regular expressions
compile their character classes. The canonicalisation walks the table of runs and the intervals of
the set together.

The theory shows that the characters outside of the set of \<^verbatim>\<open>unicode_case1\<close> are their own
canonical characters, that the walk never runs off the end of the table, which is the assertion in
the code, and that the result is the set of the canonical characters of the members.\<close>

section \<open>Definitions\<close>

abbreviation (input) "CASE_U \<equiv> 1 :: nat"
abbreviation (input) "CASE_L \<equiv> 2 :: nat"
abbreviation (input) "CASE_F \<equiv> 4 :: nat"

definition MR :: "nat \<Rightarrow> u32" where
  "MR x = push_bit x 1"

definition tab_run_mask :: "u32 list" where
  "tab_run_mask =
    [MR RUN_TYPE_U OR MR RUN_TYPE_UF OR MR RUN_TYPE_UL OR MR RUN_TYPE_LSU OR MR RUN_TYPE_U2L_399_EXT2 OR
       MR RUN_TYPE_UF_D20 OR MR RUN_TYPE_UF_D1_EXT OR MR RUN_TYPE_U_EXT OR MR RUN_TYPE_UF_EXT2 OR
       MR RUN_TYPE_UF_EXT3,
     MR RUN_TYPE_L OR MR RUN_TYPE_LF OR MR RUN_TYPE_UL OR MR RUN_TYPE_LSU OR MR RUN_TYPE_U2L_399_EXT2 OR
       MR RUN_TYPE_LF_EXT OR MR RUN_TYPE_LF_EXT2,
     MR RUN_TYPE_UF OR MR RUN_TYPE_LF OR MR RUN_TYPE_UL OR MR RUN_TYPE_LSU OR MR RUN_TYPE_U2L_399_EXT2 OR
       MR RUN_TYPE_LF_EXT OR MR RUN_TYPE_LF_EXT2 OR MR RUN_TYPE_UF_D20 OR MR RUN_TYPE_UF_D1_EXT OR
       MR RUN_TYPE_LF_EXT OR MR RUN_TYPE_UF_EXT2 OR MR RUN_TYPE_UF_EXT3]"

definition case_run_mask :: "nat \<Rightarrow> u32" where
  "case_run_mask case_mask =
    fold (\<lambda>i mask. if odd (case_mask div 2 ^ i) then mask OR tab_run_mask ! i else mask) [0..<3] 0"

text \<open>The intervals that one run adds, in the order of the calls of
\<^verbatim>\<open>cr_add_interval\<close>.\<close>

definition case_run_intervals :: "nat \<Rightarrow> u32 \<Rightarrow> (u32 \<times> u32) list" where
  "case_run_intervals case_mask v =
    (let type = run_type v;
         code = run_code v;
         len = run_len v;
         case_u = odd case_mask;
         both = case_u \<and> (odd (case_mask div CASE_L) \<or> odd (case_mask div CASE_F))
     in if drop_bit type (case_run_mask case_mask) AND 1 = 0 then []
        else if type = RUN_TYPE_UL \<and> \<not> both then
          (let code = code + of_bool case_u in
           map (\<lambda>i. (code + of_nat (2 * i), code + of_nat (2 * i) + 1)) [0..<(unat len + 1) div 2])
        else if type = RUN_TYPE_LSU \<and> \<not> both then
          (if case_u then [] else [(code, code + 1)]) @ [(code + 1, code + 2)] @
          (if case_u then [(code + 2, code + 3)] else [])
        else [(code, code + len)])"

fun cr_add_intervals :: "char_range \<Rightarrow> (u32 \<times> u32) list \<Rightarrow> char_range \<times> int" where
  "cr_add_intervals cr [] = (cr, 0)"
| "cr_add_intervals cr ((c1, c2) # ivs) =
    (case cr_add_interval cr c1 c2 of (cr, r) \<Rightarrow> if r \<noteq> 0 then (cr, -1) else cr_add_intervals cr ivs)"

fun unicode_case1_loop :: "char_range \<Rightarrow> nat \<Rightarrow> u32 list \<Rightarrow> char_range \<times> int" where
  "unicode_case1_loop cr case_mask [] = (cr, 0)"
| "unicode_case1_loop cr case_mask (v # vs) =
    (case cr_add_intervals cr (case_run_intervals case_mask v) of (cr, r) \<Rightarrow>
     if r \<noteq> 0 then (cr, -1) else unicode_case1_loop cr case_mask vs)"

definition unicode_case1 :: "char_range \<Rightarrow> nat \<Rightarrow> char_range \<times> int" where
  "unicode_case1 cr case_mask =
    (if case_mask = 0 then (cr, 0) else unicode_case1_loop cr case_mask case_conv_table1)"

text \<open>The advance to the run of a character, from the run of the character before it;
\<open>None\<close> is the failure of the assertion.\<close>

function canonicalize_run :: "nat \<Rightarrow> u32 \<Rightarrow> nat option" where
  "canonicalize_run idx c =
    (if idx < length case_conv_table1 then
       let v = case_conv_table1 ! idx in
       if c \<ge> run_code v \<and> c < run_code v + run_len v then Some idx
       else canonicalize_run (idx + 1) c
     else None)"
  by pat_completeness auto
termination
  by (relation "measure (\<lambda>(idx, c). length case_conv_table1 - idx)") auto

declare canonicalize_run.simps [simp del]

text \<open>The loop of \<^verbatim>\<open>cr_regexp_canonicalize\<close>: its state is the index of the
run, the interval that is being built and the set of the finished ones. The result of the call of
\<^verbatim>\<open>cr_add_interval\<close> is not tested.\<close>

record canon_state =
  cn_idx :: nat
  cn_start :: u32
  cn_end :: u32
  cn_result :: char_range

definition canonicalize_char :: "bool \<Rightarrow> u32 \<Rightarrow> canon_state \<Rightarrow> canon_state option" where
  "canonicalize_char is_unicode c st = do {
     idx \<leftarrow> canonicalize_run (cn_idx st) c;
     d \<leftarrow> lre_case_folding_entry c idx (case_conv_table1 ! idx) is_unicode;
     let st = st\<lparr>cn_idx := idx\<rparr>;
     Some (if cn_start st = UINT32_MAX then st\<lparr>cn_start := d, cn_end := d + 1\<rparr>
           else if cn_end st = d then st\<lparr>cn_end := cn_end st + 1\<rparr>
           else st\<lparr>cn_result := fst (cr_add_interval (cn_result st) (cn_start st) (cn_end st)),
                   cn_start := d, cn_end := d + 1\<rparr>)
   }"

lemma uint_inc: "c < stop \<Longrightarrow> uint (c + 1 :: u32) = uint c + 1"
  using uint_le_max [of stop] by (intro uint_plus1) (simp add: word_less_def)

function canonicalize_interval :: "bool \<Rightarrow> u32 \<Rightarrow> u32 \<Rightarrow> canon_state \<Rightarrow> canon_state option" where
  "canonicalize_interval is_unicode c stop st =
    (if c < stop then
       (case canonicalize_char is_unicode c st of
          None \<Rightarrow> None
        | Some st' \<Rightarrow> canonicalize_interval is_unicode (c + 1) stop st')
     else Some st)"
  by pat_completeness auto
termination
  by (relation "measure (\<lambda>(u, c, stop, st). nat (uint stop - uint c))") (auto simp: uint_inc word_less_def)

declare canonicalize_interval.simps [simp del]

fun canonicalize_loop :: "bool \<Rightarrow> u32 list \<Rightarrow> canon_state \<Rightarrow> canon_state option" where
  "canonicalize_loop is_unicode (start # stop # pts) st =
    (case canonicalize_interval is_unicode start stop st of
       None \<Rightarrow> None
     | Some st' \<Rightarrow> canonicalize_loop is_unicode pts st')"
| "canonicalize_loop is_unicode _ st = Some st"

definition cr_regexp_canonicalize :: "char_range \<Rightarrow> bool \<Rightarrow> (char_range \<times> int) option" where
  "cr_regexp_canonicalize cr is_unicode =
    (let empty = cr_init (cr_realloc_func cr) (Some (cr_realloc_func cr)) in
     case unicode_case1 empty (if is_unicode then CASE_F else CASE_U) of (cr_mask, r1) \<Rightarrow>
     if r1 \<noteq> 0 then Some (cr, -1) else
     case cr_op empty (cr_points cr_mask) (cr_points cr) CR_OP_INTER of (cr_inter, r2) \<Rightarrow>
     if r2 \<noteq> 0 then Some (cr, -1) else
     case cr_invert cr_mask of (cr_mask, r3) \<Rightarrow>
     if r3 \<noteq> 0 then Some (cr, -1) else
     case cr_op empty (cr_points cr_mask) (cr_points cr) CR_OP_INTER of (cr_sub, r4) \<Rightarrow>
     if r4 \<noteq> 0 then Some (cr, -1) else
     do {
       st \<leftarrow> canonicalize_loop is_unicode (cr_points cr_inter)
         \<lparr>cn_idx = 0, cn_start = UINT32_MAX, cn_end = UINT32_MAX, cn_result = empty\<rparr>;
       case (if cn_start st \<noteq> UINT32_MAX
             then cr_add_interval (cn_result st) (cn_start st) (cn_end st) else (cn_result st, 0)) of (cr_result, r5) \<Rightarrow>
       if r5 \<noteq> 0 then Some (cr, -1) else
       do {
         cr_result \<leftarrow> cr_sort_and_remove_overlap cr_result;
         Some (cr_op (cr\<lparr>cr_points := []\<rparr>) (cr_points cr_result) (cr_points cr_sub) CR_OP_UNION)
       }
     })"

section \<open>Lemmas\<close>

subsection \<open>The characters that a conversion changes\<close>

text \<open>The characters of a run that upper casing or case folding changes.\<close>

definition run_affects :: "bool \<Rightarrow> u32 \<Rightarrow> u32 \<Rightarrow> bool" where
  "run_affects is_unicode v c =
    (let a = uint (c - run_code v) in
     if run_type v = 4 then odd a \<noteq> is_unicode
     else if run_type v = 5 then a = 1 \<or> a = (if is_unicode then 0 else 2)
     else run_type v \<in> (if is_unicode then {2, 3, 6, 7, 8, 10, 11, 12, 13} else {0, 2, 6, 7, 8, 9, 11, 13}))"

lemma ascii_run_fields:
  "uint (run_code (case_conv_table1 ! 0)) = 65" "uint (run_len (case_conv_table1 ! 0)) = 26"
  "uint (run_code (case_conv_table1 ! 1)) = 97" "uint (run_len (case_conv_table1 ! 1)) = 26"
  "uint (run_code (case_conv_table1 ! 2)) = 181" "run_type (case_conv_table1 ! 0) = 3" "run_type (case_conv_table1 ! 1) = 0"
  "run_data (case_conv_table1 ! 0) (case_conv_table2 ! 0) = 1"
  by (simp_all add: case_conv_table1_def case_conv_table2_def run_code_def run_len_def run_type_def run_data_def)

lemma ascii_runs:
  assumes "i < 378" "in_run (case_conv_table1 ! i) c" "c < 128"
  shows "i = 0 \<and> 65 \<le> c \<and> c \<le> 90 \<or> i = 1 \<and> 97 \<le> c \<and> c \<le> 122"
proof -
  have "\<not> 2 < i"
    using run_order(2) [OF assms(1), of 2] assms(2,3) run_order(1) [of 2]
    by (auto simp: in_run_uint word_less_def ascii_run_fields)
  then consider "i = 0" | "i = 1" | "i = 2" by linarith
  then show ?thesis
    using assms(2,3) by cases (simp_all add: in_run_uint ascii_run_fields ascii_run_fields(3,4) [unfolded One_nat_def] word_less_def word_le_def)
qed

lemma ascii_run_iff:
  "in_run (case_conv_table1 ! 0) c \<longleftrightarrow> 65 \<le> c \<and> c \<le> 90"
  "in_run (case_conv_table1 ! Suc 0) c \<longleftrightarrow> 97 \<le> c \<and> c \<le> 122"
  "run_affects is_unicode (case_conv_table1 ! 0) c \<longleftrightarrow> is_unicode"
  "run_affects is_unicode (case_conv_table1 ! Suc 0) c \<longleftrightarrow> \<not> is_unicode"
  by (auto simp: run_affects_def in_run_uint ascii_run_fields ascii_run_fields(3,4,7) [unfolded One_nat_def] word_le_def)

lemma uint_eq_of: "(x :: u32) = y \<longleftrightarrow> uint x = uint y"
  by (simp add: word_uint_eq_iff)

lemma folding_unaffected:
  assumes "idx < 378" "in_run (case_conv_table1 ! idx) c" "\<not> run_affects is_unicode (case_conv_table1 ! idx) c"
    "is_unicode \<or> \<not> c < 128"
  shows "lre_case_folding_entry c idx (case_conv_table1 ! idx) is_unicode = Some c"
proof -
  define v where "v = case_conv_table1 ! idx"
  have ok: "int_run_ok (uint v) (uint (case_conv_table2 ! idx))" and t2: "load case_conv_table2 idx = Some (case_conv_table2 ! idx)"
    using run_at [OF assms(1)] by (simp_all add: v_def)
  define a where "a = c - run_code v"
  have "run_type v \<le> 3 \<or> run_type v = 4 \<or> run_type v = 5 \<or> run_type v = 9 \<or> run_type v = 10 \<or> run_type v = 12"
     using run_types [OF run_data_ok(1) [OF ok]] assms(3) by (auto simp: run_affects_def v_def split: if_splits)
  moreover have "lre_case_conv_entry c (if is_unicode then 2 else 0) idx v = Some [c]" if "run_type v \<le> 3"
    using that assms(3) by (auto simp: lre_case_conv_entry.simps t2 run_affects_def v_def [symmetric] Let_def split: if_splits)
  moreover have "lre_case_conv_entry c (if is_unicode then 2 else 0) idx v = Some [c]" if "run_type v = 4"
    using that assms(3) by (cases is_unicode) (auto simp: lre_case_conv_entry.simps t2 run_affects_def v_def [symmetric] Let_def uint_eq_of uint_masks even_iff_mod_2_eq_zero)
  moreover have "lre_case_conv_entry c (if is_unicode then 2 else 0) idx v = Some [c]" if "run_type v = 5"
    using that assms(3) by (simp add: lre_case_conv_entry.simps t2 run_affects_def v_def [symmetric] Let_def uint_eq_of split: if_splits)
  moreover have "lre_case_conv_entry c (if is_unicode then 2 else 0) idx v = Some [c]" if "run_type v = 9 \<or> run_type v = 10 \<or> run_type v = 12"
    using that assms(3) by (auto simp: lre_case_conv_entry.simps t2 run_affects_def v_def [symmetric] Let_def  split: if_splits)
  ultimately have "lre_case_conv_entry c (if is_unicode then 2 else 0) idx v = Some [c]" by blast
  then show ?thesis using assms(4) by (auto simp: lre_case_folding_entry_def v_def load_def split: if_splits)
qed

subsection \<open>The intervals of the runs\<close>

abbreviation fold_mask :: "bool \<Rightarrow> nat" where
  "fold_mask is_unicode \<equiv> if is_unicode then 4 else 1"

lemma case_run_mask_bits:
  "(drop_bit (run_type v) (case_run_mask (fold_mask is_unicode)) AND 1 = 0) =
    (run_type v \<notin> (if is_unicode then {2, 3, 4, 5, 6, 7, 8, 10, 11, 12, 13} else {0, 2, 4, 5, 6, 7, 8, 9, 11, 13}))"
proof -
  have "\<forall>t\<in>set [0..<16]. (drop_bit t (case_run_mask 4) AND 1 = 0) = (t \<notin> {2, 3, 4, 5, 6, 7, 8, 10, 11, 12, 13})"
    "\<forall>t\<in>set [0..<16]. (drop_bit t (case_run_mask 1) AND 1 = 0) = (t \<notin> {0, 2, 4, 5, 6, 7, 8, 9, 11, 13})"
    by code_simp+
  then show ?thesis using run_bounds(4) [of v] by (cases is_unicode) (auto simp del: upt.simps)
qed

fun pts_of :: "(u32 \<times> u32) list \<Rightarrow> u32 list" where
  "pts_of [] = []"
| "pts_of ((s, e) # ivs) = s # e # pts_of ivs"

lemma pts_of_append: "pts_of (xs @ ys) = pts_of xs @ pts_of ys"
  by (induction xs rule: pts_of.induct) auto

lemma point_pairs_pts_of [simp]: "point_pairs (pts_of ivs) = ivs"
  by (induction ivs rule: pts_of.induct) auto

text \<open>Intervals in increasing order between two bounds.\<close>

fun chain :: "int \<Rightarrow> (u32 \<times> u32) list \<Rightarrow> int \<Rightarrow> bool" where
  "chain lo [] hi = (lo \<le> hi)"
| "chain lo ((s, e) # ivs) hi = (lo \<le> uint s \<and> uint s \<le> uint e \<and> chain (uint e) ivs hi)"

lemma chain_append: "chain lo xs mid \<Longrightarrow> chain mid ys hi \<Longrightarrow> chain lo (xs @ ys) hi"
proof (induction lo xs mid rule: chain.induct)
  case (1 lo mid)
  then show ?case by (cases ys rule: pts_of.cases) auto
qed auto

lemma chain_mono: "chain lo ivs hi \<Longrightarrow> lo' \<le> lo \<Longrightarrow> hi \<le> hi' \<Longrightarrow> chain lo' ivs hi'"
  by (induction lo ivs hi arbitrary: lo' rule: chain.induct) auto

lemma chain_sorted: "chain lo ivs hi \<Longrightarrow> cr_sorted (pts_of ivs) \<and> (\<forall>p\<in>set (pts_of ivs). lo \<le> uint p)"
  by (induction lo ivs hi rule: chain.induct) (fastforce simp: cr_sorted_def word_le_def)+

lemma cr_set_pairs: "cr_sorted pts \<Longrightarrow> cr_set pts = intervals_set (point_pairs pts)"
proof (induction pts rule: point_pairs.induct)
  case (1 s e pts)
  then have later: "c \<in> cr_set pts \<Longrightarrow> e \<le> c" for c
    using cr_count_0 [of pts c] by (fastforce simp: cr_set_def cr_sorted_def)
  have "cr_set (s # e # pts) = {s..<e} \<union> cr_set pts"
    using 1(2) later by (auto simp: cr_set_def cr_sorted_def)
  with 1 show ?case by (simp add: intervals_set_Cons cr_sorted_def)
qed (auto simp: cr_sorted_def cr_set_def intervals_set_def)

lemma intervals_set_append: "intervals_set (xs @ ys) = intervals_set xs \<union> intervals_set ys"
  by (auto simp: intervals_set_def)

text \<open>With an allocator that never fails the operations return 0.\<close>

definition cr_yields :: "char_range \<times> int \<Rightarrow> (u32 list \<Rightarrow> bool) \<Rightarrow> bool" where
  "cr_yields res P \<longleftrightarrow> snd res = 0 \<and> P (cr_points (fst res)) \<and> (\<forall>n. cr_realloc_func (fst res) n)"

lemma cr_gives_yields: "cr_gives cr res P \<Longrightarrow> \<forall>n. cr_realloc_func cr n \<Longrightarrow> cr_yields res P"
  by (auto simp: cr_gives_def cr_yields_def)

lemma cr_add_intervals_yields:
  "\<forall>n. cr_realloc_func cr n \<Longrightarrow> cr_yields (cr_add_intervals cr ivs) (\<lambda>pts. pts = cr_points cr @ pts_of ivs)"
proof (induction cr ivs rule: cr_add_intervals.induct)
  case (2 cr c1 c2 ivs)
  then show ?case
    using cr_gives_yields [OF cr_add_interval_gives [of cr c1 c2]] 
    by (cases "cr_add_interval cr c1 c2") (auto simp: cr_yields_def)
qed (simp add: cr_yields_def)

lemma unicode_case1_loop_yields:
  "\<forall>n. cr_realloc_func cr n \<Longrightarrow>
    cr_yields (unicode_case1_loop cr m vs) (\<lambda>pts. pts = cr_points cr @ pts_of (concat (map (case_run_intervals m) vs)))"
proof (induction cr m vs rule: unicode_case1_loop.induct)
  case (2 cr m v vs)
  then show ?case
    using cr_add_intervals_yields [OF 2(2), of "case_run_intervals m v"]
    by (cases "cr_add_intervals cr (case_run_intervals m v)") (auto simp: cr_yields_def pts_of_append)
qed (simp add: cr_yields_def)

lemma mem_interval: "c \<in> intervals_set [(s, e)] \<longleftrightarrow> uint s \<le> uint c \<and> uint c < uint e"
  by (simp add: intervals_set_def word_le_def word_less_def)

lemma uint_alternate:
  assumes "uint code < 200000" "i < 64"
  shows "uint (code + of_nat (2 * i) :: u32) = uint code + 2 * int i"
    "uint (code + of_nat (2 * i) + 1 :: u32) = uint code + 2 * int i + 1"
proof -
  have i: "uint (of_nat (2 * i) :: u32) = 2 * int i"
    using assms(2) by (simp add: unsigned_of_nat take_bit_nat_eq_self del: of_nat_mult)
  show 1: "uint (code + of_nat (2 * i) :: u32) = uint code + 2 * int i"
    using assms i by (subst uint_plus_small) auto
  show "uint (code + of_nat (2 * i) + 1 :: u32) = uint code + 2 * int i + 1"
    using assms 1 by (subst uint_plus1) auto
qed

lemma alternate_intervals:
  assumes "uint code < 200000" "n \<le> 64"
  defines "f \<equiv> \<lambda>i. (code + of_nat (2 * i), code + of_nat (2 * i) + 1 :: u32)"
  shows "chain (uint code) (map f [0..<n]) (uint code + 2 * int n - of_bool (0 < n))"
    "c \<in> intervals_set (map f [0..<n]) \<longleftrightarrow> (\<exists>i<n. uint c = uint code + 2 * int i)"
proof -
  have f: "uint (fst (f i)) = uint code + 2 * int i" "uint (snd (f i)) = uint code + 2 * int i + 1" if "i < n" for i
    using that assms(2) uint_alternate [OF assms(1), of i] by (auto simp: f_def)
  have "k \<le> n \<Longrightarrow> chain (uint code) (map f [0..<k]) (uint code + 2 * int k - of_bool (0 < k))" for k
  proof (induction k)
    case (Suc k)
    obtain s e where se: "f k = (s, e)" by fastforce
    have "uint s = uint code + 2 * int k" "uint e = uint code + 2 * int k + 1"
      using f [of k] Suc.prems by (auto simp: se)
    then have "chain (uint code + 2 * int k - of_bool (0 < k)) [f k] (uint code + 2 * int (Suc k) - of_bool (0 < Suc k))"
      by (simp add: se)
    then show ?case using Suc by (auto intro!: chain_append)
  qed simp
  then show "chain (uint code) (map f [0..<n]) (uint code + 2 * int n - of_bool (0 < n))" by simp
  have "c \<in> intervals_set (map f [0..<n]) \<longleftrightarrow> (\<exists>i<n. uint (fst (f i)) \<le> uint c \<and> uint c < uint (snd (f i)))"
    by (simp add: intervals_set_def word_le_def word_less_def case_prod_beta Bex_def)
  also have "\<dots> \<longleftrightarrow> (\<exists>i<n. uint c = uint code + 2 * int i)"
    using f by (intro ex_cong1) auto
  finally show "c \<in> intervals_set (map f [0..<n]) \<longleftrightarrow> (\<exists>i<n. uint c = uint code + 2 * int i)" .
qed

lemma parity_offset:
  fixes a n b :: int
  assumes "even n" "b \<in> {0, 1}"
  shows "(\<exists>i<nat n div 2. a = b + 2 * int i) \<longleftrightarrow> 0 \<le> a \<and> a < n \<and> odd a = (b = 1)"
proof
  assume a: "0 \<le> a \<and> a < n \<and> odd a = (b = 1)"
  with assms obtain k where k: "a = b + 2 * k"
    by (cases "b = 0") (auto elim!: evenE oddE)
  with a assms have "0 \<le> k" "2 * k < n" by auto
  with k assms(1) show "\<exists>i<nat n div 2. a = b + 2 * int i" by (intro exI [of _ "nat k"]) auto
qed (use assms in auto)

lemma case_run_intervals_spec:
  fixes is_unicode :: bool
  assumes "idx < 378"
  defines "v \<equiv> case_conv_table1 ! idx"
  defines "ivs \<equiv> case_run_intervals (fold_mask is_unicode) v"
  shows "chain (uint (run_code v)) ivs (uint (run_code v) + uint (run_len v))
     \<and> intervals_set ivs = {c. in_run v c \<and> run_affects is_unicode v c}"
proof -
  have ok: "int_run_ok (uint v) (uint (case_conv_table2 ! idx))" using run_at [OF assms(1)] by (simp add: v_def)
  note t = run_data_ok [OF ok]
  note b = run_bounds [of v]
  consider (none) "drop_bit (run_type v) (case_run_mask (fold_mask is_unicode)) AND 1 = 0" 
    | (UL) "run_type v = 4" | (LSU) "run_type v = 5" 
    | (all) "drop_bit (run_type v) (case_run_mask (fold_mask is_unicode)) AND 1 \<noteq> 0" "run_type v \<noteq> 4" "run_type v \<noteq> 5" by blast
  then show ?thesis
  proof cases
    case none
    have "ivs = []" using none by (simp add: ivs_def case_run_intervals_def Let_def)
    moreover have "\<not> run_affects is_unicode v c" for c
      using none unfolding case_run_mask_bits by (auto simp: run_affects_def split: if_splits)
    ultimately show ?thesis by (simp add: intervals_set_def b)
  next
    case all
    then have "ivs = [(run_code v, run_code v + run_len v)]"
      by (auto simp: ivs_def case_run_intervals_def Let_def)
    moreover have "run_affects is_unicode v c" for c
      using all unfolding case_run_mask_bits by (auto simp: run_affects_def split: if_splits)
    ultimately show ?thesis by (auto simp: intervals_set_def in_run_def b)
  next
    case LSU
    have plus: "uint (run_code v + 1) = uint (run_code v) + 1" "uint (run_code v + 2) = uint (run_code v) + 2"
      "uint (run_code v + 3) = uint (run_code v) + 3"
      using b(1) by (simp_all add: uint_plus_small)
    have m: "drop_bit (run_type v) (case_run_mask (fold_mask is_unicode)) AND 1 \<noteq> 0"
      unfolding case_run_mask_bits using LSU by simp
    have ivs: "ivs = (if is_unicode then [(run_code v, run_code v + 1), (run_code v + 1, run_code v + 2)]
       else [(run_code v + 1, run_code v + 2), (run_code v + 2, run_code v + 3)])"
      using m LSU by (auto simp: ivs_def case_run_intervals_def Let_def)
    have "c \<in> intervals_set ivs \<longleftrightarrow> in_run v c \<and> run_affects is_unicode v c" for c
      using LSU t(5) [OF LSU]
      by (cases "uint (run_code v) \<le> uint c"; cases is_unicode)
         (auto simp: ivs intervals_set_Cons plus in_run_uint run_affects_def uint_minus word_le_def word_less_def
           intervals_set_def)
    moreover have "chain (uint (run_code v)) ivs (uint (run_code v) + uint (run_len v))"
      unfolding t(5) [OF LSU] by (cases is_unicode) (simp_all add: ivs plus)
    ultimately show ?thesis by blast
  next
    case UL
    have m: "drop_bit (run_type v) (case_run_mask (fold_mask is_unicode)) AND 1 \<noteq> 0"
      unfolding case_run_mask_bits using UL by simp
    let ?b = "of_bool (\<not> is_unicode)"
    let ?code = "run_code v + of_bool (\<not> is_unicode)"
    let ?len = "uint (run_len v)"
    have code: "uint ?code = uint (run_code v) + of_bool (\<not> is_unicode)"
      using b(1) by (cases is_unicode) (simp_all add: uint_plus_small)
    have n: "(unat (run_len v) + 1) div 2 = nat ?len div 2"
    proof -
      have "even (unat (run_len v))" using t(4) [OF UL] by (metis even_of_nat_iff uint_nat)
      then show ?thesis by simp
    qed
    have ivs: "ivs = map (\<lambda>i. (?code + of_nat (2 * i), ?code + of_nat (2 * i) + 1)) [0..<nat ?len div 2]"
      using m UL n by (simp add: ivs_def case_run_intervals_def Let_def)
    have le: "uint ?code < 200000" "nat ?len div 2 \<le> 64"
      using b(1) code unat_less [OF b(3)] by auto
    note alt = alternate_intervals [OF le, folded ivs]
    have "c \<in> intervals_set ivs \<longleftrightarrow> in_run v c \<and> run_affects is_unicode v c" for c
    proof -
      have "c \<in> intervals_set ivs \<longleftrightarrow> (\<exists>i<nat ?len div 2. uint c - uint (run_code v) = ?b + 2 * int i)"
        unfolding alt(2) code by (intro ex_cong1) auto
      also have "\<dots> \<longleftrightarrow> 0 \<le> uint c - uint (run_code v) \<and> uint c - uint (run_code v) < ?len
          \<and> odd (uint c - uint (run_code v)) = (?b = (1 :: int))"
        by (rule parity_offset) (use t(4) [OF UL] in auto)
      also have "\<dots> \<longleftrightarrow> in_run v c \<and> run_affects is_unicode v c"
        using UL by (auto simp: in_run_uint run_affects_def uint_minus)
      finally show ?thesis .
    qed
    moreover have "chain (uint (run_code v)) ivs (uint (run_code v) + ?len)"
    proof (rule chain_mono [OF alt(1)])
      have half: "2 * int (nat ?len div 2) = ?len" using t(4) [OF UL] by (simp add: zdiv_int)
      moreover have "0 < nat ?len div 2" using half run_order(1) [OF assms(1)] by (simp add: v_def)
      ultimately show "uint ?code + 2 * int (nat ?len div 2) - of_bool (0 < nat ?len div 2) \<le> uint (run_code v) + ?len"
        using code by (cases is_unicode) simp_all
    qed (use code in simp)
    ultimately show ?thesis by blast
  qed
qed

definition case_mask_set :: "bool \<Rightarrow> u32 set" where
  "case_mask_set is_unicode =
    {c. \<exists>i<378. in_run (case_conv_table1 ! i) c \<and> run_affects is_unicode (case_conv_table1 ! i) c}"

lemma chain_le: "chain lo ivs hi \<Longrightarrow> lo \<le> hi"
  by (induction lo ivs hi rule: chain.induct) auto

lemma table_chain:
  "k \<le> 378 \<Longrightarrow> 0 < k \<Longrightarrow> chain 0 (concat (map (case_run_intervals (fold_mask is_unicode)) (take k case_conv_table1)))
      (uint (run_code (case_conv_table1 ! (k - 1))) + uint (run_len (case_conv_table1 ! (k - 1))))"
proof (induction k)
  case (Suc k)
  let ?v = "case_conv_table1 ! k"
  have take: "take (Suc k) case_conv_table1 = take k case_conv_table1 @ [?v]"
    using Suc.prems by (simp add: take_Suc_conv_app_nth case_conv_lengths)
  have last: "chain (uint (run_code ?v)) (case_run_intervals (fold_mask is_unicode) ?v) (uint (run_code ?v) + uint (run_len ?v))"
    using case_run_intervals_spec [of k is_unicode] Suc.prems by simp
  have "chain 0 (concat (map (case_run_intervals (fold_mask is_unicode)) (take k case_conv_table1))) (uint (run_code ?v))"
  proof (cases "k = 0")
    case False
    then show ?thesis
      using Suc run_order(2) [of k "k - 1"] by (intro chain_mono [OF Suc.IH]) auto
  qed simp
  then show ?case using last by (auto simp: take intro: chain_append)
qed simp

lemma intervals_set_concat: "intervals_set (concat (map f xs)) = (\<Union>x\<in>set xs. intervals_set (f x))"
  by (auto simp: intervals_set_def)

lemma unicode_case1_yields:
  assumes "\<forall>n. cr_realloc_func cr n" "cr_points cr = []"
  shows "cr_yields (unicode_case1 cr (fold_mask is_unicode)) (\<lambda>pts. cr_sorted pts \<and> cr_set pts = case_mask_set is_unicode)"
proof -
  let ?ivs = "concat (map (case_run_intervals (fold_mask is_unicode)) case_conv_table1)"
  have s: "cr_sorted (pts_of ?ivs)"
    using chain_sorted [OF table_chain [of 378 is_unicode]] by (simp add: case_conv_lengths)
  have "c \<in> intervals_set ?ivs \<longleftrightarrow> (\<exists>i<378. c \<in> intervals_set (case_run_intervals (fold_mask is_unicode) (case_conv_table1 ! i)))" for c
    by (auto simp: intervals_set_concat set_conv_nth [of case_conv_table1] case_conv_lengths)
  then have "intervals_set ?ivs = case_mask_set is_unicode"
    using conjunct2 [OF case_run_intervals_spec] unfolding case_mask_set_def by blast
  then have "cr_set (pts_of ?ivs) = case_mask_set is_unicode"
    using cr_set_pairs [OF s] by simp
  then show ?thesis
    using unicode_case1_loop_yields [OF assms(1), of "fold_mask is_unicode" case_conv_table1] assms(2) s
    unfolding unicode_case1_def cr_yields_def by auto
qed

lemma canonicalize_entry:
  assumes "idx < 378" "in_run (case_conv_table1 ! idx) c" "run_affects is_unicode (case_conv_table1 ! idx) c"
  shows "lre_case_folding_entry c idx (case_conv_table1 ! idx) is_unicode = lre_canonicalize c is_unicode"
proof (cases "c < 128")
  case True
  consider "idx = 0" "65 \<le> c" "c \<le> 90" "is_unicode" | "idx = 1" "97 \<le> c" "c \<le> 122" "\<not> is_unicode"
    using ascii_runs [OF assms(1,2) True] assms(3) by (auto simp: ascii_run_iff)
  then show ?thesis
  proof cases
    case 1
    have "run_code (case_conv_table1 ! 0) = 65" "run_code (case_conv_table1 ! 1) = 97"
      using ascii_run_fields(1,3) by (simp_all add: uint_eq_of)
    then show ?thesis
      using 1 True ascii_run_fields run_at [of 0] run_at [of 1]
      by (simp add: lre_case_folding_entry_def lre_canonicalize_def lre_case_conv_entry.simps Let_def load_def)
  next
    case 2
    then show ?thesis using True by (simp add: lre_case_folding_entry_def lre_canonicalize_def)
  qed
next
  case False
  show ?thesis
  proof (cases c rule: search_cases)
    case (found i)
    then have "i = idx" using in_run_unique assms by blast
    then show ?thesis using False found by (simp add: lre_canonicalize_def)
  qed (use assms in auto)
qed

lemma canonicalize_other:
  assumes "c \<notin> case_mask_set is_unicode"
  shows "lre_canonicalize c is_unicode = Some c"
proof (cases c rule: search_cases)
  case (found idx)
  then have n: "\<not> run_affects is_unicode (case_conv_table1 ! idx) c" using assms by (auto simp: case_mask_set_def)
  show ?thesis
  proof (cases "c < 128")
    case True
    then show ?thesis
      using ascii_runs [OF found(1,2)] n order_trans [of 97 c 90]
      by (cases is_unicode) (auto simp: lre_canonicalize_def ascii_run_iff)
  next
    case False
    then show ?thesis using folding_unaffected [OF found(1,2) n] found by (simp add: lre_canonicalize_def)
  qed
next
  case missing
  then have "\<not> in_run (case_conv_table1 ! 0) c" "\<not> in_run (case_conv_table1 ! Suc 0) c" by auto
  then show ?thesis using missing by (auto simp: lre_canonicalize_def ascii_run_iff)
qed

subsection \<open>The walk\<close>

lemma canonicalize_run_finds:
  "i \<le> j \<Longrightarrow> j < 378 \<Longrightarrow> in_run (case_conv_table1 ! j) c \<Longrightarrow> canonicalize_run i c = Some j"
proof (induction i c rule: canonicalize_run.induct)
  case (1 i c)
  show ?case
  proof (cases "in_run (case_conv_table1 ! i) c")
    case True
    then have "i = j" using 1 in_run_unique by (meson le_less_trans)
    with True 1(3) show ?thesis by (subst canonicalize_run.simps) (simp add: in_run_def case_conv_lengths)
  next
    case False
    with 1(2,4) have "i \<noteq> j" by auto
    with 1 False show ?thesis
      by (simp add: canonicalize_run.simps [of i c] in_run_def [symmetric] case_conv_lengths conj_commute) 
  qed
qed

text \<open>What the loop keeps: the canonical characters \<open>S\<close> of the characters seen so far are
in the finished intervals or in the current one, and no character from \<open>c\<close> on is in a run before
the current one.\<close>

definition canon_inv :: "u32 \<Rightarrow> u32 set \<Rightarrow> canon_state \<Rightarrow> bool" where
  "canon_inv c S st \<longleftrightarrow>
    (\<forall>n. cr_realloc_func (cn_result st) n)
    \<and> (\<forall>iv\<in>set (point_pairs (cr_points (cn_result st))). fst iv < snd iv)
    \<and> even (cr_len (cn_result st))
    \<and> (if cn_start st = UINT32_MAX then S = {} \<and> cr_points (cn_result st) = []
       else cn_start st < cn_end st \<and> S = intervals_set (point_pairs (cr_points (cn_result st))) \<union> {cn_start st..<cn_end st})
    \<and> (\<forall>j<378. \<forall>c'\<ge>c. in_run (case_conv_table1 ! j) c' \<longrightarrow> cn_idx st \<le> j)"

lemma point_pairs_append: "even (length xs) \<Longrightarrow> point_pairs (xs @ ys) = point_pairs xs @ point_pairs ys"
  by (induction xs rule: point_pairs.induct) auto

lemma insert_interval: "uint d < code_bound \<Longrightarrow> {d..<d + 1 :: u32} = {d}" "uint d < code_bound \<Longrightarrow> d < d + 1"
  "uint d < code_bound \<Longrightarrow> s < d \<Longrightarrow> {s..<d + 1 :: u32} = insert d {s..<d}"
proof -
  assume "uint d < code_bound"
  then have d: "uint (d + 1) = uint d + 1" by (intro uint_plus1) (simp add: code_bound_def)
  then show "{d..<d + 1 :: u32} = {d}" "d < d + 1" "s < d \<Longrightarrow> {s..<d + 1 :: u32} = insert d {s..<d}"
    by (auto simp: word_le_def word_less_def uint_eq_of)
qed

lemma canonicalize_char_step:
  assumes "canon_inv c S st" "c \<in> case_mask_set is_unicode" "c < stop"
  shows "\<exists>st' d. canonicalize_char is_unicode c st = Some st' \<and> lre_canonicalize c is_unicode = Some d
    \<and> canon_inv (c + 1) (insert d S) st'"
proof -
  obtain j where j: "j < 378" "in_run (case_conv_table1 ! j) c" "run_affects is_unicode (case_conv_table1 ! j) c"
    using assms(2) by (auto simp: case_mask_set_def)
  obtain d where d: "lre_case_folding_entry c j (case_conv_table1 ! j) is_unicode = Some d" "uint d < code_bound"
    using lre_case_folding_entry_ok [OF j(1,2)] by blast
  have canon: "lre_canonicalize c is_unicode = Some d" using canonicalize_entry [OF j] d(1) by simp
  have run: "canonicalize_run (cn_idx st) c = Some j"
    using assms(1) j by (intro canonicalize_run_finds) (auto simp: canon_inv_def)
  have later: "\<forall>i<378. \<forall>c'\<ge>c + 1. in_run (case_conv_table1 ! i) c' \<longrightarrow> j \<le> i"
    using in_run_later [OF j(1) _ j(2)] uint_inc [OF assms(3)] by (auto simp: word_le_def)
  have dmax: "d \<noteq> UINT32_MAX" using d(2) by (auto simp: code_bound_def UINT32_MAX_def)
  note iv = insert_interval(1,2) [OF d(2)] insert_interval(3) [OF d(2), of "cn_start st"]
  consider (first) "cn_start st = UINT32_MAX" | (extend) "cn_start st \<noteq> UINT32_MAX" "cn_end st = d"
    | (flush) "cn_start st \<noteq> UINT32_MAX" "cn_end st \<noteq> d" by blast
  then show ?thesis
  proof cases
    case first
    then show ?thesis
      using assms(1) run d(1) canon later dmax iv(1,2)
      by (auto simp: canonicalize_char_def canon_inv_def intervals_set_def)
  next
    case extend
    then show ?thesis
      using assms(1) run d(1) canon later dmax iv by (auto simp: canonicalize_char_def canon_inv_def)
  next
    case flush
    obtain cr' r where add: "cr_add_interval (cn_result st) (cn_start st) (cn_end st) = (cr', r)" by fastforce
    have "cr_yields (cr_add_interval (cn_result st) (cn_start st) (cn_end st))
        (\<lambda>pts. pts = cr_points (cn_result st) @ [cn_start st, cn_end st])"
      using assms(1) by (intro cr_gives_yields [OF cr_add_interval_gives]) (simp add: canon_inv_def)
    then have cr': "cr_points cr' = cr_points (cn_result st) @ [cn_start st, cn_end st]" "\<forall>n. cr_realloc_func cr' n"
      by (auto simp: cr_yields_def add)
    show ?thesis
      using flush assms(1) run d(1) canon later dmax iv(1,2) cr'
      by (auto simp: canonicalize_char_def canon_inv_def add point_pairs_append intervals_set_append intervals_set_Cons intervals_set_def [of "[]"])
  qed
qed

definition canon_image :: "bool \<Rightarrow> u32 set \<Rightarrow> u32 set" where
  "canon_image is_unicode A = {d. \<exists>c\<in>A. lre_canonicalize c is_unicode = Some d}"

lemma canonicalize_interval_steps:
  "canon_inv c S st \<Longrightarrow> {c..<stop} \<subseteq> case_mask_set is_unicode \<Longrightarrow> c \<le> stop \<Longrightarrow>
    \<exists>st'. canonicalize_interval is_unicode c stop st = Some st' \<and> canon_inv stop (S \<union> canon_image is_unicode {c..<stop}) st'"
proof (induction is_unicode c stop st arbitrary: S rule: canonicalize_interval.induct)
  case (1 is_unicode c stop st)
  show ?case
  proof (cases "c < stop")
    case True
    with 1(3) have "c \<in> case_mask_set is_unicode" by auto
    then obtain st' d where st': "canonicalize_char is_unicode c st = Some st'" "lre_canonicalize c is_unicode = Some d"
      "canon_inv (c + 1) (insert d S) st'"
      using canonicalize_char_step [OF 1(2) _ True] by blast
    have split: "{c..<stop} = insert c {c + 1..<stop}" "c + 1 \<le> stop"
      using True uint_inc [OF True] by (auto simp: word_le_def word_less_def uint_eq_of)
    obtain st'' where st'': "canonicalize_interval is_unicode (c + 1) stop st' = Some st''"
      "canon_inv stop (insert d S \<union> canon_image is_unicode {c + 1..<stop}) st''"
      using 1(1) [OF True st'(1) st'(3)] 1(3) split by auto
    have "insert d S \<union> canon_image is_unicode {c + 1..<stop} = S \<union> canon_image is_unicode {c..<stop}"
      using st'(2) by (auto simp: split(1) canon_image_def)
    then show ?thesis using st'(1) st'' True by (simp add: canonicalize_interval.simps [of is_unicode c stop st])
  next
    case False
    with 1(2,4) show ?thesis by (subst canonicalize_interval.simps) (simp add: canon_image_def)
  qed
qed

lemma canon_inv_mono: "canon_inv c S st \<Longrightarrow> c \<le> c' \<Longrightarrow> canon_inv c' S st"
  unfolding canon_inv_def by (meson order_trans)

lemma canonicalize_loop_steps:
  "canon_inv c S st \<Longrightarrow> cr_canonical pts \<Longrightarrow> \<forall>p\<in>set pts. c \<le> p \<Longrightarrow>
    intervals_set (point_pairs pts) \<subseteq> case_mask_set is_unicode \<Longrightarrow>
    \<exists>st' c'. canonicalize_loop is_unicode pts st = Some st'
      \<and> canon_inv c' (S \<union> canon_image is_unicode (intervals_set (point_pairs pts))) st'"
proof (induction is_unicode pts st arbitrary: c S rule: canonicalize_loop.induct)
  case (1 is_unicode start stop pts st)
  have "canon_inv start S st" using canon_inv_mono [OF 1(2)] 1(4) by simp
  then obtain st' where st': "canonicalize_interval is_unicode start stop st = Some st'"
    "canon_inv stop (S \<union> canon_image is_unicode {start..<stop}) st'"
    using canonicalize_interval_steps [of start S st stop is_unicode] 1(3,5)
    by (auto simp: intervals_set_Cons cr_canonical_def dest: less_imp_le)
  have "\<forall>p\<in>set pts. stop \<le> p" "cr_canonical pts" "intervals_set (point_pairs pts) \<subseteq> case_mask_set is_unicode"
    using 1(3,5) by (auto simp: cr_canonical_def intervals_set_Cons)
  from 1(1) [OF st'(1) st'(2) this(2,1,3)] show ?case
    by (simp add: st'(1) intervals_set_Cons canon_image_def bex_Un Un_assoc Collect_disj_eq)
qed (auto simp: intervals_set_def canon_image_def cr_canonical_def)

lemma canon_image_split:
  "canon_image is_unicode A = canon_image is_unicode (case_mask_set is_unicode \<inter> A) \<union> (A - case_mask_set is_unicode)"
  using canonicalize_other [of _ is_unicode] by (fastforce simp: canon_image_def)

lemma cr_init_simps: "cr_points (cr_init f (Some f)) = []" "cr_realloc_func (cr_init f (Some f)) = f"
  by (simp_all add: cr_init_def)

lemma canonicalize_result:
  assumes inter: "cr_canonical pts" "cr_set pts \<subseteq> case_mask_set is_unicode" and alloc: "\<forall>n. f n"
  shows "\<exists>st cr1 cr2. canonicalize_loop is_unicode pts
        \<lparr>cn_idx = 0, cn_start = UINT32_MAX, cn_end = UINT32_MAX, cn_result = cr_init f (Some f)\<rparr> = Some st
      \<and> (if cn_start st \<noteq> UINT32_MAX then cr_add_interval (cn_result st) (cn_start st) (cn_end st) else (cn_result st, 0)) = (cr1, 0)
      \<and> cr_sort_and_remove_overlap cr1 = Some cr2 \<and> cr_canonical (cr_points cr2)
      \<and> cr_set (cr_points cr2) = canon_image is_unicode (cr_set pts)"
proof -
  let ?st = "\<lparr>cn_idx = 0, cn_start = UINT32_MAX, cn_end = UINT32_MAX, cn_result = cr_init f (Some f)\<rparr>"
  have set: "cr_set pts = intervals_set (point_pairs pts)" by (rule cr_set_pairs [OF cr_canonical_sorted [OF inter(1)]])
  have "canon_inv 0 {} ?st" using alloc by (simp add: canon_inv_def cr_init_simps)
  then obtain st c where st: "canonicalize_loop is_unicode pts ?st = Some st"
    "canon_inv c (canon_image is_unicode (cr_set pts)) st"
    using canonicalize_loop_steps [of 0 "{}" ?st pts is_unicode] inter set by auto
  obtain cr1 r where cr1: "(if cn_start st \<noteq> UINT32_MAX then cr_add_interval (cn_result st) (cn_start st) (cn_end st)
      else (cn_result st, 0)) = (cr1, r)" by fastforce
  have "cr_yields (cr_add_interval (cn_result st) (cn_start st) (cn_end st))
      (\<lambda>pts. pts = cr_points (cn_result st) @ [cn_start st, cn_end st])"
    using st(2) by (intro cr_gives_yields [OF cr_add_interval_gives]) (simp add: canon_inv_def)
  then have ok: "r = 0" "intervals_set (point_pairs (cr_points cr1)) = canon_image is_unicode (cr_set pts)"
    "\<forall>iv\<in>set (point_pairs (cr_points cr1)). fst iv < snd iv"
    using st(2) cr1 by (auto simp: cr_yields_def canon_inv_def point_pairs_append intervals_set_append intervals_set_Cons
        intervals_set_def [of "[]"] split: if_splits)
  with st(1) cr1 cr_sort_and_remove_overlap_spec [OF ok(3)] show ?thesis by auto
qed

lemma canonicalize_parts:
  fixes empty :: char_range
  assumes "cr_sorted pts" and e: "\<forall>n. cr_realloc_func empty n" "cr_points empty = []"
  shows "\<exists>cr_mask cr_inter cr_mask' cr_sub.
    unicode_case1 empty (fold_mask is_unicode) = (cr_mask, 0)
    \<and> cr_op empty (cr_points cr_mask) pts CR_OP_INTER = (cr_inter, 0)
    \<and> cr_invert cr_mask = (cr_mask', 0)
    \<and> cr_op empty (cr_points cr_mask') pts CR_OP_INTER = (cr_sub, 0)
    \<and> cr_canonical (cr_points cr_inter) \<and> cr_set (cr_points cr_inter) = case_mask_set is_unicode \<inter> cr_set pts
    \<and> cr_canonical (cr_points cr_sub) \<and> cr_set (cr_points cr_sub) = cr_set pts - case_mask_set is_unicode"
proof -
  let ?M = "case_mask_set is_unicode" and ?S = "cr_set pts"
  obtain cr_mask where mask: "unicode_case1 empty (fold_mask is_unicode) = (cr_mask, 0)" "cr_sorted (cr_points cr_mask)"
    "cr_set (cr_points cr_mask) = ?M" "\<forall>n. cr_realloc_func cr_mask n"
    using unicode_case1_yields [OF e, of is_unicode]
    by (cases "unicode_case1 empty (fold_mask is_unicode)") (auto simp: cr_yields_def)
  obtain cr_inter where inter: "cr_op empty (cr_points cr_mask) pts CR_OP_INTER = (cr_inter, 0)"
    "cr_canonical (cr_points cr_inter)" "cr_set (cr_points cr_inter) = ?M \<inter> ?S"
    using cr_gives_yields [OF cr_op_gives [OF mask(2) assms(1) e(2), of CR_OP_INTER] e(1)]
    by (cases "cr_op empty (cr_points cr_mask) pts CR_OP_INTER") (auto simp: cr_yields_def cr_op_sem_simps mask(3))
  obtain cr_mask' where mask': "cr_invert cr_mask = (cr_mask', 0)" "cr_canonical (cr_points cr_mask')"
    "cr_set (cr_points cr_mask') = {c. c < UINT32_MAX} - ?M"
    using cr_gives_yields [OF cr_invert_gives [OF mask(2)] mask(4)] by (cases "cr_invert cr_mask") (auto simp: cr_yields_def mask(3))
  obtain cr_sub where sub: "cr_op empty (cr_points cr_mask') pts CR_OP_INTER = (cr_sub, 0)"
    "cr_canonical (cr_points cr_sub)" "cr_set (cr_points cr_sub) = ({c. c < UINT32_MAX} - ?M) \<inter> ?S"
    using cr_gives_yields [OF cr_op_gives [OF cr_canonical_sorted [OF mask'(2)] assms(1) e(2), of CR_OP_INTER] e(1)]
    by (cases "cr_op empty (cr_points cr_mask') pts CR_OP_INTER") (auto simp: cr_yields_def cr_op_sem_simps mask'(3))
  have sub_set: "cr_set (cr_points cr_sub) = ?S - ?M"
    using sub(3) cr_set_below [of pts] assms(1) by (auto simp: cr_sorted_def)
  show ?thesis using mask(1) inter mask'(1) sub(1,2) sub_set by blast
qed

section \<open>The theorem\<close>

text \<open>C25 Canonicalising a set of characters: if the points of the set are in order and every
allocation succeeds, the function returns 0 without failing its assertion, the result is canonical, and
it is the set of the canonical characters of the members, each as \<^verbatim>\<open>lre_canonicalize\<close>
computes it for the single character.\<close>

theorem cr_regexp_canonicalize_correct:
  assumes "cr_sorted (cr_points cr)" and "\<And>n. cr_realloc_func cr n"
  shows "\<exists>cr'. cr_regexp_canonicalize cr is_unicode = Some (cr', 0) \<and> cr_canonical (cr_points cr')
    \<and> cr_set (cr_points cr') = {d. \<exists>c\<in>cr_set (cr_points cr). lre_canonicalize c is_unicode = Some d}"
proof -
  let ?f = "cr_realloc_func cr" and ?M = "case_mask_set is_unicode" and ?S = "cr_set (cr_points cr)"
  define empty where "empty = cr_init ?f (Some ?f)"
  have alloc: "\<forall>n. ?f n" using assms(2) by simp
  have e: "cr_points empty = []" "cr_realloc_func empty = ?f" by (simp_all add: empty_def cr_init_simps)
  have e': "\<forall>n. cr_realloc_func empty n" using alloc e by simp
  obtain cr_mask cr_inter cr_mask' cr_sub where parts: "unicode_case1 empty (fold_mask is_unicode) = (cr_mask, 0)"
      "cr_op empty (cr_points cr_mask) (cr_points cr) CR_OP_INTER = (cr_inter, 0)" "cr_invert cr_mask = (cr_mask', 0)"
      "cr_op empty (cr_points cr_mask') (cr_points cr) CR_OP_INTER = (cr_sub, 0)"
    and inter: "cr_canonical (cr_points cr_inter)" "cr_set (cr_points cr_inter) = ?M \<inter> ?S"
    and sub: "cr_canonical (cr_points cr_sub)" "cr_set (cr_points cr_sub) = ?S - ?M"
    using canonicalize_parts [OF assms(1) e' e(1), of is_unicode] by blast
  obtain st cr1 cr2 where res: "canonicalize_loop is_unicode (cr_points cr_inter)
        \<lparr>cn_idx = 0, cn_start = UINT32_MAX, cn_end = UINT32_MAX, cn_result = empty\<rparr> = Some st"
      "(if cn_start st \<noteq> UINT32_MAX then cr_add_interval (cn_result st) (cn_start st) (cn_end st) else (cn_result st, 0)) = (cr1, 0)"
      "cr_sort_and_remove_overlap cr1 = Some cr2" "cr_canonical (cr_points cr2)"
      "cr_set (cr_points cr2) = canon_image is_unicode (?M \<inter> ?S)"
    using canonicalize_result [OF inter(1) _ alloc, of is_unicode] inter(2) unfolding empty_def by auto
  obtain cr' where cr': "cr_op (cr\<lparr>cr_points := []\<rparr>) (cr_points cr2) (cr_points cr_sub) CR_OP_UNION = (cr', 0)"
    "cr_canonical (cr_points cr')" "cr_set (cr_points cr') = canon_image is_unicode (?M \<inter> ?S) \<union> (?S - ?M)"
    using cr_gives_yields [OF cr_op_gives [OF cr_canonical_sorted [OF res(4)] cr_canonical_sorted [OF sub(1)], of "cr\<lparr>cr_points := []\<rparr>" CR_OP_UNION]] alloc
    by (cases "cr_op (cr\<lparr>cr_points := []\<rparr>) (cr_points cr2) (cr_points cr_sub) CR_OP_UNION")
       (auto simp: cr_yields_def cr_op_sem_simps res(5) sub(2))
  have "cr_regexp_canonicalize cr is_unicode = Some (cr', 0)"
    using parts res cr'(1)
    by (simp add: cr_regexp_canonicalize_def empty_def [symmetric])
  then show ?thesis using cr'(2,3) canon_image_split [of is_unicode ?S] by (auto simp: canon_image_def)
qed

theorem cr_regexp_canonicalize_correct_witness:
  "\<exists>cr'. cr_regexp_canonicalize (cr_init (\<lambda>n. True) None\<lparr>cr_points := [97, 123]\<rparr>) False = Some (cr', 0)
    \<and> cr_canonical (cr_points cr') \<and> 65 \<in> cr_set (cr_points cr')"
proof -
  let ?cr = "cr_init (\<lambda>n. True) None\<lparr>cr_points := [97, 123]\<rparr>"
  have "cr_sorted (cr_points ?cr)" by (simp add: cr_sorted_def)
  moreover have "\<And>n. cr_realloc_func ?cr n" by (simp add: cr_init_def)
  moreover have "97 \<in> cr_set (cr_points ?cr)" by (simp add: cr_set_def)
  moreover have "lre_canonicalize 97 False = Some 65" by (simp add: lre_canonicalize_def)
  ultimately show ?thesis using cr_regexp_canonicalize_correct [of ?cr False] by blast
qed

end
