(* ===== verification/List_Head.thy ===== *)
theory List_Head
  imports Prelude "HOL-Library.Monad_Syntax"
begin

text \<open>The circular doubly linked lists of \<^verbatim>\<open>src/quickjs/list.h\<close>, which the engine
embeds in its structs: the pending jobs, the garbage collected objects and the modules are such
lists. The store is a map from addresses to the two pointers of a node, a pointer is an address or
\<open>None\<close> for \<^verbatim>\<open>NULL\<close>, and an operation that follows a pointer which is
\<^verbatim>\<open>NULL\<close> or not allocated is \<open>None\<close>.

The theory shows, for the predicate that a head and a sequence of distinct nodes form a list, that
insertion at either end and removal at any place change the sequence as expected and nothing else in
the store.\<close>

section \<open>Definitions\<close>

type_synonym addr = nat

record list_head =
  lh_prev :: "addr option"
  lh_next :: "addr option"

type_synonym link_store = "addr \<rightharpoonup> list_head"

definition set_prev :: "addr \<Rightarrow> addr option \<Rightarrow> link_store \<Rightarrow> link_store option" where
  "set_prev p q h = do { n \<leftarrow> h p; Some (h(p \<mapsto> n\<lparr>lh_prev := q\<rparr>)) }"

definition set_next :: "addr \<Rightarrow> addr option \<Rightarrow> link_store \<Rightarrow> link_store option" where
  "set_next p q h = do { n \<leftarrow> h p; Some (h(p \<mapsto> n\<lparr>lh_next := q\<rparr>)) }"

definition get_prev :: "addr \<Rightarrow> link_store \<Rightarrow> addr option" where
  "get_prev p h = do { n \<leftarrow> h p; lh_prev n }"

definition get_next :: "addr \<Rightarrow> link_store \<Rightarrow> addr option" where
  "get_next p h = do { n \<leftarrow> h p; lh_next n }"

definition init_list_head :: "addr \<Rightarrow> link_store \<Rightarrow> link_store option" where
  "init_list_head head h = do { h \<leftarrow> set_prev head (Some head) h; set_next head (Some head) h }"

definition list_insert_between :: "addr \<Rightarrow> addr \<Rightarrow> addr \<Rightarrow> link_store \<Rightarrow> link_store option" where
  "list_insert_between el prv nxt h = do {
     h \<leftarrow> set_next prv (Some el) h;
     h \<leftarrow> set_prev el (Some prv) h;
     h \<leftarrow> set_next el (Some nxt) h;
     set_prev nxt (Some el) h
   }"

definition list_add :: "addr \<Rightarrow> addr \<Rightarrow> link_store \<Rightarrow> link_store option" where
  "list_add el head h = do { nxt \<leftarrow> get_next head h; list_insert_between el head nxt h }"

definition list_add_tail :: "addr \<Rightarrow> addr \<Rightarrow> link_store \<Rightarrow> link_store option" where
  "list_add_tail el head h = do { prv \<leftarrow> get_prev head h; list_insert_between el prv head h }"

definition list_del :: "addr \<Rightarrow> link_store \<Rightarrow> link_store option" where
  "list_del el h = do {
     prv \<leftarrow> get_prev el h;
     nxt \<leftarrow> get_next el h;
     h \<leftarrow> set_next prv (Some nxt) h;
     h \<leftarrow> set_prev nxt (Some prv) h;
     h \<leftarrow> set_prev el None h;
     set_next el None h
   }"

definition list_empty :: "addr \<Rightarrow> link_store \<Rightarrow> bool option" where
  "list_empty el h = do { n \<leftarrow> h el; Some (lh_next n = Some el) }"

section \<open>Lemmas\<close>

text \<open>The two pointers of an address in the store; the operations change one at a time.\<close>

lemma set_next_Some:
  "p \<in> dom h \<Longrightarrow> \<exists>h'. set_next p q h = Some h' \<and> dom h' = dom h
    \<and> (\<forall>x. get_next x h' = (if x = p then q else get_next x h)) \<and> (\<forall>x. get_prev x h' = get_prev x h)
    \<and> (\<forall>x. x \<noteq> p \<longrightarrow> h' x = h x)"
  by (auto simp: set_next_def get_next_def get_prev_def)

lemma set_prev_Some:
  "p \<in> dom h \<Longrightarrow> \<exists>h'. set_prev p q h = Some h' \<and> dom h' = dom h
    \<and> (\<forall>x. get_prev x h' = (if x = p then q else get_prev x h)) \<and> (\<forall>x. get_next x h' = get_next x h)
    \<and> (\<forall>x. x \<noteq> p \<longrightarrow> h' x = h x)"
  by (auto simp: set_prev_def get_next_def get_prev_def)

lemma get_Some_dom: "get_next p h = Some q \<Longrightarrow> p \<in> dom h" "get_prev p h = Some q \<Longrightarrow> p \<in> dom h"
  by (auto simp: get_next_def get_prev_def bind_eq_Some_conv)

definition linked :: "link_store \<Rightarrow> addr \<Rightarrow> addr \<Rightarrow> bool" where
  "linked h a b \<longleftrightarrow> get_next a h = Some b \<and> get_prev b h = Some a"

fun path :: "link_store \<Rightarrow> addr \<Rightarrow> addr list \<Rightarrow> addr \<Rightarrow> bool" where
  "path h a [] b = linked h a b"
| "path h a (x # xs) b = (linked h a x \<and> path h x xs b)"

definition is_list :: "link_store \<Rightarrow> addr \<Rightarrow> addr list \<Rightarrow> bool" where
  "is_list h head xs \<longleftrightarrow> distinct (head # xs) \<and> path h head xs head"

lemma path_append: "path h a (xs @ y # ys) b = (path h a xs y \<and> path h y ys b)"
  by (induction xs arbitrary: a) auto

lemma path_ends: "path h a xs b \<Longrightarrow> get_next a h = Some (hd (xs @ [b])) \<and> get_prev b h = Some (last (a # xs))"
  by (induction xs arbitrary: a) (auto simp: linked_def)

lemma path_dom: "path h a xs b \<Longrightarrow> set xs \<subseteq> dom h \<and> a \<in> dom h \<and> b \<in> dom h"
  by (induction xs arbitrary: a) (auto simp: linked_def dest: get_Some_dom)

lemma path_frame:
  assumes "path h a xs b" "\<forall>x\<in>set (a # xs). get_next x h' = get_next x h" "\<forall>x\<in>set (xs @ [b]). get_prev x h' = get_prev x h"
  shows "path h' a xs b"
  using assms by (induction xs arbitrary: a) (auto simp: linked_def)

lemma is_list_dom: "is_list h head xs \<Longrightarrow> head \<in> dom h \<and> set xs \<subseteq> dom h"
  using path_dom [of h head xs head] by (auto simp: is_list_def)

lemma is_list_frame:
  assumes "is_list h head xs" "\<forall>x\<in>set (head # xs). h' x = h x"
  shows "is_list h' head xs"
  using assms path_frame [of h head xs head h'] by (auto simp: is_list_def get_next_def get_prev_def)

lemma init_list_head_spec:
  assumes "head \<in> dom h"
  shows "\<exists>h'. init_list_head head h = Some h' \<and> is_list h' head [] \<and> dom h' = dom h"
  using assms by (auto simp: init_list_head_def set_prev_def set_next_def is_list_def linked_def get_next_def get_prev_def)

text \<open>Insertion between two neighbours, for both ends of the list.\<close>

lemma list_insert_between_spec:
  assumes "prv \<in> dom h" "nxt \<in> dom h" "el \<in> dom h" "el \<noteq> prv" "el \<noteq> nxt"
  shows "\<exists>h'. list_insert_between el prv nxt h = Some h' \<and> dom h' = dom h
    \<and> (\<forall>x. get_next x h' = (if x = el then Some nxt else if x = prv then Some el else get_next x h))
    \<and> (\<forall>x. get_prev x h' = (if x = nxt then Some el else if x = el then Some prv else get_prev x h))
    \<and> (\<forall>x. x \<notin> {el, prv, nxt} \<longrightarrow> h' x = h x)"
proof -
  obtain h1 where h1: "set_next prv (Some el) h = Some h1" "dom h1 = dom h"
    "\<forall>x. get_next x h1 = (if x = prv then Some el else get_next x h)" "\<forall>x. get_prev x h1 = get_prev x h" "\<forall>x. x \<noteq> prv \<longrightarrow> h1 x = h x"
    using set_next_Some [OF assms(1), of "Some el"] by blast
  obtain h2 where h2: "set_prev el (Some prv) h1 = Some h2" "dom h2 = dom h1"
    "\<forall>x. get_prev x h2 = (if x = el then Some prv else get_prev x h1)" "\<forall>x. get_next x h2 = get_next x h1" "\<forall>x. x \<noteq> el \<longrightarrow> h2 x = h1 x"
    using set_prev_Some [of el h1 "Some prv"] assms h1(2) by blast
  obtain h3 where h3: "set_next el (Some nxt) h2 = Some h3" "dom h3 = dom h2"
    "\<forall>x. get_next x h3 = (if x = el then Some nxt else get_next x h2)" "\<forall>x. get_prev x h3 = get_prev x h2" "\<forall>x. x \<noteq> el \<longrightarrow> h3 x = h2 x"
    using set_next_Some [of el h2 "Some nxt"] assms h1(2) h2(2) by blast
  obtain h4 where h4: "set_prev nxt (Some el) h3 = Some h4" "dom h4 = dom h3"
    "\<forall>x. get_prev x h4 = (if x = nxt then Some el else get_prev x h3)" "\<forall>x. get_next x h4 = get_next x h3" "\<forall>x. x \<noteq> nxt \<longrightarrow> h4 x = h3 x"
    using set_prev_Some [of nxt h3 "Some el"] assms h1(2) h2(2) h3(2) by blast
  show ?thesis
    using h1 h2 h3 h4 assms(4,5) by (simp add: list_insert_between_def)
qed

text \<open>A list cut at a place: the nodes before it form a path from the head, the nodes after it a
path back to the head, and their ends are neighbours.\<close>

fun front :: "link_store \<Rightarrow> addr \<Rightarrow> addr list \<Rightarrow> bool" where
  "front h a [] = True"
| "front h a (x # xs) = (linked h a x \<and> front h x xs)"

fun rear :: "link_store \<Rightarrow> addr list \<Rightarrow> addr \<Rightarrow> bool" where
  "rear h [] b = True"
| "rear h (x # xs) b = path h x xs b"

lemma path_cut: "path h a (xs @ ys) b \<longleftrightarrow> front h a xs \<and> linked h (last (a # xs)) (hd (ys @ [b])) \<and> rear h ys b"
  by (induction xs arbitrary: a; cases ys) auto

lemma front_frame:
  "front h a xs \<Longrightarrow> distinct (a # xs) \<Longrightarrow> \<forall>x\<in>set (butlast (a # xs)). get_next x h' = get_next x h \<Longrightarrow>
    \<forall>x\<in>set xs. get_prev x h' = get_prev x h \<Longrightarrow> front h' a xs"
  by (induction xs arbitrary: a) (auto simp: linked_def)

lemma rear_frame:
  assumes "rear h xs b" "\<forall>x\<in>set xs. get_next x h' = get_next x h" "\<forall>x\<in>set (tl (xs @ [b])). get_prev x h' = get_prev x h"
  shows "rear h' xs b"
  using assms path_frame [of h _ "tl xs" b h'] by (cases xs) auto

lemma last_notin_butlast: "distinct (a # xs) \<Longrightarrow> last (a # xs) \<notin> set (butlast (a # xs))"
  by (metis append_butlast_last_id distinct_butlast list.distinct(1) not_distinct_conv_prefix)

lemma hd_notin_tl: "distinct (xs @ [b]) \<Longrightarrow> hd (xs @ [b]) \<notin> set (tl (xs @ [b]))"
  by (cases xs) auto

lemma cut_ends:
  assumes "distinct (head # xs @ ys)"
  shows "last (head # xs) \<in> set (head # xs @ ys)" "hd (ys @ [head]) \<in> set (head # xs @ ys)"
    "last (head # xs) \<notin> set ys" "hd (ys @ [head]) \<notin> set xs"
proof -
  have l: "last (head # xs) \<in> set (head # xs)" by (rule last_in_set) simp
  have h: "hd (ys @ [head]) \<in> set (head # ys)" by (cases ys) auto
  show "last (head # xs) \<in> set (head # xs @ ys)" "hd (ys @ [head]) \<in> set (head # xs @ ys)"
    "last (head # xs) \<notin> set ys" "hd (ys @ [head]) \<notin> set xs"
    using l h assms by auto
qed

lemma cut_frame:
  assumes cut: "front h head xs" "rear h ys head" and d: "distinct (head # xs @ ys)" and el: "el \<notin> set (head # xs @ ys)"
    and nx: "\<And>x. x \<notin> {el, last (head # xs)} \<Longrightarrow> get_next x h' = get_next x h"
    and pr: "\<And>x. x \<notin> {el, hd (ys @ [head])} \<Longrightarrow> get_prev x h' = get_prev x h"
  shows "front h' head xs \<and> rear h' ys head"
proof
  note c = cut_ends [OF d]
  have "distinct (head # xs)" "distinct (ys @ [head])" using d by auto
  note n = last_notin_butlast [OF this(1)] hd_notin_tl [OF this(2)]
  show "front h' head xs"
  proof (rule front_frame [OF cut(1)])
    show "\<forall>x\<in>set (butlast (head # xs)). get_next x h' = get_next x h"
    proof
      fix x assume x: "x \<in> set (butlast (head # xs))"
      then have "x \<in> set (head # xs)" by (rule in_set_butlastD)
      with x n(1) el show "get_next x h' = get_next x h" by (intro nx) auto
    qed
    show "\<forall>x\<in>set xs. get_prev x h' = get_prev x h" using c(4) el by (auto intro!: pr)
  qed (use d in auto)
  show "rear h' ys head"
  proof (rule rear_frame [OF cut(2)])
    show "\<forall>x\<in>set ys. get_next x h' = get_next x h" using c(3) el by (auto intro!: nx)
    show "\<forall>x\<in>set (tl (ys @ [head])). get_prev x h' = get_prev x h"
    proof
      fix x assume x: "x \<in> set (tl (ys @ [head]))"
      then have "x \<in> set (ys @ [head])" by (cases ys) auto
      with x n(2) el show "get_prev x h' = get_prev x h" by (intro pr) auto
    qed
  qed
qed

lemma insert_into_list:
  assumes l: "is_list h head (xs @ ys)" and el: "el \<in> dom h" "el \<notin> set (head # xs @ ys)"
  shows "\<exists>h'. list_insert_between el (last (head # xs)) (hd (ys @ [head])) h = Some h'
    \<and> is_list h' head (xs @ el # ys) \<and> dom h' = dom h \<and> (\<forall>x. x \<notin> set (el # head # xs @ ys) \<longrightarrow> h' x = h x)"
proof -
  let ?p = "last (head # xs)" and ?n = "hd (ys @ [head])"
  have d: "distinct (head # xs @ ys)" and cut: "front h head xs" "rear h ys head"
    using l by (auto simp: is_list_def path_cut)
  note c = cut_ends [OF d]
  have dom: "?p \<in> dom h" "?n \<in> dom h" and ne: "el \<noteq> ?p" "el \<noteq> ?n"
    using c(1,2) el(2) is_list_dom [OF l] by auto
  obtain h' where h': "list_insert_between el ?p ?n h = Some h'" "dom h' = dom h"
    "\<forall>x. get_next x h' = (if x = el then Some ?n else if x = ?p then Some el else get_next x h)"
    "\<forall>x. get_prev x h' = (if x = ?n then Some el else if x = el then Some ?p else get_prev x h)"
    "\<forall>x. x \<notin> {el, ?p, ?n} \<longrightarrow> h' x = h x"
    using list_insert_between_spec [OF dom el(1) ne] by blast
  have "front h' head xs \<and> rear h' ys head"
    by (rule cut_frame [OF cut d el(2)]) (simp_all add: h'(3,4))
  moreover have "linked h' ?p el" "linked h' el ?n" using h'(3,4) ne by (auto simp: linked_def)
  ultimately have "path h' head (xs @ el # ys) head"
    by (simp only: path_append path_cut [of h' el "[]" ys, simplified] path_cut [of h' head xs "[]", simplified]) simp
  moreover have "\<forall>x. x \<notin> set (el # head # xs @ ys) \<longrightarrow> h' x = h x"
    using h'(5) c(1,2) by auto
  ultimately show ?thesis using h'(1,2) d el(2) by (auto simp: is_list_def)
qed

lemma list_del_spec:
  assumes l: "is_list h head (xs @ el # ys)"
  shows "\<exists>h'. list_del el h = Some h' \<and> is_list h' head (xs @ ys) \<and> dom h' = dom h
    \<and> (\<forall>x. x \<notin> set (el # head # xs @ ys) \<longrightarrow> h' x = h x)"
proof -
  let ?p = "last (head # xs)" and ?n = "hd (ys @ [head])"
  have d: "distinct (head # xs @ ys)" and el: "el \<notin> set (head # xs @ ys)" and path: "path h head xs el" "path h el ys head"
    using l by (auto simp: is_list_def path_append)
  have cut: "front h head xs" "rear h ys head"
    using path path_cut [of h head xs "[]" el] path_cut [of h el "[]" ys head] by auto
  note c = cut_ends [OF d]
  have dom: "?p \<in> dom h" "?n \<in> dom h" "el \<in> dom h" and ne: "el \<noteq> ?p" "el \<noteq> ?n"
    using c(1,2) el is_list_dom [OF l] by auto
  have ends: "get_prev el h = Some ?p" "get_next el h = Some ?n"
    using path_ends [OF path(1)] path_ends [OF path(2)] by auto
  obtain h1 where h1: "set_next ?p (Some ?n) h = Some h1" "dom h1 = dom h"
    "\<forall>x. get_next x h1 = (if x = ?p then Some ?n else get_next x h)" "\<forall>x. get_prev x h1 = get_prev x h" "\<forall>x. x \<noteq> ?p \<longrightarrow> h1 x = h x"
    using set_next_Some [OF dom(1)] by blast
  obtain h2 where h2: "set_prev ?n (Some ?p) h1 = Some h2" "dom h2 = dom h"
    "\<forall>x. get_prev x h2 = (if x = ?n then Some ?p else get_prev x h1)" "\<forall>x. get_next x h2 = get_next x h1" "\<forall>x. x \<noteq> ?n \<longrightarrow> h2 x = h1 x"
    using set_prev_Some [of ?n h1] dom h1(2) by metis
  obtain h3 where h3: "set_prev el None h2 = Some h3" "dom h3 = dom h"
    "\<forall>x. get_prev x h3 = (if x = el then None else get_prev x h2)" "\<forall>x. get_next x h3 = get_next x h2" "\<forall>x. x \<noteq> el \<longrightarrow> h3 x = h2 x"
    using set_prev_Some [of el h2] dom h2(2) by metis
  obtain h4 where h4: "set_next el None h3 = Some h4" "dom h4 = dom h"
    "\<forall>x. get_next x h4 = (if x = el then None else get_next x h3)" "\<forall>x. get_prev x h4 = get_prev x h3" "\<forall>x. x \<noteq> el \<longrightarrow> h4 x = h3 x"
    using set_next_Some [of el h3] dom h3(2) by metis
  note nx = h1(3) h2(4) h3(4) h4(3) and pr = h1(4) h2(3) h3(3) h4(4)
  have "front h4 head xs \<and> rear h4 ys head"
    by (rule cut_frame [OF cut d el]) (simp_all add: nx pr)
  moreover have "linked h4 ?p ?n" using ne by (simp add: linked_def nx pr)
  ultimately have "path h4 head (xs @ ys) head" by (simp add: path_cut)
  moreover have "\<forall>x. x \<notin> set (el # head # xs @ ys) \<longrightarrow> h4 x = h x"
    using c(1,2) h1(5) h2(5) h3(5) h4(5) by (metis list.set_intros)
  ultimately show ?thesis using h1(1) h2(1) h3(1) h4(1,2) d ends by (simp add: is_list_def list_del_def)
qed

lemma list_add_spec:
  assumes "is_list h head xs" "el \<in> dom h" "el \<notin> set (head # xs)"
  shows "\<exists>h'. list_add el head h = Some h' \<and> is_list h' head (el # xs) \<and> dom h' = dom h
    \<and> (\<forall>x. x \<notin> set (el # head # xs) \<longrightarrow> h' x = h x)"
  using insert_into_list [of h head "[]" xs el] assms path_ends [of h head xs head] by (auto simp: list_add_def is_list_def)

lemma list_add_tail_spec:
  assumes "is_list h head xs" "el \<in> dom h" "el \<notin> set (head # xs)"
  shows "\<exists>h'. list_add_tail el head h = Some h' \<and> is_list h' head (xs @ [el]) \<and> dom h' = dom h
    \<and> (\<forall>x. x \<notin> set (el # head # xs) \<longrightarrow> h' x = h x)"
  using insert_into_list [of h head xs "[]" el] assms path_ends [of h head xs head] by (auto simp: list_add_tail_def is_list_def)

lemma list_empty_spec: "is_list h head xs \<Longrightarrow> list_empty head h = Some (xs = [])"
  by (cases xs) (auto simp: list_empty_def is_list_def linked_def get_next_def bind_eq_Some_conv)

end
