(* ===== verification/Job_Queue.thy ===== *)
theory Job_Queue
  imports List_Head
begin

text \<open>The queue of pending jobs of a runtime (\<^verbatim>\<open>JS_EnqueueJob\<close>,
\<^verbatim>\<open>JS_IsJobPending\<close> and \<^verbatim>\<open>JS_ExecutePendingJob\<close> of
\<^verbatim>\<open>src/quickjs/quickjs.c\<close>), which runs the reactions of promises. The queue is a list of
\<^verbatim>\<open>list.h\<close> through the entries, which are allocated one by one. The rest of the engine is a
value of the type \<open>'w\<close>, and what the queue calls of it (the allocator, the reference counts, the
job functions) is the record \<open>engine\<close>; the job functions and the destructors get the whole
runtime, since they may enqueue jobs and run pending jobs themselves. The field \<open>rt_started\<close>
records the jobs that were started, in order.

The theory shows that the store stays well formed whatever the jobs do, that jobs start in the order
in which they were enqueued, and that each of them is started after at most as many calls of
\<^verbatim>\<open>JS_ExecutePendingJob\<close> as there were jobs in front of it, plus one.\<close>

section \<open>Definitions\<close>

record ('c, 'f, 'v) job_entry =
  realm :: 'c
  job_func :: 'f
  je_argv :: "'v list"

record ('c, 'f, 'v, 'w) runtime =
  rt_links :: link_store
  rt_jobs :: "addr \<rightharpoonup> ('c, 'f, 'v) job_entry"
  job_list :: addr
  rt_world :: 'w
  rt_started :: "('c, 'f, 'v) job_entry list"

record ('c, 'f, 'v, 'w) engine =
  js_malloc :: "nat \<Rightarrow> ('c, 'f, 'v, 'w) runtime \<Rightarrow> addr option"
  throw_out_of_memory :: "'c \<Rightarrow> 'w \<Rightarrow> 'w"
  dup_context :: "'c \<Rightarrow> 'w \<Rightarrow> 'w"
  dup_value :: "'v \<Rightarrow> 'w \<Rightarrow> 'w"
  call_job :: "'f \<Rightarrow> 'c \<Rightarrow> 'v list \<Rightarrow> ('c, 'f, 'v, 'w) runtime \<Rightarrow> ('c, 'f, 'v, 'w) runtime \<times> 'v"
  is_exception :: "'v \<Rightarrow> bool"
  free_value :: "'c \<Rightarrow> 'v \<Rightarrow> ('c, 'f, 'v, 'w) runtime \<Rightarrow> ('c, 'f, 'v, 'w) runtime"
  free_context :: "'c \<Rightarrow> ('c, 'f, 'v, 'w) runtime \<Rightarrow> ('c, 'f, 'v, 'w) runtime"
  context_ref_count :: "'c \<Rightarrow> 'w \<Rightarrow> int"

text \<open>\<^verbatim>\<open>sizeof(JSJobEntry)\<close> is 40 and \<^verbatim>\<open>sizeof(JSValue)\<close> 16 on a 64-bit
machine.\<close>

definition JS_EnqueueJob :: "('c, 'f, 'v, 'w) engine \<Rightarrow> 'c \<Rightarrow> 'f \<Rightarrow> 'v list \<Rightarrow> ('c, 'f, 'v, 'w) runtime
    \<Rightarrow> (('c, 'f, 'v, 'w) runtime \<times> int) option" where
  "JS_EnqueueJob eng ctx f argv rt =
    (case js_malloc eng (40 + length argv * 16) rt of
       None \<Rightarrow> Some (rt\<lparr>rt_world := throw_out_of_memory eng ctx (rt_world rt)\<rparr>, -1)
     | Some e \<Rightarrow> do {
         let rt = rt\<lparr>rt_links := (rt_links rt)(e \<mapsto> \<lparr>lh_prev = None, lh_next = None\<rparr>),
                     rt_jobs := (rt_jobs rt)(e \<mapsto> \<lparr>realm = ctx, job_func = f, je_argv = argv\<rparr>),
                     rt_world := fold (dup_value eng) argv (dup_context eng ctx (rt_world rt))\<rparr>;
         links \<leftarrow> list_add_tail e (job_list rt) (rt_links rt);
         Some (rt\<lparr>rt_links := links\<rparr>, 0)
       })"

definition JS_IsJobPending :: "('c, 'f, 'v, 'w) runtime \<Rightarrow> bool option" where
  "JS_IsJobPending rt = map_option Not (list_empty (job_list rt) (rt_links rt))"

definition js_free_job :: "addr \<Rightarrow> ('c, 'f, 'v, 'w) runtime \<Rightarrow> ('c, 'f, 'v, 'w) runtime" where
  "js_free_job e rt = rt\<lparr>rt_links := (rt_links rt)(e := None), rt_jobs := (rt_jobs rt)(e := None)\<rparr>"

text \<open>The result is the runtime, the return value and the context that is stored in
\<^verbatim>\<open>*pctx\<close>.\<close>

definition JS_ExecutePendingJob :: "('c, 'f, 'v, 'w) engine \<Rightarrow> ('c, 'f, 'v, 'w) runtime
    \<Rightarrow> (('c, 'f, 'v, 'w) runtime \<times> int \<times> 'c option) option" where
  "JS_ExecutePendingJob eng rt = do {
     empty \<leftarrow> list_empty (job_list rt) (rt_links rt);
     if empty then Some (rt, 0, None)
     else do {
       e \<leftarrow> get_next (job_list rt) (rt_links rt);
       links \<leftarrow> list_del e (rt_links rt);
       entry \<leftarrow> rt_jobs rt e;
       let ctx = realm entry;
       let rt = rt\<lparr>rt_links := links, rt_started := rt_started rt @ [entry]\<rparr>;
       let (rt, res) = call_job eng (job_func entry) ctx (je_argv entry) rt;
       let rt = fold (free_value eng ctx) (je_argv entry) rt;
       let ret = (if is_exception eng res then -1 else 1);
       let rt = free_value eng ctx res rt;
       let rt = js_free_job e rt;
       let pctx = (if context_ref_count eng ctx (rt_world rt) > 1 then Some ctx else None);
       let rt = free_context eng ctx rt;
       Some (rt, ret, pctx)
     }
   }"

text \<open>The event loops \<^verbatim>\<open>js_std_loop\<close> and \<^verbatim>\<open>js_std_await\<close> call
\<^verbatim>\<open>JS_ExecutePendingJob\<close> again and again; this is the runtime after a number of calls.\<close>

fun execute_jobs :: "('c, 'f, 'v, 'w) engine \<Rightarrow> nat \<Rightarrow> ('c, 'f, 'v, 'w) runtime \<Rightarrow> ('c, 'f, 'v, 'w) runtime option" where
  "execute_jobs eng 0 rt = Some rt"
| "execute_jobs eng (Suc n) rt = do { (rt, _, _) \<leftarrow> JS_ExecutePendingJob eng rt; execute_jobs eng n rt }"

section \<open>Well-formed runtimes\<close>

text \<open>The nodes of the list are allocated entries. The entries of \<open>held\<close> are those of the jobs
that are running: they are allocated, but not in the list any more.\<close>

definition job_wf :: "addr set \<Rightarrow> addr list \<Rightarrow> ('c, 'f, 'v, 'w) runtime \<Rightarrow> bool" where
  "job_wf held xs rt \<longleftrightarrow>
    is_list (rt_links rt) (job_list rt) xs
    \<and> set xs \<union> held \<subseteq> dom (rt_jobs rt) \<and> held \<inter> set xs = {}
    \<and> dom (rt_links rt) = insert (job_list rt) (dom (rt_jobs rt)) \<and> job_list rt \<notin> dom (rt_jobs rt)"

definition entries :: "('c, 'f, 'v, 'w) runtime \<Rightarrow> addr list \<Rightarrow> ('c, 'f, 'v) job_entry list" where
  "entries rt xs = map (\<lambda>e. the (rt_jobs rt e)) xs"

text \<open>What engine code may do to a runtime: change the rest of the engine, enqueue a job, or run a
pending job, which is engine code again until the entry is freed.\<close>

inductive engine_steps :: "('c, 'f, 'v, 'w) engine \<Rightarrow> ('c, 'f, 'v, 'w) runtime \<Rightarrow> ('c, 'f, 'v, 'w) runtime \<Rightarrow> bool"
  for eng where
  idle: "engine_steps eng rt rt"
| other: "engine_steps eng rt rt1 \<Longrightarrow> engine_steps eng rt (rt1\<lparr>rt_world := w\<rparr>)"
| enqueue: "engine_steps eng rt rt1 \<Longrightarrow> JS_EnqueueJob eng ctx f argv rt1 = Some (rt2, r) \<Longrightarrow> engine_steps eng rt rt2"
| nested: "engine_steps eng rt rt1 \<Longrightarrow>
    list_empty (job_list rt1) (rt_links rt1) = Some False \<Longrightarrow> get_next (job_list rt1) (rt_links rt1) = Some e \<Longrightarrow>
    list_del e (rt_links rt1) = Some links \<Longrightarrow> rt_jobs rt1 e = Some entry \<Longrightarrow>
    engine_steps eng (rt1\<lparr>rt_links := links, rt_started := rt_started rt1 @ [entry]\<rparr>) rt2 \<Longrightarrow>
    engine_steps eng (js_free_job e rt2) rt3 \<Longrightarrow> engine_steps eng rt rt3"

text \<open>What the queue relies on: the allocator returns blocks that are not in use, and the job
functions and destructors touch the queue only through its operations.\<close>

definition engine_ok :: "('c, 'f, 'v, 'w) engine \<Rightarrow> bool" where
  "engine_ok eng \<longleftrightarrow>
    (\<forall>n rt e. js_malloc eng n rt = Some e \<longrightarrow> e \<notin> dom (rt_links rt))
    \<and> (\<forall>f ctx argv rt. engine_steps eng rt (fst (call_job eng f ctx argv rt)))
    \<and> (\<forall>ctx v rt. engine_steps eng rt (free_value eng ctx v rt))
    \<and> (\<forall>ctx rt. engine_steps eng rt (free_context eng ctx rt))"

text \<open>How a runtime with the pending entries \<open>xs\<close> changes: jobs are added at the end of the
sequence of the started and the pending jobs, and jobs move from pending to started.\<close>

definition advances :: "addr set \<Rightarrow> addr list \<Rightarrow> ('c, 'f, 'v, 'w) runtime \<Rightarrow> addr list \<Rightarrow> ('c, 'f, 'v, 'w) runtime \<Rightarrow> bool" where
  "advances held xs rt ys rt' \<longleftrightarrow>
    job_wf held ys rt' \<and> (\<forall>e\<in>held. rt_jobs rt' e = rt_jobs rt e)
    \<and> (\<exists>added. rt_started rt' @ entries rt' ys = rt_started rt @ entries rt xs @ added)
    \<and> (\<exists>more. rt_started rt' = rt_started rt @ more)"

lemma advances_refl: "job_wf held xs rt \<Longrightarrow> advances held xs rt xs rt"
  by (auto simp: advances_def)

lemma advances_trans:
  assumes 1: "advances held xs rt ys rt1" and 2: "advances held ys rt1 zs rt2"
  shows "advances held xs rt zs rt2"
proof -
  obtain a b where "rt_started rt1 @ entries rt1 ys = rt_started rt @ entries rt xs @ a"
    "rt_started rt2 @ entries rt2 zs = rt_started rt1 @ entries rt1 ys @ b"
    using 1 2 by (auto simp: advances_def)
  then have "rt_started rt2 @ entries rt2 zs = rt_started rt @ entries rt xs @ a @ b" by (metis append_assoc)
  then show ?thesis using 1 2 unfolding advances_def by (metis append_assoc)
qed

lemma advances_world: "advances held xs rt ys rt' \<Longrightarrow> advances held xs rt ys (rt'\<lparr>rt_world := w\<rparr>)"
  by (simp add: advances_def job_wf_def entries_def)

lemma JS_EnqueueJob_spec:
  assumes fresh: "\<forall>n rt e. js_malloc eng n rt = Some e \<longrightarrow> e \<notin> dom (rt_links rt)" and wf: "job_wf held xs rt"
  shows "\<exists>rt'. JS_EnqueueJob eng ctx f argv rt = Some (rt', -1) \<and> advances held xs rt xs rt'
      \<and> js_malloc eng (40 + length argv * 16) rt = None
    \<or> (\<exists>e. JS_EnqueueJob eng ctx f argv rt = Some (rt', 0) \<and> advances held xs rt (xs @ [e]) rt'
      \<and> rt_started rt' = rt_started rt \<and> entries rt' (xs @ [e]) = entries rt xs @ [\<lparr>realm = ctx, job_func = f, je_argv = argv\<rparr>])"
proof (cases "js_malloc eng (40 + length argv * 16) rt")
  case None
  then show ?thesis using advances_world [OF advances_refl [OF wf]] by (auto simp: JS_EnqueueJob_def)
next
  case (Some e)
  define h where "h = (rt_links rt)(e \<mapsto> \<lparr>lh_prev = None, lh_next = None\<rparr>)"
  have e: "e \<notin> dom (rt_links rt)" using fresh Some by blast
  have new: "e \<noteq> job_list rt" "e \<notin> dom (rt_jobs rt)" "e \<notin> set xs" "e \<notin> held"
    using e wf by (auto simp: job_wf_def)
  have "is_list h (job_list rt) xs"
    by (rule is_list_frame [of "rt_links rt"]) (use wf new in \<open>auto simp: job_wf_def h_def\<close>)
  then obtain h' where h': "list_add_tail e (job_list rt) h = Some h'" "is_list h' (job_list rt) (xs @ [e])" "dom h' = dom h"
    using list_add_tail_spec [of h "job_list rt" xs e] new by (auto simp: h_def)
  let ?rt = "rt\<lparr>rt_links := h', rt_jobs := (rt_jobs rt)(e \<mapsto> \<lparr>realm = ctx, job_func = f, je_argv = argv\<rparr>),
      rt_world := fold (dup_value eng) argv (dup_context eng ctx (rt_world rt))\<rparr>"
  have run: "JS_EnqueueJob eng ctx f argv rt = Some (?rt, 0)"
    using Some h'(1) by (simp add: JS_EnqueueJob_def h_def)
  have wf': "job_wf held (xs @ [e]) ?rt"
    using wf new h'(2,3) by (auto simp: job_wf_def h_def)
  have ent: "entries ?rt (xs @ [e]) = entries rt xs @ [\<lparr>realm = ctx, job_func = f, je_argv = argv\<rparr>]"
    using new(3) by (auto simp: entries_def)
  have "advances held xs rt (xs @ [e]) ?rt"
    using wf' ent new(4) by (auto simp: advances_def)
  with run ent show ?thesis by (intro exI [of _ ?rt] disjI2 exI [of _ e]) simp
qed

lemma take_first_job:
  assumes wf: "job_wf held xs rt" and ne: "list_empty (job_list rt) (rt_links rt) = Some False"
  obtains e ys links entry where "xs = e # ys" "get_next (job_list rt) (rt_links rt) = Some e"
    "list_del e (rt_links rt) = Some links" "rt_jobs rt e = Some entry"
    "job_wf (insert e held) ys (rt\<lparr>rt_links := links, rt_started := rt_started rt @ [entry]\<rparr>)"
proof -
  obtain e ys where xs: "xs = e # ys"
    using wf ne list_empty_spec [of "rt_links rt" "job_list rt" xs] by (cases xs) (auto simp: job_wf_def)
  have l: "is_list (rt_links rt) (job_list rt) (e # ys)" using wf by (simp add: job_wf_def xs)
  then have first: "get_next (job_list rt) (rt_links rt) = Some e" by (auto simp: is_list_def linked_def)
  obtain links where links: "list_del e (rt_links rt) = Some links" "is_list links (job_list rt) ys" "dom links = dom (rt_links rt)"
    using list_del_spec [of "rt_links rt" "job_list rt" "[]" e ys] l by auto
  obtain entry where entry: "rt_jobs rt e = Some entry" using wf by (auto simp: job_wf_def xs)
  have "job_wf (insert e held) ys (rt\<lparr>rt_links := links, rt_started := rt_started rt @ [entry]\<rparr>)"
    using wf links l by (auto simp: job_wf_def xs is_list_def)
  with that xs first links(1) entry show thesis by blast
qed

lemma started_advances:
  assumes "job_wf held (e # ys) rt" "rt_jobs rt e = Some entry"
    and "advances (insert e held) ys (rt\<lparr>rt_links := links, rt_started := rt_started rt @ [entry]\<rparr>) zs rt2"
  shows "advances held (e # ys) rt zs (js_free_job e rt2)"
proof -
  let ?rt1 = "rt\<lparr>rt_links := links, rt_started := rt_started rt @ [entry]\<rparr>"
  have wf2: "job_wf (insert e held) zs rt2" and same: "\<forall>x\<in>held. rt_jobs rt2 x = rt_jobs rt x"
    using assms(3) by (auto simp: advances_def)
  have e: "e \<notin> set zs" "e \<noteq> job_list rt2" "e \<notin> held" using wf2 assms(1) by (auto simp: job_wf_def)
  have "is_list (rt_links (js_free_job e rt2)) (job_list rt2) zs"
    by (rule is_list_frame [of "rt_links rt2"]) (use wf2 e in \<open>auto simp: job_wf_def js_free_job_def\<close>)
  then have wf3: "job_wf held zs (js_free_job e rt2)"
    using wf2 e by (auto simp: job_wf_def js_free_job_def)
  have ent: "entries (js_free_job e rt2) zs = entries rt2 zs" "entries rt (e # ys) = entry # entries ?rt1 ys"
    using e(1) assms(2) by (auto simp: entries_def js_free_job_def)
  have st: "rt_started (js_free_job e rt2) = rt_started rt2" by (simp add: js_free_job_def)
  obtain a b where "rt_started rt2 @ entries rt2 zs = (rt_started rt @ [entry]) @ entries ?rt1 ys @ a"
    "rt_started rt2 = (rt_started rt @ [entry]) @ b"
    using assms(3) by (auto simp: advances_def)
  then have "rt_started rt2 @ entries rt2 zs = rt_started rt @ entries rt (e # ys) @ a"
    "rt_started rt2 = rt_started rt @ entry # b" by (simp_all add: ent(2))
  moreover have "\<forall>x\<in>held. rt_jobs (js_free_job e rt2) x = rt_jobs rt x"
    using same e(3) by (auto simp: js_free_job_def)
  ultimately show ?thesis using wf3 by (auto simp: advances_def ent(1) st)
qed

lemma engine_steps_advances:
  assumes "engine_steps eng rt rt'" and fresh: "\<forall>n rt e. js_malloc eng n rt = Some e \<longrightarrow> e \<notin> dom (rt_links rt)"
  shows "job_wf held xs rt \<Longrightarrow> \<exists>ys. advances held xs rt ys rt'"
  using assms(1)
proof (induction arbitrary: held xs rule: engine_steps.induct)
  case (idle rt)
  then show ?case using advances_refl by blast
next
  case (other rt rt1 w)
  then obtain ys where "advances held xs rt ys rt1" by blast
  then show ?case by (intro exI advances_world)
next
  case (enqueue rt rt1 ctx f argv rt2 r)
  then obtain ys where ys: "advances held xs rt ys rt1" by blast
  then have "job_wf held ys rt1" by (simp add: advances_def)
  from JS_EnqueueJob_spec [OF fresh this, of ctx f argv] enqueue(2) obtain zs where "advances held ys rt1 zs rt2" by auto
  with ys show ?case using advances_trans by blast
next
  case (nested rt rt1 e links entry rt2 rt3)
  then obtain ys where ys: "advances held xs rt ys rt1" by blast
  then have wf: "job_wf held ys rt1" by (simp add: advances_def)
  obtain zs where zs: "ys = e # zs" "job_wf (insert e held) zs (rt1\<lparr>rt_links := links, rt_started := rt_started rt1 @ [entry]\<rparr>)"
    by (rule take_first_job [OF wf nested.hyps(2)]) (use nested.hyps(3-5) in auto)
  obtain us where us: "advances held ys rt1 us (js_free_job e rt2)"
    using nested.IH(2) [OF zs(2)] started_advances [of held e zs rt1 entry] wf nested.hyps(5) zs(1) by blast
  then obtain vs where "advances held us (js_free_job e rt2) vs rt3"
    using nested.IH(3) by (meson advances_def)
  with ys us show ?case using advances_trans by meson
qed

lemma engine_steps_fold:
  assumes "\<And>v rt. engine_steps eng rt (g v rt)" "\<forall>n rt e. js_malloc eng n rt = Some e \<longrightarrow> e \<notin> dom (rt_links rt)"
  shows "job_wf held xs rt \<Longrightarrow> \<exists>ys. advances held xs rt ys (fold g vs rt)"
proof (induction vs arbitrary: rt xs)
  case (Cons v vs)
  obtain ys where ys: "advances held xs rt ys (g v rt)" using engine_steps_advances [OF assms Cons.prems] by blast
  then have "job_wf held ys (g v rt)" by (simp add: advances_def)
  with Cons.IH obtain zs where "advances held ys (g v rt) zs (fold g vs (g v rt))" by blast
  with ys show ?case using advances_trans by fastforce
qed (use advances_refl in auto)

lemma JS_ExecutePendingJob_spec:
  assumes ok: "engine_ok eng" and wf: "job_wf {} xs rt"
  shows "\<exists>rt' r pctx ys. JS_ExecutePendingJob eng rt = Some (rt', r, pctx) \<and> advances {} xs rt ys rt'
    \<and> (if xs = [] then rt' = rt \<and> r = 0 else r \<noteq> 0 \<and> length (rt_started rt) < length (rt_started rt'))"
proof (cases "xs = []")
  case True
  then show ?thesis
    using wf list_empty_spec [of "rt_links rt" "job_list rt" xs] advances_refl [OF wf]
    by (auto simp: JS_ExecutePendingJob_def job_wf_def)
next
  case False
  have fresh: "\<forall>n rt e. js_malloc eng n rt = Some e \<longrightarrow> e \<notin> dom (rt_links rt)"
    and call: "\<And>f ctx argv rt. engine_steps eng rt (fst (call_job eng f ctx argv rt))"
    and fv: "\<And>ctx v rt. engine_steps eng rt (free_value eng ctx v rt)"
    and fc: "\<And>ctx rt. engine_steps eng rt (free_context eng ctx rt)"
    using ok by (auto simp: engine_ok_def)
  have ne: "list_empty (job_list rt) (rt_links rt) = Some False"
    using wf False list_empty_spec [of "rt_links rt" "job_list rt" xs] by (simp add: job_wf_def)
  obtain e ys links entry where xs: "xs = e # ys" and e: "get_next (job_list rt) (rt_links rt) = Some e"
    "list_del e (rt_links rt) = Some links" "rt_jobs rt e = Some entry"
    and wf1: "job_wf (insert e {}) ys (rt\<lparr>rt_links := links, rt_started := rt_started rt @ [entry]\<rparr>)"
    by (rule take_first_job [OF wf ne])
  define rt1 where "rt1 = rt\<lparr>rt_links := links, rt_started := rt_started rt @ [entry]\<rparr>"
  obtain rt2 res where rt2: "call_job eng (job_func entry) (realm entry) (je_argv entry) rt1 = (rt2, res)" by fastforce
  have "engine_steps eng rt1 rt2" using call [of rt1 "job_func entry" "realm entry" "je_argv entry"] rt2 by simp
  then obtain zs where zs: "advances {e} ys rt1 zs rt2"
    using engine_steps_advances [OF _ fresh] wf1 unfolding rt1_def by blast
  define rt3 where "rt3 = fold (free_value eng (realm entry)) (je_argv entry) rt2"
  obtain us where us: "advances {e} zs rt2 us rt3"
    using engine_steps_fold [of eng "free_value eng (realm entry)", OF fv fresh] zs unfolding rt3_def by (meson advances_def)
  define rt4 where "rt4 = free_value eng (realm entry) res rt3"
  obtain vs where vs: "advances {e} us rt3 vs rt4"
    using engine_steps_advances [OF fv fresh] us unfolding rt4_def by (meson advances_def)
  have adv: "advances {e} ys rt1 vs rt4"
    by (rule advances_trans [OF advances_trans [OF zs us] vs])
  then have adv4: "advances {} xs rt vs (js_free_job e rt4)"
    using started_advances [of "{}" e ys rt entry] wf e(3) by (simp add: xs rt1_def)
  have "length (rt_started rt) < length (rt_started (js_free_job e rt4))"
    using adv by (auto simp: advances_def rt1_def js_free_job_def)
  define rt5 where "rt5 = free_context eng (realm entry) (js_free_job e rt4)"
  obtain ws where ws: "advances {} vs (js_free_job e rt4) ws rt5"
    using engine_steps_advances [OF fc fresh] adv4 unfolding rt5_def by (meson advances_def)
  have "length (rt_started (js_free_job e rt4)) \<le> length (rt_started rt5)"
    using ws by (auto simp: advances_def)
  moreover have "\<exists>r pctx. JS_ExecutePendingJob eng rt = Some (rt5, r, pctx) \<and> r \<noteq> 0"
    using ne e rt2 by (simp add: JS_ExecutePendingJob_def Let_def rt1_def [symmetric] rt3_def [symmetric] rt4_def [symmetric] rt5_def)
  ultimately show ?thesis
    using False advances_trans [OF adv4 ws] \<open>length (rt_started rt) < _\<close> by fastforce
qed

section \<open>Runners of a queue\<close>

text \<open>The contract of a runner: a step is defined, keeps the order of the jobs and starts one when one
is pending. The relation \<open>queue s q\<close> says that \<open>q\<close> are the pending jobs of the state.\<close>

fun iterate_step :: "('s \<Rightarrow> 's option) \<Rightarrow> nat \<Rightarrow> 's \<Rightarrow> 's option" where
  "iterate_step step 0 s = Some s"
| "iterate_step step (Suc n) s = do { s' \<leftarrow> step s; iterate_step step n s' }"

lemma take_prefix_append: "q = [] \<or> n \<le> m \<Longrightarrow> \<exists>r. take m (q @ a) = take n q @ r"
  by (metis append_Nil append_assoc append_take_drop_id min.absorb1 take_Nil take_append take_take)

locale queue_runner =
  fixes step :: "'s \<Rightarrow> 's option"
    and started :: "'s \<Rightarrow> 'j list"
    and queue :: "'s \<Rightarrow> 'j list \<Rightarrow> bool"
  assumes step_advances: "queue s q \<Longrightarrow> \<exists>s' q' added more. step s = Some s' \<and> queue s' q'
      \<and> started s' @ q' = started s @ q @ added \<and> started s' = started s @ more
      \<and> (q = [] \<or> more \<noteq> [])"
begin

text \<open>The pending jobs are started in order, each by one of the next steps.\<close>

lemma jobs_started:
  "queue s q \<Longrightarrow> \<exists>s' q' rest. iterate_step step n s = Some s' \<and> queue s' q' \<and> started s' = started s @ take n q @ rest"
proof (induction n arbitrary: s q)
  case (Suc n)
  obtain s1 q1 added more where s1: "step s = Some s1" "queue s1 q1"
    "started s1 @ q1 = started s @ q @ added" "started s1 = started s @ more" "q = [] \<or> more \<noteq> []"
    using step_advances [OF Suc.prems(1)] by blast
  obtain s2 q2 rest where s2: "iterate_step step n s1 = Some s2" "queue s2 q2" "started s2 = started s1 @ take n q1 @ rest"
    using Suc.IH [OF s1(2)] by blast
  have "more @ take n q1 = take (length more + n) (q @ added)" using s1(3,4) by (metis append_assoc same_append_eq take_append
        add_diff_cancel_left' take_all le_add1)
  moreover have "q = [] \<or> Suc n \<le> length more + n" using s1(5) by (cases more) auto
  ultimately obtain r where "more @ take n q1 = take (Suc n) q @ r"
    using take_prefix_append [of q "Suc n" "length more + n" added] by fastforce
  then have "started s2 = started s @ take (Suc n) q @ r @ rest" using s2(3) s1(4) by (metis append_assoc)
  then show ?case using s1(1) s2(1,2) by auto
qed auto

end

text \<open>The runtime under \<^verbatim>\<open>JS_ExecutePendingJob\<close> is such a runner, for every engine.\<close>

definition execute_step :: "('c, 'f, 'v, 'w) engine \<Rightarrow> ('c, 'f, 'v, 'w) runtime \<Rightarrow> ('c, 'f, 'v, 'w) runtime option" where
  "execute_step eng rt = map_option fst (JS_ExecutePendingJob eng rt)"

lemma execute_jobs_iterate: "execute_jobs eng n rt = iterate_step (execute_step eng) n rt"
  by (induction n arbitrary: rt) (auto simp: execute_step_def split: option.splits Option.bind_splits)

definition pending_jobs :: "('c, 'f, 'v, 'w) engine \<Rightarrow> ('c, 'f, 'v, 'w) runtime \<Rightarrow> ('c, 'f, 'v) job_entry list \<Rightarrow> bool" where
  "pending_jobs eng rt q \<longleftrightarrow> engine_ok eng \<and> (\<exists>xs. job_wf {} xs rt \<and> q = entries rt xs)"

interpretation jobs: queue_runner "execute_step eng" rt_started "pending_jobs eng"
  for eng :: "('c, 'f, 'v, 'w) engine"
proof
  fix rt :: "('c, 'f, 'v, 'w) runtime" and q
  assume "pending_jobs eng rt q"
  then obtain xs where ok: "engine_ok eng" and wf: "job_wf {} xs rt" and q: "q = entries rt xs"
    by (auto simp: pending_jobs_def)
  obtain rt' r pctx ys where run: "JS_ExecutePendingJob eng rt = Some (rt', r, pctx)" and adv: "advances {} xs rt ys rt'"
    and len: "if xs = [] then rt' = rt \<and> r = 0 else r \<noteq> 0 \<and> length (rt_started rt) < length (rt_started rt')"
    using JS_ExecutePendingJob_spec [OF ok wf] by blast
  obtain added more where "rt_started rt' @ entries rt' ys = rt_started rt @ entries rt xs @ added"
    "rt_started rt' = rt_started rt @ more" "job_wf {} ys rt'"
    using adv by (auto simp: advances_def)
  moreover from this len have "q = [] \<or> more \<noteq> []" by (auto simp: q entries_def split: if_splits)
  ultimately show "\<exists>s' q' added more. execute_step eng rt = Some s' \<and> pending_jobs eng s' q'
      \<and> rt_started s' @ q' = rt_started rt @ q @ added \<and> rt_started s' = rt_started rt @ more \<and> (q = [] \<or> more \<noteq> [])"
    using run ok q by (auto simp: execute_step_def pending_jobs_def)
qed

section \<open>The theorem\<close>

text \<open>C27 Every job is run: enqueuing fails only when the allocator has no memory, and otherwise, if
\<open>n\<close> jobs were pending before, the next \<open>n + 1\<close> calls of
\<^verbatim>\<open>JS_ExecutePendingJob\<close> follow no pointer that is \<^verbatim>\<open>NULL\<close> or freed, and
start these jobs in their order and then the new job, whatever jobs they enqueue or run themselves.\<close>

theorem enqueued_job_runs:
  assumes "engine_ok eng" and "job_wf {} xs rt"
  shows "\<exists>rt1 r. JS_EnqueueJob eng ctx f argv rt = Some (rt1, r)
    \<and> (r = -1 \<and> js_malloc eng (40 + length argv * 16) rt = None
       \<or> r = 0 \<and> JS_IsJobPending rt1 = Some True
         \<and> (\<exists>rt2 rest. execute_jobs eng (Suc (length xs)) rt1 = Some rt2
           \<and> rt_started rt2 = rt_started rt @ entries rt xs @ \<lparr>realm = ctx, job_func = f, je_argv = argv\<rparr> # rest))"
proof -
  have fresh: "\<forall>n rt e. js_malloc eng n rt = Some e \<longrightarrow> e \<notin> dom (rt_links rt)" using assms(1) by (simp add: engine_ok_def)
  have "\<exists>rt2 rest. execute_jobs eng (Suc (length xs)) rt1 = Some rt2
      \<and> rt_started rt2 = rt_started rt1 @ entries rt1 (xs @ [e]) @ rest" if "job_wf {} (xs @ [e]) rt1" for rt1 e
  proof -
    have "pending_jobs eng rt1 (entries rt1 (xs @ [e]))" using assms(1) that by (auto simp: pending_jobs_def)
    moreover have "take (Suc (length xs)) (entries rt1 (xs @ [e])) = entries rt1 (xs @ [e])" by (simp add: entries_def)
    ultimately show ?thesis
      using jobs.jobs_started [of eng rt1 "entries rt1 (xs @ [e])" "Suc (length xs)"] unfolding execute_jobs_iterate by auto
  qed
  moreover have "JS_IsJobPending rt1 = Some True" if "job_wf {} (xs @ [e]) rt1" for rt1 :: "('a, 'b, 'c, 'd) runtime" and e
    using that list_empty_spec by (fastforce simp: JS_IsJobPending_def job_wf_def)
  ultimately show ?thesis
    using JS_EnqueueJob_spec [OF fresh assms(2), of ctx f argv] by (fastforce simp: advances_def)
qed

text \<open>An engine with a small memory, in which the job \<open>Suc n\<close> enqueues the job \<open>n\<close>.\<close>

definition small_engine :: "(unit, nat, nat, nat) engine" where
  "small_engine =
    \<lparr>js_malloc = \<lambda>n rt. find (\<lambda>e. rt_links rt e = None) [1..<20],
     throw_out_of_memory = \<lambda>c w. w, dup_context = \<lambda>c w. w, dup_value = \<lambda>v w. w,
     call_job = \<lambda>f c argv rt. (rt, 0), is_exception = \<lambda>v. v = 1, free_value = \<lambda>c v rt. rt,
     free_context = \<lambda>c rt. rt, context_ref_count = \<lambda>c w. 1\<rparr>"

definition chain_engine :: "(unit, nat, nat, nat) engine" where
  "chain_engine = small_engine\<lparr>call_job := \<lambda>f c argv rt.
     (case f of 0 \<Rightarrow> (rt, 0)
      | Suc n \<Rightarrow> (case JS_EnqueueJob small_engine c n argv rt of Some (rt', r) \<Rightarrow> (rt', 0) | None \<Rightarrow> (rt, 1)))\<rparr>"

definition empty_runtime :: "(unit, nat, nat, nat) runtime" where
  "empty_runtime = \<lparr>rt_links = [0 \<mapsto> \<lparr>lh_prev = Some 0, lh_next = Some 0\<rparr>], rt_jobs = Map.empty, job_list = 0,
     rt_world = 0, rt_started = []\<rparr>"

lemma chain_engine_ok: "engine_ok chain_engine"
proof -
  have same: "JS_EnqueueJob small_engine c n argv rt = JS_EnqueueJob chain_engine c n argv rt" for c n argv rt
    by (simp add: JS_EnqueueJob_def chain_engine_def cong: option.case_cong)
  have "engine_steps chain_engine rt (fst (call_job chain_engine f c argv rt))" for f c argv rt
  proof (cases f)
    case (Suc n)
    then show ?thesis
      using enqueue [OF idle, of chain_engine c n argv rt] idle [of chain_engine rt]
      by (auto simp: chain_engine_def same [unfolded chain_engine_def] split: option.splits)
  qed (simp add: chain_engine_def idle)
  moreover have "e \<notin> dom (rt_links rt)" if "js_malloc chain_engine n rt = Some e" for n rt e
    using that by (auto simp: chain_engine_def small_engine_def find_Some_iff)
  moreover have "free_value chain_engine c v rt = rt" "free_context chain_engine c rt = rt" for c v rt
    by (simp_all add: chain_engine_def small_engine_def)
  ultimately show ?thesis by (simp add: engine_ok_def idle)
qed

theorem enqueued_job_runs_witness:
  "\<exists>rt1 rt2 rest. JS_EnqueueJob chain_engine () 3 [7] empty_runtime = Some (rt1, 0)
    \<and> execute_jobs chain_engine 1 rt1 = Some rt2
    \<and> rt_started rt2 = \<lparr>realm = (), job_func = 3, je_argv = [7]\<rparr> # rest"
proof -
  have "job_wf {} [] empty_runtime"
    by (simp add: job_wf_def empty_runtime_def is_list_def linked_def get_next_def get_prev_def)
  moreover have "js_malloc chain_engine (40 + length [7 :: nat] * 16) empty_runtime = Some 1"
    by (simp add: chain_engine_def small_engine_def empty_runtime_def upt_conv_Cons)
  moreover have "rt_started empty_runtime = []" by (simp add: empty_runtime_def)
  ultimately show ?thesis
    using enqueued_job_runs [OF chain_engine_ok, of "[]" empty_runtime "()" 3 "[7]"] by (auto simp: entries_def)
qed

end
