(* ===== verification/String_Buffer.thy ===== *)
theory String_Buffer
  imports Cutils_Bytes "HOL-Library.Monad_Syntax" "HOL-Library.Signed_Division"
begin

text \<open>The string builder of \<^verbatim>\<open>src/quickjs/quickjs.c\<close> (\<^verbatim>\<open>StringBuffer\<close> and the
\<^verbatim>\<open>string_buffer_\<close> functions), with which the engine builds its strings. A string holds 8-bit
characters until one above 255 is appended; the block is then widened in place to 16-bit code units.

The block is the list of the bytes behind the header of the \<^verbatim>\<open>JSString\<close>, the union of
\<^verbatim>\<open>str8\<close> and \<^verbatim>\<open>str16\<close>; \<open>None\<close> is the pointer
\<^verbatim>\<open>NULL\<close>, and a result \<open>None\<close> an access outside of the block. The allocator is an
argument: \<open>ra m n\<close> is the block, at least \<open>n\<close> bytes long, to which a block \<open>m\<close> is moved.
The lengths are not bounded except where the code multiplies the size: the other sums stay below
\<open>2 ^ 31\<close> as long as a block has less than \<open>2 ^ 30\<close> characters.

The theory shows that every sequence of operations builds the concatenation of what was appended,
or sets the error status, without leaving the block, and that a buffer with the error status accepts
every operation, as the comment in the code says.\<close>

section \<open>Definitions\<close>

definition JS_STRING_LEN_MAX :: nat where
  "JS_STRING_LEN_MAX = 2 ^ 30 - 1"

text \<open>A value of type \<^verbatim>\<open>int\<close> after an overflow.\<close>

definition c_int :: "int \<Rightarrow> int" where
  "c_int x = (x + 2 ^ 31) mod 2 ^ 32 - 2 ^ 31"

record js_string =
  js_is_wide_char :: bool
  js_len :: nat
  js_mem :: "u8 list"

record string_buffer =
  sb_str :: "u8 list option"
  sb_len :: nat
  sb_size :: nat
  sb_is_wide_char :: bool
  sb_error_status :: int

definition str16_put :: "u8 list \<Rightarrow> nat \<Rightarrow> u16 \<Rightarrow> u8 list option" where
  "str16_put m i v = blit m (2 * i) (le_bytes 2 v)"

text \<open>The size in bytes of a block for a number of characters, with the terminator of an 8-bit
string.\<close>

definition str_bytes :: "nat \<Rightarrow> bool \<Rightarrow> nat" where
  "str_bytes n is_wide = n * (if is_wide then 2 else 1) + (if is_wide then 0 else 1)"

definition string_buffer_init2 :: "(nat \<Rightarrow> u8 list option) \<Rightarrow> nat \<Rightarrow> bool \<Rightarrow> string_buffer \<times> int" where
  "string_buffer_init2 js_alloc_string sz is_wide =
    (case js_alloc_string (str_bytes sz is_wide) of
       None \<Rightarrow> (\<lparr>sb_str = None, sb_len = 0, sb_size = 0, sb_is_wide_char = is_wide, sb_error_status = -1\<rparr>, -1)
     | Some b \<Rightarrow> (\<lparr>sb_str = Some b, sb_len = 0, sb_size = sz, sb_is_wide_char = is_wide, sb_error_status = 0\<rparr>, 0))"

definition string_buffer_init :: "(nat \<Rightarrow> u8 list option) \<Rightarrow> nat \<Rightarrow> string_buffer \<times> int" where
  "string_buffer_init js_alloc_string sz = string_buffer_init2 js_alloc_string sz False"

definition string_buffer_set_error :: "string_buffer \<Rightarrow> string_buffer \<times> int" where
  "string_buffer_set_error s = (s\<lparr>sb_str := None, sb_size := 0, sb_len := 0, sb_error_status := -1\<rparr>, -1)"

fun widen_loop :: "u8 list \<Rightarrow> nat \<Rightarrow> u8 list option" where
  "widen_loop m 0 = Some m"
| "widen_loop m (Suc i) = do { c \<leftarrow> load m i; m \<leftarrow> str16_put m i (ucast c); widen_loop m i }"

type_synonym realloc = "u8 list \<Rightarrow> nat \<Rightarrow> u8 list option"

definition string_buffer_widen :: "realloc \<Rightarrow> string_buffer \<Rightarrow> nat \<Rightarrow> (string_buffer \<times> int) option" where
  "string_buffer_widen ra s sz =
    (if sb_error_status s \<noteq> 0 then Some (s, -1)
     else do {
       m \<leftarrow> sb_str s;
       (case ra m (sz * 2) of
          None \<Rightarrow> Some (string_buffer_set_error s)
        | Some b \<Rightarrow> do {
            let slack = length b - sz * 2;
            b \<leftarrow> widen_loop b (sb_len s);
            Some (s\<lparr>sb_is_wide_char := True, sb_size := sz + slack div 2, sb_str := Some b\<rparr>, 0)
          })
     })"

definition string_buffer_realloc :: "realloc \<Rightarrow> string_buffer \<Rightarrow> nat \<Rightarrow> u32 \<Rightarrow> (string_buffer \<times> int) option" where
  "string_buffer_realloc ra s new_len c =
    (if sb_error_status s \<noteq> 0 then Some (s, -1)
     else if new_len > JS_STRING_LEN_MAX then Some (string_buffer_set_error s)
     else
       let new_size = nat (min (max (int new_len) (c_int (int (sb_size s) * 3) sdiv 2)) (int JS_STRING_LEN_MAX)) in
       if \<not> sb_is_wide_char s \<and> c \<ge> 0x100 then string_buffer_widen ra s new_size
       else do {
         m \<leftarrow> sb_str s;
         let new_size_bytes = str_bytes new_size (sb_is_wide_char s);
         (case ra m new_size_bytes of
            None \<Rightarrow> Some (string_buffer_set_error s)
          | Some b \<Rightarrow>
              let slack = length b - new_size_bytes;
                  new_size = min (new_size + slack div (if sb_is_wide_char s then 2 else 1)) JS_STRING_LEN_MAX
              in Some (s\<lparr>sb_size := new_size, sb_str := Some b\<rparr>, 0))
       })"

text \<open>The assignments \<^verbatim>\<open>str16[s->len++] = c\<close> and \<^verbatim>\<open>str8[s->len++] = c\<close>.\<close>

definition sb_append16 :: "string_buffer \<Rightarrow> u32 \<Rightarrow> (string_buffer \<times> int) option" where
  "sb_append16 s c = do {
     m \<leftarrow> sb_str s;
     m \<leftarrow> str16_put m (sb_len s) (ucast c);
     Some (s\<lparr>sb_str := Some m, sb_len := sb_len s + 1\<rparr>, 0)
   }"

definition sb_append8 :: "string_buffer \<Rightarrow> u32 \<Rightarrow> (string_buffer \<times> int) option" where
  "sb_append8 s c = do {
     m \<leftarrow> sb_str s;
     m \<leftarrow> store m (sb_len s) (ucast c);
     Some (s\<lparr>sb_str := Some m, sb_len := sb_len s + 1\<rparr>, 0)
   }"

definition string_buffer_putc_slow :: "realloc \<Rightarrow> string_buffer \<Rightarrow> u32 \<Rightarrow> (string_buffer \<times> int) option" where
  "string_buffer_putc_slow ra s c = do {
     (s, r) \<leftarrow> (if sb_len s \<ge> sb_size s then string_buffer_realloc ra s (sb_len s + 1) c else Some (s, 0));
     if r \<noteq> 0 then Some (s, -1)
     else if sb_is_wide_char s then sb_append16 s c
     else if c < 0x100 then sb_append8 s c
     else do {
       (s, r) \<leftarrow> string_buffer_widen ra s (sb_size s);
       if r \<noteq> 0 then Some (s, -1) else sb_append16 s c
     }
   }"

definition string_buffer_putc8 :: "realloc \<Rightarrow> string_buffer \<Rightarrow> u32 \<Rightarrow> (string_buffer \<times> int) option" where
  "string_buffer_putc8 ra s c = do {
     (s, r) \<leftarrow> (if sb_len s \<ge> sb_size s then string_buffer_realloc ra s (sb_len s + 1) c else Some (s, 0));
     if r \<noteq> 0 then Some (s, -1)
     else if sb_is_wide_char s then sb_append16 s c
     else sb_append8 s c
   }"

definition string_buffer_putc16 :: "realloc \<Rightarrow> string_buffer \<Rightarrow> u32 \<Rightarrow> (string_buffer \<times> int) option" where
  "string_buffer_putc16 ra s c =
    (if sb_len s < sb_size s \<and> sb_is_wide_char s then sb_append16 s c
     else if sb_len s < sb_size s \<and> c < 0x100 then sb_append8 s c
     else string_buffer_putc_slow ra s c)"

definition string_buffer_putc :: "realloc \<Rightarrow> string_buffer \<Rightarrow> u32 \<Rightarrow> (string_buffer \<times> int) option" where
  "string_buffer_putc ra s c =
    (if c \<ge> 0x10000 then do {
       (s, r) \<leftarrow> string_buffer_putc16 ra s (get_hi_surrogate c);
       if r \<noteq> 0 then Some (s, -1) else string_buffer_putc16 ra s (get_lo_surrogate c)
     }
     else string_buffer_putc16 ra s c)"

text \<open>A write of no characters does not touch the block: its pointer may be \<^verbatim>\<open>NULL\<close>.\<close>

definition sb_memcpy :: "string_buffer \<Rightarrow> nat \<Rightarrow> u8 list \<Rightarrow> nat \<Rightarrow> (string_buffer \<times> int) option" where
  "sb_memcpy s off d len =
    (if len = 0 then Some (s, 0)
     else do {
       m \<leftarrow> sb_str s;
       m \<leftarrow> blit m off d;
       Some (s\<lparr>sb_str := Some m, sb_len := sb_len s + len\<rparr>, 0)
     })"

definition string_buffer_write8 :: "realloc \<Rightarrow> string_buffer \<Rightarrow> u8 list \<Rightarrow> (string_buffer \<times> int) option" where
  "string_buffer_write8 ra s p = do {
     (s, r) \<leftarrow> (if sb_len s + length p > sb_size s then string_buffer_realloc ra s (sb_len s + length p) 0 else Some (s, 0));
     if r \<noteq> 0 then Some (s, -1)
     else if sb_is_wide_char s then sb_memcpy s (2 * sb_len s) (concat (map (\<lambda>c. le_bytes 2 (ucast c :: u16)) p)) (length p)
     else sb_memcpy s (sb_len s) p (length p)
   }"

definition string_buffer_write16 :: "realloc \<Rightarrow> string_buffer \<Rightarrow> u16 list \<Rightarrow> (string_buffer \<times> int) option" where
  "string_buffer_write16 ra s p = do {
     let c = fold (\<lambda>x c. c OR ucast x) p (0 :: u32);
     (s, r) \<leftarrow> (if sb_len s + length p > sb_size s then string_buffer_realloc ra s (sb_len s + length p) c
                else if \<not> sb_is_wide_char s \<and> c \<ge> 0x100 then string_buffer_widen ra s (sb_size s)
                else Some (s, 0));
     if r \<noteq> 0 then Some (s, -1)
     else if sb_is_wide_char s then sb_memcpy s (2 * sb_len s) (concat (map (le_bytes 2) p)) (length p)
     else sb_memcpy s (sb_len s) (map ucast p) (length p)
   }"

definition string_buffer_puts8 :: "realloc \<Rightarrow> string_buffer \<Rightarrow> u8 list \<Rightarrow> (string_buffer \<times> int) option" where
  "string_buffer_puts8 ra s str = string_buffer_write8 ra s (cstr str)"

text \<open>The arrays \<^verbatim>\<open>p->u.str8 + from\<close> and \<^verbatim>\<open>p->u.str16 + from\<close> of a string.\<close>

definition str8_slice :: "u8 list \<Rightarrow> nat \<Rightarrow> nat \<Rightarrow> u8 list option" where
  "str8_slice m from n = (if from + n \<le> length m then Some (take n (drop from m)) else None)"

definition str16_slice :: "u8 list \<Rightarrow> nat \<Rightarrow> nat \<Rightarrow> u16 list option" where
  "str16_slice m from n =
    (if 2 * (from + n) \<le> length m
     then Some (map (\<lambda>i. word_of_int (mp_val (take 2 (drop (2 * (from + i)) m)))) [0..<n]) else None)"

definition string_buffer_concat :: "realloc \<Rightarrow> string_buffer \<Rightarrow> js_string \<Rightarrow> nat \<Rightarrow> nat \<Rightarrow> (string_buffer \<times> int) option" where
  "string_buffer_concat ra s p from to =
    (if to \<le> from then Some (s, 0)
     else if js_is_wide_char p then do { d \<leftarrow> str16_slice (js_mem p) from (to - from); string_buffer_write16 ra s d }
     else do { d \<leftarrow> str8_slice (js_mem p) from (to - from); string_buffer_write8 ra s d })"

text \<open>A value that is not a string is converted by \<^verbatim>\<open>JS_ToString\<close>, an argument that gives
\<open>None\<close> for an exception.\<close>

datatype 'o str_value =
  JS_TAG_STRING js_string
| JS_TAG_STRING_ROPE (rope_left: "'o str_value") (rope_right: "'o str_value")
| JS_TAG_OTHER 'o

fun string_buffer_concat_value :: "realloc \<Rightarrow> ('o \<Rightarrow> js_string option) \<Rightarrow> string_buffer \<Rightarrow> 'o str_value \<Rightarrow> (string_buffer \<times> int) option" where
  "string_buffer_concat_value ra to_string s (JS_TAG_STRING p) =
    (if sb_error_status s \<noteq> 0 then Some (s, -1) else string_buffer_concat ra s p 0 (js_len p))"
| "string_buffer_concat_value ra to_string s (JS_TAG_STRING_ROPE l r) =
    (if sb_error_status s \<noteq> 0 then Some (s, -1)
     else do {
       (s, res) \<leftarrow> string_buffer_concat_value ra to_string s l;
       if res \<noteq> 0 then Some (s, -1) else string_buffer_concat_value ra to_string s r
     })"
| "string_buffer_concat_value ra to_string s (JS_TAG_OTHER v) =
    (if sb_error_status s \<noteq> 0 then Some (s, -1)
     else case to_string v of
       None \<Rightarrow> Some (string_buffer_set_error s)
     | Some p \<Rightarrow> string_buffer_concat ra s p 0 (js_len p))"

text \<open>The variant that releases its argument converts ropes too (\<^verbatim>\<open>JS_ToStringFree\<close>).\<close>

definition string_buffer_concat_value_free ::
    "realloc \<Rightarrow> ('o str_value \<Rightarrow> js_string option) \<Rightarrow> string_buffer \<Rightarrow> 'o str_value \<Rightarrow> (string_buffer \<times> int) option" where
  "string_buffer_concat_value_free ra to_string_free s v =
    (if sb_error_status s \<noteq> 0 then Some (s, -1)
     else case (case v of JS_TAG_STRING p \<Rightarrow> Some p | _ \<Rightarrow> to_string_free v) of
       None \<Rightarrow> Some (string_buffer_set_error s)
     | Some p \<Rightarrow> string_buffer_concat ra s p 0 (js_len p))"

definition string_buffer_free :: "string_buffer \<Rightarrow> string_buffer" where
  "string_buffer_free s = s\<lparr>sb_str := None\<rparr>"

fun fill_loop :: "realloc \<Rightarrow> string_buffer \<Rightarrow> u32 \<Rightarrow> nat \<Rightarrow> (string_buffer \<times> int) option" where
  "fill_loop ra s c 0 = Some (s, 0)"
| "fill_loop ra s c (Suc n) = do {
     (s, r) \<leftarrow> string_buffer_putc16 ra s c;
     if r \<noteq> 0 then Some (s, -1) else fill_loop ra s c n
   }"

definition string_buffer_fill :: "realloc \<Rightarrow> string_buffer \<Rightarrow> u32 \<Rightarrow> nat \<Rightarrow> (string_buffer \<times> int) option" where
  "string_buffer_fill ra s c n = do {
     (s, r) \<leftarrow> (if sb_len s + n > sb_size s then string_buffer_realloc ra s (sb_len s + n) c else Some (s, 0));
     if r \<noteq> 0 then Some (s, -1) else fill_loop ra s c n
   }"

text \<open>The result is \<open>None\<close> inside for \<^verbatim>\<open>JS_EXCEPTION\<close>.\<close>

definition string_buffer_end :: "realloc \<Rightarrow> string_buffer \<Rightarrow> js_string option option" where
  "string_buffer_end ra s =
    (if sb_error_status s \<noteq> 0 then Some None
     else if sb_len s = 0 then Some (Some \<lparr>js_is_wide_char = False, js_len = 0, js_mem = [0]\<rparr>)
     else do {
       m \<leftarrow> sb_str s;
       let m = (if sb_len s < sb_size s then
                  case ra m (str_bytes (sb_len s) (sb_is_wide_char s)) of None \<Rightarrow> m | Some b \<Rightarrow> b
                else m);
       m \<leftarrow> (if sb_is_wide_char s then Some m else store m (sb_len s) 0);
       Some (Some \<lparr>js_is_wide_char = sb_is_wide_char s, js_len = sb_len s, js_mem = m\<rparr>)
     })"

section \<open>Lemmas\<close>

text \<open>What the buffer relies on of the allocator.\<close>

definition realloc_ok :: "realloc \<Rightarrow> bool" where
  "realloc_ok ra \<longleftrightarrow> (\<forall>m n b. ra m n = Some b \<longrightarrow> n \<le> length b \<and> take (min (length m) n) b = take (min (length m) n) m)"

definition enc16 :: "u16 list \<Rightarrow> u8 list" where
  "enc16 us = concat (map (le_bytes 2) us)"

lemma enc16_simps [simp]:
  "enc16 [] = []" "enc16 (u # us) = le_bytes 2 u @ enc16 us" "enc16 (us @ vs) = enc16 us @ enc16 vs"
  "length (enc16 us) = 2 * length us"
  by (simp_all add: enc16_def) (induction us, auto)

text \<open>The code units of a block with 8-bit or 16-bit characters.\<close>

definition str_holds :: "u8 list \<Rightarrow> bool \<Rightarrow> u16 list \<Rightarrow> bool" where
  "str_holds m is_wide us \<longleftrightarrow>
    (if is_wide then take (2 * length us) m = enc16 us
     else length us \<le> length m \<and> map ucast (take (length us) m) = us)"

definition sb_rep :: "string_buffer \<Rightarrow> u16 list \<Rightarrow> bool" where
  "sb_rep s us \<longleftrightarrow> sb_error_status s = 0 \<and> sb_len s = length us \<and> sb_len s \<le> sb_size s
    \<and> (\<exists>m. sb_str s = Some m \<and> str_holds m (sb_is_wide_char s) us \<and> str_bytes (sb_size s) (sb_is_wide_char s) \<le> length m)"

definition sb_failed :: "string_buffer \<Rightarrow> bool" where
  "sb_failed s \<longleftrightarrow> sb_error_status s = -1 \<and> sb_str s = None \<and> sb_size s = 0 \<and> sb_len s = 0"

text \<open>The result of an operation that may fail only if \<open>F\<close> holds.\<close>

definition sb_ok :: "bool \<Rightarrow> (string_buffer \<times> int) option \<Rightarrow> (string_buffer \<Rightarrow> bool) \<Rightarrow> bool" where
  "sb_ok F res P \<longleftrightarrow> (\<exists>s r. res = Some (s, r) \<and> (r = 0 \<and> P s \<or> r = -1 \<and> sb_failed s \<and> F))"

definition ra_fails :: "realloc \<Rightarrow> bool" where
  "ra_fails ra \<longleftrightarrow> (\<exists>m n. ra m n = None)"

lemma sb_ok_return: "P s \<Longrightarrow> sb_ok F (Some (s, 0)) P"
  by (simp add: sb_ok_def)

lemma sb_ok_set_error: "F \<Longrightarrow> sb_ok F (Some (string_buffer_set_error s)) P"
  by (simp add: sb_ok_def string_buffer_set_error_def sb_failed_def)

lemma sb_ok_bind:
  assumes "sb_ok F res P" "\<And>s. P s \<Longrightarrow> sb_ok F (f s) Q"
  shows "sb_ok F (do { (s, r) \<leftarrow> res; if r \<noteq> 0 then Some (s, -1) else f s }) Q"
  using assms by (fastforce simp: sb_ok_def)

lemma sb_ok_mono: "sb_ok F res P \<Longrightarrow> (\<And>s. P s \<Longrightarrow> Q s) \<Longrightarrow> F \<longrightarrow> G \<Longrightarrow> sb_ok G res Q"
  by (fastforce simp: sb_ok_def)

subsection \<open>Widening in place\<close>

text \<open>The loop goes down from the last character: a byte is read before the code units of the
characters behind it reach it.\<close>

lemma widen_loop_spec:
  "2 * n \<le> length b \<Longrightarrow> \<exists>b'. widen_loop b n = Some b' \<and> length b' = length b
    \<and> take (2 * n) b' = enc16 (map ucast (take n b)) \<and> drop (2 * n) b' = drop (2 * n) b"
proof (induction n arbitrary: b)
  case (Suc i)
  define b1 where "b1 = take (2 * i) b @ le_bytes 2 (ucast (b ! i) :: u16) @ drop (2 * i + 2) b"
  have put: "str16_put b i (ucast (b ! i)) = Some b1"
    using Suc.prems by (simp add: str16_put_def blit_def b1_def)
  have b1: "length b1 = length b" "take i b1 = take i b" "drop (2 * i) b1 = le_bytes 2 (ucast (b ! i) :: u16) @ drop (2 * i + 2) b"
    using Suc.prems by (simp_all add: b1_def min_def)
  obtain b' where b': "widen_loop b1 i = Some b'" "length b' = length b1" "take (2 * i) b' = enc16 (map ucast (take i b1))"
    "drop (2 * i) b' = drop (2 * i) b1"
    using Suc.IH [of b1] Suc.prems b1(1) by auto
  have "take (2 * Suc i) b' = take (2 * i) b' @ take 2 (drop (2 * i) b')"
    by (metis add.commute mult_Suc_right take_add)
  also have "\<dots> = enc16 (map ucast (take (Suc i) b))"
    using Suc.prems b' b1 by (simp add: take_Suc_conv_app_nth)
  finally have "take (2 * Suc i) b' = enc16 (map ucast (take (Suc i) b))" .
  moreover have "drop (2 * Suc i) b' = drop 2 (drop (2 * i) b')" by simp
  then have "drop (2 * Suc i) b' = drop (2 * Suc i) b" using b'(4) b1(3) by simp
  ultimately show ?case using put b' b1(1) Suc.prems by (simp add: load_def)
qed simp

lemma take_prefix_eq: "take n b = take n m \<Longrightarrow> k \<le> n \<Longrightarrow> take k b = take k m"
  by (metis min.absorb1 take_take)

lemma string_buffer_widen_ok:
  assumes "realloc_ok ra" "sb_rep s us" "\<not> sb_is_wide_char s" "sb_len s \<le> sz"
  shows "sb_ok (ra_fails ra) (string_buffer_widen ra s sz) (\<lambda>s'. sb_rep s' us \<and> sb_is_wide_char s' \<and> sz \<le> sb_size s')"
proof -
  obtain m where m: "sb_str s = Some m" "sb_error_status s = 0" "sb_len s = length us" "length us \<le> length m"
    "map ucast (take (length us) m) = us"
    using assms(2,3) by (auto simp: sb_rep_def str_holds_def)
  show ?thesis
  proof (cases "ra m (sz * 2)")
    case None
    then show ?thesis using m by (auto simp: string_buffer_widen_def ra_fails_def intro!: sb_ok_set_error)
  next
    case (Some b)
    have b: "sz * 2 \<le> length b" "take (min (length m) (sz * 2)) b = take (min (length m) (sz * 2)) m"
      using assms(1) Some by (auto simp: realloc_ok_def)
    have "length us \<le> min (length m) (sz * 2)" using m(3,4) assms(4) by simp
    then have "take (length us) b = take (length us) m"
      by (rule take_prefix_eq [OF b(2)])
    moreover obtain b' where "widen_loop b (length us) = Some b'" "length b' = length b"
      "take (2 * length us) b' = enc16 (map ucast (take (length us) b))"
      using widen_loop_spec [of "length us" b] b(1) assms(4) m(3) by auto
    ultimately show ?thesis
      using Some m b(1) assms(4)
      by (simp add: string_buffer_widen_def sb_ok_def sb_rep_def str_holds_def str_bytes_def)
  qed
qed

subsection \<open>Growing\<close>

lemma new_size_bounds:
  assumes "new_len \<le> JS_STRING_LEN_MAX"
  shows "new_len \<le> nat (min (max (int new_len) x) (int JS_STRING_LEN_MAX))"
    "nat (min (max (int new_len) x) (int JS_STRING_LEN_MAX)) \<le> JS_STRING_LEN_MAX"
  using assms by linarith+

lemma str_holds_prefix:
  assumes "str_holds m is_wide us" "take n b = take n m" "str_bytes (length us) is_wide \<le> n + of_bool (\<not> is_wide)" "n \<le> length b"
  shows "str_holds b is_wide us"
proof (cases is_wide)
  case True
  then have "take (2 * length us) b = take (2 * length us) m"
    by (intro take_prefix_eq [OF assms(2)]) (use assms(3) in \<open>simp add: str_bytes_def\<close>)
  with True assms(1) show ?thesis by (simp add: str_holds_def)
next
  case False
  then have n: "length us \<le> n" using assms(3) by (simp add: str_bytes_def)
  from take_prefix_eq [OF assms(2) n] n
  show ?thesis using False assms(1,4) by (simp add: str_holds_def)
qed

lemma string_buffer_realloc_ok:
  assumes ra: "realloc_ok ra" and s: "sb_rep s us" and len: "sb_len s \<le> new_len"
  shows "sb_ok (ra_fails ra \<or> new_len > JS_STRING_LEN_MAX) (string_buffer_realloc ra s new_len c)
    (\<lambda>s'. sb_rep s' us \<and> new_len \<le> sb_size s' \<and> (sb_is_wide_char s' \<longleftrightarrow> sb_is_wide_char s \<or> c \<ge> 0x100))"
proof (cases "new_len > JS_STRING_LEN_MAX")
  case True
  then show ?thesis using s by (simp add: string_buffer_realloc_def sb_rep_def sb_ok_set_error)
next
  case False
  define sz where "sz = nat (min (max (int new_len) (c_int (int (sb_size s) * 3) sdiv 2)) (int JS_STRING_LEN_MAX))"
  have sz: "new_len \<le> sz" "sz \<le> JS_STRING_LEN_MAX"
    using new_size_bounds [of new_len] False by (simp_all add: sz_def)
  let ?w = "sb_is_wide_char s"
  obtain m where m: "sb_str s = Some m" "sb_error_status s = 0" "sb_len s = length us" "str_holds m ?w us"
    "str_bytes (sb_size s) ?w \<le> length m" "sb_len s \<le> sb_size s"
    using s by (auto simp: sb_rep_def)
  show ?thesis
  proof (cases "\<not> ?w \<and> c \<ge> 0x100")
    case True
    then have "string_buffer_realloc ra s new_len c = string_buffer_widen ra s sz"
      using m(2) False by (simp add: string_buffer_realloc_def sz_def)
    then show ?thesis
      using string_buffer_widen_ok [OF ra s, of sz] True sz(1) len by (auto elim!: sb_ok_mono)
  next
    case narrow: False
    show ?thesis
    proof (cases "ra m (str_bytes sz ?w)")
      case None
      then show ?thesis
        using m False narrow by (auto simp: string_buffer_realloc_def sz_def [symmetric] Let_def ra_fails_def intro!: sb_ok_set_error)
    next
      case (Some b)
      let ?n = "str_bytes sz ?w"
      have b: "?n \<le> length b" "take (min (length m) ?n) b = take (min (length m) ?n) m"
        using ra Some by (auto simp: realloc_ok_def)
      have "str_holds b ?w us"
        by (rule str_holds_prefix [OF m(4) b(2)]) (use m b(1) len sz(1) in \<open>auto simp: str_bytes_def split: if_splits\<close>)
      moreover have "str_bytes (min (sz + (length b - ?n) div (if ?w then 2 else 1)) JS_STRING_LEN_MAX) ?w \<le> length b"
        using b(1) by (auto simp: str_bytes_def min_def)
      ultimately show ?thesis
        using Some m False narrow sz len
        by (auto simp: string_buffer_realloc_def sz_def [symmetric] Let_def sb_ok_def sb_rep_def)
    qed
  qed
qed

subsection \<open>Appending\<close>

text \<open>The buffer after a change of the block behind its characters.\<close>

lemma sb_memcpy_ok:
  assumes "sb_rep s us" "length us + length vs \<le> sb_size s"
    and "if sb_is_wide_char s then d = enc16 vs \<and> off = 2 * sb_len s else map ucast d = vs \<and> off = sb_len s"
  shows "sb_ok F (sb_memcpy s off d (length vs)) (\<lambda>s'. sb_rep s' (us @ vs))"
proof (cases "vs = []")
  case True
  then show ?thesis using assms(1) by (simp add: sb_memcpy_def sb_ok_return)
next
  case False
  obtain m where m: "sb_str s = Some m" "sb_error_status s = 0" "sb_len s = length us" "str_holds m (sb_is_wide_char s) us"
    "str_bytes (sb_size s) (sb_is_wide_char s) \<le> length m"
    using assms(1) by (auto simp: sb_rep_def)
  have dlen: "length d = (if sb_is_wide_char s then 2 else 1) * length vs"
    using assms(3) by (auto split: if_splits)
  have fits: "off + length d \<le> length m"
    using assms(2,3) m(3,5) dlen by (auto simp: str_bytes_def split: if_splits)
  define m' where "m' = take off m @ d @ drop (off + length d) m"
  have "blit m off d = Some m'" using fits by (simp add: blit_def m'_def)
  moreover have "str_holds m' (sb_is_wide_char s) (us @ vs)" "length m' = length m"
    using m(3,4) assms(3) fits dlen by (auto simp: str_holds_def m'_def split: if_splits)
  ultimately show ?thesis
    using False m assms(2) by (simp add: sb_memcpy_def sb_ok_def sb_rep_def)
qed

lemma sb_append_memcpy:
  "sb_append16 s c = sb_memcpy s (2 * sb_len s) (enc16 [ucast c]) (length [ucast c :: u16])"
  by (simp add: sb_append16_def sb_memcpy_def str16_put_def)

lemma sb_append8_memcpy: "sb_append8 s c = sb_memcpy s (sb_len s) [ucast c] (length [ucast c :: u16])"
  by (cases "sb_str s") (auto simp: sb_append8_def sb_memcpy_def store_def blit_def upd_conv_take_nth_drop)

lemma ucast_low_byte: "(c :: u32) < 0x100 \<Longrightarrow> (ucast (ucast c :: u8) :: u16) = ucast c"
  by (rule word_uint_eqI) (simp add: word_less_def uint_ucast)

lemma sb_append16_ok:
  assumes "sb_rep s us" "sb_len s < sb_size s" "sb_is_wide_char s"
  shows "sb_ok F (sb_append16 s c) (\<lambda>s'. sb_rep s' (us @ [ucast c]))"
  unfolding sb_append_memcpy by (rule sb_memcpy_ok) (use assms in \<open>auto simp: sb_rep_def\<close>)

lemma sb_append8_ok:
  assumes "sb_rep s us" "sb_len s < sb_size s" "\<not> sb_is_wide_char s" "c < 0x100"
  shows "sb_ok F (sb_append8 s c) (\<lambda>s'. sb_rep s' (us @ [ucast c]))"
  unfolding sb_append8_memcpy by (rule sb_memcpy_ok) (use assms in \<open>auto simp: sb_rep_def ucast_low_byte\<close>)

text \<open>Making room for more characters; the block is widened if the new characters need it.\<close>

abbreviation sb_limit :: "realloc \<Rightarrow> nat \<Rightarrow> bool" where
  "sb_limit ra n \<equiv> ra_fails ra \<or> n > JS_STRING_LEN_MAX"

lemma sb_rep_len: "sb_rep s us \<Longrightarrow> sb_len s = length us"
  by (simp add: sb_rep_def)

lemma sb_room:
  assumes "realloc_ok ra" "sb_rep s us"
  shows "sb_ok (sb_limit ra (length us + n))
      (if sb_len s + n > sb_size s then string_buffer_realloc ra s (sb_len s + n) c else Some (s, 0))
      (\<lambda>s'. sb_rep s' us \<and> length us + n \<le> sb_size s'
        \<and> (sb_is_wide_char s' \<longrightarrow> sb_is_wide_char s \<or> c \<ge> 0x100))"
proof -
  have "sb_len s = length us" using assms(2) by (simp add: sb_rep_def)
  then show ?thesis
    using string_buffer_realloc_ok [OF assms, of "sb_len s + n" c] assms(2)
    by (auto intro!: sb_ok_return elim!: sb_ok_mono)
qed

lemma string_buffer_putc_slow_ok:
  assumes ra: "realloc_ok ra" and s: "sb_rep s us"
  shows "sb_ok (sb_limit ra (length us + 1)) (string_buffer_putc_slow ra s c) (\<lambda>s'. sb_rep s' (us @ [ucast c]))"
proof -
  have append: "sb_ok (sb_limit ra (length us + 1))
      (if sb_is_wide_char s then sb_append16 s c
       else if c < 0x100 then sb_append8 s c
       else do { (s, r) \<leftarrow> string_buffer_widen ra s (sb_size s); if r \<noteq> 0 then Some (s, -1) else sb_append16 s c })
      (\<lambda>s'. sb_rep s' (us @ [ucast c]))" if s': "sb_rep s us \<and> length us + 1 \<le> sb_size s" for s
  proof -
    have len: "sb_len s < sb_size s" using s' by (auto simp: sb_rep_def)
    have "sb_ok (sb_limit ra (length us + 1)) (string_buffer_widen ra s (sb_size s))
        (\<lambda>s'. sb_rep s' us \<and> sb_is_wide_char s' \<and> sb_size s \<le> sb_size s')" if "\<not> sb_is_wide_char s"
      using string_buffer_widen_ok [OF ra _ that, of us "sb_size s"] s' len by (auto elim!: sb_ok_mono)
    moreover have "sb_len s' < sb_size s'" if "sb_rep s' us" "sb_size s \<le> sb_size s'" for s'
      using that s' by (auto simp: sb_rep_def)
    ultimately show ?thesis
      using s' len by (auto intro!: sb_append16_ok sb_append8_ok sb_ok_bind [where P = "\<lambda>s'. sb_rep s' us \<and> sb_is_wide_char s' \<and> sb_size s \<le> sb_size s'"])
  qed
  have "sb_ok (sb_limit ra (length us + 1))
      (if sb_len s \<ge> sb_size s then string_buffer_realloc ra s (sb_len s + 1) c else Some (s, 0))
      (\<lambda>s'. sb_rep s' us \<and> length us + 1 \<le> sb_size s')"
    using sb_room [OF ra s, of 1 c] by (auto simp: less_Suc_eq_le elim!: sb_ok_mono)
  then show ?thesis
    unfolding string_buffer_putc_slow_def by (rule sb_ok_bind) (rule append)
qed

lemma string_buffer_putc8_ok:
  assumes ra: "realloc_ok ra" and s: "sb_rep s us" and c: "c < 0x100"
  shows "sb_ok (sb_limit ra (length us + 1)) (string_buffer_putc8 ra s c) (\<lambda>s'. sb_rep s' (us @ [ucast c]))"
proof -
  have append: "sb_ok (sb_limit ra (length us + 1)) (if sb_is_wide_char s then sb_append16 s c else sb_append8 s c)
      (\<lambda>s'. sb_rep s' (us @ [ucast c]))" if "sb_rep s us \<and> length us + 1 \<le> sb_size s" for s
    using that c by (auto simp: sb_rep_len intro!: sb_append16_ok sb_append8_ok)
  have "sb_ok (sb_limit ra (length us + 1))
      (if sb_len s \<ge> sb_size s then string_buffer_realloc ra s (sb_len s + 1) c else Some (s, 0))
      (\<lambda>s'. sb_rep s' us \<and> length us + 1 \<le> sb_size s')"
    using sb_room [OF ra s, of 1 c] by (auto simp: less_Suc_eq_le elim!: sb_ok_mono)
  then show ?thesis
    unfolding string_buffer_putc8_def by (rule sb_ok_bind) (rule append)
qed

lemma string_buffer_putc16_ok:
  assumes "realloc_ok ra" "sb_rep s us"
  shows "sb_ok (sb_limit ra (length us + 1)) (string_buffer_putc16 ra s c) (\<lambda>s'. sb_rep s' (us @ [ucast c]))"
  using string_buffer_putc_slow_ok [OF assms, of c] assms(2)
  by (auto simp: string_buffer_putc16_def intro!: sb_append16_ok sb_append8_ok)

definition utf16 :: "u32 \<Rightarrow> u16 list" where
  "utf16 c = (if c \<ge> 0x10000 then [ucast (get_hi_surrogate c), ucast (get_lo_surrogate c)] else [ucast c])"

lemma string_buffer_putc_ok:
  assumes ra: "realloc_ok ra" and s: "sb_rep s us"
  shows "sb_ok (sb_limit ra (length us + length (utf16 c))) (string_buffer_putc ra s c) (\<lambda>s'. sb_rep s' (us @ utf16 c))"
proof (cases "c \<ge> 0x10000")
  case True
  have "sb_ok (sb_limit ra (length us + 2)) (string_buffer_putc16 ra s (get_hi_surrogate c))
      (\<lambda>s'. sb_rep s' (us @ [ucast (get_hi_surrogate c)]))"
    using string_buffer_putc16_ok [OF ra s] by (rule sb_ok_mono) auto
  moreover have "sb_ok (sb_limit ra (length us + 2)) (string_buffer_putc16 ra s' (get_lo_surrogate c)) (\<lambda>s'. sb_rep s' (us @ utf16 c))"
    if "sb_rep s' (us @ [ucast (get_hi_surrogate c)])" for s'
    using string_buffer_putc16_ok [OF ra that, of "get_lo_surrogate c"] True by (simp add: utf16_def)
  ultimately show ?thesis
    using True unfolding string_buffer_putc_def by (simp add: utf16_def sb_ok_bind)
next
  case False
  then show ?thesis using string_buffer_putc16_ok [OF ra s, of c] by (simp add: string_buffer_putc_def utf16_def)
qed

lemma concat_le_bytes: "concat (map (\<lambda>c. le_bytes 2 (ucast c :: u16)) p) = enc16 (map ucast (p :: u8 list))"
  by (simp add: enc16_def comp_def)

lemma string_buffer_write8_ok:
  assumes ra: "realloc_ok ra" and s: "sb_rep s us"
  shows "sb_ok (sb_limit ra (length us + length p)) (string_buffer_write8 ra s p) (\<lambda>s'. sb_rep s' (us @ map ucast p))"
proof -
  have "sb_ok (sb_limit ra (length us + length p))
      (if sb_is_wide_char s then sb_memcpy s (2 * sb_len s) (concat (map (\<lambda>c. le_bytes 2 (ucast c :: u16)) p)) (length p)
       else sb_memcpy s (sb_len s) p (length p)) (\<lambda>s'. sb_rep s' (us @ map ucast p))"
    if "sb_rep s us \<and> length us + length p \<le> sb_size s" for s
    using sb_memcpy_ok [of s us "map ucast p"] that unfolding concat_le_bytes by simp
  moreover have "sb_ok (sb_limit ra (length us + length p))
      (if sb_len s + length p > sb_size s then string_buffer_realloc ra s (sb_len s + length p) 0 else Some (s, 0))
      (\<lambda>s. sb_rep s us \<and> length us + length p \<le> sb_size s)"
    using sb_room [OF ra s, of "length p" 0] by (rule sb_ok_mono) auto
  ultimately show ?thesis unfolding string_buffer_write8_def by (intro sb_ok_bind)
qed

lemma uint_le_or: "uint a \<le> uint (a OR b :: u32)" "uint b \<le> uint (a OR b :: u32)"
  by (simp_all add: unsigned_or_eq or_greater_eq) (metis or.commute or_greater_eq uint_ge_0)

lemma fold_or_bound: "uint c \<le> uint (fold (\<lambda>x c. c OR ucast x) p (c :: u32)) \<and>
    (\<forall>x\<in>set p. uint (x :: u16) \<le> uint (fold (\<lambda>x c. c OR ucast x) p c))"
proof (induction p arbitrary: c)
  case (Cons x p)
  have "uint c \<le> uint (c OR ucast x)" "uint (ucast x :: u32) \<le> uint (c OR ucast x)" by (rule uint_le_or)+
  moreover have "uint (ucast x :: u32) = uint x" using uint_lt2p [of x] by (simp add: uint_ucast)
  ultimately show ?case using Cons [of "c OR ucast x"] by auto
qed simp

lemma narrow_units:
  assumes "fold (\<lambda>x c. c OR ucast x) p (0 :: u32) < 0x100"
  shows "map ucast (map ucast p :: u8 list) = (p :: u16 list)"
proof -
  have "(ucast (ucast x :: u8) :: u16) = x" if "x \<in> set p" for x
  proof -
    have "uint x < 256" using fold_or_bound [of 0 p] that assms by (force simp: word_less_def)
    then show ?thesis by (intro word_uint_eqI) (simp add: uint_ucast)
  qed
  then show ?thesis by (simp add: map_idI)
qed

lemma string_buffer_write16_ok:
  assumes ra: "realloc_ok ra" and s: "sb_rep s us"
  shows "sb_ok (sb_limit ra (length us + length p)) (string_buffer_write16 ra s p) (\<lambda>s'. sb_rep s' (us @ p))"
proof -
  define c where "c = fold (\<lambda>x c. c OR ucast x) p (0 :: u32)"
  let ?P = "\<lambda>s. sb_rep s us \<and> length us + length p \<le> sb_size s \<and> (sb_is_wide_char s \<or> c < 0x100)"
  have "sb_ok (sb_limit ra (length us + length p))
      (if sb_is_wide_char s then sb_memcpy s (2 * sb_len s) (concat (map (le_bytes 2) p)) (length p)
       else sb_memcpy s (sb_len s) (map ucast p) (length p)) (\<lambda>s'. sb_rep s' (us @ p))" if "?P s" for s
    using sb_memcpy_ok [of s us p] that narrow_units [of p] by (auto simp: enc16_def c_def)
  moreover have "sb_ok (sb_limit ra (length us + length p))
      (if sb_len s + length p > sb_size s then string_buffer_realloc ra s (sb_len s + length p) c
       else if \<not> sb_is_wide_char s \<and> c \<ge> 0x100 then string_buffer_widen ra s (sb_size s) else Some (s, 0)) ?P"
  proof -
    have len: "sb_len s = length us" "sb_len s \<le> sb_size s" using s by (auto simp: sb_rep_def)
    have grow: "sb_ok (sb_limit ra (length us + length p)) (string_buffer_realloc ra s (sb_len s + length p) c) ?P"
      using string_buffer_realloc_ok [OF ra s, of "sb_len s + length p" c]
      by (rule sb_ok_mono) (auto simp: len(1))
    have widen: "sb_ok (sb_limit ra (length us + length p)) (string_buffer_widen ra s (sb_size s)) ?P"
      if "\<not> sb_is_wide_char s" "length us + length p \<le> sb_size s"
      using string_buffer_widen_ok [OF ra s that(1) len(2)] by (rule sb_ok_mono) (use that(2) in auto)
    show ?thesis using grow widen s len(1) by (auto intro!: sb_ok_return)
  qed
  ultimately show ?thesis unfolding string_buffer_write16_def c_def Let_def by (intro sb_ok_bind)
qed

lemma fill_loop_ok:
  assumes ra: "realloc_ok ra"
  shows "sb_rep s us \<Longrightarrow> sb_ok (sb_limit ra (length us + n)) (fill_loop ra s c n) (\<lambda>s'. sb_rep s' (us @ replicate n (ucast c)))"
proof (induction n arbitrary: s us)
  case (Suc n)
  have "sb_ok (sb_limit ra (length us + Suc n)) (string_buffer_putc16 ra s c) (\<lambda>s'. sb_rep s' (us @ [ucast c]))"
    using string_buffer_putc16_ok [OF ra Suc.prems] by (rule sb_ok_mono) auto
  moreover have "sb_ok (sb_limit ra (length us + Suc n)) (fill_loop ra s' c n) (\<lambda>s'. sb_rep s' (us @ replicate (Suc n) (ucast c)))"
    if "sb_rep s' (us @ [ucast c])" for s'
    using Suc.IH [OF that] by simp
  ultimately show ?case unfolding fill_loop.simps by (rule sb_ok_bind)
qed (simp add: sb_ok_return)

lemma string_buffer_fill_ok:
  assumes ra: "realloc_ok ra" and s: "sb_rep s us"
  shows "sb_ok (sb_limit ra (length us + n)) (string_buffer_fill ra s c n) (\<lambda>s'. sb_rep s' (us @ replicate n (ucast c)))"
proof -
  have "sb_ok (sb_limit ra (length us + n))
      (if sb_len s + n > sb_size s then string_buffer_realloc ra s (sb_len s + n) c else Some (s, 0)) (\<lambda>s. sb_rep s us)"
    using sb_room [OF ra s, of n c] by (rule sb_ok_mono) auto
  then show ?thesis unfolding string_buffer_fill_def by (rule sb_ok_bind) (rule fill_loop_ok [OF ra])
qed

subsection \<open>Strings\<close>

definition units16 :: "u8 list \<Rightarrow> nat \<Rightarrow> u16 list" where
  "units16 m n = map (\<lambda>i. word_of_int (mp_val (take 2 (drop (2 * i) m)))) [0..<n]"

definition js_units :: "js_string \<Rightarrow> u16 list" where
  "js_units p = (if js_is_wide_char p then units16 (js_mem p) (js_len p) else map ucast (take (js_len p) (js_mem p)))"

text \<open>A string has its characters inside of its block, and an 8-bit string is terminated.\<close>

definition js_string_ok :: "js_string \<Rightarrow> bool" where
  "js_string_ok p \<longleftrightarrow> str_bytes (js_len p) (js_is_wide_char p) \<le> length (js_mem p)
    \<and> (js_is_wide_char p \<or> js_mem p ! js_len p = 0)"

lemma enc16_nth: "i < length us \<Longrightarrow> take 2 (drop (2 * i) (enc16 us)) = le_bytes 2 (us ! i)"
proof (induction us arbitrary: i)
  case (Cons u us)
  then show ?case by (cases i) auto
qed simp

lemma units16_holds:
  assumes "take (2 * length us) m = enc16 us"
  shows "units16 m (length us) = us"
proof (rule nth_equalityI)
  fix i assume "i < length (units16 m (length us))"
  then have i: "i < length us" by (simp add: units16_def)
  then have "take 2 (drop (2 * i) m) = take 2 (drop (2 * i) (take (2 * length us) m))"
    by (simp add: drop_take)
  also have "\<dots> = le_bytes 2 (us ! i)" using assms i by (simp add: enc16_nth)
  finally have "word_of_int (mp_val (take 2 (drop (2 * i) m))) = us ! i"
    using uint_lt2p [of "us ! i"] by (simp add: mp_val_le_bytes)
  then show "units16 m (length us) ! i = us ! i" using i by (simp add: units16_def)
qed (simp add: units16_def)

lemma string_buffer_concat_ok:
  assumes ra: "realloc_ok ra" and s: "sb_rep s us" and p: "js_string_ok p" "to \<le> js_len p"
  shows "sb_ok (sb_limit ra (length us + (to - from))) (string_buffer_concat ra s p from to)
    (\<lambda>s'. sb_rep s' (us @ take (to - from) (drop from (js_units p))))"
proof (cases "to \<le> from")
  case True
  then show ?thesis using s by (simp add: string_buffer_concat_def sb_ok_return)
next
  case False
  let ?n = "to - from"
  show ?thesis
  proof (cases "js_is_wide_char p")
    case True
    have "map (\<lambda>i. word_of_int (mp_val (take 2 (drop (2 * (from + i)) (js_mem p))))) [0..<?n] = take ?n (drop from (js_units p))"
      using False p(2) True by (intro nth_equalityI) (auto simp: js_units_def units16_def)
    then have "str16_slice (js_mem p) from ?n = Some (take ?n (drop from (js_units p)))"
      using False p True by (simp add: str16_slice_def js_string_ok_def str_bytes_def)
    moreover have "length (take ?n (drop from (js_units p))) = ?n"
      using p(2) False True by (simp add: js_units_def units16_def)
    ultimately show ?thesis
      using False True string_buffer_write16_ok [OF ra s, of "take ?n (drop from (js_units p))"]
      by (simp add: string_buffer_concat_def)
  next
    case narrow: False
    have "str8_slice (js_mem p) from ?n = Some (take ?n (drop from (js_mem p)))"
      using False p narrow by (simp add: str8_slice_def js_string_ok_def str_bytes_def)
    moreover have "map ucast (take ?n (drop from (js_mem p))) = take ?n (drop from (js_units p))"
      using p(2) False narrow by (simp add: js_units_def drop_map take_map drop_take)
    moreover have "length (take ?n (drop from (js_mem p))) = ?n"
      using p False narrow by (auto simp: js_string_ok_def str_bytes_def min_def)
    ultimately show ?thesis
      using False narrow string_buffer_write8_ok [OF ra s, of "take ?n (drop from (js_mem p))"]
      by (simp add: string_buffer_concat_def)
  qed
qed

lemma string_buffer_concat_all:
  assumes "realloc_ok ra" "sb_rep s us" "js_string_ok p"
  shows "sb_ok (sb_limit ra (length us + length (js_units p))) (string_buffer_concat ra s p 0 (js_len p))
    (\<lambda>s'. sb_rep s' (us @ js_units p))"
proof -
  have "length (js_units p) = js_len p"
    using assms(3) by (auto simp: js_units_def units16_def js_string_ok_def str_bytes_def split: if_splits)
  then show ?thesis using string_buffer_concat_ok [OF assms, of "js_len p" 0] by simp
qed

text \<open>The strings in a value, the conversions included, and the code units of their concatenation.\<close>

fun value_strings :: "('o \<Rightarrow> js_string option) \<Rightarrow> 'o str_value \<Rightarrow> js_string option list" where
  "value_strings to_string (JS_TAG_STRING p) = [Some p]"
| "value_strings to_string (JS_TAG_STRING_ROPE l r) = value_strings to_string l @ value_strings to_string r"
| "value_strings to_string (JS_TAG_OTHER v) = [to_string v]"

definition strings_units :: "js_string option list \<Rightarrow> u16 list" where
  "strings_units ps = concat (map (\<lambda>p. case p of None \<Rightarrow> [] | Some p \<Rightarrow> js_units p) ps)"

lemma strings_units_simps [simp]:
  "strings_units [] = []" "strings_units (ps @ qs) = strings_units ps @ strings_units qs"
  "strings_units [Some p] = js_units p"
  by (simp_all add: strings_units_def)

lemma string_buffer_concat_value_ok:
  assumes ra: "realloc_ok ra"
  shows "sb_rep s us \<Longrightarrow> \<forall>p. Some p \<in> set (value_strings to_string v) \<longrightarrow> js_string_ok p \<Longrightarrow>
    sb_ok (sb_limit ra (length us + length (strings_units (value_strings to_string v))) \<or> None \<in> set (value_strings to_string v))
      (string_buffer_concat_value ra to_string s v) (\<lambda>s'. sb_rep s' (us @ strings_units (value_strings to_string v)))"
proof (induction v arbitrary: s us)
  case (JS_TAG_STRING p)
  then show ?case
    using string_buffer_concat_all [OF ra JS_TAG_STRING(1), of p] by (simp add: sb_rep_def)
next
  case (JS_TAG_STRING_ROPE l r)
  let ?n = "length us + length (strings_units (value_strings to_string (JS_TAG_STRING_ROPE l r)))"
  let ?F = "sb_limit ra ?n \<or> None \<in> set (value_strings to_string (JS_TAG_STRING_ROPE l r))"
  have "sb_ok ?F (string_buffer_concat_value ra to_string s l) (\<lambda>s'. sb_rep s' (us @ strings_units (value_strings to_string l)))"
    by (rule sb_ok_mono [OF JS_TAG_STRING_ROPE.IH(1) [OF JS_TAG_STRING_ROPE.prems(1)]]) (use JS_TAG_STRING_ROPE.prems(2) in auto)
  moreover have "sb_ok ?F (string_buffer_concat_value ra to_string s' r)
      (\<lambda>s'. sb_rep s' (us @ strings_units (value_strings to_string (JS_TAG_STRING_ROPE l r))))"
    if "sb_rep s' (us @ strings_units (value_strings to_string l))" for s'
    by (rule sb_ok_mono [OF JS_TAG_STRING_ROPE.IH(2) [OF that]]) (use JS_TAG_STRING_ROPE.prems(2) in auto)
  moreover have "sb_error_status s = 0" using JS_TAG_STRING_ROPE.prems(1) by (simp add: sb_rep_def)
  ultimately show ?case by (simp add: sb_ok_bind del: value_strings.simps)
next
  case (JS_TAG_OTHER v)
  have e: "sb_error_status s = 0" using JS_TAG_OTHER(1) by (simp add: sb_rep_def)
  show ?case
  proof (cases "to_string v")
    case None
    then show ?thesis using e by (simp add: sb_ok_set_error)
  next
    case (Some p)
    then show ?thesis
      using string_buffer_concat_all [OF ra JS_TAG_OTHER(1), of p] JS_TAG_OTHER(2) e by simp
  qed
qed

lemma string_buffer_concat_value_free_ok:
  assumes "realloc_ok ra" "sb_rep s us" "(case v of JS_TAG_STRING p \<Rightarrow> Some p | _ \<Rightarrow> to_string_free v) = Some p" "js_string_ok p"
  shows "sb_ok (sb_limit ra (length us + length (js_units p))) (string_buffer_concat_value_free ra to_string_free s v)
    (\<lambda>s'. sb_rep s' (us @ js_units p))"
  using string_buffer_concat_all [OF assms(1,2,4)] assms(2,3) by (simp add: string_buffer_concat_value_free_def sb_rep_def)

lemma string_buffer_end_ok:
  assumes ra: "realloc_ok ra" and s: "sb_rep s us"
  shows "\<exists>p. string_buffer_end ra s = Some (Some p) \<and> js_string_ok p \<and> js_units p = us"
proof (cases "us = []")
  case True
  then show ?thesis
    using s by (auto simp: string_buffer_end_def sb_rep_def js_string_ok_def js_units_def str_bytes_def)
next
  case False
  let ?w = "sb_is_wide_char s"
  obtain m where m: "sb_str s = Some m" "sb_error_status s = 0" "sb_len s = length us" "str_holds m ?w us"
    "str_bytes (sb_size s) ?w \<le> length m" "sb_len s \<le> sb_size s"
    using s by (auto simp: sb_rep_def)
  define b where "b = (if sb_len s < sb_size s then case ra m (str_bytes (sb_len s) ?w) of None \<Rightarrow> m | Some b \<Rightarrow> b else m)"
  have b: "str_holds b ?w us \<and> str_bytes (length us) ?w \<le> length b"
  proof (cases "sb_len s < sb_size s \<and> ra m (str_bytes (sb_len s) ?w) \<noteq> None")
    case True
    then have ra_b: "ra m (str_bytes (length us) ?w) = Some b" by (auto simp: b_def m(3))
    have "str_bytes (length us) ?w \<le> length b" "take (min (length m) (str_bytes (length us) ?w)) b =
        take (min (length m) (str_bytes (length us) ?w)) m"
      using ra ra_b by (auto simp: realloc_ok_def)
    moreover from this have "str_holds b ?w us"
      by (intro str_holds_prefix [OF m(4)]) (use m in \<open>auto simp: str_bytes_def split: if_splits\<close>)
    ultimately show ?thesis by simp
  next
    case False
    then have "b = m" by (auto simp: b_def)
    then show ?thesis using m by (auto simp: str_bytes_def split: if_splits)
  qed
  have e: "string_buffer_end ra s = do {
      m \<leftarrow> (if ?w then Some b else store b (sb_len s) 0);
      Some (Some \<lparr>js_is_wide_char = ?w, js_len = sb_len s, js_mem = m\<rparr>) }"
    using m(1-3) False by (simp add: string_buffer_end_def b_def Let_def)
  show ?thesis
    using b m(3) by (cases ?w) (auto simp: e js_string_ok_def js_units_def str_holds_def str_bytes_def units16_holds store_def)
qed

section \<open>The theorem\<close>

text \<open>The operations that append to a buffer, and what they append.\<close>

datatype 'o sb_op =
  Putc8 u32 | Putc16 u32 | Putc u32 | Write8 "u8 list" | Write16 "u16 list" | Puts8 "u8 list"
| Concat js_string nat nat | Concat_value "'o str_value" | Fill u32 nat

fun sb_run :: "realloc \<Rightarrow> ('o \<Rightarrow> js_string option) \<Rightarrow> 'o sb_op \<Rightarrow> string_buffer \<Rightarrow> (string_buffer \<times> int) option" where
  "sb_run ra to_string (Putc8 c) s = string_buffer_putc8 ra s c"
| "sb_run ra to_string (Putc16 c) s = string_buffer_putc16 ra s c"
| "sb_run ra to_string (Putc c) s = string_buffer_putc ra s c"
| "sb_run ra to_string (Write8 p) s = string_buffer_write8 ra s p"
| "sb_run ra to_string (Write16 p) s = string_buffer_write16 ra s p"
| "sb_run ra to_string (Puts8 str) s = string_buffer_puts8 ra s str"
| "sb_run ra to_string (Concat p from to) s = string_buffer_concat ra s p from to"
| "sb_run ra to_string (Concat_value v) s = string_buffer_concat_value ra to_string s v"
| "sb_run ra to_string (Fill c n) s = string_buffer_fill ra s c n"

fun sb_units :: "('o \<Rightarrow> js_string option) \<Rightarrow> 'o sb_op \<Rightarrow> u16 list" where
  "sb_units to_string (Putc8 c) = [ucast c]"
| "sb_units to_string (Putc16 c) = [ucast c]"
| "sb_units to_string (Putc c) = utf16 c"
| "sb_units to_string (Write8 p) = map ucast p"
| "sb_units to_string (Write16 p) = p"
| "sb_units to_string (Puts8 str) = map ucast (cstr str)"
| "sb_units to_string (Concat p from to) = take (to - from) (drop from (js_units p))"
| "sb_units to_string (Concat_value v) = strings_units (value_strings to_string v)"
| "sb_units to_string (Fill c n) = replicate n (ucast c)"

text \<open>The ranges of the arguments that the comments in the code state, and arguments that are strings.\<close>

fun sb_args_ok :: "('o \<Rightarrow> js_string option) \<Rightarrow> 'o sb_op \<Rightarrow> bool" where
  "sb_args_ok to_string (Putc8 c) \<longleftrightarrow> c \<le> 0xff"
| "sb_args_ok to_string (Concat p from to) \<longleftrightarrow> js_string_ok p \<and> to \<le> js_len p"
| "sb_args_ok to_string (Concat_value v) \<longleftrightarrow> list_all (case_option True js_string_ok) (value_strings to_string v)"
| "sb_args_ok to_string _ \<longleftrightarrow> True"

fun sb_throws :: "('o \<Rightarrow> js_string option) \<Rightarrow> 'o sb_op \<Rightarrow> bool" where
  "sb_throws to_string (Concat_value v) \<longleftrightarrow> None \<in> set (value_strings to_string v)"
| "sb_throws to_string _ \<longleftrightarrow> False"

text \<open>The results of the calls are ignored, as the callers may.\<close>

fun sb_run_all :: "realloc \<Rightarrow> ('o \<Rightarrow> js_string option) \<Rightarrow> 'o sb_op list \<Rightarrow> string_buffer \<Rightarrow> string_buffer option" where
  "sb_run_all ra to_string [] s = Some s"
| "sb_run_all ra to_string (op # ops) s = do { (s, r) \<leftarrow> sb_run ra to_string op s; sb_run_all ra to_string ops s }"

lemma sb_run_ok:
  assumes "realloc_ok ra" "sb_rep s us" "sb_args_ok to_string op"
  shows "sb_ok (sb_limit ra (length us + length (sb_units to_string op)) \<or> sb_throws to_string op)
    (sb_run ra to_string op s) (\<lambda>s'. sb_rep s' (us @ sb_units to_string op))"
proof (cases op)
  case (Putc8 c)
  then have "c < 0x100" using assms(3) by (simp add: word_le_def word_less_def)
  with Putc8 show ?thesis using string_buffer_putc8_ok [OF assms(1,2)] by simp
next
  case (Putc16 c)
  then show ?thesis using string_buffer_putc16_ok [OF assms(1,2), of c] by simp
next
  case (Concat p i j)
  then have "length (take (j - i) (drop i (js_units p))) = j - i"
    using assms(3) by (auto simp: js_units_def units16_def js_string_ok_def str_bytes_def min_def)
  then show ?thesis using Concat assms(3) string_buffer_concat_ok [OF assms(1,2)] by simp
next
  case (Concat_value v)
  then show ?thesis
    using string_buffer_concat_value_ok [OF assms(1,2), of to_string v] assms(3) by (fastforce simp: list_all_iff)
qed (simp_all add: assms string_buffer_puts8_def string_buffer_putc16_ok string_buffer_putc_ok string_buffer_write16_ok
    string_buffer_fill_ok string_buffer_write8_ok)

lemma string_buffer_realloc_failed: "sb_failed s \<Longrightarrow> string_buffer_realloc ra s n c = Some (s, -1)"
  by (simp add: sb_failed_def string_buffer_realloc_def)

lemma sb_run_failed:
  assumes s: "sb_failed s" and "sb_args_ok to_string op"
  shows "\<exists>r. sb_run ra to_string op s = Some (s, r)"
proof -
  note f = string_buffer_realloc_failed [OF s] s [unfolded sb_failed_def]
  have putc16: "string_buffer_putc16 ra s c = Some (s, -1)" for c
    using f by (simp add: string_buffer_putc16_def string_buffer_putc_slow_def)
  have write8: "\<exists>r. string_buffer_write8 ra s p = Some (s, r)" for p
    using f by (cases p) (simp_all add: string_buffer_write8_def sb_memcpy_def)
  have write16: "\<exists>r. string_buffer_write16 ra s p = Some (s, r)" for p
    using f by (cases p) (simp_all add: string_buffer_write16_def sb_memcpy_def)
  show ?thesis
  proof (cases op)
    case (Concat p i j)
    then show ?thesis
      using assms(2) write8 write16
      by (cases "js_is_wide_char p") (auto simp: string_buffer_concat_def str8_slice_def str16_slice_def js_string_ok_def str_bytes_def)
  next
    case (Concat_value v)
    then show ?thesis using f by (cases v) simp_all
  next
    case (Fill c n)
    then show ?thesis using f by (cases n) (simp_all add: string_buffer_fill_def)
  qed (use f putc16 write8 write16 in \<open>simp_all add: string_buffer_putc8_def string_buffer_putc_def string_buffer_puts8_def\<close>)
qed

lemma sb_run_all_failed:
  "sb_failed s \<Longrightarrow> list_all (sb_args_ok to_string) ops \<Longrightarrow> sb_run_all ra to_string ops s = Some s"
  by (induction ops) (auto dest!: sb_run_failed [of s to_string _ ra])

lemma sb_run_all_ok:
  assumes ra: "realloc_ok ra"
  shows "sb_rep s us \<Longrightarrow> list_all (sb_args_ok to_string) ops \<Longrightarrow>
    \<exists>s'. sb_run_all ra to_string ops s = Some s'
      \<and> (sb_rep s' (us @ concat (map (sb_units to_string) ops))
         \<or> sb_failed s' \<and> (sb_limit ra (length us + length (concat (map (sb_units to_string) ops))) \<or> list_ex (sb_throws to_string) ops))"
proof (induction ops arbitrary: s us)
  case (Cons op ops)
  obtain s1 r where run: "sb_run ra to_string op s = Some (s1, r)"
    and res: "r = 0 \<and> sb_rep s1 (us @ sb_units to_string op)
      \<or> r = -1 \<and> sb_failed s1 \<and> (sb_limit ra (length us + length (sb_units to_string op)) \<or> sb_throws to_string op)"
    using sb_run_ok [OF ra Cons.prems(1), of to_string op] Cons.prems(2) by (auto simp: sb_ok_def)
  from res show ?case
  proof
    assume "r = 0 \<and> sb_rep s1 (us @ sb_units to_string op)"
    then show ?thesis using Cons.IH [of s1 "us @ sb_units to_string op"] Cons.prems(2) run by (auto simp: add.assoc)
  next
    assume f: "r = -1 \<and> sb_failed s1 \<and> (sb_limit ra (length us + length (sb_units to_string op)) \<or> sb_throws to_string op)"
    then show ?thesis using sb_run_all_failed [of s1 to_string ops ra] Cons.prems(2) run by auto
  qed
qed simp

text \<open>C28 Building a string: for an allocator that returns blocks of at least the size asked for and
keeps their contents, starting from an initialised buffer, any sequence of append operations with
arguments in their documented ranges runs without an access outside of the block, and the end of the
building gives either the string whose 16-bit code units are the concatenation of everything that was
appended, or an exception; the exception is raised only if an allocation or a conversion to a string
failed or the string would be longer than the maximum.\<close>

theorem string_buffer_builds:
  assumes "realloc_ok ra" and "\<And>n b. alloc n = Some b \<Longrightarrow> n \<le> length b" and "list_all (sb_args_ok to_string) ops"
  shows "\<exists>s. sb_run_all ra to_string ops (fst (string_buffer_init2 alloc sz is_wide)) = Some s
    \<and> ((\<exists>p. string_buffer_end ra s = Some (Some p) \<and> js_string_ok p
          \<and> js_units p = concat (map (sb_units to_string) ops))
       \<or> string_buffer_end ra s = Some None
          \<and> (alloc (str_bytes sz is_wide) = None \<or> (\<exists>m n. ra m n = None) \<or> list_ex (sb_throws to_string) ops
             \<or> length (concat (map (sb_units to_string) ops)) > JS_STRING_LEN_MAX))"
proof (cases "alloc (str_bytes sz is_wide)")
  case None
  let ?s = "fst (string_buffer_init2 alloc sz is_wide)"
  have "sb_failed ?s" using None by (simp add: string_buffer_init2_def sb_failed_def)
  then have "sb_run_all ra to_string ops ?s = Some ?s" "string_buffer_end ra ?s = Some None"
    using sb_run_all_failed assms(3) by (auto simp: string_buffer_end_def sb_failed_def)
  with None show ?thesis by blast
next
  case (Some b)
  let ?s = "fst (string_buffer_init2 alloc sz is_wide)"
  have "sb_rep ?s []" using Some assms(2) [OF Some] by (simp add: string_buffer_init2_def sb_rep_def str_holds_def)
  then obtain s' where run: "sb_run_all ra to_string ops ?s = Some s'"
    and res: "sb_rep s' (concat (map (sb_units to_string) ops))
      \<or> sb_failed s' \<and> (sb_limit ra (length (concat (map (sb_units to_string) ops))) \<or> list_ex (sb_throws to_string) ops)"
    using sb_run_all_ok [OF assms(1) _ assms(3), of ?s "[]"] by auto
  from res show ?thesis
  proof
    assume "sb_rep s' (concat (map (sb_units to_string) ops))"
    then show ?thesis using string_buffer_end_ok [OF assms(1)] run by blast
  next
    assume f: "sb_failed s' \<and> (sb_limit ra (length (concat (map (sb_units to_string) ops))) \<or> list_ex (sb_throws to_string) ops)"
    then have "string_buffer_end ra s' = Some None" by (simp add: string_buffer_end_def sb_failed_def)
    with f run show ?thesis by (auto simp: ra_fails_def)
  qed
qed

text \<open>An allocator whose blocks have a slack of four bytes.\<close>

definition slack_realloc :: realloc where
  "slack_realloc m n = Some (take n m @ replicate (n - length m + 4) 0xcc)"

theorem string_buffer_builds_witness:
  "\<exists>s p. sb_run_all slack_realloc (\<lambda>n. None) [Puts8 [97, 98, 0], Putc 0x1F600 :: unit sb_op, Putc8 99]
      (fst (string_buffer_init2 (\<lambda>n. Some (replicate n 0)) 1 False)) = Some s
    \<and> string_buffer_end slack_realloc s = Some (Some p) \<and> js_units p = [97, 98, 0xD83D, 0xDE00, 99]"
proof -
  let ?ops = "[Puts8 [97, 98, 0], Putc 0x1F600 :: unit sb_op, Putc8 99]"
  have "realloc_ok slack_realloc" by (auto simp: realloc_ok_def slack_realloc_def)
  moreover have "list_all (sb_args_ok (\<lambda>n. None)) ?ops" by simp
  moreover have "concat (map (sb_units (\<lambda>n. None)) ?ops) = [97, 98, 0xD83D, 0xDE00, 99]"
    by (simp add: utf16_def get_hi_surrogate_def get_lo_surrogate_def)
  moreover have "\<not> (\<exists>m n. slack_realloc m n = None)" by (simp add: slack_realloc_def)
  ultimately show ?thesis
    using string_buffer_builds [of slack_realloc "\<lambda>n. Some (replicate n 0)" "\<lambda>n. None" ?ops 1 False]
    by (fastforce simp: JS_STRING_LEN_MAX_def)
qed

end
