(* ===== verification/Js_String.thy ===== *)
theory Js_String
  imports String_Buffer "HOL-Library.List_Lexorder"
begin

text \<open>The operations on flat strings of \<^verbatim>\<open>src/quickjs/quickjs.c\<close>: comparison, substrings and
concatenation, over the blocks of \<open>String_Buffer\<close>. A string has 8-bit or 16-bit characters, and every
operation treats the four combinations of two strings, and narrows or widens where it has to.

The result of an allocation is an argument, \<open>None\<close> for a failure; an outer \<open>None\<close> is an access outside
of a block and an inner one an exception. \<open>unique\<close> says that the reference count is 1. Of \<^verbatim>\<open>memcmp\<close> only
the sign is specified.

Comparing two strings gives the sign of the lexicographic comparison of their code units, and the
other operations give the strings of the right code units.\<close>

section \<open>Definitions\<close>

type_synonym js_alloc = "nat \<Rightarrow> u8 list option"

fun memcmp16 :: "u16 list \<Rightarrow> u16 list \<Rightarrow> int" where
  "memcmp16 (a # as) (b # bs) = (let c = uint a - uint b in if c \<noteq> 0 then c else memcmp16 as bs)"
| "memcmp16 _ _ = 0"

fun memcmp16_8 :: "u16 list \<Rightarrow> u8 list \<Rightarrow> int" where
  "memcmp16_8 (a # as) (b # bs) = (let c = uint a - uint b in if c \<noteq> 0 then c else memcmp16_8 as bs)"
| "memcmp16_8 _ _ = 0"

fun memcmp8 :: "u8 list \<Rightarrow> u8 list \<Rightarrow> int" where
  "memcmp8 (a # as) (b # bs) = (let c = uint a - uint b in if c \<noteq> 0 then c else memcmp8 as bs)"
| "memcmp8 _ _ = 0"

definition js_string_memcmp :: "js_string \<Rightarrow> nat \<Rightarrow> js_string \<Rightarrow> nat \<Rightarrow> nat \<Rightarrow> int option" where
  "js_string_memcmp p1 pos1 p2 pos2 len =
    (if \<not> js_is_wide_char p1 then
       if \<not> js_is_wide_char p2 then do {
         a \<leftarrow> str8_slice (js_mem p1) pos1 len; b \<leftarrow> str8_slice (js_mem p2) pos2 len; Some (memcmp8 a b) }
       else do {
         a \<leftarrow> str8_slice (js_mem p1) pos1 len; b \<leftarrow> str16_slice (js_mem p2) pos2 len; Some (- memcmp16_8 b a) }
     else
       if \<not> js_is_wide_char p2 then do {
         a \<leftarrow> str16_slice (js_mem p1) pos1 len; b \<leftarrow> str8_slice (js_mem p2) pos2 len; Some (memcmp16_8 a b) }
       else do {
         a \<leftarrow> str16_slice (js_mem p1) pos1 len; b \<leftarrow> str16_slice (js_mem p2) pos2 len; Some (memcmp16 a b) })"

definition js_string_compare :: "js_string \<Rightarrow> js_string \<Rightarrow> int option" where
  "js_string_compare p1 p2 =
    do {
      res \<leftarrow> js_string_memcmp p1 0 p2 0 (min (js_len p1) (js_len p2));
      Some (if res = 0 then
              if js_len p1 = js_len p2 then 0 else if js_len p1 < js_len p2 then -1 else 1
            else res)
    }"

text \<open>\<open>off\<close> is the position of \<^verbatim>\<open>dst\<close> in the block, in code units.\<close>

definition copy_str16 :: "u8 list \<Rightarrow> nat \<Rightarrow> js_string \<Rightarrow> nat \<Rightarrow> nat \<Rightarrow> u8 list option" where
  "copy_str16 dst off p offset len =
    (if js_is_wide_char p then do { d \<leftarrow> str16_slice (js_mem p) offset len; blit dst (2 * off) (concat (map (le_bytes 2) d)) }
     else do { d \<leftarrow> str8_slice (js_mem p) offset len; blit dst (2 * off) (concat (map (\<lambda>c. le_bytes 2 (ucast c :: u16)) d)) })"

definition empty_string :: js_string where
  "empty_string = \<lparr>js_is_wide_char = False, js_len = 0, js_mem = [0]\<rparr>"

definition js_new_string8_len :: "js_alloc \<Rightarrow> u8 list \<Rightarrow> js_string option option" where
  "js_new_string8_len alloc buf =
    (if buf = [] then Some (Some empty_string)
     else case alloc (str_bytes (length buf) False) of
       None \<Rightarrow> Some None
     | Some m \<Rightarrow> do {
         m \<leftarrow> blit m 0 buf;
         m \<leftarrow> store m (length buf) 0;
         Some (Some \<lparr>js_is_wide_char = False, js_len = length buf, js_mem = m\<rparr>)
       })"

definition js_new_string16_len :: "js_alloc \<Rightarrow> u16 list \<Rightarrow> js_string option option" where
  "js_new_string16_len alloc buf =
    (case alloc (str_bytes (length buf) True) of
       None \<Rightarrow> Some None
     | Some m \<Rightarrow> do {
         m \<leftarrow> blit m 0 (concat (map (le_bytes 2) buf));
         Some (Some \<lparr>js_is_wide_char = True, js_len = length buf, js_mem = m\<rparr>)
       })"

definition js_sub_string :: "js_alloc \<Rightarrow> js_string \<Rightarrow> nat \<Rightarrow> nat \<Rightarrow> js_string option option" where
  "js_sub_string alloc p start end =
    (let len = end - start in
     if start = 0 \<and> end = js_len p then Some (Some p)
     else if js_is_wide_char p \<and> len > 0 then do {
       d \<leftarrow> str16_slice (js_mem p) start len;
       let c = fold (\<lambda>x c. c OR x) d 0;
       if c > 0xFF then js_new_string16_len alloc d
       else case alloc (str_bytes len False) of
         None \<Rightarrow> Some None
       | Some m \<Rightarrow> do {
           m \<leftarrow> blit m 0 (map ucast d);
           m \<leftarrow> store m len 0;
           Some (Some \<lparr>js_is_wide_char = False, js_len = len, js_mem = m\<rparr>)
         }
     }
     else do { d \<leftarrow> (if len = 0 then Some [] else str8_slice (js_mem p) start len); js_new_string8_len alloc d })"

definition JS_ConcatString1 :: "js_alloc \<Rightarrow> js_string \<Rightarrow> js_string \<Rightarrow> js_string option option" where
  "JS_ConcatString1 alloc p1 p2 =
    (let len = js_len p1 + js_len p2; wide = js_is_wide_char p1 \<or> js_is_wide_char p2 in
     if len > JS_STRING_LEN_MAX then Some None
     else case alloc (str_bytes len wide) of
       None \<Rightarrow> Some None
     | Some m \<Rightarrow> do {
         m \<leftarrow> (if \<not> wide then do {
                  a \<leftarrow> str8_slice (js_mem p1) 0 (js_len p1);
                  m \<leftarrow> blit m 0 a;
                  b \<leftarrow> str8_slice (js_mem p2) 0 (js_len p2);
                  m \<leftarrow> blit m (js_len p1) b;
                  store m len 0
                } else do {
                  m \<leftarrow> copy_str16 m 0 p1 0 (js_len p1);
                  copy_str16 m (js_len p1) p2 0 (js_len p2)
                });
         Some (Some \<lparr>js_is_wide_char = wide, js_len = len, js_mem = m\<rparr>)
       })"

text \<open>\<open>Some None\<close> is \<^verbatim>\<open>FALSE\<close>; otherwise the string that \<^verbatim>\<open>p1\<close> has become. The usable size of the block,
without the header, is the length of the list.\<close>

definition JS_ConcatStringInPlace :: "js_string \<Rightarrow> bool \<Rightarrow> js_string \<Rightarrow> js_string option option" where
  "JS_ConcatStringInPlace p1 unique p2 =
    (if js_len p2 = 0 then Some (Some p1)
     else if \<not> unique then Some None
     else if js_is_wide_char p1 then
       if length (js_mem p1) \<ge> 2 * (js_len p1 + js_len p2) then do {
         m \<leftarrow> copy_str16 (js_mem p1) (js_len p1) p2 0 (js_len p2);
         Some (Some (p1\<lparr>js_len := js_len p1 + js_len p2, js_mem := m\<rparr>))
       } else Some None
     else if \<not> js_is_wide_char p2 then
       if length (js_mem p1) \<ge> js_len p1 + js_len p2 + 1 then do {
         b \<leftarrow> str8_slice (js_mem p2) 0 (js_len p2);
         m \<leftarrow> blit (js_mem p1) (js_len p1) b;
         m \<leftarrow> store m (js_len p1 + js_len p2) 0;
         Some (Some (p1\<lparr>js_len := js_len p1 + js_len p2, js_mem := m\<rparr>))
       } else Some None
     else Some None)"

definition JS_ConcatString2 :: "js_alloc \<Rightarrow> bool \<Rightarrow> js_string \<Rightarrow> js_string \<Rightarrow> js_string option option" where
  "JS_ConcatString2 alloc unique p1 p2 =
    do {
      r \<leftarrow> JS_ConcatStringInPlace p1 unique p2;
      case r of Some p \<Rightarrow> Some (Some p) | None \<Rightarrow> JS_ConcatString1 alloc p1 p2
    }"

section \<open>Lemmas\<close>

definition alloc_ok :: "js_alloc \<Rightarrow> bool" where
  "alloc_ok alloc \<longleftrightarrow> (\<forall>n m. alloc n = Some m \<longrightarrow> n \<le> length m)"

lemma js_units_length: "js_string_ok p \<Longrightarrow> length (js_units p) = js_len p"
  by (auto simp: js_string_ok_def js_units_def units16_def str_bytes_def)

lemma js_units_holds: "str_holds m w us \<Longrightarrow> js_units \<lparr>js_is_wide_char = w, js_len = length us, js_mem = m\<rparr> = us"
  by (simp add: js_units_def str_holds_def units16_holds split: if_splits)

lemma slice8_units:
  assumes "js_string_ok p" "\<not> js_is_wide_char p" "from + n \<le> js_len p"
  shows "\<exists>d. str8_slice (js_mem p) from n = Some d \<and> map ucast d = take n (drop from (js_units p)) \<and> length d = n"
  using assms by (auto simp: str8_slice_def js_string_ok_def js_units_def str_bytes_def take_map drop_map drop_take)

lemma slice16_units:
  assumes "js_string_ok p" "js_is_wide_char p" "from + n \<le> js_len p"
  shows "str16_slice (js_mem p) from n = Some (take n (drop from (js_units p)))"
proof -
  have "map (\<lambda>i. word_of_int (mp_val (take 2 (drop (2 * (from + i)) (js_mem p))))) [0..<n] = take n (drop from (js_units p))"
    using assms(2,3) by (intro nth_equalityI) (auto simp: js_units_def units16_def)
  then show ?thesis using assms by (simp add: str16_slice_def js_string_ok_def str_bytes_def)
qed

subsection \<open>Comparison\<close>

lemma memcmp16_sgn:
  "length us = length vs \<Longrightarrow> sgn (memcmp16 us vs) = (if us < vs then -1 else if us = vs then 0 else 1)"
proof (induction us vs rule: memcmp16.induct)
  case (1 a as b bs)
  show ?case
  proof (cases "a = b")
    case True
    then show ?thesis using 1 by (simp add: Let_def)
  next
    case False
    then have "uint a \<noteq> uint b" by (simp add: word_uint_eq_iff)
    then show ?thesis using False by (auto simp: Let_def word_less_def sgn_if)
  qed
qed auto

lemma memcmp_as_16:
  "memcmp16_8 us bs = memcmp16 us (map ucast bs)" "memcmp8 as bs = memcmp16 (map ucast as) (map ucast bs)"
proof -
  have u: "uint (ucast c :: u16) = uint c" for c :: u8
    using uint_lt2p [of c] by (simp add: uint_ucast)
  show "memcmp16_8 us bs = memcmp16 us (map ucast bs)"
    by (induction us bs rule: memcmp16_8.induct) (auto simp: Let_def u)
  show "memcmp8 as bs = memcmp16 (map ucast as) (map ucast bs)"
    by (induction as bs rule: memcmp8.induct) (auto simp: Let_def u)
qed

lemma memcmp16_swap: "length us = length vs \<Longrightarrow> memcmp16 vs us = - memcmp16 us vs"
  by (induction us vs rule: list_induct2) (auto simp: Let_def)

lemma js_string_memcmp_spec:
  assumes "js_string_ok p1" "js_string_ok p2" "pos1 + len \<le> js_len p1" "pos2 + len \<le> js_len p2"
  shows "js_string_memcmp p1 pos1 p2 pos2 len = Some (memcmp16 (take len (drop pos1 (js_units p1))) (take len (drop pos2 (js_units p2))))"
proof -
  let ?a = "take len (drop pos1 (js_units p1))" and ?b = "take len (drop pos2 (js_units p2))"
  have len: "length ?a = length ?b" using assms by (simp add: js_units_length)
  show ?thesis
    using slice8_units [OF assms(1) _ assms(3)] slice8_units [OF assms(2) _ assms(4)]
      slice16_units [OF assms(1) _ assms(3)] slice16_units [OF assms(2) _ assms(4)] memcmp16_swap [OF len]
    by (cases "js_is_wide_char p1"; cases "js_is_wide_char p2") (auto simp: js_string_memcmp_def memcmp_as_16)
qed

text \<open>The sign of the lexicographic comparison of code units.\<close>

definition units_sign :: "u16 list \<Rightarrow> u16 list \<Rightarrow> int" where
  "units_sign us vs = (if us < vs then -1 else if us = vs then 0 else 1)"

lemma units_sign_Cons [simp]:
  "units_sign (a # as) (b # bs) = (if a = b then units_sign as bs else if a < b then -1 else 1)"
  by (auto simp: units_sign_def)

lemma units_sign_prefix:
  assumes "length us = length vs" "us \<noteq> vs"
  shows "units_sign (us @ xs) (vs @ ys) = units_sign us vs"
  using assms
proof (induction us vs rule: list_induct2)
  case (Cons a as b bs)
  then show ?case by (cases "as = bs") auto
qed simp

lemma units_sign_append [simp]: "units_sign (us @ xs) (us @ ys) = units_sign xs ys"
  by (induction us) simp_all

lemma units_sign_Nil: "units_sign [] vs = (if vs = [] then 0 else -1)" "units_sign us [] = (if us = [] then 0 else 1)"
  by (cases vs; simp add: units_sign_def) (cases us; simp add: units_sign_def)

lemma memcmp16_units_sign: "length us = length vs \<Longrightarrow> sgn (memcmp16 us vs) = units_sign us vs"
  by (simp add: memcmp16_sgn units_sign_def)

lemma units_sign_zero: "units_sign us vs = 0 \<longleftrightarrow> us = vs"
  by (auto simp: units_sign_def)

lemma js_string_compare_spec:
  assumes "js_string_ok p1" "js_string_ok p2"
  shows "\<exists>r. js_string_compare p1 p2 = Some r \<and> sgn r = units_sign (js_units p1) (js_units p2)"
proof -
  let ?u = "js_units p1" and ?v = "js_units p2" and ?n = "min (js_len p1) (js_len p2)"
  let ?m = "memcmp16 (take ?n ?u) (take ?n ?v)"
  have len: "length ?u = js_len p1" "length ?v = js_len p2" using assms by (simp_all add: js_units_length)
  have cmp: "js_string_memcmp p1 0 p2 0 ?n = Some ?m"
    using js_string_memcmp_spec [OF assms, of 0 ?n 0] by simp
  have m: "sgn ?m = units_sign (take ?n ?u) (take ?n ?v)" using len by (intro memcmp16_units_sign) simp
  have split: "units_sign ?u ?v = units_sign (take ?n ?u @ drop ?n ?u) (take ?n ?v @ drop ?n ?v)" by simp
  show ?thesis
  proof (cases "take ?n ?u = take ?n ?v")
    case True
    then have "?m = 0" using m by (simp add: units_sign_def sgn_0_0)
    moreover have "units_sign ?u ?v = units_sign (drop ?n ?u) (drop ?n ?v)" unfolding split True by (rule units_sign_append)
    ultimately show ?thesis using cmp len
      by (cases "js_len p1" "js_len p2" rule: linorder_cases) (auto simp: js_string_compare_def units_sign_Nil)
  next
    case False
    then have "?m \<noteq> 0" using m by (auto simp: units_sign_def split: if_splits)
    moreover have "units_sign ?u ?v = units_sign (take ?n ?u) (take ?n ?v)"
      unfolding split using False len by (intro units_sign_prefix) auto
    ultimately show ?thesis using cmp m by (simp add: js_string_compare_def)
  qed
qed

subsection \<open>Making strings\<close>

lemma take_blit_mid: "blit m off d = Some m' \<Longrightarrow> off = k \<Longrightarrow> take (k + length d) m' = take k m @ d"
  using take_blit_end by blast

lemma holds8_end:
  assumes "blit m off b = Some m1" "store m1 (off + length b) 0 = Some m2" "map ucast (take off m) = us" "off = length us"
  shows "str_holds m2 False (us @ map ucast b) \<and> length m2 = length m \<and> m2 ! (off + length b) = 0"
proof -
  have m2: "m2 = m1[off + length b := 0]" "off + length b < length m1" using assms(2) by (auto simp: store_Some_iff)
  then have "take (off + length b) m2 = take off m @ b" using take_blit_end [OF assms(1)] by simp
  then show ?thesis using m2 length_blit [OF assms(1)] assms(3,4) by (simp add: str_holds_def)
qed

lemma le_bytes_pair: "le_bytes 2 (word_of_int (mp_val [a, b]) :: u16) = [a, b]"
proof -
  define x :: u16 where "x = word_of_int (mp_val [a, b])"
  have ab: "0 \<le> uint a" "uint a < 256" "0 \<le> uint b" "uint b < 256" using uint_lt2p [of a] uint_lt2p [of b] by simp_all
  have x: "uint x = uint a + 256 * uint b"
    using ab unfolding x_def by (subst uint_word_of_int) simp
  have "ucast x = a" using ab by (intro word_uint_eqI) (simp add: uint_ucast x)
  moreover have "ucast (drop_bit 8 x) = b" using ab by (intro word_uint_eqI) (simp add: uint_ucast uint_drop_bit x)
  moreover have "le_bytes 2 x = [ucast x, ucast (drop_bit 8 x)]" by (simp add: le_bytes_def upt_rec)
  ultimately show ?thesis unfolding x_def [symmetric] by simp
qed

lemma enc16_units16: "2 * n \<le> length m \<Longrightarrow> enc16 (units16 m n) = take (2 * n) m"
proof (induction n)
  case (Suc n)
  then obtain a b where ab: "take 2 (drop (2 * n) m) = [a, b]"
    by (cases "drop (2 * n) m"; cases "tl (drop (2 * n) m)") (auto simp: drop_eq_Nil Cons_nth_drop_Suc dest!: arg_cong [where f = length])
  have "take (2 * Suc n) m = take (2 * n) m @ take 2 (drop (2 * n) m)" by (simp add: take_add [of "2 * n" 2, simplified])
  then show ?case using Suc ab le_bytes_pair [of a b] by (simp add: units16_def)
qed (simp add: units16_def)

lemma copy_str16_spec:
  assumes "js_string_ok p" "2 * (off + n) \<le> length m" "n = js_len p"
  shows "\<exists>m'. copy_str16 m off p 0 n = Some m' \<and> length m' = length m \<and> take (2 * off) m' = take (2 * off) m
    \<and> take (2 * (off + n)) m' = take (2 * off) m @ enc16 (js_units p)"
proof -
  have len: "length (js_units p) = n" using assms by (simp add: js_units_length)
  have src: "copy_str16 m off p 0 n = blit m (2 * off) (enc16 (js_units p))"
  proof (cases "js_is_wide_char p")
    case True
    then show ?thesis using slice16_units [OF assms(1) True, of 0 n] len assms(3) by (simp add: copy_str16_def enc16_def)
  next
    case False
    then obtain d where d: "str8_slice (js_mem p) 0 n = Some d" "js_units p = map ucast d"
      using slice8_units [OF assms(1) False, of 0 n] len assms(3) by auto
    then show ?thesis using False by (simp add: copy_str16_def enc16_def comp_def)
  qed
  have room: "2 * off + length (enc16 (js_units p)) \<le> length m" using assms(2) len by simp
  then obtain m' where m': "blit m (2 * off) (enc16 (js_units p)) = Some m'" by (simp add: blit_def)
  show ?thesis using src m' length_blit [OF m'] take_blit [OF m'] take_blit_end [OF m'] len by simp
qed

text \<open>The result of an operation that makes a string: an exception only if \<open>F\<close>, otherwise a string with the code
units \<open>us\<close>.\<close>

definition makes :: "bool \<Rightarrow> u16 list \<Rightarrow> js_string option option \<Rightarrow> bool" where
  "makes F us res \<longleftrightarrow> res = Some None \<and> F \<or> (\<exists>p. res = Some (Some p) \<and> js_string_ok p \<and> js_units p = us)"

definition alloc_fails :: "js_alloc \<Rightarrow> bool" where
  "alloc_fails alloc \<longleftrightarrow> (\<exists>n. alloc n = None)"

lemma makes_string:
  assumes "str_holds m w us" "str_bytes (length us) w \<le> length m" "w \<or> m ! length us = 0"
  shows "makes F us (Some (Some \<lparr>js_is_wide_char = w, js_len = length us, js_mem = m\<rparr>))"
  using assms js_units_holds [OF assms(1)] by (simp add: makes_def js_string_ok_def)

lemma make8:
  assumes "alloc_ok alloc" "alloc (str_bytes (length b) False) = Some m"
  obtains m1 m2 where "blit m 0 b = Some m1" "store m1 (length b) 0 = Some m2"
    "makes F (map ucast b) (Some (Some \<lparr>js_is_wide_char = False, js_len = length b, js_mem = m2\<rparr>))"
proof -
  have room: "length b + 1 \<le> length m" using assms by (auto simp: alloc_ok_def str_bytes_def)
  then obtain m1 where m1: "blit m 0 b = Some m1" by (simp add: blit_def)
  obtain m2 where m2: "store m1 (length b) 0 = Some m2" using room length_blit [OF m1] by (simp add: store_def)
  have "str_holds m2 False (map ucast b) \<and> length m2 = length m \<and> m2 ! length b = 0"
    using holds8_end [OF m1, of m2 "[]"] m2 by simp
  then have "makes F (map ucast b) (Some (Some \<lparr>js_is_wide_char = False, js_len = length (map ucast b :: u16 list), js_mem = m2\<rparr>))"
    using room by (intro makes_string) (auto simp: str_bytes_def)
  then show ?thesis using that m1 m2 by simp
qed

lemma make16:
  assumes "alloc_ok alloc" "alloc (str_bytes (length us) True) = Some m"
  obtains m1 where "blit m 0 (enc16 us) = Some m1"
    "makes F us (Some (Some \<lparr>js_is_wide_char = True, js_len = length us, js_mem = m1\<rparr>))"
proof -
  have room: "2 * length us \<le> length m" using assms unfolding alloc_ok_def by (simp add: str_bytes_def mult.commute)
  then obtain m1 where m1: "blit m 0 (enc16 us) = Some m1" by (simp add: blit_def)
  then have "makes F us (Some (Some \<lparr>js_is_wide_char = True, js_len = length us, js_mem = m1\<rparr>))"
    using room length_blit [OF m1] take_blit_end [OF m1] by (intro makes_string) (auto simp: str_holds_def str_bytes_def)
  then show ?thesis using that m1 by blast
qed

lemma js_new_string8_len_spec:
  assumes "alloc_ok alloc"
  shows "makes (alloc_fails alloc) (map ucast b) (js_new_string8_len alloc b)"
proof (cases "b = []")
  case True
  then show ?thesis by (simp add: js_new_string8_len_def makes_def empty_string_def js_string_ok_def js_units_def str_bytes_def)
next
  case False
  show ?thesis
  proof (cases "alloc (str_bytes (length b) False)")
    case None
    then show ?thesis using False by (auto simp: js_new_string8_len_def makes_def alloc_fails_def)
  next
    case (Some m)
    obtain m1 m2 where "blit m 0 b = Some m1" "store m1 (length b) 0 = Some m2"
      "makes (alloc_fails alloc) (map ucast b) (Some (Some \<lparr>js_is_wide_char = False, js_len = length b, js_mem = m2\<rparr>))"
      by (rule make8 [OF assms Some])
    then show ?thesis using False Some by (simp add: js_new_string8_len_def)
  qed
qed

lemma js_new_string16_len_spec:
  assumes "alloc_ok alloc"
  shows "makes (alloc_fails alloc) us (js_new_string16_len alloc us)"
proof (cases "alloc (str_bytes (length us) True)")
  case None
  then show ?thesis by (auto simp: js_new_string16_len_def makes_def alloc_fails_def)
next
  case (Some m)
  obtain m1 where "blit m 0 (enc16 us) = Some m1"
    "makes (alloc_fails alloc) us (Some (Some \<lparr>js_is_wide_char = True, js_len = length us, js_mem = m1\<rparr>))"
    by (rule make16 [OF assms Some])
  then show ?thesis using Some by (simp add: js_new_string16_len_def enc16_def)
qed

lemma fold_or_le: "uint c0 \<le> uint (fold (\<lambda>x c. c OR x) d (c0 :: u16)) \<and> (\<forall>x\<in>set d. uint x \<le> uint (fold (\<lambda>x c. c OR x) d c0))"
proof (induction d arbitrary: c0)
  case (Cons x d)
  have "uint c0 \<le> uint (c0 OR x)" "uint x \<le> uint (c0 OR x)"
    by (simp_all add: unsigned_or_eq or_greater_eq) (metis or.commute or_greater_eq uint_ge_0)
  then show ?case using Cons [of "c0 OR x"] by auto
qed simp

lemma narrow16:
  assumes "\<not> fold (\<lambda>x c. c OR x) d 0 > (0xFF :: u16)"
  shows "map ucast (map ucast d :: u8 list) = d"
proof -
  have "ucast (ucast x :: u8) = x" if "x \<in> set d" for x
  proof -
    have "uint x \<le> 255" using fold_or_le [of 0 d] that assms by (auto simp: not_less word_le_def)
    then show ?thesis by (intro word_uint_eqI) (simp add: uint_ucast)
  qed
  then show ?thesis by (simp add: map_idI)
qed

lemma js_sub_string_spec:
  assumes "alloc_ok alloc" "js_string_ok p" "start \<le> stop" "stop \<le> js_len p"
  shows "makes (alloc_fails alloc) (take (stop - start) (drop start (js_units p))) (js_sub_string alloc p start stop)"
proof -
  let ?n = "stop - start" and ?us = "take (stop - start) (drop start (js_units p))"
  have len: "length ?us = ?n" using assms by (simp add: js_units_length)
  show ?thesis
  proof (cases "start = 0 \<and> stop = js_len p")
    case True
    then show ?thesis using assms(2) by (simp add: js_sub_string_def makes_def js_units_length)
  next
    case whole: False
    show ?thesis
    proof (cases "js_is_wide_char p \<and> ?n > 0")
      case True
      have d: "str16_slice (js_mem p) start ?n = Some ?us" using assms True by (intro slice16_units) auto
      show ?thesis
      proof (cases "fold (\<lambda>x c. c OR x) ?us 0 > (0xFF :: u16)")
        case big: True
        then show ?thesis
          using whole True d js_new_string16_len_spec [OF assms(1), of ?us] by (auto simp: js_sub_string_def Let_def)
      next
        case small: False
        note narrow = narrow16 [OF small]
        show ?thesis
        proof (cases "alloc (str_bytes ?n False)")
          case None
          then show ?thesis using whole True d small
            by (auto simp: js_sub_string_def Let_def makes_def alloc_fails_def)
        next
          case (Some m)
          have eq: "length (map ucast ?us :: u8 list) = ?n" using len by simp
          obtain m1 m2 where "blit m 0 (map ucast ?us) = Some m1" "store m1 ?n 0 = Some m2"
            "makes (alloc_fails alloc) (map ucast (map ucast ?us :: u8 list)) (Some (Some \<lparr>js_is_wide_char = False, js_len = ?n, js_mem = m2\<rparr>))"
            by (rule make8 [OF assms(1), of "map ucast ?us", unfolded eq, OF Some])
          then show ?thesis using whole True d small Some narrow
            by (auto simp: js_sub_string_def Let_def simp del: map_map)
        qed
      qed
    next
      case narrow: False
      show ?thesis
      proof (cases "?n = 0")
        case True
        then show ?thesis using whole assms
          by (auto simp: js_sub_string_def str8_slice_def js_string_ok_def str_bytes_def js_new_string8_len_def makes_def
              empty_string_def js_units_def split: if_splits)
      next
        case False
        then have "\<not> js_is_wide_char p" using narrow by auto
        then obtain d where "str8_slice (js_mem p) start ?n = Some d" "map ucast d = ?us"
          using slice8_units [OF assms(2), of start ?n] assms by auto
        then show ?thesis
          using whole narrow js_new_string8_len_spec [OF assms(1), of d] by (auto simp: js_sub_string_def Let_def)
      qed
    qed
  qed
qed

lemma JS_ConcatString1_spec:
  assumes "alloc_ok alloc" "js_string_ok p1" "js_string_ok p2"
  shows "makes (alloc_fails alloc \<or> js_len p1 + js_len p2 > JS_STRING_LEN_MAX) (js_units p1 @ js_units p2) (JS_ConcatString1 alloc p1 p2)"
proof -
  let ?w = "js_is_wide_char p1 \<or> js_is_wide_char p2" and ?n = "js_len p1 + js_len p2" and ?us = "js_units p1 @ js_units p2"
  have len: "length (js_units p1) = js_len p1" "length (js_units p2) = js_len p2" using assms by (simp_all add: js_units_length)
  show ?thesis
  proof (cases "?n > JS_STRING_LEN_MAX \<or> alloc (str_bytes ?n ?w) = None")
    case True
    then show ?thesis by (auto simp: JS_ConcatString1_def makes_def alloc_fails_def Let_def)
  next
    case False
    then obtain m where m: "alloc (str_bytes ?n ?w) = Some m" by blast
    have room: "str_bytes ?n ?w \<le> length m" using assms(1) m by (auto simp: alloc_ok_def)
    show ?thesis
    proof (cases ?w)
      case True
      have r: "2 * (js_len p1 + js_len p2) \<le> length m" using room True by (simp add: str_bytes_def mult.commute)
      obtain m1 where m1: "copy_str16 m 0 p1 0 (js_len p1) = Some m1" "length m1 = length m" "take (2 * js_len p1) m1 = enc16 (js_units p1)"
        using copy_str16_spec [OF assms(2), of 0 "js_len p1" m] r by auto
      obtain m2 where m2: "copy_str16 m1 (js_len p1) p2 0 (js_len p2) = Some m2" "length m2 = length m1" "take (2 * ?n) m2 = take (2 * js_len p1) m1 @ enc16 (js_units p2)"
        using copy_str16_spec [OF assms(3), of "js_len p1" "js_len p2" m1] r m1(2) by auto
      have "makes (alloc_fails alloc \<or> ?n > JS_STRING_LEN_MAX) ?us (Some (Some \<lparr>js_is_wide_char = True, js_len = length ?us, js_mem = m2\<rparr>))"
        using m1 m2 len r by (intro makes_string) (auto simp: str_holds_def str_bytes_def)
      then show ?thesis using True False m m1(1) m2(1) len by (simp add: JS_ConcatString1_def Let_def)
    next
      case narrow: False
      obtain a where a: "str8_slice (js_mem p1) 0 (js_len p1) = Some a" "map ucast a = js_units p1" "length a = js_len p1"
        using slice8_units [OF assms(2), of 0 "js_len p1"] narrow len by auto
      obtain b where b: "str8_slice (js_mem p2) 0 (js_len p2) = Some b" "map ucast b = js_units p2" "length b = js_len p2"
        using slice8_units [OF assms(3), of 0 "js_len p2"] narrow len by auto
      have r: "?n + 1 \<le> length m" using room narrow by (simp add: str_bytes_def)
      obtain m1 where m1: "blit m 0 a = Some m1" using r a(3) by (simp add: blit_def)
      obtain m2 where m2: "blit m1 (js_len p1) b = Some m2" using r b(3) length_blit [OF m1] by (simp add: blit_def)
      obtain m3 where m3: "store m2 ?n 0 = Some m3" using r length_blit [OF m1] length_blit [OF m2] by (simp add: store_def)
      have u: "map ucast (take (js_len p1) m1) = js_units p1" using take_blit_end [OF m1] a by simp
      have "str_holds m3 False ?us \<and> length m3 = length m1 \<and> m3 ! ?n = 0"
        by (rule holds8_end [OF m2, unfolded b(2,3), OF m3 u len(1) [symmetric]])
      then have "makes (alloc_fails alloc \<or> ?n > JS_STRING_LEN_MAX) ?us (Some (Some \<lparr>js_is_wide_char = False, js_len = length ?us, js_mem = m3\<rparr>))"
        using r length_blit [OF m1] len by (intro makes_string) (auto simp: str_bytes_def)
      moreover have "JS_ConcatString1 alloc p1 p2 = Some (Some \<lparr>js_is_wide_char = False, js_len = ?n, js_mem = m3\<rparr>)"
        unfolding JS_ConcatString1_def Let_def using narrow False m a(1) b(1) m1 m2 m3 by simp
      ultimately show ?thesis using len by simp
    qed
  qed
qed

lemma JS_ConcatStringInPlace_spec:
  assumes "js_string_ok p1" "js_string_ok p2"
  shows "makes True (js_units p1 @ js_units p2) (JS_ConcatStringInPlace p1 unique p2)"
proof -
  let ?n = "js_len p1 + js_len p2" and ?us = "js_units p1 @ js_units p2"
  have len: "length (js_units p1) = js_len p1" "length (js_units p2) = js_len p2" using assms by (simp_all add: js_units_length)
  consider "js_len p2 = 0" | "js_len p2 \<noteq> 0" "unique" "js_is_wide_char p1" "2 * ?n \<le> length (js_mem p1)"
    | "js_len p2 \<noteq> 0" "unique" "\<not> js_is_wide_char p1" "\<not> js_is_wide_char p2" "?n + 1 \<le> length (js_mem p1)"
    | "JS_ConcatStringInPlace p1 unique p2 = Some None"
    by (cases "js_len p2 = 0"; cases unique; cases "js_is_wide_char p1"; cases "js_is_wide_char p2";
        cases "2 * ?n \<le> length (js_mem p1)"; cases "?n + 1 \<le> length (js_mem p1)") (simp_all add: JS_ConcatStringInPlace_def)
  then show ?thesis
  proof cases
    case 1
    then show ?thesis using assms(1) len by (auto simp: JS_ConcatStringInPlace_def makes_def)
  next
    case 2
    have holds: "take (2 * js_len p1) (js_mem p1) = enc16 (js_units p1)"
      using 2(3,4) by (simp add: js_units_def enc16_units16)
    obtain m where m: "copy_str16 (js_mem p1) (js_len p1) p2 0 (js_len p2) = Some m" "length m = length (js_mem p1)"
        "take (2 * ?n) m = take (2 * js_len p1) (js_mem p1) @ enc16 (js_units p2)"
      using copy_str16_spec [OF assms(2), of "js_len p1" "js_len p2" "js_mem p1"] 2(4) by auto
    have "makes True ?us (Some (Some \<lparr>js_is_wide_char = True, js_len = length ?us, js_mem = m\<rparr>))"
      using m len 2(4) holds by (intro makes_string) (auto simp: str_holds_def str_bytes_def)
    moreover have "p1\<lparr>js_len := ?n, js_mem := m\<rparr> = \<lparr>js_is_wide_char = True, js_len = length ?us, js_mem = m\<rparr>"
      using 2(3) len by simp
    ultimately show ?thesis using 2 m(1) by (simp add: JS_ConcatStringInPlace_def)
  next
    case 3
    obtain b where b: "str8_slice (js_mem p2) 0 (js_len p2) = Some b" "map ucast b = js_units p2" "length b = js_len p2"
      using slice8_units [OF assms(2) 3(4), of 0 "js_len p2"] len by auto
    obtain m1 where m1: "blit (js_mem p1) (js_len p1) b = Some m1" using 3(5) b(3) by (simp add: blit_def)
    obtain m2 where m2: "store m1 ?n 0 = Some m2" using 3(5) length_blit [OF m1] by (simp add: store_def)
    have u: "map ucast (take (js_len p1) (js_mem p1)) = js_units p1" using 3(3) by (simp add: js_units_def)
    have "str_holds m2 False ?us \<and> length m2 = length (js_mem p1) \<and> m2 ! ?n = 0"
      by (rule holds8_end [OF m1, unfolded b(2,3), OF m2 u len(1) [symmetric]])
    then have "makes True ?us (Some (Some \<lparr>js_is_wide_char = False, js_len = length ?us, js_mem = m2\<rparr>))"
      using 3(5) len by (intro makes_string) (auto simp: str_bytes_def)
    moreover have "p1\<lparr>js_len := ?n, js_mem := m2\<rparr> = \<lparr>js_is_wide_char = False, js_len = length ?us, js_mem = m2\<rparr>"
      using 3(3) len by simp
    moreover have "JS_ConcatStringInPlace p1 unique p2 = Some (Some (p1\<lparr>js_len := ?n, js_mem := m2\<rparr>))"
      unfolding JS_ConcatStringInPlace_def using 3 b(1) m1 m2 by simp
    ultimately show ?thesis by simp
  next
    case 4
    then show ?thesis by (simp add: makes_def)
  qed
qed

lemma JS_ConcatString2_spec:
  assumes "alloc_ok alloc" "js_string_ok p1" "js_string_ok p2"
  shows "makes (alloc_fails alloc \<or> js_len p1 + js_len p2 > JS_STRING_LEN_MAX) (js_units p1 @ js_units p2) (JS_ConcatString2 alloc unique p1 p2)"
  using JS_ConcatStringInPlace_spec [OF assms(2,3), of unique] JS_ConcatString1_spec [OF assms]
  by (auto simp: makes_def JS_ConcatString2_def)

end
