(* ===== verification/String_Rope.thy ===== *)
theory String_Rope
  imports Js_String
begin

text \<open>The ropes of \<^verbatim>\<open>src/quickjs/quickjs.c\<close>: a concatenation of long strings is a tree whose leaves are flat
strings; a node stores the length, the width and the depth of its tree. Ropes are read at an index,
iterated over with a bounded stack, compared without being made flat, and made flat.

An outer \<open>None\<close> is an access outside of an array, a \<^verbatim>\<open>NULL\<close> pointer that is followed or a failed
\<^verbatim>\<open>assert\<close>; an inner one is an exception. Reading an index gives that code unit, comparing ropes gives the
lexicographic comparison of their code units, and a rope that is made flat keeps its code units.\<close>

section \<open>Definitions\<close>

datatype js_rope =
  Str js_string
| Rope nat bool nat js_rope js_rope

fun string_rope_get_len :: "js_rope \<Rightarrow> nat" where
  "string_rope_get_len (Str p) = js_len p"
| "string_rope_get_len (Rope len w d l r) = len"

fun rope_is_wide :: "js_rope \<Rightarrow> bool" where
  "rope_is_wide (Str p) = js_is_wide_char p"
| "rope_is_wide (Rope len w d l r) = w"

fun rope_depth :: "js_rope \<Rightarrow> nat" where
  "rope_depth (Str p) = 0"
| "rope_depth (Rope len w d l r) = d"

definition string_get :: "js_string \<Rightarrow> nat \<Rightarrow> u16 option" where
  "string_get p idx =
    (if js_is_wide_char p then map_option hd (str16_slice (js_mem p) idx 1) else map_option ucast (load (js_mem p) idx))"

fun string_rope_get :: "js_rope \<Rightarrow> nat \<Rightarrow> u16 option" where
  "string_rope_get (Str p) idx = string_get p idx"
| "string_rope_get (Rope n w d l r) idx =
    (let len = string_rope_get_len l in
     if idx < len then string_rope_get l idx else string_rope_get r (idx - len))"

definition JS_STRING_ROPE_SHORT_LEN :: nat where "JS_STRING_ROPE_SHORT_LEN = 512"
definition JS_STRING_ROPE_SHORT2_LEN :: nat where "JS_STRING_ROPE_SHORT2_LEN = 8192"
definition JS_STRING_ROPE_MAX_DEPTH :: nat where "JS_STRING_ROPE_MAX_DEPTH = 60"

subsection \<open>Iteration and comparison\<close>

text \<open>The stack of the iterator, with its top first.\<close>

type_synonym rope_iter = "js_rope list"

definition string_rope_iter_init :: "js_rope \<Rightarrow> rope_iter" where
  "string_rope_iter_init val = [val]"

fun rope_descend :: "js_rope \<Rightarrow> rope_iter \<Rightarrow> (js_string \<times> rope_iter) option" where
  "rope_descend (Str p) st = Some (p, st)"
| "rope_descend (Rope n w d l r) st =
    (if length st < JS_STRING_ROPE_MAX_DEPTH then rope_descend l (r # st) else None)"

definition string_rope_iter_next :: "rope_iter \<Rightarrow> (js_string option \<times> rope_iter) option" where
  "string_rope_iter_next st =
    (case st of
       [] \<Rightarrow> Some (None, [])
     | val # st \<Rightarrow> map_option (\<lambda>(p, st). (Some p, st)) (rope_descend val st))"

definition rope_advance :: "js_string \<Rightarrow> nat \<Rightarrow> rope_iter \<Rightarrow> (js_string option \<times> nat \<times> rope_iter) option" where
  "rope_advance p pos st =
    (if pos \<ge> js_len p then do { (p', st) \<leftarrow> string_rope_iter_next st; Some (p', 0, st) }
     else Some (Some p, pos, st))"

text \<open>The loop of the comparison: \<open>Some 0\<close> when no difference was found.\<close>

partial_function (option) rope_compare_loop ::
    "js_string option \<Rightarrow> nat \<Rightarrow> rope_iter \<Rightarrow> js_string option \<Rightarrow> nat \<Rightarrow> rope_iter \<Rightarrow> nat \<Rightarrow> int option" where
  "rope_compare_loop p1 pos1 it1 p2 pos2 it2 len =
    (if len = 0 then Some 0
     else do {
       q1 \<leftarrow> p1;
       q2 \<leftarrow> p2;
       let l = min (min (js_len q1 - pos1) (js_len q2 - pos2)) len;
       res \<leftarrow> js_string_memcmp q1 pos1 q2 pos2 l;
       if res \<noteq> 0 then Some res
       else do {
         (p1, pos1, it1) \<leftarrow> rope_advance q1 (pos1 + l) it1;
         (p2, pos2, it2) \<leftarrow> rope_advance q2 (pos2 + l) it2;
         rope_compare_loop p1 pos1 it1 p2 pos2 it2 (len - l)
       }
     })"

declare rope_compare_loop.simps [code]

definition js_string_rope_compare :: "js_rope \<Rightarrow> js_rope \<Rightarrow> bool \<Rightarrow> int option" where
  "js_string_rope_compare op1 op2 eq_only =
    (let len1 = string_rope_get_len op1; len2 = string_rope_get_len op2 in
     if eq_only \<and> len1 \<noteq> len2 then Some 1
     else do {
       (p1, it1) \<leftarrow> string_rope_iter_next (string_rope_iter_init op1);
       (p2, it2) \<leftarrow> string_rope_iter_next (string_rope_iter_init op2);
       res \<leftarrow> rope_compare_loop p1 0 it1 p2 0 it2 (min len1 len2);
       Some (if res \<noteq> 0 then res else if len1 = len2 then 0 else if len1 < len2 then -1 else 1)
     })"

subsection \<open>Flat strings from ropes\<close>

fun rope_value :: "js_rope \<Rightarrow> unit str_value" where
  "rope_value (Str p) = JS_TAG_STRING p"
| "rope_value (Rope n w d l r) = JS_TAG_STRING_ROPE (rope_value l) (rope_value r)"

text \<open>The string, and the rope as it is afterwards for the other references to it.\<close>

definition js_linearize_string_rope :: "js_alloc \<Rightarrow> realloc \<Rightarrow> bool \<Rightarrow> js_rope \<Rightarrow> (js_rope option \<times> js_rope) option" where
  "js_linearize_string_rope alloc ra unique rope =
    (case rope of
       Str p \<Rightarrow> None
     | Rope n w d l r \<Rightarrow>
       if (case r of Str p \<Rightarrow> js_len p = 0 | _ \<Rightarrow> False) then Some (Some l, rope)
       else
         let (s, e) = string_buffer_init2 alloc n w in
         if e \<noteq> 0 then Some (None, rope)
         else do {
           (s, e) \<leftarrow> string_buffer_concat_value ra (\<lambda>_. None) s (rope_value rope);
           if e \<noteq> 0 then Some (None, rope)
           else do {
             p \<leftarrow> string_buffer_end ra s;
             p \<leftarrow> p;
             Some (Some (Str p), if unique then rope else Rope n w d (Str p) (Str empty_string))
           }
         })"

section \<open>Lemmas\<close>

fun rope_units :: "js_rope \<Rightarrow> u16 list" where
  "rope_units (Str p) = js_units p"
| "rope_units (Rope n w d l r) = rope_units l @ rope_units r"

text \<open>The fields of a well-formed rope. The depth is an upper bound: a rope that was made flat keeps its
depth. The width is only a hint for the buffer of a flat copy, which is widened when it has to be.\<close>

fun rope_wf :: "js_rope \<Rightarrow> bool" where
  "rope_wf (Str p) \<longleftrightarrow> js_string_ok p \<and> js_len p \<le> JS_STRING_LEN_MAX"
| "rope_wf (Rope n w d l r) \<longleftrightarrow> rope_wf l \<and> rope_wf r \<and> n = string_rope_get_len l + string_rope_get_len r \<and> n \<le> JS_STRING_LEN_MAX
    \<and> rope_depth l < d \<and> rope_depth r < d"

lemma rope_len_units: "rope_wf v \<Longrightarrow> length (rope_units v) = string_rope_get_len v"
  by (induction v) (auto simp: js_units_length)

lemma rope_len_max: "rope_wf v \<Longrightarrow> string_rope_get_len v \<le> JS_STRING_LEN_MAX"
  by (cases v) auto

subsection \<open>Reading and iterating\<close>

lemma string_get_units:
  assumes "js_string_ok p" "i < js_len p"
  shows "string_get p i = Some (js_units p ! i)"
proof (cases "js_is_wide_char p")
  case True
  then show ?thesis
    using assms slice16_units [of p i 1] by (simp add: string_get_def js_units_length take_Suc hd_drop_conv_nth)
next
  case False
  then show ?thesis using assms by (simp add: string_get_def load_def js_string_ok_def str_bytes_def js_units_def)
qed

lemma string_rope_get_units: "rope_wf v \<Longrightarrow> i < string_rope_get_len v \<Longrightarrow> string_rope_get v i = Some (rope_units v ! i)"
  by (induction v arbitrary: i) (auto simp: string_get_units Let_def nth_append rope_len_units)

text \<open>The stack leaves room for the depth of each of its trees.\<close>

fun stack_ok :: "rope_iter \<Rightarrow> bool" where
  "stack_ok [] \<longleftrightarrow> True"
| "stack_ok (v # st) \<longleftrightarrow> rope_wf v \<and> rope_depth v + length st \<le> JS_STRING_ROPE_MAX_DEPTH \<and> stack_ok st"

definition stack_units :: "rope_iter \<Rightarrow> u16 list" where
  "stack_units st = concat (map rope_units st)"

fun rope_leaves :: "js_rope \<Rightarrow> nat" where
  "rope_leaves (Str p) = 1"
| "rope_leaves (Rope n w d l r) = rope_leaves l + rope_leaves r"

lemma rope_descend_ok:
  "stack_ok (v # st) \<Longrightarrow> \<exists>p st'. rope_descend v st = Some (p, st') \<and> js_string_ok p \<and> stack_ok st' \<and>
    js_units p @ stack_units st' = stack_units (v # st) \<and> sum_list (map rope_leaves st') + 1 = sum_list (map rope_leaves (v # st))"
proof (induction v arbitrary: st)
  case (Rope n w d l r)
  then have "stack_ok (l # r # st)" "length st < JS_STRING_ROPE_MAX_DEPTH" by auto
  then show ?case using Rope.IH(1) [of "r # st"] by (auto simp: stack_units_def)
qed (simp add: stack_units_def)

text \<open>The text that is left at a position of the iteration.\<close>

fun at_units :: "js_string option \<Rightarrow> nat \<Rightarrow> rope_iter \<Rightarrow> u16 list" where
  "at_units None pos it = []"
| "at_units (Some p) pos it = drop pos (js_units p) @ stack_units it"

fun at_ok :: "js_string option \<Rightarrow> nat \<Rightarrow> rope_iter \<Rightarrow> bool" where
  "at_ok None pos it \<longleftrightarrow> True"
| "at_ok (Some p) pos it \<longleftrightarrow> js_string_ok p \<and> pos \<le> js_len p \<and> stack_ok it"

fun at_left :: "js_string option \<Rightarrow> rope_iter \<Rightarrow> nat" where
  "at_left None it = 0"
| "at_left (Some p) it = Suc (sum_list (map rope_leaves it))"

lemma string_rope_iter_next_ok:
  assumes "stack_ok st"
  shows "\<exists>p st'. string_rope_iter_next st = Some (p, st') \<and> at_ok p 0 st' \<and> at_units p 0 st' = stack_units st
    \<and> at_left p st' = sum_list (map rope_leaves st)"
proof (cases st)
  case (Cons v st0)
  then show ?thesis using rope_descend_ok [of v st0] assms by (auto simp: string_rope_iter_next_def)
qed (simp add: string_rope_iter_next_def stack_units_def)

lemma rope_advance_ok:
  assumes "at_ok (Some p) pos st" "pos + l \<le> js_len p"
  shows "\<exists>p' pos' st'. rope_advance p (pos + l) st = Some (p', pos', st') \<and> at_ok p' pos' st'
    \<and> at_units p' pos' st' = drop l (at_units (Some p) pos st)
    \<and> at_left p' st' \<le> at_left (Some p) st \<and> (js_len p = pos + l \<longrightarrow> at_left p' st' < at_left (Some p) st)"
proof (cases "pos + l = js_len p")
  case True
  then have "drop l (drop pos (js_units p)) = []" using assms by (simp add: js_units_length add.commute)
  moreover have "l \<le> length (drop pos (js_units p))" using True assms by (simp add: js_units_length)
  ultimately show ?thesis
    using string_rope_iter_next_ok [of st] assms True by (force simp: rope_advance_def)
next
  case False
  then show ?thesis using assms by (simp add: rope_advance_def js_units_length add.commute)
qed

lemma rope_compare_loop_ok:
  assumes "at_ok p1 pos1 it1" "at_ok p2 pos2 it2" "len \<le> length (at_units p1 pos1 it1)" "len \<le> length (at_units p2 pos2 it2)"
  shows "\<exists>r. rope_compare_loop p1 pos1 it1 p2 pos2 it2 len = Some r
    \<and> sgn r = units_sign (take len (at_units p1 pos1 it1)) (take len (at_units p2 pos2 it2))"
  using assms
proof (induction "len + at_left p1 it1 + at_left p2 it2" arbitrary: p1 pos1 it1 p2 pos2 it2 len rule: less_induct)
  case less
  show ?case
  proof (cases "len = 0")
    case True
    then show ?thesis by (subst rope_compare_loop.simps) (simp add: units_sign_Nil)
  next
    case False
    then obtain q1 q2 where q: "p1 = Some q1" "p2 = Some q2"
      using less.prems(3,4) by (cases p1; cases p2) auto
    define l where "l = min (min (js_len q1 - pos1) (js_len q2 - pos2)) len"
    let ?u = "at_units p1 pos1 it1" and ?v = "at_units p2 pos2 it2"
    have ok: "js_string_ok q1" "js_string_ok q2" "pos1 + l \<le> js_len q1" "pos2 + l \<le> js_len q2" "l \<le> len"
      using less.prems(1,2) by (auto simp: q l_def)
    define m where "m = memcmp16 (take l ?u) (take l ?v)"
    have tk: "take l ?u = take l (drop pos1 (js_units q1))" "take l ?v = take l (drop pos2 (js_units q2))"
      using ok by (simp_all add: q js_units_length)
    have len: "length (take l ?u) = length (take l ?v)" using ok less.prems(3,4) by simp
    have cmp: "js_string_memcmp q1 pos1 q2 pos2 l = Some m"
      using js_string_memcmp_spec [OF ok(1-4)] by (simp add: m_def tk)
    have m: "sgn m = units_sign (take l ?u) (take l ?v)" unfolding m_def using len by (rule memcmp16_units_sign)
    have split: "take len ?u = take l ?u @ take (len - l) (drop l ?u)" "take len ?v = take l ?v @ take (len - l) (drop l ?v)"
      using ok(5) by (metis le_add_diff_inverse take_add)+
    show ?thesis
    proof (cases "m = 0")
      case True
      then have eq: "take l ?u = take l ?v" using m by (simp add: units_sign_zero)
      obtain p1' pos1' it1' where a1: "rope_advance q1 (pos1 + l) it1 = Some (p1', pos1', it1')" "at_ok p1' pos1' it1'"
        "at_units p1' pos1' it1' = drop l ?u" "at_left p1' it1' \<le> at_left p1 it1"
        "js_len q1 = pos1 + l \<longrightarrow> at_left p1' it1' < at_left p1 it1"
        using rope_advance_ok [OF _ ok(3)] less.prems(1) q(1) by blast
      obtain p2' pos2' it2' where a2: "rope_advance q2 (pos2 + l) it2 = Some (p2', pos2', it2')" "at_ok p2' pos2' it2'"
        "at_units p2' pos2' it2' = drop l ?v" "at_left p2' it2' \<le> at_left p2 it2"
        "js_len q2 = pos2 + l \<longrightarrow> at_left p2' it2' < at_left p2 it2"
        using rope_advance_ok [OF _ ok(4)] less.prems(2) q(2) by blast
      have "0 < l \<or> js_len q1 = pos1 + l \<or> js_len q2 = pos2 + l" using False ok by (auto simp: l_def min_def)
      then have "len - l + at_left p1' it1' + at_left p2' it2' < len + at_left p1 it1 + at_left p2 it2"
        using a1(4,5) a2(4,5) ok(5) by linarith
      then obtain r where r: "rope_compare_loop p1' pos1' it1' p2' pos2' it2' (len - l) = Some r"
        "sgn r = units_sign (take (len - l) (drop l ?u)) (take (len - l) (drop l ?v))"
        using less.hyps [of "len - l" p1' it1' p2' it2' pos1' pos2'] a1 a2 less.prems(3,4) by fastforce
      have "units_sign (take len ?u) (take len ?v) = sgn r" unfolding split eq r(2) by (rule units_sign_append)
      moreover have "rope_compare_loop p1 pos1 it1 p2 pos2 it2 len = Some r"
        using False True cmp a1(1) a2(1) r(1)
        by (subst rope_compare_loop.simps) (simp add: q flip: l_def)
      ultimately show ?thesis by simp
    next
      case ne: False
      then have "take l ?u \<noteq> take l ?v" using m by (metis sgn_0_0 units_sign_zero)
      then have "sgn m = units_sign (take len ?u) (take len ?v)"
        unfolding split using len by (simp add: m units_sign_prefix)
      then show ?thesis using False ne cmp by (subst rope_compare_loop.simps) (simp add: q flip: l_def)
    qed
  qed
qed

lemma units_sign_min:
  assumes "n = min (length us) (length vs)"
  shows "units_sign us vs = (if take n us = take n vs then sgn (int (length us) - int (length vs)) else units_sign (take n us) (take n vs))"
proof (cases "take n us = take n vs")
  case True
  have "units_sign us vs = units_sign (take n us @ drop n us) (take n vs @ drop n vs)" by simp
  also have "\<dots> = units_sign (drop n us) (drop n vs)" unfolding True by (rule units_sign_append)
  finally show ?thesis using True assms
    by (cases "length us" "length vs" rule: linorder_cases) (auto simp: units_sign_Nil)
next
  case False
  have "units_sign us vs = units_sign (take n us @ drop n us) (take n vs @ drop n vs)" by simp
  also have "\<dots> = units_sign (take n us) (take n vs)" using False assms by (intro units_sign_prefix) auto
  finally show ?thesis using False by simp
qed

text \<open>C30 The comparison of two strings or ropes whose depth is at most 60 returns, never leaves the stack of the
iterator and never follows \<^verbatim>\<open>NULL\<close>. Its sign is that of the lexicographic comparison of the code units; when
only equality is asked for, it is 0 exactly for equal code units.\<close>

theorem js_string_rope_compare_correct:
  assumes "rope_wf op1" "rope_wf op2" "rope_depth op1 \<le> JS_STRING_ROPE_MAX_DEPTH" "rope_depth op2 \<le> JS_STRING_ROPE_MAX_DEPTH"
  shows "\<exists>r. js_string_rope_compare op1 op2 eq_only = Some r \<and> (r = 0 \<longleftrightarrow> rope_units op1 = rope_units op2)
    \<and> (\<not> eq_only \<longrightarrow> sgn r = units_sign (rope_units op1) (rope_units op2))"
proof -
  let ?u = "rope_units op1" and ?v = "rope_units op2"
  define n where "n = min (string_rope_get_len op1) (string_rope_get_len op2)"
  have len: "length ?u = string_rope_get_len op1" "length ?v = string_rope_get_len op2"
    using assms by (simp_all add: rope_len_units)
  obtain p1 it1 where i1: "string_rope_iter_next (string_rope_iter_init op1) = Some (p1, it1)" "at_ok p1 0 it1" "at_units p1 0 it1 = ?u"
    using string_rope_iter_next_ok [of "[op1]"] assms by (auto simp: string_rope_iter_init_def stack_units_def)
  obtain p2 it2 where i2: "string_rope_iter_next (string_rope_iter_init op2) = Some (p2, it2)" "at_ok p2 0 it2" "at_units p2 0 it2 = ?v"
    using string_rope_iter_next_ok [of "[op2]"] assms by (auto simp: string_rope_iter_init_def stack_units_def)
  obtain r where r: "rope_compare_loop p1 0 it1 p2 0 it2 n = Some r" "sgn r = units_sign (take n ?u) (take n ?v)"
    using rope_compare_loop_ok [OF i1(2) i2(2), of n] i1(3) i2(3) len by (auto simp: n_def)
  have z: "r = 0 \<longleftrightarrow> take n ?u = take n ?v" using r(2) by (metis sgn_0_0 units_sign_zero)
  have m: "units_sign ?u ?v = (if take n ?u = take n ?v then sgn (int (length ?u) - int (length ?v)) else units_sign (take n ?u) (take n ?v))"
    by (rule units_sign_min) (simp add: n_def len)
  show ?thesis
  proof (cases "eq_only \<and> length ?u \<noteq> length ?v")
    case True
    then have "js_string_rope_compare op1 op2 eq_only = Some 1" by (simp add: js_string_rope_compare_def len)
    moreover have "?u \<noteq> ?v" using True by metis
    ultimately show ?thesis using True by simp
  next
    case False
    define r' where "r' = (if r \<noteq> 0 then r else if length ?u = length ?v then 0 else if length ?u < length ?v then -1 else 1)"
    have "js_string_rope_compare op1 op2 eq_only = Some r'"
      using False i1(1) i2(1) r(1) by (auto simp: js_string_rope_compare_def len r'_def n_def)
    moreover have "sgn r' = units_sign ?u ?v" using r(2) z m by (auto simp: r'_def)
    ultimately show ?thesis by (metis sgn_0_0 units_sign_zero)
  qed
qed

definition small_string :: "u8 list \<Rightarrow> js_string" where
  "small_string b = \<lparr>js_is_wide_char = False, js_len = length b, js_mem = b @ [0]\<rparr>"

lemma small_string_units: "js_string_ok (small_string b)" "js_units (small_string b) = map ucast b" "js_len (small_string b) = length b"
  by (simp_all add: small_string_def js_string_ok_def str_bytes_def js_units_def)

text \<open>The same text in a rope and in a flat string.\<close>

theorem js_string_rope_compare_correct_witness:
  "\<exists>r. js_string_rope_compare (Rope 3 False 1 (Str (small_string [97, 98])) (Str (small_string [99]))) (Str (small_string [97, 98, 99])) False = Some r
    \<and> r = 0"
proof -
  have "rope_wf (Rope 3 False 1 (Str (small_string [97, 98])) (Str (small_string [99])))" "rope_wf (Str (small_string [97, 98, 99]))"
    by (simp_all add: small_string_units JS_STRING_LEN_MAX_def)
  from js_string_rope_compare_correct [OF this, of False] show ?thesis
    by (auto simp: small_string_units JS_STRING_ROPE_MAX_DEPTH_def)
qed

subsection \<open>Making flat\<close>

lemma rope_value_strings:
  "rope_wf v \<Longrightarrow> None \<notin> set (value_strings f (rope_value v)) \<and> (\<forall>p. Some p \<in> set (value_strings f (rope_value v)) \<longrightarrow> js_string_ok p)
    \<and> strings_units (value_strings f (rope_value v)) = rope_units v"
  by (induction v) auto

lemma init2_rep:
  assumes "alloc_ok alloc" "string_buffer_init2 alloc n w = (s, e)"
  shows "e = 0 \<and> sb_rep s [] \<or> e = -1 \<and> alloc_fails alloc"
proof (cases "alloc (str_bytes n w)")
  case None
  then show ?thesis using assms(2) by (auto simp: string_buffer_init2_def alloc_fails_def)
next
  case (Some m)
  then show ?thesis using assms by (auto simp: string_buffer_init2_def sb_rep_def str_holds_def alloc_ok_def)
qed

definition rope_is_flat :: "js_rope \<Rightarrow> bool" where
  "rope_is_flat v \<longleftrightarrow> (case v of Str p \<Rightarrow> True | Rope n w d l r \<Rightarrow> (case r of Str p \<Rightarrow> js_len p = 0 | _ \<Rightarrow> False))"

lemma linearize_copy:
  assumes "rope_wf rope" "rope = Rope n w d l r" "\<not> rope_is_flat rope" "alloc_ok alloc" "realloc_ok ra"
  obtains (fails) "js_linearize_string_rope alloc ra unique rope = Some (None, rope)" "alloc_fails alloc \<or> ra_fails ra"
  | (flat) p where "js_string_ok p" "js_units p = rope_units rope"
      "js_linearize_string_rope alloc ra unique rope = Some (Some (Str p), if unique then rope else Rope n w d (Str p) (Str empty_string))"
proof -
  obtain s e where init: "string_buffer_init2 alloc n w = (s, e)" by fastforce
  have nf: "\<not> (case r of Str p \<Rightarrow> js_len p = 0 | _ \<Rightarrow> False)" using assms(2,3) by (simp add: rope_is_flat_def)
  show ?thesis
  proof (cases "e = 0")
    case False
    then show ?thesis using fails init2_rep [OF assms(4) init] init nf assms(2) by (auto simp: js_linearize_string_rope_def)
  next
    case True
    then have "sb_rep s []" using init2_rep [OF assms(4) init] by auto
    from string_buffer_concat_value_ok [OF assms(5) this, of "\<lambda>_. None" "rope_value rope"] rope_value_strings [OF assms(1), of "\<lambda>_. None"]
    obtain s1 e1 where c: "string_buffer_concat_value ra (\<lambda>_. None) s (rope_value rope) = Some (s1, e1)"
      "e1 = 0 \<and> sb_rep s1 (rope_units rope) \<or> e1 = -1 \<and> sb_limit ra (length (rope_units rope))"
      by (auto simp: sb_ok_def)
    show ?thesis
    proof (cases "e1 = 0")
      case e1: False
      then have "alloc_fails alloc \<or> ra_fails ra"
        using c(2) rope_len_units [OF assms(1)] rope_len_max [OF assms(1)] by auto
      then show ?thesis using fails init nf assms(2) True c(1) e1 by (auto simp: js_linearize_string_rope_def)
    next
      case e1: True
      then obtain p where "string_buffer_end ra s1 = Some (Some p)" "js_string_ok p" "js_units p = rope_units rope"
        using c(2) string_buffer_end_ok [OF assms(5)] by auto
      then show ?thesis using flat [of p] init nf assms(2) True c(1) e1 by (simp add: js_linearize_string_rope_def)
    qed
  qed
qed

text \<open>C31 Making a rope flat gives a flat string with the same code units, or an exception when memory cannot be
allocated. The rope that other references see keeps its code units, its length and its depth, and making it
flat again then gives that string at once, without an allocation.\<close>

theorem js_linearize_string_rope_correct:
  assumes "rope_wf (Rope n w d l r)" "rope_is_flat (Rope n w d l r) \<Longrightarrow> rope_depth l = 0" "alloc_ok alloc" "realloc_ok ra"
  shows "\<exists>res rope'. js_linearize_string_rope alloc ra unique (Rope n w d l r) = Some (res, rope')
    \<and> rope_wf rope' \<and> rope_units rope' = rope_units l @ rope_units r \<and> string_rope_get_len rope' = n \<and> rope_depth rope' = d
    \<and> (case res of
         None \<Rightarrow> alloc_fails alloc \<or> ra_fails ra
       | Some v \<Rightarrow> (\<exists>p. v = Str p \<and> js_string_ok p \<and> js_units p = rope_units l @ rope_units r)
           \<and> (\<not> unique \<longrightarrow> js_linearize_string_rope (\<lambda>_. None) (\<lambda>_ _. None) unique' rope' = Some (Some v, rope')))"
proof (cases "rope_is_flat (Rope n w d l r)")
  case True
  then obtain q where q: "r = Str q" "js_len q = 0" by (auto simp: rope_is_flat_def split: js_rope.splits)
  obtain p where p: "l = Str p" using assms(1,2) True by (cases l) auto
  show ?thesis using assms(1) p q js_units_length [of q] by (simp add: js_linearize_string_rope_def)
next
  case False
  have empty: "js_string_ok empty_string" "js_len empty_string = 0" "js_units empty_string = []"
    by (simp_all add: empty_string_def js_string_ok_def str_bytes_def js_units_def)
  show ?thesis
  proof (rule linearize_copy [OF assms(1) refl False assms(3,4), of unique])
    fix p
    assume p: "js_string_ok p" "js_units p = rope_units (Rope n w d l r)"
      "js_linearize_string_rope alloc ra unique (Rope n w d l r)
        = Some (Some (Str p), if unique then Rope n w d l r else Rope n w d (Str p) (Str empty_string))"
    then have "js_len p = n" using assms(1) rope_len_units [OF assms(1)] js_units_length [OF p(1)] by simp
    then have wf: "rope_wf (Rope n w d (Str p) (Str empty_string))" using assms(1) p(1) empty by simp
    have again: "js_linearize_string_rope (\<lambda>_. None) (\<lambda>_ _. None) unique' (Rope n w d (Str p) (Str empty_string))
        = Some (Some (Str p), Rope n w d (Str p) (Str empty_string))"
      by (simp add: js_linearize_string_rope_def empty)
    show ?thesis
    proof (cases unique)
      case True
      then show ?thesis using p assms(1) by simp
    next
      case False
      then show ?thesis unfolding p(3) using p(1,2) wf again empty(3) by simp
    qed
  qed (use assms(1) in simp)
qed

text \<open>A rope of two characters that is referenced twice.\<close>

theorem js_linearize_string_rope_correct_witness:
  "\<exists>p rope'. js_linearize_string_rope (\<lambda>n. Some (replicate n 0)) slack_realloc False (Rope 2 False 1 (Str (small_string [97])) (Str (small_string [98])))
      = Some (Some (Str p), rope') \<and> js_units p = [97, 98] \<and> rope_units rope' = [97, 98]"
proof -
  let ?l = "Str (small_string [97])" and ?r = "Str (small_string [98])"
  have wf: "rope_wf (Rope 2 False 1 ?l ?r)" by (simp add: small_string_units JS_STRING_LEN_MAX_def)
  have "\<not> rope_is_flat (Rope 2 False 1 ?l ?r)" by (simp add: rope_is_flat_def small_string_units)
  moreover have "alloc_ok (\<lambda>n. Some (replicate n 0))" "\<not> alloc_fails (\<lambda>n. Some (replicate n 0))" by (simp_all add: alloc_ok_def alloc_fails_def)
  moreover have "realloc_ok slack_realloc" "\<not> ra_fails slack_realloc" by (auto simp: realloc_ok_def ra_fails_def slack_realloc_def)
  ultimately show ?thesis
    using js_linearize_string_rope_correct [OF wf, of "\<lambda>n. Some (replicate n 0)" slack_realloc False True]
    by (auto simp: small_string_units split: option.splits)
qed

end
