(* ===== verification/Rope_Balance.thy ===== *)
theory Rope_Balance
  imports String_Rope
begin

text \<open>Making and rebalancing the ropes of \<^verbatim>\<open>src/quickjs/quickjs.c\<close>, and the concatenation of strings and ropes. A
rope deeper than 60 is rebalanced: its leaves are inserted into an array of buckets whose lengths grow
like the Fibonacci numbers, and the buckets are joined.

Making a node may fail: \<open>ok n\<close> says whether the \<open>n\<close>-th allocation succeeds, and the number of
allocations is threaded through. \<^verbatim>\<open>js_new_string_rope\<close> and \<^verbatim>\<open>js_rebalancee_string_rope\<close> call each other; the
nesting is bounded by fuel. A run that needs more is \<open>Nested\<close>, an access outside of an array is \<open>Outside\<close>.

Concatenation, rebalancing included, gives the concatenated code units, in a tree of depth at most 60,
which fits the stack of the iterator, and no access leaves the array of buckets; two levels of nested
calls are enough below 3524578 code units.\<close>

section \<open>Definitions\<close>

datatype 'a run = Outside | Nested | Returns 'a

fun run_bind :: "'a run \<Rightarrow> ('a \<Rightarrow> 'b run) \<Rightarrow> 'b run" where
  "run_bind Outside f = Outside"
| "run_bind Nested f = Nested"
| "run_bind (Returns x) f = f x"

definition ROPE_N_BUCKETS :: nat where "ROPE_N_BUCKETS = 44"

definition rope_bucket_len :: "nat list" where
  "rope_bucket_len =
    [1, 2, 3, 5, 8, 13, 21, 34, 55, 89, 144, 233, 377, 610, 987, 1597, 2584, 4181, 6765, 10946, 17711, 28657,
     46368, 75025, 121393, 196418, 317811, 514229, 832040, 1346269, 2178309, 3524578, 5702887, 9227465, 14930352,
     24157817, 39088169, 63245986, 102334155, 165580141, 267914296, 433494437, 701408733, 1134903170]"

type_synonym buckets = "js_rope option list"
type_synonym mk_rope = "js_rope \<Rightarrow> js_rope \<Rightarrow> nat \<Rightarrow> (js_rope option \<times> nat) run"

text \<open>\<open>a = js_new_string_rope(b, a)\<close>, or \<open>b\<close> while \<open>a\<close> is \<^verbatim>\<open>JS_NULL\<close>.\<close>

definition join_rope :: "mk_rope \<Rightarrow> js_rope \<Rightarrow> js_rope option \<Rightarrow> nat \<Rightarrow> (js_rope option \<times> nat) run" where
  "join_rope mk b a n = (case a of None \<Rightarrow> Returns (Some b, n) | Some a \<Rightarrow> mk b a n)"

text \<open>The two loops of the insertion of a leaf. The value is the index and the rope, or \<open>None\<close> for an
exception; the buckets are changed in both cases.\<close>

function bucket_down :: "mk_rope \<Rightarrow> nat \<Rightarrow> nat \<Rightarrow> js_rope option \<Rightarrow> buckets \<Rightarrow> nat
    \<Rightarrow> ((nat \<times> js_rope option) option \<times> buckets \<times> nat) run" where
  "bucket_down mk len i a bs n =
    (case load rope_bucket_len (i + 1) of
       None \<Rightarrow> Outside
     | Some bl \<Rightarrow>
       if len \<ge> bl then
         (case load bs i of
            None \<Rightarrow> Outside
          | Some None \<Rightarrow> bucket_down mk len (i + 1) a bs n
          | Some (Some b) \<Rightarrow>
            (case join_rope mk b a n of
               Outside \<Rightarrow> Outside
             | Nested \<Rightarrow> Nested
             | Returns (None, n) \<Rightarrow> Returns (None, bs[i := None], n)
             | Returns (Some a, n) \<Rightarrow> bucket_down mk len (i + 1) (Some a) (bs[i := None]) n))
       else Returns (Some (i, a), bs, n))"
  by pat_completeness auto
termination
  by (relation "measure (\<lambda>(mk, len, i, a, bs, n). 44 - i)") (auto simp: load_def rope_bucket_len_def split: if_splits)

function bucket_up :: "mk_rope \<Rightarrow> nat \<Rightarrow> js_rope \<Rightarrow> buckets \<Rightarrow> nat \<Rightarrow> (bool \<times> buckets \<times> nat) run" where
  "bucket_up mk i a bs n =
    (case load bs i of
       None \<Rightarrow> Outside
     | Some None \<Rightarrow> Returns (True, bs[i := Some a], n)
     | Some (Some b) \<Rightarrow>
       (case mk b a n of
          Outside \<Rightarrow> Outside
        | Nested \<Rightarrow> Nested
        | Returns (None, n) \<Rightarrow> Returns (False, bs[i := None], n)
        | Returns (Some a, n) \<Rightarrow> bucket_up mk (i + 1) a (bs[i := None]) n))"
  by pat_completeness auto
termination
  by (relation "measure (\<lambda>(mk, i, a, bs, n). length bs - i)") (auto simp: load_def split: if_splits)

definition bucket_leaf :: "mk_rope \<Rightarrow> js_string \<Rightarrow> buckets \<Rightarrow> nat \<Rightarrow> (bool \<times> buckets \<times> nat) run" where
  "bucket_leaf mk p bs n =
    (if js_len p = 0 then Returns (True, bs, n)
     else run_bind (bucket_down mk (js_len p) 0 None bs n) (\<lambda>(r, bs, n).
       case r of
         None \<Rightarrow> Returns (False, bs, n)
       | Some (i, a) \<Rightarrow>
         run_bind (case a of None \<Rightarrow> Returns (Some (Str p), n) | Some a \<Rightarrow> mk a (Str p) n) (\<lambda>(a, n).
           case a of None \<Rightarrow> Returns (False, bs, n) | Some a \<Rightarrow> bucket_up mk i a bs n)))"

text \<open>The results of the two recursive calls are not looked at.\<close>

fun js_rebalancee_string_rope_rec :: "mk_rope \<Rightarrow> buckets \<Rightarrow> js_rope \<Rightarrow> nat \<Rightarrow> (bool \<times> buckets \<times> nat) run" where
  "js_rebalancee_string_rope_rec mk bs (Str p) n = bucket_leaf mk p bs n"
| "js_rebalancee_string_rope_rec mk bs (Rope len w d l r) n =
    run_bind (js_rebalancee_string_rope_rec mk bs l n) (\<lambda>(_, bs, n).
    run_bind (js_rebalancee_string_rope_rec mk bs r n) (\<lambda>(_, bs, n).
    Returns (True, bs, n)))"

fun bucket_collect :: "mk_rope \<Rightarrow> buckets \<Rightarrow> js_rope option \<Rightarrow> nat \<Rightarrow> (js_rope option option \<times> nat) run" where
  "bucket_collect mk [] a n = Returns (Some a, n)"
| "bucket_collect mk (None # bs) a n = bucket_collect mk bs a n"
| "bucket_collect mk (Some b # bs) a n =
    run_bind (join_rope mk b a n) (\<lambda>(a, n).
      case a of None \<Rightarrow> Returns (None, n) | Some a \<Rightarrow> bucket_collect mk bs (Some a) n)"

definition js_rebalancee_string_rope :: "mk_rope \<Rightarrow> js_rope \<Rightarrow> nat \<Rightarrow> (js_rope option \<times> nat) run" where
  "js_rebalancee_string_rope mk rope n =
    run_bind (js_rebalancee_string_rope_rec mk (replicate ROPE_N_BUCKETS None) rope n) (\<lambda>(done, bs, n).
      if \<not> done then Returns (None, n)
      else run_bind (bucket_collect mk bs None n) (\<lambda>(a, n).
        Returns (case a of None \<Rightarrow> None | Some None \<Rightarrow> Some (Str empty_string) | Some (Some a) \<Rightarrow> Some a, n)))"

fun js_new_string_rope :: "(nat \<Rightarrow> bool) \<Rightarrow> nat \<Rightarrow> mk_rope" where
  "js_new_string_rope ok 0 op1 op2 n = Nested"
| "js_new_string_rope ok (Suc fuel) op1 op2 n =
    (let len = string_rope_get_len op1 + string_rope_get_len op2;
         wide = (rope_is_wide op1 \<or> rope_is_wide op2);
         depth = max (rope_depth op1) (rope_depth op2);
         r = Rope len wide (depth + 1) op1 op2
     in if len > JS_STRING_LEN_MAX then Returns (None, n)
        else if \<not> ok n then Returns (None, n + 1)
        else if depth + 1 > JS_STRING_ROPE_MAX_DEPTH then js_rebalancee_string_rope (js_new_string_rope ok fuel) r (n + 1)
        else Returns (Some r, n + 1))"

text \<open>The operands are strings or ropes. A flat concatenation allocates with \<open>alloc\<close>; \<open>unique\<close> says that \<^verbatim>\<open>op1\<close>
has a reference count of 1, which a duplicate of a part of a rope has not.\<close>

definition then_rope :: "js_string option option \<Rightarrow> (js_rope \<Rightarrow> (js_rope option \<times> nat) run) \<Rightarrow> nat \<Rightarrow> (js_rope option \<times> nat) run" where
  "then_rope res f n = (case res of None \<Rightarrow> Outside | Some None \<Rightarrow> Returns (None, n) | Some (Some p) \<Rightarrow> f (Str p))"

definition JS_ConcatString :: "(nat \<Rightarrow> bool) \<Rightarrow> nat \<Rightarrow> js_alloc \<Rightarrow> bool \<Rightarrow> mk_rope" where
  "JS_ConcatString ok fuel alloc unique op1 op2 n =
    (let mk = js_new_string_rope ok fuel in
     case op2 of
       Str p2 \<Rightarrow>
         if js_len p2 = 0 then Returns (Some op1, n)
         else if js_len p2 \<le> JS_STRING_ROPE_SHORT_LEN then
           (case op1 of
              Str p1 \<Rightarrow>
                if js_len p1 \<le> JS_STRING_ROPE_SHORT2_LEN then
                  then_rope (JS_ConcatString2 alloc unique p1 p2) (\<lambda>p. Returns (Some p, n)) n
                else mk op1 op2 n
            | Rope m w d l r \<Rightarrow>
                (case r of
                   Str q \<Rightarrow>
                     if js_len q \<le> JS_STRING_ROPE_SHORT_LEN then
                       then_rope (JS_ConcatString2 alloc False q p2) (\<lambda>p. mk l p n) n
                     else mk op1 op2 n
                 | _ \<Rightarrow> mk op1 op2 n))
         else mk op1 op2 n
     | Rope m w d l r \<Rightarrow>
         (case op1 of
            Str p1 \<Rightarrow>
              if js_len p1 = 0 then Returns (Some op2, n)
              else (case l of
                Str q \<Rightarrow>
                  if js_len q \<le> JS_STRING_ROPE_SHORT_LEN then
                    then_rope (JS_ConcatString2 alloc unique p1 q) (\<lambda>p. mk p r n) n
                  else mk op1 op2 n
              | _ \<Rightarrow> mk op1 op2 n)
          | _ \<Rightarrow> mk op1 op2 n))"

section \<open>Lemmas\<close>

declare bucket_down.simps [simp del] bucket_up.simps [simp del]

text \<open>Outcomes that satisfy \<open>P\<close>, never outside of an array; running out of fuel is allowed unless \<open>T\<close>.\<close>

definition gives :: "bool \<Rightarrow> ('a \<Rightarrow> bool) \<Rightarrow> 'a run \<Rightarrow> bool" where
  "gives T P x = (case x of Outside \<Rightarrow> False | Nested \<Rightarrow> \<not> T | Returns y \<Rightarrow> P y)"

lemma gives_simps [simp]: "\<not> gives T P Outside" "gives T P Nested \<longleftrightarrow> \<not> T" "gives T P (Returns y) \<longleftrightarrow> P y"
  by (simp_all add: gives_def)

lemma gives_cases [consumes 1, case_names stuck value_is]:
  assumes "gives T P x"
  obtains "x = Nested" "\<not> T" | y where "x = Returns y" "P y"
  using assms by (cases x) auto

text \<open>A rope with given code units that fits the iterator.\<close>

definition rope_for :: "u16 list \<Rightarrow> js_rope \<Rightarrow> bool" where
  "rope_for us v \<longleftrightarrow> rope_wf v \<and> rope_units v = us \<and> rope_depth v \<le> JS_STRING_ROPE_MAX_DEPTH"

definition ounits :: "js_rope option \<Rightarrow> u16 list" where
  "ounits a = (case a of None \<Rightarrow> [] | Some v \<Rightarrow> rope_units v)"

lemma ounits_simps [simp]: "ounits None = []" "ounits (Some v) = rope_units v"
  by (simp_all add: ounits_def)

fun bunits :: "buckets \<Rightarrow> u16 list" where
  "bunits [] = []"
| "bunits (x # xs) = bunits xs @ ounits x"

lemma bunits_drop: "i < length bs \<Longrightarrow> bunits (drop i bs) = bunits (drop (Suc i) bs) @ ounits (bs ! i)"
  by (simp flip: Cons_nth_drop_Suc)

lemma bunits_cleared: "i \<le> length bs \<Longrightarrow> \<forall>j<i. bs ! j = None \<Longrightarrow> bunits bs = bunits (drop i bs)"
proof (induction i)
  case (Suc i)
  then show ?case using bunits_drop [of i bs] by simp
qed simp

lemma bunits_replicate [simp]: "bunits (replicate k None) = []"
  by (induction k) simp_all

text \<open>Every bucket holds at least its number of code units, in a tree whose depth is less than twice its index.\<close>

definition slot_ok :: "nat \<Rightarrow> js_rope option \<Rightarrow> bool" where
  "slot_ok i x \<longleftrightarrow> (\<forall>v. x = Some v \<longrightarrow> rope_for (rope_units v) v \<and> rope_depth v \<le> 2 * i - 1 \<and> rope_bucket_len ! i \<le> length (rope_units v))"

definition buckets_ok :: "buckets \<Rightarrow> bool" where
  "buckets_ok bs \<longleftrightarrow> length bs = ROPE_N_BUCKETS \<and> (\<forall>i<ROPE_N_BUCKETS. slot_ok i (bs ! i))"

lemma buckets_ok_update: "buckets_ok bs \<Longrightarrow> slot_ok i x \<Longrightarrow> buckets_ok (bs[i := x])"
  unfolding buckets_ok_def by (metis length_list_update nth_list_update_eq nth_list_update_neq)

lemma slot_ok_None [simp]: "slot_ok i None"
  by (simp add: slot_ok_def)

definition acc_ok :: "nat \<Rightarrow> js_rope option \<Rightarrow> bool" where
  "acc_ok i a \<longleftrightarrow> (\<forall>v. a = Some v \<longrightarrow> rope_for (rope_units v) v \<and> rope_depth v + 2 \<le> 2 * i)"

lemma acc_ok_None [simp]: "acc_ok i None"
  by (simp add: acc_ok_def)

lemma bucket_len_length [simp]: "length rope_bucket_len = 44"
  by (simp add: rope_bucket_len_def)

lemma bucket_len_double: "i < 43 \<Longrightarrow> rope_bucket_len ! Suc i \<le> 2 * rope_bucket_len ! i"
proof -
  have "successively (\<lambda>a b. b \<le> 2 * a) rope_bucket_len" by (simp add: rope_bucket_len_def)
  then show "i < 43 \<Longrightarrow> ?thesis" by (simp add: successively_conv_nth)
qed

definition total_max :: "bool \<Rightarrow> nat" where
  "total_max T = (if T then 3524577 else JS_STRING_LEN_MAX)"

lemma bucket_index:
  assumes "i < 44" "rope_bucket_len ! i \<le> n" "n \<le> total_max T"
  shows "i < 43" "T \<Longrightarrow> i < 31"
proof -
  have "list_all (\<lambda>x. 3524577 < x) (drop 31 rope_bucket_len)" by (simp add: rope_bucket_len_def)
  then have big: "3524577 < rope_bucket_len ! i" if "31 \<le> i"
    using assms(1) that unfolding list_all_length by (auto dest: spec [of _ "i - 31"])
  have "rope_bucket_len ! 43 = 1134903170" by (simp add: rope_bucket_len_def)
  then have "i \<noteq> 43" if "\<not> T" using assms that by (auto simp: total_max_def JS_STRING_LEN_MAX_def)
  moreover have "i < 31" if T using assms big that by (force simp: total_max_def)
  ultimately show "i < 43" "T \<Longrightarrow> i < 31" using assms(1) by (cases T; simp)+
qed

lemma total_max_le: "n \<le> total_max T \<Longrightarrow> n \<le> JS_STRING_LEN_MAX"
  by (auto simp: total_max_def JS_STRING_LEN_MAX_def split: if_splits)

lemma empty_rope: "rope_wf (Str empty_string)" "rope_units (Str empty_string) = []" "rope_depth (Str empty_string) = 0"
  by (simp_all add: empty_string_def js_string_ok_def str_bytes_def js_units_def)

section \<open>Rebalancing with a maker of ropes\<close>

text \<open>What rebalancing relies on: joining two well-formed ropes that are not too long gives a rope for the
concatenated code units, at most one deeper. A total maker returns for ropes of depth less than 60.\<close>

locale rope_maker =
  fixes mk :: mk_rope and T :: bool
  assumes mk_rope: "rope_wf b \<Longrightarrow> rope_wf a \<Longrightarrow> string_rope_get_len b + string_rope_get_len a \<le> JS_STRING_LEN_MAX
    \<Longrightarrow> (T \<Longrightarrow> rope_depth b < JS_STRING_ROPE_MAX_DEPTH \<and> rope_depth a < JS_STRING_ROPE_MAX_DEPTH)
    \<Longrightarrow> gives T (\<lambda>(r, n'). \<exists>v. r = Some v \<and> rope_for (rope_units b @ rope_units a) v
          \<and> rope_depth v \<le> max (rope_depth b) (rope_depth a) + 1) (mk b a n)"
begin

lemma mk_slot:
  assumes "rope_for us b" "rope_for vs a" "rope_depth b \<le> k" "rope_depth a \<le> k"
    and "length (us @ vs) \<le> total_max T" "T \<Longrightarrow> k < JS_STRING_ROPE_MAX_DEPTH"
  shows "gives T (\<lambda>(r, n'). \<exists>v. r = Some v \<and> rope_for (us @ vs) v \<and> rope_depth v \<le> k + 1) (mk b a n)"
proof -
  have "string_rope_get_len b + string_rope_get_len a \<le> JS_STRING_LEN_MAX"
    using assms(1,2) total_max_le [OF assms(5)] by (auto simp: rope_for_def rope_len_units)
  then have "gives T (\<lambda>(r, n'). \<exists>v. r = Some v \<and> rope_for (rope_units b @ rope_units a) v
      \<and> rope_depth v \<le> max (rope_depth b) (rope_depth a) + 1) (mk b a n)"
    using assms(1-4,6) by (intro mk_rope) (auto simp: rope_for_def)
  then show ?thesis using assms(1-4) by (cases "mk b a n") (auto simp: rope_for_def)
qed

lemma join_rope_ok:
  assumes "slot_ok i (Some b)" "acc_ok i a" "length (rope_units b @ ounits a) \<le> total_max T" "T \<Longrightarrow> i < 31"
  shows "gives T (\<lambda>(r, n'). \<exists>v. r = Some v \<and> rope_units v = rope_units b @ ounits a \<and> acc_ok (Suc i) (Some v)) (join_rope mk b a n)"
proof (cases a)
  case (Some v)
  then have "gives T (\<lambda>(r, n'). \<exists>v'. r = Some v' \<and> rope_for (rope_units b @ rope_units v) v' \<and> rope_depth v' \<le> 2 * i - 1 + 1) (mk b v n)"
    using assms by (intro mk_slot) (auto simp: slot_ok_def acc_ok_def JS_STRING_ROPE_MAX_DEPTH_def)
  moreover have "2 * i - 1 + 1 = 2 * i" using assms(2) Some by (auto simp: acc_ok_def)
  ultimately show ?thesis using Some by (cases "mk b v n") (auto simp: join_rope_def acc_ok_def rope_for_def)
qed (use assms in \<open>auto simp: join_rope_def acc_ok_def slot_ok_def\<close>)

lemma bucket_down_ok:
  assumes "buckets_ok bs" "\<forall>j<i. bs ! j = None" "i < 43" "rope_bucket_len ! i \<le> len" "len \<le> total_max T"
    and "acc_ok i a" "length (bunits (drop i bs) @ ounits a) \<le> total_max T"
  shows "gives T (\<lambda>(r, bs', n'). \<exists>i' a'. r = Some (i', a') \<and> buckets_ok bs' \<and> (\<forall>j<i'. bs' ! j = None) \<and> i' < 43
    \<and> rope_bucket_len ! i' \<le> len \<and> acc_ok i' a' \<and> bunits (drop i' bs') @ ounits a' = bunits (drop i bs) @ ounits a)
    (bucket_down mk len i a bs n)"
  using assms(1-4,6,7)
proof (induction "43 - i" arbitrary: i a bs n rule: less_induct)
  case less
  have l: "load rope_bucket_len (i + 1) = Some (rope_bucket_len ! Suc i)" using less.prems(3) by (simp add: load_def)
  have b: "load bs i = Some (bs ! i)" "i < length bs" using less.prems(1,3) by (simp_all add: load_def buckets_ok_def ROPE_N_BUCKETS_def)
  have slot: "slot_ok i (bs ! i)" using less.prems(1,3) by (simp add: buckets_ok_def ROPE_N_BUCKETS_def)
  have cont: "bunits (drop i bs) = bunits (drop (Suc i) bs) @ ounits (bs ! i)" using b(2) by (rule bunits_drop)
  show ?case
  proof (cases "rope_bucket_len ! Suc i \<le> len")
    case False
    then show ?thesis using less.prems l by (subst bucket_down.simps) simp
  next
    case True
    have i: "Suc i < 43" "T \<Longrightarrow> i < 31"
      using bucket_index [OF _ True assms(5)] less.prems(3) by (simp, fastforce)
    show ?thesis
    proof (cases "bs ! i")
      case None
      have "acc_ok (Suc i) a" using less.prems(5) by (auto simp: acc_ok_def)
      moreover have "\<forall>j<Suc i. bs ! j = None" using less.prems(2) None by (simp add: less_Suc_eq)
      ultimately show ?thesis
        using less.hyps [of "Suc i" bs a n] less.prems(1,3,6) True i l b None cont
        by (subst bucket_down.simps) simp
    next
      case (Some v)
      let ?bs = "bs[i := None]"
      have "gives T (\<lambda>(r, n'). \<exists>v'. r = Some v' \<and> rope_units v' = rope_units v @ ounits a \<and> acc_ok (Suc i) (Some v')) (join_rope mk v a n)"
        using slot less.prems(5,6) i(2) cont Some by (intro join_rope_ok) auto
      then show ?thesis
      proof (cases rule: gives_cases)
        case stuck
        then show ?thesis using True l b Some by (subst bucket_down.simps) simp
      next
        case (value_is y)
        then obtain v' n' where v': "join_rope mk v a n = Returns (Some v', n')" "rope_units v' = rope_units v @ ounits a" "acc_ok (Suc i) (Some v')"
          by auto
        have "buckets_ok ?bs" using less.prems(1) by (simp add: buckets_ok_update)
        moreover have "\<forall>j<Suc i. ?bs ! j = None" using less.prems(2) b(2) by (simp add: less_Suc_eq)
        ultimately show ?thesis
          using less.hyps [of "Suc i" ?bs "Some v'" n'] less.prems(3,6) True i l b Some cont v'
          by (subst bucket_down.simps) simp
      qed
    qed
  qed
qed

lemma bucket_up_ok:
  assumes "buckets_ok bs" "\<forall>j<i. bs ! j = None" "i < 44" "slot_ok i (Some a)"
    and "length (bunits (drop i bs) @ rope_units a) \<le> total_max T"
  shows "gives T (\<lambda>(f, bs', n'). f \<and> buckets_ok bs' \<and> bunits bs' = bunits (drop i bs) @ rope_units a) (bucket_up mk i a bs n)"
  using assms
proof (induction "44 - i" arbitrary: i a bs n rule: less_induct)
  case less
  have b: "load bs i = Some (bs ! i)" "i < length bs" using less.prems(1,3) by (simp_all add: load_def buckets_ok_def ROPE_N_BUCKETS_def)
  have slot: "slot_ok i (bs ! i)" using less.prems(1,3) by (simp add: buckets_ok_def ROPE_N_BUCKETS_def)
  have cont: "bunits (drop i bs) = bunits (drop (Suc i) bs) @ ounits (bs ! i)" using b(2) by (rule bunits_drop)
  have i: "i < 43" "T \<Longrightarrow> i < 31"
    using bucket_index [of i "length (rope_units a)" T] less.prems(3-5) by (auto simp: slot_ok_def)
  show ?case
  proof (cases "bs ! i")
    case None
    have "bunits (bs[i := Some a]) = bunits (drop i (bs[i := Some a]))"
      using less.prems(2) b(2) by (intro bunits_cleared) auto
    also have "\<dots> = bunits (drop i bs) @ rope_units a" using bunits_drop [of i "bs[i := Some a]"] b(2) cont None by simp
    finally show ?thesis using less.prems(1,4) None b by (subst bucket_up.simps) (simp add: buckets_ok_update)
  next
    case (Some v)
    let ?bs = "bs[i := None]"
    have "gives T (\<lambda>(r, n'). \<exists>v'. r = Some v' \<and> rope_for (rope_units v @ rope_units a) v' \<and> rope_depth v' \<le> 2 * i - 1 + 1) (mk v a n)"
      using slot less.prems(4,5) i(2) cont Some by (intro mk_slot) (auto simp: slot_ok_def JS_STRING_ROPE_MAX_DEPTH_def)
    then show ?thesis
    proof (cases rule: gives_cases)
      case stuck
      then show ?thesis using b Some by (subst bucket_up.simps) simp
    next
      case (value_is y)
      then obtain v' n' where v': "mk v a n = Returns (Some v', n')" "rope_for (rope_units v @ rope_units a) v'" "rope_depth v' \<le> 2 * i - 1 + 1"
        by auto
      have "slot_ok (Suc i) (Some v')"
        using v' slot less.prems(4) Some bucket_len_double [OF i(1)] by (auto simp: slot_ok_def rope_for_def)
      moreover have "buckets_ok ?bs" using less.prems(1) by (simp add: buckets_ok_update)
      moreover have "\<forall>j<Suc i. ?bs ! j = None" using less.prems(2) b(2) by (simp add: less_Suc_eq)
      ultimately show ?thesis
        using less.hyps [of "Suc i" ?bs v' n'] less.prems(5) i(1) b Some cont v'
        by (subst bucket_up.simps) (simp add: rope_for_def)
    qed
  qed
qed

lemma bucket_leaf_ok:
  assumes "buckets_ok bs" "js_string_ok p" "length (bunits bs @ js_units p) \<le> total_max T"
  shows "gives T (\<lambda>(f, bs', n'). f \<and> buckets_ok bs' \<and> bunits bs' = bunits bs @ js_units p) (bucket_leaf mk p bs n)"
proof (cases "js_len p = 0")
  case True
  then show ?thesis using assms js_units_length [OF assms(2)] by (simp add: bucket_leaf_def)
next
  case False
  have len: "length (js_units p) = js_len p" using assms(2) by (rule js_units_length)
  have p: "rope_for (js_units p) (Str p)" using assms(2,3) len total_max_le [of "js_len p" T] by (auto simp: rope_for_def)
  have "rope_bucket_len ! 0 = 1" by (simp add: rope_bucket_len_def)
  then have "gives T (\<lambda>(r, bs', n'). \<exists>i' a'. r = Some (i', a') \<and> buckets_ok bs' \<and> (\<forall>j<i'. bs' ! j = None) \<and> i' < 43
    \<and> rope_bucket_len ! i' \<le> js_len p \<and> acc_ok i' a' \<and> bunits (drop i' bs') @ ounits a' = bunits (drop 0 bs) @ ounits None)
    (bucket_down mk (js_len p) 0 None bs n)"
    using assms len False by (intro bucket_down_ok) auto
  then show ?thesis
  proof (cases rule: gives_cases)
    case stuck
    then show ?thesis using False by (simp add: bucket_leaf_def)
  next
    case (value_is y)
    then obtain i a bs1 n1 where d: "bucket_down mk (js_len p) 0 None bs n = Returns (Some (i, a), bs1, n1)" "buckets_ok bs1"
      "\<forall>j<i. bs1 ! j = None" "i < 43" "rope_bucket_len ! i \<le> js_len p" "acc_ok i a" "bunits (drop i bs1) @ ounits a = bunits bs"
      by auto
    let ?m = "case a of None \<Rightarrow> Returns (Some (Str p), n1) | Some a \<Rightarrow> mk a (Str p) n1"
    have i: "T \<Longrightarrow> i < 31" using bucket_index(2) [OF _ d(5)] d(4) assms(3) len by auto
    have tot: "length (bunits (drop i bs1) @ ounits a @ js_units p) \<le> total_max T" using assms(3) by (simp flip: d(7))
    have "gives T (\<lambda>(r, n'). \<exists>v. r = Some v \<and> rope_for (ounits a @ js_units p) v \<and> rope_depth v \<le> 2 * i - 1) ?m"
    proof (cases a)
      case None
      then show ?thesis using p by simp
    next
      case (Some v)
      then have "gives T (\<lambda>(r, n'). \<exists>v'. r = Some v' \<and> rope_for (rope_units v @ js_units p) v' \<and> rope_depth v' \<le> 2 * i - 2 + 1) (mk v (Str p) n1)"
        using d(6) p tot i by (intro mk_slot) (auto simp: acc_ok_def JS_STRING_ROPE_MAX_DEPTH_def)
      moreover have "2 * i - 2 + 1 = 2 * i - 1" using d(6) Some by (auto simp: acc_ok_def)
      ultimately show ?thesis using Some by simp
    qed
    then show ?thesis
    proof (cases rule: gives_cases)
      case stuck
      then show ?thesis using False d by (simp add: bucket_leaf_def)
    next
      case (value_is z)
      then obtain v n2 where v: "?m = Returns (Some v, n2)" "rope_for (ounits a @ js_units p) v" "rope_depth v \<le> 2 * i - 1" by auto
      have "slot_ok i (Some v)" using v d(5) len by (auto simp: slot_ok_def rope_for_def)
      then have "gives T (\<lambda>(f, bs', n'). f \<and> buckets_ok bs' \<and> bunits bs' = bunits (drop i bs1) @ rope_units v) (bucket_up mk i v bs1 n2)"
        using d(2-4) v(2) tot by (intro bucket_up_ok) (auto simp: rope_for_def)
      moreover have "bunits (drop i bs1) @ rope_units v = bunits bs @ js_units p" using v(2) by (simp add: rope_for_def flip: d(7))
      ultimately show ?thesis using False d(1) v(1) by (simp add: bucket_leaf_def)
    qed
  qed
qed

lemma rebalance_rec_ok:
  assumes "rope_wf v" "buckets_ok bs" "length (bunits bs @ rope_units v) \<le> total_max T"
  shows "gives T (\<lambda>(f, bs', n'). f \<and> buckets_ok bs' \<and> bunits bs' = bunits bs @ rope_units v) (js_rebalancee_string_rope_rec mk bs v n)"
  using assms
proof (induction v arbitrary: bs n)
  case (Str p)
  then show ?case using bucket_leaf_ok by simp
next
  case (Rope len w d l r)
  have "gives T (\<lambda>(f, bs', n'). f \<and> buckets_ok bs' \<and> bunits bs' = bunits bs @ rope_units l) (js_rebalancee_string_rope_rec mk bs l n)"
    using Rope.prems by (intro Rope.IH(1)) auto
  then show ?case
  proof (cases rule: gives_cases)
    case (value_is y)
    then obtain bs1 n1 where 1: "js_rebalancee_string_rope_rec mk bs l n = Returns (True, bs1, n1)" "buckets_ok bs1"
      "bunits bs1 = bunits bs @ rope_units l" by auto
    have "gives T (\<lambda>(f, bs', n'). f \<and> buckets_ok bs' \<and> bunits bs' = bunits bs1 @ rope_units r) (js_rebalancee_string_rope_rec mk bs1 r n1)"
      using Rope.prems 1 by (intro Rope.IH(2)) auto
    then show ?thesis by (cases rule: gives_cases) (use 1 in auto)
  qed simp
qed

lemma bucket_collect_ok:
  assumes "buckets_ok bs" "i \<le> 44" "acc_ok i a" "length (bunits (drop i bs) @ ounits a) \<le> total_max T"
  shows "gives T (\<lambda>(r, n'). \<exists>a' k. r = Some a' \<and> acc_ok k a' \<and> ounits a' = bunits (drop i bs) @ ounits a) (bucket_collect mk (drop i bs) a n)"
  using assms(2-4)
proof (induction "44 - i" arbitrary: i a n rule: less_induct)
  case less
  have len: "length bs = 44" using assms(1) by (simp add: buckets_ok_def ROPE_N_BUCKETS_def)
  show ?case
  proof (cases "i = 44")
    case True
    then show ?thesis using less.prems(2) len by auto
  next
    case False
    then have dr: "drop i bs = bs ! i # drop (Suc i) bs" and slot: "slot_ok i (bs ! i)"
      using less.prems(1) assms(1) by (simp_all add: Cons_nth_drop_Suc buckets_ok_def ROPE_N_BUCKETS_def)
    show ?thesis
    proof (cases "bs ! i")
      case None
      moreover have "acc_ok (Suc i) a" using less.prems(2) by (auto simp: acc_ok_def)
      ultimately show ?thesis using less.hyps [of "Suc i" a n] less.prems(1,3) False dr by simp
    next
      case (Some b)
      have i: "T \<Longrightarrow> i < 31"
        using bucket_index(2) [of i "length (rope_units b)" T] slot Some dr less.prems(1,3) False by (auto simp: slot_ok_def)
      have "gives T (\<lambda>(r, n'). \<exists>v. r = Some v \<and> rope_units v = rope_units b @ ounits a \<and> acc_ok (Suc i) (Some v)) (join_rope mk b a n)"
        using slot less.prems(2,3) i dr Some by (intro join_rope_ok) auto
      then show ?thesis
      proof (cases rule: gives_cases)
        case (value_is y)
        then obtain v n' where v: "join_rope mk b a n = Returns (Some v, n')" "rope_units v = rope_units b @ ounits a" "acc_ok (Suc i) (Some v)"
          by auto
        then show ?thesis using less.hyps [of "Suc i" "Some v" n'] less.prems(1,3) False dr Some by simp
      qed (simp add: dr Some)
    qed
  qed
qed

lemma js_rebalancee_string_rope_ok:
  assumes "rope_wf v" "length (rope_units v) \<le> total_max T"
  shows "gives T (\<lambda>(r, n'). \<exists>v'. r = Some v' \<and> rope_for (rope_units v) v') (js_rebalancee_string_rope mk v n)"
proof -
  let ?e = "replicate ROPE_N_BUCKETS None"
  have "gives T (\<lambda>(f, bs', n'). f \<and> buckets_ok bs' \<and> bunits bs' = bunits ?e @ rope_units v) (js_rebalancee_string_rope_rec mk ?e v n)"
    using assms by (intro rebalance_rec_ok) (simp_all add: buckets_ok_def)
  then show ?thesis
  proof (cases rule: gives_cases)
    case (value_is y)
    then obtain bs n1 where r: "js_rebalancee_string_rope_rec mk ?e v n = Returns (True, bs, n1)" "buckets_ok bs" "bunits bs = rope_units v"
      by auto
    have "gives T (\<lambda>(r, n'). \<exists>a' k. r = Some a' \<and> acc_ok k a' \<and> ounits a' = bunits (drop 0 bs) @ ounits None) (bucket_collect mk (drop 0 bs) None n1)"
      using r(2,3) assms(2) by (intro bucket_collect_ok) simp_all
    then show ?thesis
      by (cases rule: gives_cases)
        (use r in \<open>auto simp: js_rebalancee_string_rope_def acc_ok_def ounits_def rope_for_def empty_rope [simplified] split: option.splits\<close>)
  qed (simp add: js_rebalancee_string_rope_def)
qed

end

section \<open>Making ropes and concatenation\<close>

lemma new_rope_wf:
  assumes "rope_wf a" "rope_wf b" "string_rope_get_len a + string_rope_get_len b \<le> JS_STRING_LEN_MAX"
  shows "rope_wf (Rope (string_rope_get_len a + string_rope_get_len b) (rope_is_wide a \<or> rope_is_wide b) (max (rope_depth a) (rope_depth b) + 1) a b)"
  using assms by (simp add: less_Suc_eq_le)

lemma rope_maker_partial: "rope_maker (js_new_string_rope (\<lambda>_. True) fuel) False"
proof (induction fuel)
  case 0
  show ?case by unfold_locales simp
next
  case (Suc fuel)
  show ?case
  proof unfold_locales
    fix b a n
    assume wf: "rope_wf b" "rope_wf a" "string_rope_get_len b + string_rope_get_len a \<le> JS_STRING_LEN_MAX"
    have "length (rope_units b) + length (rope_units a) \<le> total_max False"
      using wf by (simp add: rope_len_units total_max_def)
    from rope_maker.js_rebalancee_string_rope_ok [OF Suc new_rope_wf [OF wf], of "Suc n"] this
    show "gives False (\<lambda>(r, n'). \<exists>v. r = Some v \<and> rope_for (rope_units b @ rope_units a) v
        \<and> rope_depth v \<le> max (rope_depth b) (rope_depth a) + 1) (js_new_string_rope (\<lambda>_. True) (Suc fuel) b a n)"
      using wf new_rope_wf [OF wf] by (auto simp: Let_def rope_for_def elim!: gives_cases)
  qed
qed

lemma rope_maker_total: "rope_maker (js_new_string_rope (\<lambda>_. True) (Suc fuel)) True"
  by unfold_locales (auto simp: Let_def rope_for_def less_Suc_eq_le)

interpretation partial_mk: rope_maker "js_new_string_rope (\<lambda>_. True) fuel" False
  by (rule rope_maker_partial)

interpretation total_mk: rope_maker "js_new_string_rope (\<lambda>_. True) (Suc fuel)" True
  by (rule rope_maker_total)

lemma js_new_string_rope_ok:
  assumes "rope_wf op1" "rope_wf op2"
  shows "gives (2 \<le> fuel \<and> length (rope_units op1 @ rope_units op2) < 3524578)
    (\<lambda>(r, n'). if length (rope_units op1 @ rope_units op2) > JS_STRING_LEN_MAX then r = None
      else \<exists>v. r = Some v \<and> rope_for (rope_units op1 @ rope_units op2) v) (js_new_string_rope (\<lambda>_. True) fuel op1 op2 n)"
    (is "gives ?T ?P _")
proof (cases fuel)
  case (Suc fuel')
  let ?len = "string_rope_get_len op1 + string_rope_get_len op2"
  have len: "length (rope_units op1 @ rope_units op2) = ?len" using assms by (simp add: rope_len_units)
  show ?thesis
  proof (cases "?len > JS_STRING_LEN_MAX")
    case True
    then show ?thesis using Suc len by simp
  next
    case False
    then have wf: "rope_wf (Rope ?len (rope_is_wide op1 \<or> rope_is_wide op2) (max (rope_depth op1) (rope_depth op2) + 1) op1 op2)"
      using assms(1,2) by (intro new_rope_wf) simp_all
    have "rope_maker (js_new_string_rope (\<lambda>_. True) fuel') ?T"
    proof (cases ?T)
      case True
      then obtain f where "fuel' = Suc f" using Suc by (cases fuel') auto
      then show ?thesis using rope_maker_total [of f] True by simp
    next
      case False
      show ?thesis unfolding eq_False [THEN iffD2, OF False] by (rule rope_maker_partial)
    qed
    moreover have "?len \<le> total_max ?T" using False len by (auto simp: total_max_def)
    ultimately have "gives ?T (\<lambda>(r, n'). \<exists>v'. r = Some v' \<and> rope_for (rope_units op1 @ rope_units op2) v')
      (js_rebalancee_string_rope (js_new_string_rope (\<lambda>_. True) fuel')
        (Rope ?len (rope_is_wide op1 \<or> rope_is_wide op2) (max (rope_depth op1) (rope_depth op2) + 1) op1 op2) (n + 1))"
      using rope_maker.js_rebalancee_string_rope_ok [OF _ wf] len by simp
    then show ?thesis
      unfolding Suc using wf False len
      by (cases rule: gives_cases) (auto simp: Let_def rope_for_def)
  qed
qed simp

text \<open>What a concatenation gives: a rope for the text, or an exception; without \<open>F\<close>, an exception exactly for a
text that is too long.\<close>

definition concat_for :: "bool \<Rightarrow> u16 list \<Rightarrow> js_rope option \<times> nat \<Rightarrow> bool" where
  "concat_for F us = (\<lambda>(r, n'). F \<and> r = None \<or> (if length us > JS_STRING_LEN_MAX then r = None else \<exists>v. r = Some v \<and> rope_for us v))"

definition enough_fuel :: "nat \<Rightarrow> u16 list \<Rightarrow> bool" where
  "enough_fuel fuel us \<longleftrightarrow> 2 \<le> fuel \<and> length us < 3524578"

text \<open>All the nodes can be allocated, or the ropes are not deep enough to be rebalanced.\<close>

definition nodes_ok :: "(nat \<Rightarrow> bool) \<Rightarrow> js_rope \<Rightarrow> js_rope \<Rightarrow> bool" where
  "nodes_ok ok op1 op2 \<longleftrightarrow> (\<forall>n. ok n) \<or> rope_depth op1 < JS_STRING_ROPE_MAX_DEPTH \<and> rope_depth op2 < JS_STRING_ROPE_MAX_DEPTH"

definition some_failure :: "js_alloc \<Rightarrow> (nat \<Rightarrow> bool) \<Rightarrow> bool" where
  "some_failure alloc ok \<longleftrightarrow> alloc_fails alloc \<or> (\<exists>n. \<not> ok n)"

lemma mk_concat_for:
  assumes "rope_wf op1" "rope_wf op2" "nodes_ok ok op1 op2" "us = rope_units op1 @ rope_units op2"
  shows "gives (enough_fuel fuel us) (concat_for (some_failure alloc ok) us) (js_new_string_rope ok fuel op1 op2 n)"
proof (cases "\<forall>n. ok n")
  case True
  then have "ok = (\<lambda>_. True)" by auto
  then show ?thesis
    using js_new_string_rope_ok [OF assms(1,2), of fuel n] unfolding assms(4) enough_fuel_def
    by (auto simp: concat_for_def elim!: gives_cases)
next
  case False
  then have depth: "rope_depth op1 < JS_STRING_ROPE_MAX_DEPTH" "rope_depth op2 < JS_STRING_ROPE_MAX_DEPTH" using assms(3) by (auto simp: nodes_ok_def)
  have "length us = string_rope_get_len op1 + string_rope_get_len op2" using assms by (simp add: rope_len_units)
  moreover have "some_failure alloc ok" using False by (simp add: some_failure_def)
  ultimately show ?thesis using depth assms(1,2,4)
    by (cases fuel) (auto simp: Let_def concat_for_def enough_fuel_def rope_for_def less_Suc_eq_le)
qed

text \<open>A flat string longer than the maximum may come from a concatenation in place; the check of the sum of the lengths
still refuses it.\<close>

lemma mk_concat_for_long:
  assumes "string_rope_get_len op1 + string_rope_get_len op2 = length us" "JS_STRING_LEN_MAX < length us"
  shows "gives (enough_fuel fuel us) (concat_for F us) (js_new_string_rope ok fuel op1 op2 n)"
  using assms by (cases fuel) (simp_all add: concat_for_def enough_fuel_def)

lemma mk_concat_for_left:
  assumes "js_string_ok r" "rope_wf v" "nodes_ok ok (Str r) v" "us = js_units r @ rope_units v"
  shows "gives (enough_fuel fuel us) (concat_for (some_failure alloc ok) us) (js_new_string_rope ok fuel (Str r) v n)"
proof (cases "js_len r \<le> JS_STRING_LEN_MAX")
  case True
  then show ?thesis using assms by (intro mk_concat_for) simp_all
next
  case False
  then show ?thesis using assms by (intro mk_concat_for_long) (simp_all add: js_units_length rope_len_units)
qed

lemma mk_concat_for_right:
  assumes "js_string_ok r" "rope_wf v" "nodes_ok ok v (Str r)" "us = rope_units v @ js_units r"
  shows "gives (enough_fuel fuel us) (concat_for (some_failure alloc ok) us) (js_new_string_rope ok fuel v (Str r) n)"
proof (cases "js_len r \<le> JS_STRING_LEN_MAX")
  case True
  then show ?thesis using assms by (intro mk_concat_for) simp_all
next
  case False
  then show ?thesis using assms by (intro mk_concat_for_long) (simp_all add: js_units_length rope_len_units)
qed

lemma flat_concat_for:
  assumes "alloc_ok alloc" "js_string_ok p" "js_string_ok q" "js_len p + js_len q > JS_STRING_LEN_MAX \<Longrightarrow> length us > JS_STRING_LEN_MAX"
    and "\<And>r. js_string_ok r \<Longrightarrow> js_units r = js_units p @ js_units q \<Longrightarrow> gives T (concat_for (some_failure alloc ok) us) (f (Str r))"
  shows "gives T (concat_for (some_failure alloc ok) us) (then_rope (JS_ConcatString2 alloc unique p q) f n)"
  using JS_ConcatString2_spec [OF assms(1-3), of unique] assms(4,5) unfolding makes_def
  by (auto simp: then_rope_def concat_for_def some_failure_def)

lemma short_len: "a \<le> JS_STRING_ROPE_SHORT2_LEN \<Longrightarrow> b \<le> JS_STRING_ROPE_SHORT_LEN \<Longrightarrow> a + b \<le> JS_STRING_LEN_MAX"
  by (simp add: JS_STRING_ROPE_SHORT_LEN_def JS_STRING_ROPE_SHORT2_LEN_def JS_STRING_LEN_MAX_def)

lemma same_concat_for: "rope_wf v \<Longrightarrow> rope_depth v \<le> JS_STRING_ROPE_MAX_DEPTH \<Longrightarrow> us = rope_units v \<Longrightarrow> gives T (concat_for F us) (Returns (Some v, n))"
  using rope_len_max [of v] rope_len_units [of v] by (auto simp: concat_for_def rope_for_def)

lemma flat_rope_wf: "js_string_ok r \<Longrightarrow> js_units r = us \<Longrightarrow> length us \<le> JS_STRING_LEN_MAX \<Longrightarrow> rope_wf (Str r)"
  by (metis js_units_length rope_wf.simps(1))

lemma JS_ConcatString_str:
  assumes "rope_wf op1" "rope_wf (Str p2)" "rope_depth op1 \<le> JS_STRING_ROPE_MAX_DEPTH" "nodes_ok ok op1 (Str p2)" "alloc_ok alloc"
  shows "gives (enough_fuel fuel (rope_units op1 @ js_units p2)) (concat_for (some_failure alloc ok) (rope_units op1 @ js_units p2))
    (JS_ConcatString ok fuel alloc unique op1 (Str p2) n)"
proof -
  let ?us = "rope_units op1 @ js_units p2"
  let ?goal = "gives (enough_fuel fuel ?us) (concat_for (some_failure alloc ok) ?us)"
  have mk: "?goal (js_new_string_rope ok fuel op1 (Str p2) n)" using assms(1,2,4) by (intro mk_concat_for) simp_all
  have p2: "js_string_ok p2" "length (js_units p2) = js_len p2" using assms(2) by (simp_all add: js_units_length)
  show ?thesis
  proof (cases "js_len p2 = 0 \<or> js_len p2 > JS_STRING_ROPE_SHORT_LEN")
    case True
    then show ?thesis using mk same_concat_for [OF assms(1,3), of ?us] p2 by (auto simp: JS_ConcatString_def)
  next
    case short: False
    show ?thesis
    proof (cases op1)
      case (Str p1)
      then have "?goal (then_rope (JS_ConcatString2 alloc unique p1 p2) (\<lambda>p. Returns (Some p, n)) n)" if "js_len p1 \<le> JS_STRING_ROPE_SHORT2_LEN"
        using assms(1,5) p2 short that short_len [of "js_len p1" "js_len p2"]
        by (auto simp: js_units_length intro!: flat_concat_for same_concat_for flat_rope_wf)
      then show ?thesis using mk short Str by (simp add: JS_ConcatString_def)
    next
      case (Rope m w d l r)
      then have "nodes_ok ok l (Str p)" for p using assms(1,4) by (auto simp: nodes_ok_def JS_STRING_ROPE_MAX_DEPTH_def)
      then have "?goal (then_rope (JS_ConcatString2 alloc False q p2) (\<lambda>p. js_new_string_rope ok fuel l p n) n)" if "r = Str q" for q
        using Rope assms(1,5) p2 that by (intro flat_concat_for mk_concat_for_right) (simp_all add: js_units_length)
      then show ?thesis using mk short Rope by (cases r) (simp_all add: JS_ConcatString_def Let_def)
    qed
  qed
qed

lemma JS_ConcatString_rope:
  assumes "rope_wf op1" "rope_wf op2" "op2 = Rope m w d l r" "rope_depth op2 \<le> JS_STRING_ROPE_MAX_DEPTH" "nodes_ok ok op1 op2" "alloc_ok alloc"
  shows "gives (enough_fuel fuel (rope_units op1 @ rope_units op2)) (concat_for (some_failure alloc ok) (rope_units op1 @ rope_units op2))
    (JS_ConcatString ok fuel alloc unique op1 op2 n)"
proof -
  let ?us = "rope_units op1 @ rope_units op2"
  let ?goal = "gives (enough_fuel fuel ?us) (concat_for (some_failure alloc ok) ?us)"
  have mk: "?goal (js_new_string_rope ok fuel op1 op2 n)" using assms(1,2,5) by (intro mk_concat_for) simp_all
  show ?thesis
  proof (cases op1)
    case (Str p1)
    have "nodes_ok ok (Str p) r" for p using assms(2,3,5) by (auto simp: nodes_ok_def JS_STRING_ROPE_MAX_DEPTH_def)
    then have "?goal (then_rope (JS_ConcatString2 alloc unique p1 q) (\<lambda>p. js_new_string_rope ok fuel p r n) n)" if "l = Str q" for q
      using assms(1,2,3,6) Str that by (intro flat_concat_for mk_concat_for_left) (simp_all add: js_units_length)
    moreover have "?goal (Returns (Some op2, n))" if "js_len p1 = 0"
      using that assms(1,2,4) Str js_units_length [of p1] by (intro same_concat_for) auto
    ultimately show ?thesis using mk Str assms(3) by (cases l) (simp_all add: JS_ConcatString_def Let_def)
  qed (use mk assms(3) in \<open>simp add: JS_ConcatString_def\<close>)
qed

text \<open>C29 Concatenation of two well-formed strings or ropes of depth at most 60, through every short cut and through
rebalancing. Either every node of a rope can be allocated, or both operands are less deep than 60, so that
nothing is rebalanced. Then no access leaves an array, and a call that returns gives a well-formed rope of
depth at most 60 with the concatenated code units, or an exception; an exception comes from a text longer
than \<^verbatim>\<open>JS_STRING_LEN_MAX\<close>, which always gives one, or from an allocation that fails. The call does return, with two
levels of nested calls of \<^verbatim>\<open>js_new_string_rope\<close>, for a text of less than 3524578 code units.\<close>

theorem JS_ConcatString_correct:
  assumes "rope_wf op1" "rope_wf op2" "rope_depth op1 \<le> JS_STRING_ROPE_MAX_DEPTH" "rope_depth op2 \<le> JS_STRING_ROPE_MAX_DEPTH"
    and "(\<forall>n. ok n) \<or> rope_depth op1 < JS_STRING_ROPE_MAX_DEPTH \<and> rope_depth op2 < JS_STRING_ROPE_MAX_DEPTH" "alloc_ok alloc"
  shows "gives (2 \<le> fuel \<and> length (rope_units op1 @ rope_units op2) < 3524578)
    (concat_for (alloc_fails alloc \<or> (\<exists>n. \<not> ok n)) (rope_units op1 @ rope_units op2)) (JS_ConcatString ok fuel alloc unique op1 op2 n)"
  using JS_ConcatString_str [OF assms(1) _ assms(3) _ assms(6)] JS_ConcatString_rope [OF assms(1,2) _ assms(4) _ assms(6)] assms(2,5)
  by (cases op2) (auto simp: enough_fuel_def nodes_ok_def some_failure_def)

text \<open>A rope that leans to the left, over the strings of a list.\<close>

definition lean :: "js_rope \<Rightarrow> js_string \<Rightarrow> js_rope" where
  "lean r p = Rope (string_rope_get_len r + js_len p) (rope_is_wide r \<or> js_is_wide_char p) (rope_depth r + 1) r (Str p)"

fun leaf_list :: "js_rope \<Rightarrow> js_string list" where
  "leaf_list (Str p) = [p]"
| "leaf_list (Rope len w d l r) = leaf_list l @ leaf_list r"

lemma lean_fields:
  "leaf_list (foldl lean r ps) = leaf_list r @ ps"
  "rope_depth (foldl lean r ps) = rope_depth r + length ps"
  "string_rope_get_len (foldl lean r ps) = string_rope_get_len r + sum_list (map js_len ps)"
  "rope_units (foldl lean r ps) = rope_units r @ concat (map js_units ps)"
  by (induction ps arbitrary: r) (simp_all add: lean_def)

lemma lean_wf:
  "rope_wf r \<Longrightarrow> list_all js_string_ok ps \<Longrightarrow> string_rope_get_len r + sum_list (map js_len ps) \<le> JS_STRING_LEN_MAX \<Longrightarrow> rope_wf (foldl lean r ps)"
proof (induction ps arbitrary: r)
  case (Cons p ps)
  have "rope_wf (lean r p)" using Cons.prems by (simp add: lean_def)
  then show ?case using Cons.IH [of "lean r p"] Cons.prems by (simp add: lean_def add.assoc)
qed simp

text \<open>\<open>n\<close> characters that are zero.\<close>

definition zeros :: "nat \<Rightarrow> js_string" where
  "zeros n = \<lparr>js_is_wide_char = False, js_len = n, js_mem = replicate (n + 1) 0\<rparr>"

lemma zeros_ok [simp]: "js_string_ok (zeros n)" "js_len (zeros n) = n" "js_units (zeros n) = replicate n 0" "\<not> js_is_wide_char (zeros n)"
  by (simp_all add: zeros_def js_string_ok_def str_bytes_def js_units_def nth_append del: replicate_Suc)

text \<open>Two ropes of depths 60 and 1, whose concatenation is rebalanced.\<close>

theorem JS_ConcatString_correct_witness:
  "\<exists>v n. JS_ConcatString (\<lambda>_. True) 2 (\<lambda>n. Some (replicate n 0)) False (foldl lean (Str (zeros 1)) (replicate 60 (zeros 1)))
      (foldl lean (Str (zeros 1)) [zeros 1]) 0 = Returns (Some v, n)
    \<and> rope_units v = replicate 63 0 \<and> rope_depth v \<le> JS_STRING_ROPE_MAX_DEPTH"
proof -
  let ?a = "foldl lean (Str (zeros 1)) (replicate 60 (zeros 1))" and ?b = "foldl lean (Str (zeros 1)) [zeros 1]"
  have alloc: "alloc_ok (\<lambda>n. Some (replicate n 0))" "\<not> alloc_fails (\<lambda>n. Some (replicate n 0))"
    by (simp_all add: alloc_ok_def alloc_fails_def)
  have wf: "rope_wf ?a" "rope_wf ?b"
    by (rule lean_wf; simp add: JS_STRING_LEN_MAX_def list_all_iff sum_list_replicate)+
  have "concat (map js_units (replicate k (zeros 1))) = replicate k 0" for k by (induction k) simp_all
  from this [of 60] this [of 1] have "rope_units ?a = replicate 1 0 @ replicate 60 0" "rope_units ?b = replicate 1 0 @ replicate 1 0"
    by (simp_all only: lean_fields rope_units.simps zeros_ok) simp_all
  then have units: "rope_units ?a @ rope_units ?b = replicate 63 0" by (simp only: replicate_add [symmetric]) simp
  have depth: "rope_depth ?a = 60" "rope_depth ?b = 1" by (simp_all only: lean_fields) simp_all
  have "gives True (concat_for False (replicate 63 0)) (JS_ConcatString (\<lambda>_. True) 2 (\<lambda>n. Some (replicate n 0)) False ?a ?b 0)"
    using JS_ConcatString_correct [OF wf, of "\<lambda>_. True" "\<lambda>n. Some (replicate n 0)" 2 False 0, unfolded units depth] alloc
    by (simp add: JS_STRING_ROPE_MAX_DEPTH_def)
  then show ?thesis
    by (cases rule: gives_cases) (auto simp: concat_for_def rope_for_def JS_STRING_LEN_MAX_def)
qed

end
