(* ===== verification/Rope_Faults.thy ===== *)
theory Rope_Faults
  imports Rope_Balance
begin

text \<open>Two faults of the rebalancing of ropes in \<^verbatim>\<open>src/quickjs/quickjs.c\<close>. Rebalancing depends on the sequence of the
strings of a rope only, so a rope whose strings lead to a rope of depth 61 again is rebalanced without
end; lengths for which this happens are given, beyond the bound of \<open>Rope_Balance\<close>. And an allocation that
fails while the strings are inserted into the buckets is not reported.\<close>

section \<open>Rebalancing without end\<close>

text \<open>Rebalancing looks at the strings of a rope only. The lengths below put, after each pair, one rope of depth
\<open>2 * i - 1\<close> into bucket \<open>i\<close>: a string of one character before each longer one makes the rope two deeper.\<close>

fun deep_lens :: "nat \<Rightarrow> nat list" where
  "deep_lens 0 = []"
| "deep_lens (Suc 0) = [1, 1]"
| "deep_lens (Suc (Suc i)) = deep_lens (Suc i) @ [1, rope_bucket_len ! (i + 2)]"

fun insert_leaves :: "mk_rope \<Rightarrow> buckets \<Rightarrow> js_string list \<Rightarrow> nat \<Rightarrow> (buckets \<times> nat) run" where
  "insert_leaves mk bs [] n = Returns (bs, n)"
| "insert_leaves mk bs (p # ps) n = run_bind (bucket_leaf mk p bs n) (\<lambda>(_, bs, n). insert_leaves mk bs ps n)"

lemma run_bind_assoc: "run_bind (run_bind x f) g = run_bind x (\<lambda>y. run_bind (f y) g)"
  by (cases x) simp_all

lemma run_bind_Returns: "run_bind x Returns = x"
  by (cases x) simp_all

lemma insert_leaves_append: "insert_leaves mk bs (ps @ qs) n = run_bind (insert_leaves mk bs ps n) (\<lambda>(bs, n). insert_leaves mk bs qs n)"
  by (induction ps arbitrary: bs n) (auto simp: run_bind_assoc intro!: arg_cong [where f = "run_bind _"])

lemma rec_leaves:
  "run_bind (js_rebalancee_string_rope_rec mk bs v n) (\<lambda>(_, bs, n). Returns (bs, n)) = insert_leaves mk bs (leaf_list v) n"
proof (induction v arbitrary: bs n)
  case (Rope len w d l r)
  show ?case
    unfolding leaf_list.simps insert_leaves_append Rope.IH(1) [symmetric]
    by (simp add: run_bind_assoc Rope.IH(2) [symmetric] case_prod_unfold)
qed (simp add: case_prod_unfold)

lemma rebalance_Nested:
  assumes "insert_leaves mk (replicate ROPE_N_BUCKETS None) (leaf_list v) n = Nested"
  shows "js_rebalancee_string_rope mk v n = Nested"
  using assms rec_leaves [of mk "replicate ROPE_N_BUCKETS None" v n]
  by (cases "js_rebalancee_string_rope_rec mk (replicate ROPE_N_BUCKETS None) v n") (auto simp: js_rebalancee_string_rope_def)

text \<open>The order of the lengths of the buckets.\<close>

lemma bucket_len_mono: "i \<le> j \<Longrightarrow> j < 44 \<Longrightarrow> rope_bucket_len ! i \<le> rope_bucket_len ! j"
proof -
  have "sorted rope_bucket_len" by (simp add: rope_bucket_len_def)
  then show "i \<le> j \<Longrightarrow> j < 44 \<Longrightarrow> ?thesis" by (simp add: sorted_iff_nth_mono)
qed

lemma bucket_len_less: "i < 43 \<Longrightarrow> rope_bucket_len ! i < rope_bucket_len ! Suc i"
proof -
  have "successively (<) rope_bucket_len" by (simp add: rope_bucket_len_def)
  then show "i < 43 \<Longrightarrow> ?thesis" by (simp add: successively_conv_nth)
qed

lemma bucket_down_skip:
  assumes "k \<le> i" "i < 43" "rope_bucket_len ! i \<le> len" "\<And>j. k \<le> j \<Longrightarrow> j < i \<Longrightarrow> bs ! j = None" "length bs = 44"
  shows "bucket_down mk len k a bs n = bucket_down mk len i a bs n"
  using assms(1,4)
proof (induction rule: inc_induct)
  case (step k)
  have "rope_bucket_len ! Suc k \<le> len" using bucket_len_mono [of "Suc k" i] step.hyps assms(2,3) by simp
  then have "bucket_down mk len k a bs n = bucket_down mk len (Suc k) a bs n"
    using step.prems [of k] step.hyps assms(2,5) by (subst bucket_down.simps) (simp add: load_def)
  also have "\<dots> = bucket_down mk len i a bs n" using step.IH step.prems by simp
  finally show ?case .
qed simp

declare js_new_string_rope.simps [simp del]

text \<open>One round: from a rope of depth \<open>2 * i - 1\<close> in bucket \<open>i\<close> and two more strings to the rope that is inserted into
bucket \<open>i + 1\<close>.\<close>

abbreviation only :: "nat \<Rightarrow> js_rope \<Rightarrow> buckets" where
  "only i b \<equiv> (replicate ROPE_N_BUCKETS None)[i := Some b]"

abbreviation new_rope :: "nat \<Rightarrow> mk_rope" where
  "new_rope fuel \<equiv> js_new_string_rope (\<lambda>_. True) fuel"

definition node :: "js_rope \<Rightarrow> js_rope \<Rightarrow> js_rope" where
  "node a b = Rope (string_rope_get_len a + string_rope_get_len b) (rope_is_wide a \<or> rope_is_wide b) (max (rope_depth a) (rope_depth b) + 1) a b"

lemma new_rope_node:
  assumes "string_rope_get_len a + string_rope_get_len b \<le> JS_STRING_LEN_MAX"
  shows "new_rope (Suc fuel) a b n =
    (if max (rope_depth a) (rope_depth b) < JS_STRING_ROPE_MAX_DEPTH then Returns (Some (node a b), n + 1)
     else js_rebalancee_string_rope (new_rope fuel) (node a b) (n + 1))"
  using assms by (auto simp: node_def Let_def js_new_string_rope.simps)

lemma empty_update [simp]: "(replicate k None)[i := None] = replicate k None"
  by (induction k arbitrary: i) (auto split: nat.split)

lemma leaf_one:
  assumes "js_len p = 1" "0 < i" "i < 44"
  shows "bucket_leaf mk p (only i b) n = Returns (True, (only i b)[0 := Some (Str p)], n)"
proof -
  have "bucket_down mk 1 0 None (only i b) n = Returns (Some (0, None), only i b, n)"
    by (subst bucket_down.simps) (simp add: load_def rope_bucket_len_def)
  moreover have "bucket_up mk 0 (Str p) (only i b) n = Returns (True, (only i b)[0 := Some (Str p)], n)"
    using assms by (subst bucket_up.simps) (simp add: load_def ROPE_N_BUCKETS_def)
  ultimately show ?thesis using assms(1) by (simp add: bucket_leaf_def)
qed

lemma down_round:
  assumes i: "0 < i" "i < 42" and small: "string_rope_get_len b + 1 \<le> JS_STRING_LEN_MAX" "js_len p = 1"
    and depth: "rope_depth b < JS_STRING_ROPE_MAX_DEPTH"
  shows "bucket_down (new_rope (Suc fuel)) (rope_bucket_len ! Suc i) 0 None ((only i b)[0 := Some (Str p)]) n =
    Returns (Some (Suc i, Some (node b (Str p))), replicate ROPE_N_BUCKETS None, n + 1)"
proof -
  let ?mk = "new_rope (Suc fuel)" and ?len = "rope_bucket_len ! Suc i" and ?e = "replicate ROPE_N_BUCKETS None"
  have len: "rope_bucket_len ! Suc 0 \<le> ?len" "rope_bucket_len ! i \<le> ?len" "\<not> rope_bucket_len ! Suc (Suc i) \<le> ?len"
    using bucket_len_mono [of _ "Suc i"] bucket_len_less [of "Suc i"] i by auto
  have e: "(only i b)[0 := None] = only i b" "(only i b)[i := None] = ?e"
    using i list_update_swap [of i 0 "?e" "Some b" None] by simp_all
  have "bucket_down ?mk ?len 0 None ((only i b)[0 := Some (Str p)]) n = bucket_down ?mk ?len 1 (Some (Str p)) (only i b) n"
    using i len(1) e(1) by (subst bucket_down.simps) (simp add: load_def join_rope_def ROPE_N_BUCKETS_def)
  also have "\<dots> = bucket_down ?mk ?len i (Some (Str p)) (only i b) n"
    using i len(2) by (intro bucket_down_skip) (auto simp: ROPE_N_BUCKETS_def)
  also have "\<dots> = bucket_down ?mk ?len (Suc i) (Some (node b (Str p))) ?e (n + 1)"
    using i e(2) small depth by (subst bucket_down.simps) (simp add: load_def join_rope_def new_rope_node node_def ROPE_N_BUCKETS_def)
  also have "\<dots> = Returns (Some (Suc i, Some (node b (Str p))), ?e, n + 1)"
    using i len(3) by (subst bucket_down.simps) (simp add: load_def)
  finally show ?thesis .
qed

lemma deep_round:
  assumes i: "0 < i" "i < 42" and small: "string_rope_get_len b + 1 \<le> JS_STRING_LEN_MAX" "js_len p = 1" "js_len q = rope_bucket_len ! Suc i"
    and depth: "rope_depth b < JS_STRING_ROPE_MAX_DEPTH"
  shows "insert_leaves (new_rope (Suc fuel)) (only i b) [p, q] n =
    run_bind (new_rope (Suc fuel) (node b (Str p)) (Str q) (n + 1)) (\<lambda>(a, n).
      Returns (case a of None \<Rightarrow> replicate ROPE_N_BUCKETS None | Some a \<Rightarrow> only (Suc i) a, n))"
proof -
  let ?mk = "new_rope (Suc fuel)" and ?e = "replicate ROPE_N_BUCKETS None"
  have "js_len q \<noteq> 0" using small(3) bucket_len_less [of i] i by simp
  then have "bucket_leaf ?mk q ((only i b)[0 := Some (Str p)]) n = run_bind (?mk (node b (Str p)) (Str q) (n + 1)) (\<lambda>(a, n).
      case a of None \<Rightarrow> Returns (False, ?e, n) | Some a \<Rightarrow> bucket_up ?mk (Suc i) a ?e n)"
    using down_round [OF i small(1,2) depth, of fuel n] by (simp only: bucket_leaf_def small(3)) simp
  moreover have "bucket_up ?mk (Suc i) a ?e m = Returns (True, only (Suc i) a, m)" for a m
    using i by (subst bucket_up.simps) (simp add: load_def ROPE_N_BUCKETS_def)
  ultimately show ?thesis
    using leaf_one [OF small(2), of i ?mk b n] i
    by (cases "?mk (node b (Str p)) (Str q) (n + 1)") (auto split: option.split)
qed

lemma deep_sum: "i \<le> 31 \<Longrightarrow> sum_list (deep_lens i) \<le> 3600000 * i"
proof (induction i rule: deep_lens.induct)
  case (3 i)
  have "rope_bucket_len ! 31 = 3524578" by (simp add: rope_bucket_len_def)
  then have "rope_bucket_len ! (i + 2) \<le> 3524578" using bucket_len_mono [of "i + 2" 31] 3(2) by simp
  then show ?case using 3 by simp
qed simp_all

lemma deep_prefix:
  "map js_len ps = deep_lens (Suc i) \<Longrightarrow> Suc i \<le> 30 \<Longrightarrow>
    \<exists>b n'. insert_leaves (new_rope (Suc fuel)) (replicate ROPE_N_BUCKETS None) ps n = Returns (only (Suc i) b, n') \<and> leaf_list b = ps
      \<and> rope_depth b = 2 * i + 1 \<and> string_rope_get_len b = sum_list (deep_lens (Suc i))"
proof (induction i arbitrary: ps)
  case 0
  then obtain p q where ps: "ps = [p, q]" "js_len p = 1" "js_len q = 1" by (auto simp: map_eq_Cons_conv)
  let ?mk = "new_rope (Suc fuel)" and ?e = "replicate ROPE_N_BUCKETS None"
  have d: "bucket_down ?mk 1 0 None bs n = Returns (Some (0, None), bs, n)" for bs n
    by (subst bucket_down.simps) (simp add: load_def rope_bucket_len_def)
  have "bucket_up ?mk 0 (Str p) ?e n = Returns (True, only 0 (Str p), n)"
    by (subst bucket_up.simps) (simp add: load_def ROPE_N_BUCKETS_def)
  moreover have "bucket_up ?mk 0 (Str q) (only 0 (Str p)) n = Returns (True, only 1 (node (Str p) (Str q)), n + 1)"
    using ps(2,3) by (subst bucket_up.simps, subst bucket_up.simps)
      (simp add: load_def ROPE_N_BUCKETS_def new_rope_node node_def JS_STRING_LEN_MAX_def JS_STRING_ROPE_MAX_DEPTH_def)
  ultimately have "insert_leaves ?mk ?e ps n = Returns (only 1 (node (Str p) (Str q)), n + 1)"
    using ps d by (simp add: bucket_leaf_def)
  then show ?case using ps by (auto simp: node_def)
next
  case (Suc i)
  then obtain qs p q where ps: "ps = qs @ [p, q]" "map js_len qs = deep_lens (Suc i)" "js_len p = 1" "js_len q = rope_bucket_len ! Suc (Suc i)"
    by (auto simp: map_eq_append_conv)
  obtain b n' where b: "insert_leaves (new_rope (Suc fuel)) (replicate ROPE_N_BUCKETS None) qs n = Returns (only (Suc i) b, n')" "leaf_list b = qs"
    "rope_depth b = 2 * i + 1" "string_rope_get_len b = sum_list (deep_lens (Suc i))"
    using Suc.IH [OF ps(2)] Suc.prems(2) by auto
  have sum: "sum_list (deep_lens (Suc (Suc i))) \<le> 3600000 * 30"
    using deep_sum [of "Suc (Suc i)"] Suc.prems(2) by simp
  have node: "new_rope (Suc fuel) (node b (Str p)) (Str q) (n' + 1) = Returns (Some (node (node b (Str p)) (Str q)), n' + 2)"
    using sum ps(3,4) b(3,4) Suc.prems(2) by (subst new_rope_node) (simp_all add: node_def JS_STRING_LEN_MAX_def JS_STRING_ROPE_MAX_DEPTH_def)
  have "insert_leaves (new_rope (Suc fuel)) (only (Suc i) b) [p, q] n' = Returns (only (Suc (Suc i)) (node (node b (Str p)) (Str q)), n' + 2)"
    using deep_round [of "Suc i" b p q fuel n'] node sum ps(3,4) b(3,4) Suc.prems(2)
    by (simp add: JS_STRING_LEN_MAX_def JS_STRING_ROPE_MAX_DEPTH_def del: insert_leaves.simps)
  then have "insert_leaves (new_rope (Suc fuel)) (replicate ROPE_N_BUCKETS None) ps n =
      Returns (only (Suc (Suc i)) (node (node b (Str p)) (Str q)), n' + 2)"
    using ps(1) b(1) by (simp add: insert_leaves_append del: insert_leaves.simps)
  moreover have "leaf_list (node (node b (Str p)) (Str q)) = ps" "rope_depth (node (node b (Str p)) (Str q)) = 2 * Suc i + 1"
    "string_rope_get_len (node (node b (Str p)) (Str q)) = sum_list (deep_lens (Suc (Suc i)))"
    using ps b by (simp_all add: node_def)
  ultimately show ?case by blast
qed

lemma deep_lens_start: "\<exists>xs. deep_lens (Suc i) = 1 # 1 # xs"
  by (induction i) auto

lemma deep_rebalance:
  assumes "map js_len ps = deep_lens 31"
  shows "insert_leaves (new_rope fuel) (replicate ROPE_N_BUCKETS None) (ps @ rest) n = Nested"
  using assms
proof (induction fuel arbitrary: ps rest n)
  case 0
  obtain p q qs where ps: "ps = p # q # qs" "js_len p = 1" "js_len q = 1"
    using 0 deep_lens_start [of 30] by (auto simp: map_eq_Cons_conv)
  have "bucket_down mk 1 0 None bs n = Returns (Some (0, None), bs, n)" for mk bs n
    by (subst bucket_down.simps) (simp add: load_def rope_bucket_len_def)
  moreover have "bucket_up (new_rope 0) 0 (Str p) (replicate ROPE_N_BUCKETS None) n = Returns (True, only 0 (Str p), n)"
    "bucket_up (new_rope 0) 0 (Str q) (only 0 (Str p)) n = Nested"
    by (subst bucket_up.simps; simp add: load_def ROPE_N_BUCKETS_def js_new_string_rope.simps)+
  ultimately show ?case using ps by (simp add: bucket_leaf_def)
next
  case (Suc fuel)
  let ?e = "replicate ROPE_N_BUCKETS None"
  have "deep_lens 31 = deep_lens 30 @ [1, rope_bucket_len ! 31]" using deep_lens.simps(3) [of 29] by simp
  then obtain qs p q where ps: "ps = qs @ [p, q]" "map js_len qs = deep_lens 30" "js_len p = 1" "js_len q = rope_bucket_len ! 31"
    using Suc.prems by (auto simp: map_eq_append_conv)
  obtain b n' where b: "insert_leaves (new_rope (Suc fuel)) ?e qs n = Returns (only 30 b, n')" "leaf_list b = qs"
    "rope_depth b = 59" "string_rope_get_len b = sum_list (deep_lens 30)"
    using deep_prefix [of qs 29 fuel n] ps(2) by auto
  have sum: "sum_list (deep_lens 30) \<le> 3600000 * 30" using deep_sum [of 30] by simp
  have F: "rope_bucket_len ! 31 = 3524578" by (simp add: rope_bucket_len_def)
  have "leaf_list (node (node b (Str p)) (Str q)) = ps" using b(2) ps(1) by (simp add: node_def)
  then have "js_rebalancee_string_rope (new_rope fuel) (node (node b (Str p)) (Str q)) m = Nested" for m
    using Suc.IH [OF Suc.prems, of "[]"] by (intro rebalance_Nested) simp
  then have "new_rope (Suc fuel) (node b (Str p)) (Str q) (n' + 1) = Nested"
    using sum F ps(3,4) b(3,4) by (subst new_rope_node) (simp_all add: node_def JS_STRING_LEN_MAX_def JS_STRING_ROPE_MAX_DEPTH_def)
  then have "insert_leaves (new_rope (Suc fuel)) (only 30 b) [p, q] n' = Nested"
    using deep_round [of 30 b p q fuel n'] sum ps(3,4) b(3,4)
    by (simp add: JS_STRING_LEN_MAX_def JS_STRING_ROPE_MAX_DEPTH_def del: insert_leaves.simps)
  then show ?case unfolding ps(1) insert_leaves_append by (simp add: b(1) del: insert_leaves.simps)
qed

text \<open>C32 Concatenation of two ropes one of which is 60 deep does not return, however deep the calls may nest, when the
lengths of their strings, in order, begin with 1, 1, then 1 and 3, 1 and 5, 1 and 8, and so on up to 1 and
3524578 (9227492 code units in all), and every node can be allocated: rebalancing these strings leads to a
rope of depth 61 of the same strings, which is rebalanced in turn.\<close>

theorem JS_ConcatString_nests_forever:
  assumes "op1 = Rope m1 w1 d1 l1 r1" "op2 = Rope m2 w2 d2 l2 r2" "max d1 d2 = JS_STRING_ROPE_MAX_DEPTH" "m1 + m2 \<le> JS_STRING_LEN_MAX"
    and "map js_len (leaf_list op1 @ leaf_list op2) = deep_lens 31 @ rest"
  shows "JS_ConcatString (\<lambda>_. True) fuel alloc unique op1 op2 n = Nested"
proof (cases fuel)
  case (Suc fuel')
  obtain ps qs where "leaf_list (node op1 op2) = ps @ qs" "map js_len ps = deep_lens 31"
    using assms(5) unfolding map_eq_append_conv by (auto simp: node_def)
  then have "js_rebalancee_string_rope (new_rope fuel') (node op1 op2) m = Nested" for m
    using deep_rebalance by (intro rebalance_Nested) simp
  then have "new_rope (Suc fuel') op1 op2 n = Nested"
    using assms(1-4) by (subst new_rope_node) auto
  then show ?thesis using Suc assms(1,2) by (simp add: JS_ConcatString_def)
qed (simp add: assms(1,2) JS_ConcatString_def js_new_string_rope.simps)

text \<open>A rope over the first 61 of these strings, and one over the last and one more, are well-formed.\<close>

theorem JS_ConcatString_nests_forever_witness:
  "\<exists>op1 op2. rope_wf op1 \<and> rope_wf op2 \<and> rope_depth op1 = 60 \<and> rope_depth op2 = 1
    \<and> (\<forall>fuel. JS_ConcatString (\<lambda>_. True) fuel (\<lambda>n. Some (replicate n 0)) False op1 op2 0 = Nested)"
proof -
  have "rope_bucket_len ! 31 = 3524578" by (simp add: rope_bucket_len_def)
  then have split: "deep_lens 31 = (deep_lens 30 @ [1]) @ [3524578]" using deep_lens.simps(3) [of 29] by simp
  have "length (deep_lens k) = 2 * k" for k by (induction k rule: deep_lens.induct) simp_all
  then have len: "length (deep_lens 30) = 60" by simp
  obtain ys where "deep_lens 30 = 1 # ys" using deep_lens_start [of 29] by auto
  then obtain xs where xs: "deep_lens 30 @ [1] = 1 # xs" "length xs = 60" using len by auto
  have sum: "1 + sum_list xs \<le> 3600000 * 31" using deep_sum [of 31] unfolding split xs(1) by simp
  let ?a = "foldl lean (Str (zeros 1)) (map zeros xs)" and ?b = "foldl lean (Str (zeros 3524578)) [zeros 1]"
  have map: "map js_len (map zeros ys) = ys" for ys by (induction ys) simp_all
  have ok: "list_all js_string_ok (map zeros ys)" for ys by (induction ys) simp_all
  have wf: "rope_wf ?a" "rope_wf ?b"
    by (rule lean_wf; use sum in \<open>simp add: map ok JS_STRING_LEN_MAX_def del: map_map\<close>)+
  have depth: "rope_depth ?a = 60" "rope_depth ?b = 1" using xs(2) by (simp_all only: lean_fields) simp_all
  have lens: "string_rope_get_len ?a + string_rope_get_len ?b \<le> JS_STRING_LEN_MAX"
    using sum by (simp only: lean_fields map) (simp add: JS_STRING_LEN_MAX_def)
  have leaves: "map js_len (leaf_list ?a @ leaf_list ?b) = deep_lens 31 @ [1]"
    by (simp only: lean_fields map_append map split xs(1)) simp
  obtain m1 w1 d1 l1 r1 m2 w2 d2 l2 r2 where ropes: "?a = Rope m1 w1 d1 l1 r1" "?b = Rope m2 w2 d2 l2 r2"
    using depth by (cases ?a; cases ?b) auto
  have "max d1 d2 = JS_STRING_ROPE_MAX_DEPTH" "m1 + m2 \<le> JS_STRING_LEN_MAX"
    using depth lens unfolding ropes by (simp_all add: JS_STRING_ROPE_MAX_DEPTH_def)
  note never = JS_ConcatString_nests_forever [OF ropes this leaves]
  show ?thesis using wf depth never by blast
qed

section \<open>A failed allocation while rebalancing\<close>

text \<open>Only the first allocation succeeds.\<close>

definition no_memory :: mk_rope where
  "no_memory = js_new_string_rope (\<lambda>n. n = 0) 1"

lemma no_memory_fails: "0 < n \<Longrightarrow> string_rope_get_len a + string_rope_get_len b < 100 \<Longrightarrow> no_memory a b n = Returns (None, n + 1)"
  by (simp add: no_memory_def Let_def JS_STRING_LEN_MAX_def js_new_string_rope.simps)

lemma letter_leaf:
  assumes "0 < n" "\<And>b. bs ! 0 = Some b \<Longrightarrow> string_rope_get_len b \<le> 1" "length bs = ROPE_N_BUCKETS"
  shows "bucket_leaf no_memory (zeros 1) bs n =
    (case bs ! 0 of None \<Rightarrow> Returns (True, bs[0 := Some (Str (zeros 1))], n) | Some b \<Rightarrow> Returns (False, bs[0 := None], n + 1))"
proof -
  have "bucket_down mk 1 0 None bs n = Returns (Some (0, None), bs, n)" for mk
    by (subst bucket_down.simps) (simp add: load_def rope_bucket_len_def)
  moreover have "bucket_up no_memory 0 (Str (zeros 1)) bs n =
    (case bs ! 0 of None \<Rightarrow> Returns (True, bs[0 := Some (Str (zeros 1))], n) | Some b \<Rightarrow> Returns (False, bs[0 := None], n + 1))"
    using assms no_memory_fails [of n _ "Str (zeros 1)"]
    by (subst bucket_up.simps) (fastforce simp: load_def ROPE_N_BUCKETS_def split: option.split)
  ultimately show ?thesis by (simp add: bucket_leaf_def)
qed

lemma letters_rebalance:
  assumes "0 < n"
  shows "insert_leaves no_memory (replicate ROPE_N_BUCKETS None) (replicate (2 * k) (zeros 1)) n = Returns (replicate ROPE_N_BUCKETS None, n + k)"
  using assms
proof (induction k arbitrary: n)
  case (Suc k)
  let ?e = "replicate ROPE_N_BUCKETS None"
  have "bucket_leaf no_memory (zeros 1) ?e n = Returns (True, only 0 (Str (zeros 1)), n)"
    "bucket_leaf no_memory (zeros 1) (only 0 (Str (zeros 1))) n = Returns (False, ?e, n + 1)"
    using letter_leaf [of n ?e] letter_leaf [of n "only 0 (Str (zeros 1))"] Suc.prems by (simp_all add: ROPE_N_BUCKETS_def)
  then show ?case using Suc.IH [of "n + 1"] by simp
qed simp

text \<open>Of an even number of strings of one character, in a rope of any shape, none is left when no node can be allocated
while the rope is rebalanced, and no exception is reported: the result is the empty string. The failures are
noticed by \<^verbatim>\<open>js_rebalancee_string_rope_rec\<close> at the leaves, and it ignores the results of its recursive calls.\<close>

theorem js_rebalancee_string_rope_loses_text:
  assumes "leaf_list (Rope len w d l r) = replicate (2 * k) (zeros 1)" "0 < n"
  shows "js_rebalancee_string_rope no_memory (Rope len w d l r) n = Returns (Some (Str empty_string), n + k)"
proof -
  let ?e = "replicate ROPE_N_BUCKETS None"
  have "js_rebalancee_string_rope_rec no_memory ?e (Rope len w d l r) n = Returns (True, ?e, n + k)"
    using rec_leaves [of no_memory ?e "Rope len w d l r" n] letters_rebalance [OF assms(2), of k] unfolding assms(1)
    by (cases "js_rebalancee_string_rope_rec no_memory ?e l n") (auto simp: run_bind_assoc elim!: run_bind.elims)
  moreover have "bucket_collect mk (replicate k None) None n = Returns (Some None, n)" for mk k n
    by (induction k) simp_all
  ultimately show ?thesis by (simp add: js_rebalancee_string_rope_def)
qed

end
