(* ===== verification/Date_Time.thy ===== *)
theory Date_Time
  imports Prelude "HOL-Library.Signed_Division" "HOL-Library.Monad_Syntax"
begin

text \<open>The calendar of \<^verbatim>\<open>Date\<close> (\<^verbatim>\<open>quickjs.c\<close>): a time in milliseconds since 1970 is taken apart
into year, month, day and time of the day, and put together again.

\<^verbatim>\<open>int64_t\<close> is \<open>int\<close>: for the times of ECMAScript, up to $8.64 \cdot 10^{15}$ in absolute value, the largest
intermediate value is below $2^{63}$. \<^verbatim>\<open>set_date_fields\<close> computes with \<^verbatim>\<open>double\<close>. Its arguments are
integers (its callers truncate them), and a sum or product of integers is exact up to $2^{53}$; the
model checks this at every operation (\<open>dbl\<close>) and is \<open>None\<close> where a result would be rounded. So a
theorem that gives a time also shows that nothing was rounded. Inside, \<open>None\<close> is \<^verbatim>\<open>NAN\<close>. The
time zone, which the C library knows, is the argument \<open>tzoff\<close>.

Taking apart and putting together are inverse to each other, in both directions; the search for the
year ends after a bounded number of steps.\<close>

section \<open>Definitions\<close>

definition math_mod :: "int \<Rightarrow> int \<Rightarrow> int" where
  "math_mod a b = (let m = a smod b in m + (if m < 0 then 1 else 0) * b)"

definition floor_div :: "int \<Rightarrow> int \<Rightarrow> int" where
  "floor_div a b = (let m = a smod b in (a - (m + (if m < 0 then 1 else 0) * b)) sdiv b)"

definition days_from_year :: "int \<Rightarrow> int" where
  "days_from_year y =
    365 * (y - 1970) + floor_div (y - 1969) 4 - floor_div (y - 1901) 100 + floor_div (y - 1601) 400"

definition days_in_year :: "int \<Rightarrow> int" where
  "days_in_year y = 365 + of_bool (y smod 4 = 0) - of_bool (y smod 100 = 0) + of_bool (y smod 400 = 0)"

text \<open>The loop of \<^verbatim>\<open>year_from_days\<close> adjusts the year until the day is in it; its termination
rests on the lemmas about the calendar.\<close>

lemma smod_nonneg: "0 \<le> a \<Longrightarrow> 0 < b \<Longrightarrow> (a :: int) smod b = a mod b"
  by (cases "a = 0") (auto simp: signed_modulo_int_def)

lemma floor_div_eq: "0 < b \<Longrightarrow> math_mod a b = a mod b" "0 < b \<Longrightarrow> floor_div a b = a div b"
proof -
  assume b: "0 < b"
  have m: "a smod b + (if a smod b < 0 then 1 else 0) * b = a mod b"
  proof (cases "a smod b < 0")
    case True
    have "a < 0" using True b smod_nonneg [of a b] pos_mod_sign [OF b, of a] by linarith
    moreover have "\<not> b dvd a" using True b by (auto simp: signed_modulo_int_def mod_eq_0_iff_dvd sgn_if split: if_splits)
    ultimately show ?thesis using b True by (simp add: signed_modulo_int_eq_modulo_int)
  next
    case False
    have "sgn a = sgn b \<or> b dvd a"
    proof (rule ccontr)
      assume "\<not> (sgn a = sgn b \<or> b dvd a)"
      then have "a smod b = a mod b - b" by (simp add: signed_modulo_int_eq_modulo_int)
      then show False using False pos_mod_bound [OF b, of a] by linarith
    qed
    then show ?thesis using False b by (auto simp: signed_modulo_int_eq_modulo_int)
  qed
  then show "math_mod a b = a mod b" by (simp add: math_mod_def Let_def)
  have "a - a mod b = a div b * b" by (rule minus_mod_eq_div_mult)
  then show "floor_div a b = a div b"
    using b m by (simp add: floor_div_def Let_def signed_divide_int_eq_divide_int)
qed

lemma smod_zero: "0 < b \<Longrightarrow> (a :: int) smod b = 0 \<longleftrightarrow> b dvd a"
  by (auto simp: signed_modulo_int_def mod_eq_0_iff_dvd sgn_if)

lemma days_in_year_range: "365 \<le> days_in_year y" "days_in_year y \<le> 366"
proof -
  have "4 dvd y" if "100 dvd y" using dvd_trans [OF _ that, of 4] by simp
  moreover have "100 dvd y" if "400 dvd y" using dvd_trans [OF _ that, of 100] by simp
  ultimately show "365 \<le> days_in_year y" "days_in_year y \<le> 366" by (auto simp: days_in_year_def smod_zero)
qed

lemma div_step: "0 < n \<Longrightarrow> (x :: int) div n = (x - 1) div n + of_bool (n dvd x)"
proof -
  assume n: "0 < n"
  show ?thesis
  proof (cases "n dvd x")
    case True
    then obtain k where k: "x = n * k" by (rule dvdE)
    have "(n * k - 1) div n = k - 1" using n by (intro int_div_pos_eq [where r = "n - 1"]) (auto simp: algebra_simps)
    then show ?thesis using n by (simp add: k)
  next
    case False
    have "x mod n \<noteq> 0" using False by (simp add: dvd_eq_mod_eq_0)
    then have "(x - 1) div n = x div n"
      using n pos_mod_sign [of n x] pos_mod_bound [of n x]
      by (intro int_div_pos_eq [where r = "x mod n - 1"]) (simp_all add: order_less_le)
    then show ?thesis using False by simp
  qed
qed

lemma div_shift: "n \<noteq> 0 \<Longrightarrow> (x - n * k) div n = (x :: int) div n - k"
  using div_mult_self2 [of n x "- k"] by simp

lemma days_from_year_alt: "days_from_year y = 365 * (y - 1970) + (y - 1) div 4 - (y - 1) div 100 + (y - 1) div 400 - 477"
  using div_shift [of 4 "y - 1" 492] div_shift [of 100 "y - 1" 19] div_shift [of 400 "y - 1" 4]
  by (simp add: days_from_year_def floor_div_eq algebra_simps)

lemma days_from_year_Suc: "days_from_year (y + 1) = days_from_year y + days_in_year y"
  using div_step [of 4 y] div_step [of 100 y] div_step [of 400 y]
  by (simp add: days_from_year_alt days_in_year_def smod_zero algebra_simps)

function year_loop :: "int \<Rightarrow> int \<Rightarrow> int \<times> int" where
  "year_loop d y =
    (let d1 = d - days_from_year y in
     if d1 < 0 then year_loop d (y - 1)
     else if d1 < days_in_year y then (y, d1)
     else year_loop d (y + 1))"
  by pat_completeness auto
termination
proof (relation "measure (\<lambda>(d, y). let d1 = d - days_from_year y in
    if d1 < 0 then Suc (nat (- d1)) else if d1 < days_in_year y then 0 else nat d1)", goal_cases)
  case (2 d y d1)
  then show ?case using days_from_year_Suc [of "y - 1"] days_in_year_range [of "y - 1"] by (auto simp: Let_def)
next
  case (3 d y d1)
  then show ?case using days_from_year_Suc [of y] days_in_year_range [of y] by (auto simp: Let_def)
qed simp

definition year_from_days :: "int \<Rightarrow> int \<times> int" where
  "year_from_days days = year_loop days (floor_div (days * 10000) 3652425 + 1970)"

definition month_days :: "int list" where
  "month_days = [31, 28, 31, 30, 31, 30, 31, 31, 30, 31, 30, 31]"

definition month_len :: "int \<Rightarrow> nat \<Rightarrow> int" where
  "month_len y i = month_days ! i + (if i = 1 then days_in_year y - 365 else 0)"

fun month_search :: "int \<Rightarrow> int \<Rightarrow> nat list \<Rightarrow> nat \<times> int" where
  "month_search y days [] = (11, days)"
| "month_search y days (i # is) =
    (if days < month_len y i then (i, days) else month_search y (days - month_len y i) is)"

definition date_start :: "(int \<Rightarrow> int) \<Rightarrow> bool \<Rightarrow> int option \<Rightarrow> int \<times> int" where
  "date_start tzoff is_local dval =
    (case dval of
       None \<Rightarrow> (0, 0)
     | Some d \<Rightarrow> if is_local then (let tz = - tzoff d in (d + tz * 60000, tz)) else (d, 0))"

definition get_date_fields :: "(int \<Rightarrow> int) \<Rightarrow> int option \<Rightarrow> bool \<Rightarrow> bool \<Rightarrow> int list option" where
  "get_date_fields tzoff dval is_local force =
    (if dval = None \<and> \<not> force then None
     else
       let (d, tz) = date_start tzoff is_local dval;
           h = math_mod d 86400000;
           days = (d - h) sdiv 86400000;
           ms = h smod 1000;
           h = (h - ms) sdiv 1000;
           s = h smod 60;
           h = (h - s) sdiv 60;
           m = h smod 60;
           h = (h - m) sdiv 60;
           wd = math_mod (days + 4) 7;
           (y, days) = year_from_days days;
           (i, days) = month_search y days [0..<11]
       in Some [y, int i, days + 1, h, m, s, ms, wd, tz])"

definition time_clip :: "int \<Rightarrow> int option" where
  "time_clip t = (if -8640000000000000 \<le> t \<and> t \<le> 8640000000000000 then Some t else None)"

definition dbl :: "int \<Rightarrow> int option" where
  "dbl x = (if \<bar>x\<bar> \<le> 2 ^ 53 then Some x else None)"

text \<open>\<^verbatim>\<open>floor(m / 12)\<close>: the quotient is rounded, but below $2^{48}$ not up to the next integer.\<close>

definition floor12 :: "int \<Rightarrow> int option" where
  "floor12 m = (if \<bar>m\<bar> \<le> 2 ^ 48 then Some (m div 12) else None)"

definition month_loop :: "int \<Rightarrow> nat \<Rightarrow> int" where
  "month_loop yi mi =
    fold (\<lambda>i days. let days = days + month_days ! i in if i = 1 then days + (days_in_year yi - 365) else days)
      [0..<mi] (days_from_year yi)"

definition make_time :: "int list \<Rightarrow> int option" where
  "make_time fields =
    do {
      t \<leftarrow> dbl (fields ! 3 * 3600000);
      x \<leftarrow> dbl (fields ! 4 * 60000);
      t \<leftarrow> dbl (t + x);
      x \<leftarrow> dbl (fields ! 5 * 1000);
      t \<leftarrow> dbl (t + x);
      dbl (t + fields ! 6)
    }"

definition set_date_fields :: "(int \<Rightarrow> int) \<Rightarrow> int list \<Rightarrow> bool \<Rightarrow> int option option" where
  "set_date_fields tzoff fields is_local =
    do {
      q \<leftarrow> floor12 (fields ! 1);
      ym \<leftarrow> dbl (fields ! 0 + q);
      let mn = fields ! 1 smod 12;
      let mn = (if mn < 0 then mn + 12 else mn);
      if ym < -271821 \<or> ym > 275760 then Some None
      else do {
        day \<leftarrow> dbl (month_loop ym (nat mn) + fields ! 2);
        day \<leftarrow> dbl (day - 1);
        tm \<leftarrow> make_time fields;
        x \<leftarrow> dbl (day * 86400000);
        tv \<leftarrow> dbl (x + tm);
        tv \<leftarrow> (if is_local then dbl (tv + tzoff tv * 60000) else Some tv);
        Some (time_clip tv)
      }
    }"

text \<open>The getters and setters of \<^verbatim>\<open>Date\<close>. \<open>dval\<close> is the time value of the object and the arguments
of a setter are numbers after the conversion and truncation, \<open>None\<close> for one that is not finite. The result of a
setter is the new time value of the object.\<close>

definition get_date_field :: "(int \<Rightarrow> int) \<Rightarrow> int option \<Rightarrow> nat \<Rightarrow> int option" where
  "get_date_field tzoff dval magic =
    (let is_local = magic AND 0x0F \<noteq> 0; n = drop_bit 4 magic AND 0x0F in
     case get_date_fields tzoff dval is_local False of
       None \<Rightarrow> None
     | Some f \<Rightarrow> let f = (if magic AND 0x100 \<noteq> 0 then f[0 := f ! 0 - 1900] else f) in Some (f ! n))"

fun put_args :: "int list \<Rightarrow> nat \<Rightarrow> int option list \<Rightarrow> int list" where
  "put_args f i [] = f"
| "put_args f i (a # as) = put_args (f[i := (case a of Some v \<Rightarrow> v | None \<Rightarrow> f ! i)]) (Suc i) as"

definition set_date_field :: "(int \<Rightarrow> int) \<Rightarrow> int option \<Rightarrow> int option list \<Rightarrow> nat \<Rightarrow> int option option" where
  "set_date_field tzoff dval args magic =
    (let first_field = drop_bit 8 magic AND 0x0F;
         end_field = drop_bit 4 magic AND 0x0F;
         is_local = magic AND 0x0F \<noteq> 0;
         args' = take (end_field - first_field) args
     in case get_date_fields tzoff dval is_local (first_field = 0) of
       None \<Rightarrow> Some None
     | Some f \<Rightarrow>
         if None \<notin> set args' \<and> args \<noteq> [] then set_date_fields tzoff (put_args f first_field args') is_local
         else Some None)"

definition js_Date_UTC :: "int option list \<Rightarrow> int option option" where
  "js_Date_UTC args =
    (let args' = take 7 args in
     if args = [] \<or> None \<in> set args' then Some None
     else let f = put_args [0, 0, 1, 0, 0, 0, 0] 0 args' in
       set_date_fields (\<lambda>_. 0) (if 0 \<le> f ! 0 \<and> f ! 0 < 100 then f[0 := f ! 0 + 1900] else f) False)"

section \<open>Lemmas\<close>

declare year_loop.simps [simp del]

lemma year_loop_spec: "year_loop d y = (y', d') \<Longrightarrow> days_from_year y' + d' = d \<and> 0 \<le> d' \<and> d' < days_in_year y'"
proof (induction d y rule: year_loop.induct)
  case (1 d y)
  then show ?case by (subst (asm) (3) year_loop.simps) (auto simp: Let_def split: if_splits)
qed

lemma sdiv_exact: "0 < b \<Longrightarrow> (a - a mod b) sdiv b = (a :: int) div b"
  by (simp add: minus_mod_eq_div_mult signed_divide_int_eq_divide_int)

lemma year_from_days_spec:
  "year_from_days d = (y, d') \<Longrightarrow> days_from_year y + d' = d \<and> 0 \<le> d' \<and> d' < days_in_year y"
  by (simp add: year_from_days_def year_loop_spec)

text \<open>Every day is in one year only.\<close>

lemma days_from_year_mono: "y \<le> z \<Longrightarrow> days_from_year y \<le> days_from_year z"
proof (induction z rule: int_ge_induct)
  case (step z)
  then show ?case using days_from_year_Suc [of z] days_in_year_range [of z] by simp
qed simp

lemma year_unique:
  assumes "days_from_year y + d = days_from_year z + e" "0 \<le> d" "d < days_in_year y" "0 \<le> e" "e < days_in_year z"
  shows "y = z \<and> d = e"
proof -
  have "y = z"
    using days_from_year_mono [of "y + 1" z] days_from_year_mono [of "z + 1" y] days_from_year_Suc [of y] days_from_year_Suc [of z] assms
    by linarith
  then show ?thesis using assms by simp
qed

subsection \<open>Months\<close>

lemma months: "[0..<11] = [0, 1, 2, 3, 4, 5, 6, 7, 8, 9, 10]"
  by (simp add: upt_rec)

definition month_start :: "int \<Rightarrow> nat \<Rightarrow> int" where
  "month_start y i = sum_list (map (month_len y) [0..<i])"

lemma month_start_simps: "month_start y 0 = 0" "month_start y (Suc i) = month_start y i + month_len y i"
  by (simp_all add: month_start_def)

lemma month_loop_eq: "month_loop y i = days_from_year y + month_start y i"
  by (induction i) (auto simp: month_loop_def month_start_def month_len_def Let_def)

lemma month_table: "i < 12 \<Longrightarrow> i \<in> {0, 1, 2, 3, 4, 5, 6, 7, 8, 9, 10, 11 :: nat}"
  unfolding insert_iff empty_iff by presburger

lemma month_start_table:
  "month_start y 12 = days_in_year y" "i < 12 \<Longrightarrow> 28 \<le> month_len y i \<and> month_len y i \<le> 31"
  using days_in_year_range [of y]
  by (auto simp: month_start_def month_len_def month_days_def upt_rec dest!: month_table)

lemma month_start_mono: "i \<le> j \<Longrightarrow> j \<le> 12 \<Longrightarrow> month_start y i \<le> month_start y j"
proof (induction j rule: dec_induct)
  case (step j)
  then show ?case using month_start_table(2) [of j y] by (simp add: month_start_simps)
qed simp

lemma month_search_spec:
  assumes "month_search y (d - month_start y k) [k..<11] = (i, r)" "k \<le> 11" "month_start y k \<le> d" "d < days_in_year y"
  shows "i < 12 \<and> month_start y i + r = d \<and> 0 \<le> r \<and> r < month_len y i"
  using assms
proof (induction "11 - k" arbitrary: k)
  case 0
  then show ?case using month_start_simps(2) [of y 11] month_start_table(1) [of y] by auto
next
  case (Suc n)
  then have k: "k < 11" by simp
  then have u: "[k..<11] = k # [Suc k..<11]" by (simp add: upt_conv_Cons)
  show ?case
  proof (cases "d - month_start y k < month_len y k")
    case True
    then show ?thesis using Suc.prems k by (auto simp: u)
  next
    case False
    then show ?thesis using Suc.prems Suc.hyps(1) [of "Suc k"] Suc.hyps(2) k
      by (simp add: u month_start_simps diff_diff_eq)
  qed
qed

lemma month_unique:
  assumes "month_start y i + d = month_start y j + e" "0 \<le> d" "d < month_len y i" "0 \<le> e" "e < month_len y j" "i < 12" "j < 12"
  shows "i = j \<and> d = e"
proof -
  have "i = j"
    using month_start_mono [of "Suc i" j y] month_start_mono [of "Suc j" i y] month_start_simps(2) [of y i] month_start_simps(2) [of y j] assms
    by (cases i j rule: linorder_cases) auto
  then show ?thesis using assms by simp
qed

subsection \<open>Fields\<close>

definition valid_fields :: "int list \<Rightarrow> bool" where
  "valid_fields f \<longleftrightarrow> length f = 7 \<and> 0 \<le> f ! 1 \<and> f ! 1 < 12 \<and> 1 \<le> f ! 2 \<and> f ! 2 \<le> month_len (f ! 0) (nat (f ! 1)) \<and>
    0 \<le> f ! 3 \<and> f ! 3 < 24 \<and> 0 \<le> f ! 4 \<and> f ! 4 < 60 \<and> 0 \<le> f ! 5 \<and> f ! 5 < 60 \<and> 0 \<le> f ! 6 \<and> f ! 6 < 1000"

definition day_of :: "int list \<Rightarrow> int" where
  "day_of f = days_from_year (f ! 0) + month_start (f ! 0) (nat (f ! 1)) + f ! 2 - 1"

definition ms_of :: "int list \<Rightarrow> int" where
  "ms_of f = f ! 3 * 3600000 + f ! 4 * 60000 + f ! 5 * 1000 + f ! 6"

definition time_of :: "int list \<Rightarrow> int" where
  "time_of f = day_of f * 86400000 + ms_of f"

lemma ms_of_range: "valid_fields f \<Longrightarrow> 0 \<le> ms_of f \<and> ms_of f < 86400000"
  by (auto simp: valid_fields_def ms_of_def)

lemma time_of_div: "valid_fields f \<Longrightarrow> time_of f div 86400000 = day_of f \<and> time_of f mod 86400000 = ms_of f"
  using ms_of_range [of f] by (simp add: time_of_def)

lemma get_date_fields_some: "\<exists>f. get_date_fields tzoff (Some t) is_local force = Some f"
  by (simp add: get_date_fields_def Let_def split: prod.splits)

lemma get_date_fields_local:
  "get_date_fields tzoff (Some t) True force =
    map_option (\<lambda>f. f[8 := - tzoff t]) (get_date_fields tzoff (Some (t - tzoff t * 60000)) False force)"
  by (simp add: get_date_fields_def date_start_def Let_def split: prod.splits)

lemma get_date_fields_spec:
  assumes "get_date_fields tzoff (Some t) False force = Some f"
  shows "valid_fields (take 7 f) \<and> time_of (take 7 f) = t \<and> f ! 7 = (t div 86400000 + 4) mod 7 \<and> f ! 8 = 0 \<and> length f = 9"
proof -
  obtain y yd where y: "year_from_days (t div 86400000) = (y, yd)" by fastforce
  obtain i r where i: "month_search y yd [0..<11] = (i, r)" by fastforce
  note ys = year_from_days_spec [OF y]
  have mon: "i < 12 \<and> month_start y i + r = yd \<and> 0 \<le> r \<and> r < month_len y i"
    using month_search_spec [of y yd 0 i r] i ys by (simp add: month_start_simps)
  let ?h = "t mod 86400000"
  have h: "0 \<le> ?h" "?h < 86400000" by simp_all
  have eq: "f = [y, int i, r + 1, ?h div 1000 div 60 div 60, ?h div 1000 div 60 mod 60, ?h div 1000 mod 60, ?h mod 1000, (t div 86400000 + 4) mod 7, 0]"
    using assms y i
    by (simp add: get_date_fields_def date_start_def floor_div_eq sdiv_exact smod_nonneg pos_imp_zdiv_nonneg_iff Let_def)
  define hh mm ss ms where "hh = ?h div 1000 div 60 div 60" and "mm = ?h div 1000 div 60 mod 60" and
    "ss = ?h div 1000 mod 60" and "ms = ?h mod 1000"
  have h': "?h = hh * 3600000 + mm * 60000 + ss * 1000 + ms"
    using div_mult_mod_eq [of ?h 1000] div_mult_mod_eq [of "?h div 1000" 60] div_mult_mod_eq [of "?h div 1000 div 60" 60]
    unfolding hh_def mm_def ss_def ms_def by linarith
  have rr: "0 \<le> mm" "mm < 60" "0 \<le> ss" "ss < 60" "0 \<le> ms" "ms < 1000" by (simp_all add: mm_def ss_def ms_def)
  have "0 \<le> hh" using h(1) by (simp add: hh_def pos_imp_zdiv_nonneg_iff)
  moreover have "hh < 24" using h(2) h' rr by linarith
  moreover have "t = t div 86400000 * 86400000 + (hh * 3600000 + mm * 60000 + ss * 1000 + ms)"
    using div_mult_mod_eq [of t 86400000] h' by linarith
  moreover have "t div 86400000 = days_from_year y + month_start y i + (r + 1) - 1" using mon ys by linarith
  ultimately show ?thesis
    using mon rr unfolding eq hh_def [symmetric] mm_def [symmetric] ss_def [symmetric] ms_def [symmetric]
    by (simp add: valid_fields_def time_of_def day_of_def ms_of_def)
qed

lemma valid_month:
  assumes "valid_fields f"
  shows "nat (f ! 1) < 12" "0 \<le> month_start (f ! 0) (nat (f ! 1))"
    "month_start (f ! 0) (nat (f ! 1)) + month_len (f ! 0) (nat (f ! 1)) \<le> days_in_year (f ! 0)" "f ! 2 \<le> 31"
proof -
  show lt: "nat (f ! 1) < 12" using assms by (simp add: valid_fields_def nat_less_iff)
  show "0 \<le> month_start (f ! 0) (nat (f ! 1))"
    using month_start_mono [of 0 "nat (f ! 1)" "f ! 0"] lt by (simp add: month_start_simps)
  show "month_start (f ! 0) (nat (f ! 1)) + month_len (f ! 0) (nat (f ! 1)) \<le> days_in_year (f ! 0)"
    using month_start_mono [of "Suc (nat (f ! 1))" 12 "f ! 0"] lt by (simp add: month_start_simps month_start_table(1))
  show "f ! 2 \<le> 31"
    using month_start_table(2) [OF lt, of "f ! 0"] assms by (simp add: valid_fields_def)
qed

lemma digit_unique:
  assumes "(a :: int) * n + r = b * n + q" "0 \<le> r" "r < n" "0 \<le> q" "q < n"
  shows "a = b \<and> r = q"
proof -
  have "(a * n + r) div n = a" "(b * n + q) div n = b" using assms(2-5) by (simp_all add: add.commute)
  then show ?thesis using assms(1) by auto
qed

lemma ms_unique:
  assumes "valid_fields f" "valid_fields g" "ms_of f = ms_of g"
  shows "f ! 3 = g ! 3 \<and> f ! 4 = g ! 4 \<and> f ! 5 = g ! 5 \<and> f ! 6 = g ! 6"
proof -
  note v = assms(1,2) [unfolded valid_fields_def]
  have "f ! 3 * 3600 + f ! 4 * 60 + f ! 5 = g ! 3 * 3600 + g ! 4 * 60 + g ! 5 \<and> f ! 6 = g ! 6"
    using v assms(3) by (intro digit_unique [of _ 1000]) (simp_all add: ms_of_def)
  moreover from this have "f ! 3 * 60 + f ! 4 = g ! 3 * 60 + g ! 4 \<and> f ! 5 = g ! 5"
    using v by (intro digit_unique [of _ 60]) simp_all
  moreover from this have "f ! 3 = g ! 3 \<and> f ! 4 = g ! 4"
    using v by (intro digit_unique [of _ 60]) simp_all
  ultimately show ?thesis by blast
qed

lemma fields_unique:
  assumes "valid_fields f" "valid_fields g" "time_of f = time_of g"
  shows "f = g"
proof -
  have day: "day_of f = day_of g" and ms: "ms_of f = ms_of g"
    using time_of_div [OF assms(1)] time_of_div [OF assms(2)] assms(3) by auto
  note v = assms(1,2) [unfolded valid_fields_def]
  let ?d = "\<lambda>f. month_start (f ! 0) (nat (f ! 1)) + f ! 2 - 1"
  have r: "0 \<le> ?d h \<and> ?d h < days_in_year (h ! 0)" if "valid_fields h" for h
    using valid_month [OF that] that by (simp add: valid_fields_def)
  have "f ! 0 = g ! 0 \<and> ?d f = ?d g"
    using day r [OF assms(1)] r [OF assms(2)] by (intro year_unique) (simp_all add: day_of_def)
  then have y: "f ! 0 = g ! 0" and "?d f = ?d g" by auto
  then have "nat (f ! 1) = nat (g ! 1) \<and> f ! 2 - 1 = g ! 2 - 1"
    using v by (intro month_unique [of "g ! 0"]) (auto simp: nat_less_iff)
  then have md: "f ! 1 = g ! 1" "f ! 2 = g ! 2" using v by auto
  have "f ! i = g ! i" if "i < 7" for i
  proof -
    have "i \<in> {0, 1, 2, 3, 4, 5, 6}" using that unfolding insert_iff empty_iff by presburger
    then show ?thesis using y md ms_unique [OF assms(1,2) ms] by auto
  qed
  then show ?thesis using v by (intro nth_equalityI) simp_all
qed

lemma day_of_bound: "valid_fields f \<Longrightarrow> -271821 \<le> f ! 0 \<Longrightarrow> f ! 0 \<le> 275760 \<Longrightarrow>
  \<bar>days_from_year (f ! 0) + month_start (f ! 0) (nat (f ! 1)) + f ! 2\<bar> \<le> 100010000"
proof -
  assume v: "valid_fields f" "-271821 \<le> f ! 0" "f ! 0 \<le> 275760"
  have lo: "days_from_year (-271821) \<le> days_from_year (f ! 0)" and hi: "days_from_year (f ! 0) \<le> days_from_year 275760"
    using v by (auto intro: days_from_year_mono)
  have "days_from_year (-271821) \<ge> - 100000200" "days_from_year 275760 \<le> 100000000" by code_simp+
  moreover have "0 \<le> month_start (f ! 0) (nat (f ! 1))" "month_start (f ! 0) (nat (f ! 1)) \<le> 366" "1 \<le> f ! 2" "f ! 2 \<le> 31"
    using valid_month [OF v(1)] v(1) days_in_year_range(2) [of "f ! 0"] by (simp_all add: valid_fields_def)
  ultimately show ?thesis using lo hi by linarith
qed

lemma dbl_small: "\<bar>x\<bar> \<le> 9007199254740992 \<Longrightarrow> dbl x = Some x"
  by (simp add: dbl_def)

lemma make_time_valid:
  assumes "valid_fields f"
  shows "make_time f = Some (ms_of f)"
  using assms by (simp add: make_time_def ms_of_def valid_fields_def dbl_small)

lemma set_date_fields_spec:
  assumes "valid_fields f" "-271821 \<le> f ! 0" "f ! 0 \<le> 275760" "\<forall>t. \<bar>tzoff t\<bar> \<le> 1440"
  shows "set_date_fields tzoff f is_local =
    Some (time_clip (if is_local then time_of f + tzoff (time_of f) * 60000 else time_of f))"
proof -
  have m: "0 \<le> f ! 1" "f ! 1 < 12" using assms(1) by (auto simp: valid_fields_def)
  let ?d = "days_from_year (f ! 0) + month_start (f ! 0) (nat (f ! 1)) + f ! 2"
  have b: "\<bar>?d\<bar> \<le> 100010000" by (rule day_of_bound [OF assms(1-3)])
  then have b': "\<bar>day_of f\<bar> \<le> 100010001" by (simp add: day_of_def)
  have d: "dbl ?d = Some ?d" "dbl (?d - 1) = Some (day_of f)" "dbl (day_of f * 86400000) = Some (day_of f * 86400000)"
    using b b' by (simp_all add: dbl_small day_of_def [symmetric] abs_le_iff) (simp add: dbl_small day_of_def)
  have "dbl (time_of f) = Some (time_of f)" "dbl (time_of f + tzoff (time_of f) * 60000) = Some (time_of f + tzoff (time_of f) * 60000)"
    using b' ms_of_range [OF assms(1)] spec [OF assms(4), of "time_of f"]
    by (auto intro!: dbl_small simp: time_of_def abs_le_iff)
  then show ?thesis
    using m assms(2,3) d by (auto simp: set_date_fields_def floor12_def smod_nonneg month_loop_eq make_time_valid [OF assms(1)] dbl_small Let_def simp flip: time_of_def)
qed

lemma set_date_fields_cong: "(\<And>i. i < 7 \<Longrightarrow> f ! i = g ! i) \<Longrightarrow> set_date_fields tzoff f = set_date_fields tzoff g"
  by (simp add: set_date_fields_def make_time_def fun_eq_iff cong: if_cong)

lemma set_date_fields_take: "7 \<le> length f \<Longrightarrow> set_date_fields tzoff (take 7 f) = set_date_fields tzoff f"
  by (rule set_date_fields_cong) simp

text \<open>The years of the times of ECMAScript, with a day to spare.\<close>

lemma year_range:
  assumes "valid_fields f" "\<bar>time_of f\<bar> \<le> 8640000100000000"
  shows "-271821 \<le> f ! 0" "f ! 0 \<le> 275760"
proof -
  have "\<bar>day_of f\<bar> \<le> 100000003"
    using assms(2) ms_of_range [OF assms(1)] unfolding time_of_def abs_le_iff by linarith
  then have d: "- 100000002 \<le> days_from_year (f ! 0) + days_in_year (f ! 0)" "days_from_year (f ! 0) \<le> 100000003"
    using valid_month [OF assms(1)] assms(1) by (auto simp: day_of_def valid_fields_def abs_le_iff)
  have lo: "days_from_year (-271821) < - 100000002" and hi: "100000003 < days_from_year 275761" by code_simp+
  show "-271821 \<le> f ! 0"
    using days_from_year_mono [of "f ! 0 + 1" "-271821"] days_from_year_Suc [of "f ! 0"] d(1) lo by linarith
  show "f ! 0 \<le> 275760" using days_from_year_mono [of 275761 "f ! 0"] d(2) hi by linarith
qed

lemma set_of_get:
  assumes "get_date_fields tzoff (Some t) False force = Some f" "\<bar>t\<bar> \<le> 8640000100000000" "\<forall>t. \<bar>tzoff t\<bar> \<le> 1440"
  shows "set_date_fields tzoff f is_local = Some (time_clip (if is_local then t + tzoff t * 60000 else t))"
proof -
  note g = get_date_fields_spec [OF assms(1)]
  have v: "valid_fields (take 7 f)" "time_of (take 7 f) = t" "7 \<le> length f" using g by auto
  show ?thesis
    using set_date_fields_spec [OF v(1) year_range [OF v(1)] assms(3), of is_local] assms(2) v(2)
    by (simp add: set_date_fields_take [OF v(3)])
qed

lemma get_of_time:
  assumes "valid_fields f"
  shows "get_date_fields tzoff (Some (time_of f)) False force = Some (f @ [(day_of f + 4) mod 7, 0])"
proof -
  obtain g where g: "get_date_fields tzoff (Some (time_of f)) False force = Some g"
    using get_date_fields_some by blast
  note s = get_date_fields_spec [OF g]
  have "take 7 g = f" using s assms by (intro fields_unique) auto
  moreover have "drop 7 g = [g ! 7, g ! 8]" using s by (simp add: list_eq_iff_nth_eq less_Suc_eq numeral_2_eq_2)
  ultimately have "g = f @ [g ! 7, g ! 8]" by (metis append_take_drop_id)
  then show ?thesis using g s time_of_div [OF assms] by simp
qed

lemma div_bounds: "0 < n \<Longrightarrow> n * (x div n) \<le> x \<and> x \<le> n * (x div n) + n - 1" for n x :: int
  using mult_div_mod_eq [of n x] pos_mod_sign [of n x] pos_mod_bound [of n x] by linarith

section \<open>The theorems\<close>

text \<open>C33 Taking a time apart and putting the fields together gives the time, for every time value of
ECMAScript, in UTC, and in local time when the time zone offset is the same at the local time. No
operation on \<^verbatim>\<open>double\<close> rounds.\<close>

theorem date_fields_round_trip:
  assumes "\<bar>t\<bar> \<le> 8640000000000000" "\<forall>t. \<bar>tzoff t\<bar> \<le> 1440" "is_local \<longrightarrow> tzoff (t - tzoff t * 60000) = tzoff t"
  shows "\<exists>f. get_date_fields tzoff (Some t) is_local force = Some f \<and> set_date_fields tzoff f is_local = Some (Some t)"
proof (cases is_local)
  case False
  obtain f where f: "get_date_fields tzoff (Some t) False force = Some f" using get_date_fields_some by blast
  then show ?thesis using set_of_get [OF f _ assms(2), of False] assms(1) False by (auto simp: time_clip_def)
next
  case True
  let ?d = "t - tzoff t * 60000"
  obtain f where f: "get_date_fields tzoff (Some ?d) False force = Some f" using get_date_fields_some by blast
  have "\<bar>?d\<bar> \<le> 8640000100000000" using assms(1) spec [OF assms(2), of t] by (simp add: abs_le_iff)
  then have "set_date_fields tzoff f True = Some (Some t)"
    using set_of_get [OF f _ assms(2), of True] assms(1,3) True by (auto simp: time_clip_def)
  moreover have "set_date_fields tzoff (f[8 := - tzoff t]) True = set_date_fields tzoff f True"
    by (simp add: set_date_fields_cong [of "f[8 := - tzoff t]" f])
  ultimately show ?thesis using f True by (simp add: get_date_fields_local)
qed

theorem date_fields_round_trip_witness:
  "\<exists>f. get_date_fields (\<lambda>_. -60) (Some 1514934286927) True False = Some f \<and>
    set_date_fields (\<lambda>_. -60) f True = Some (Some 1514934286927)"
  by (rule date_fields_round_trip) simp_all

text \<open>C34 A UTC setter with finite arguments replaces the fields it names and keeps the others. When the new fields
are a valid date in the range of time values, so that nothing is normalised, the setter gives the time of
that date and the getters then read exactly the new fields.\<close>

theorem set_then_get_date_fields:
  assumes "get_date_fields tzoff (Some t) False (drop_bit 8 magic AND 0x0F = 0) = Some f" "magic AND 0x0F = 0"
    "args \<noteq> []" "None \<notin> set args" "g = put_args f (drop_bit 8 magic AND 0x0F) (take ((drop_bit 4 magic AND 0x0F) - (drop_bit 8 magic AND 0x0F)) args)"
    "valid_fields (take 7 g)" "\<bar>time_of (take 7 g)\<bar> \<le> 8640000000000000"
  shows "set_date_field tzoff (Some t) args magic = Some (Some (time_of (take 7 g))) \<and>
    (\<forall>n<7. get_date_field tzoff (Some (time_of (take 7 g))) (push_bit 4 n) = Some (g ! n))"
proof -
  let ?z = "\<lambda>_ :: int. 0 :: int"
  have len: "length (put_args f i as) = length f" for f i as by (induction f i as rule: put_args.induct) auto
  have "7 \<le> length g" using get_date_fields_spec [OF assms(1)] by (simp add: assms(5) len)
  have no_tz: "set_date_fields tzoff h False = set_date_fields ?z h False" for h
    by (simp add: set_date_fields_def cong: if_cong)
  have "time_clip (time_of (take 7 g)) = Some (time_of (take 7 g))" using assms(7) by (simp add: time_clip_def abs_le_iff)
  then have "set_date_fields ?z (take 7 g) False = Some (Some (time_of (take 7 g)))"
    using set_date_fields_spec [OF assms(6) year_range [OF assms(6)], of ?z False] assms(7) by simp
  moreover have "None \<notin> set (take n args)" for n using assms(4) by (meson in_set_takeD)
  ultimately have "set_date_field tzoff (Some t) args magic = Some (Some (time_of (take 7 g)))"
    using assms(1-3) by (simp add: set_date_field_def Let_def no_tz set_date_fields_take [OF \<open>7 \<le> length g\<close>] flip: assms(5))
  moreover have "get_date_field tzoff (Some (time_of (take 7 g))) (push_bit 4 n) = Some (g ! n)" if n: "n < 7" for n
  proof -
    have "\<forall>n\<in>set [0..<7]. push_bit 4 n AND 0x0F = (0::nat) \<and> drop_bit 4 (push_bit 4 n) AND 0x0F = n \<and> push_bit 4 n AND 0x100 = 0"
      by code_simp
    moreover have "n \<in> set [0..<7]" using n by simp
    ultimately have bits: "push_bit 4 n AND 0x0F = 0" "drop_bit 4 (push_bit 4 n) AND 0x0F = n" "push_bit 4 n AND 0x100 = 0"
      by blast+
    show ?thesis unfolding get_date_field_def Let_def bits
      using get_of_time [OF assms(6)] \<open>7 \<le> length g\<close> n by (simp add: nth_append)
  qed
  ultimately show ?thesis by blast
qed

text \<open>On 2 January 2018, the month is set to May.\<close>

theorem set_then_get_date_fields_witness:
  "set_date_field (\<lambda>_. 0) (Some 1514934286927) [Some 4] 0x130 = Some (Some 1525302286927) \<and>
    get_date_field (\<lambda>_. 0) (Some 1525302286927) 0x10 = Some 4"
proof -
  have f: "get_date_fields (\<lambda>_. 0) (Some 1514934286927) False (drop_bit 8 (0x130 :: nat) AND 0x0F = 0) =
    Some [2018, 0, 2, 23, 4, 46, 927, 2, 0]" by code_simp
  have m: "(0x130 :: nat) AND 0x0F = 0" by code_simp
  have g: "[2018, 4, 2, 23, 4, 46, 927, 2, 0] = put_args [2018, 0, 2, 23, 4, 46, 927, 2, 0] (drop_bit 8 (0x130 :: nat) AND 0x0F)
    (take ((drop_bit 4 (0x130 :: nat) AND 0x0F) - (drop_bit 8 (0x130 :: nat) AND 0x0F)) [Some 4])" by code_simp
  have v: "valid_fields (take 7 [2018, 4, 2, 23, 4, 46, 927, 2, 0])" by code_simp
  have t: "time_of (take 7 [2018, 4, 2, 23, 4, 46, 927, 2, 0]) = 1525302286927" by code_simp
  have r: "\<bar>time_of (take 7 [2018, 4, 2, 23, 4, 46, 927, 2, 0])\<bar> \<le> 8640000000000000" unfolding t by simp
  have n: "push_bit 4 1 = (0x10 :: nat)" by code_simp
  note th = set_then_get_date_fields [OF f m _ _ g v r, unfolded t]
  show ?thesis using th spec [OF conjunct2 [OF th], of 1] n by simp
qed

text \<open>The first approximation of the year of a day is at most one off, so that the loop that corrects it
ends after at most two steps; the result is the year with that day in it and the day's number in the year.\<close>

theorem year_from_days_approximation:
  assumes "year_from_days d = (y, d')"
  shows "days_from_year y + d' = d \<and> 0 \<le> d' \<and> d' < days_in_year y \<and> \<bar>y - (floor_div (d * 10000) 3652425 + 1970)\<bar> \<le> 1"
proof -
  define k where "k = d * 10000 div 3652425"
  have k: "146097 * k \<le> 400 * d" "400 * d < 146097 * (k + 1)"
  proof -
    define r where "r = d * 10000 mod 3652425"
    have "0 \<le> r" "r < 3652425" by (simp_all add: r_def)
    moreover have "d * 10000 = k * 3652425 + r" by (simp only: k_def r_def div_mult_mod_eq)
    ultimately show "146097 * k \<le> 400 * d" "400 * d < 146097 * (k + 1)" by simp_all
  qed
  have approx: "146097 * (z - 1970) - 506 \<le> 400 * days_from_year z \<and> 400 * days_from_year z \<le> 146097 * (z - 1970) + 589" for z
    using div_bounds [of 4 "z - 1"] div_bounds [of 100 "z - 1"] div_bounds [of 400 "z - 1"]
    unfolding days_from_year_alt by simp
  have y: "days_from_year y + d' = d" "0 \<le> d'" "d' < days_in_year y" using year_from_days_spec [OF assms] by auto
  have "146097 * (y - 1970) - 506 \<le> 400 * d" using approx [of y] y(1,2) by linarith
  moreover have "400 * d \<le> 146097 * (y + 1 - 1970) + 589" using approx [of "y + 1"] days_from_year_Suc [of y] y by linarith
  ultimately have "\<bar>y - (k + 1970)\<bar> \<le> 1" using k by (auto simp: abs_le_iff)
  then show ?thesis using y by (simp add: floor_div_eq k_def)
qed

theorem year_from_days_approximation_witness:
  "year_from_days 17533 = (2018, 1) \<and> \<bar>2018 - (floor_div (17533 * 10000) 3652425 + 1970)\<bar> \<le> 1"
proof -
  have y: "year_from_days 17533 = (2018, 1)" by code_simp
  show ?thesis using year_from_days_approximation [OF y] y by simp
qed

end
