(* ===== verification/Date_String.thy ===== *)
theory Date_String
  imports Date_Time
begin

text \<open>The strings of \<^verbatim>\<open>Date\<close> (\<^verbatim>\<open>quickjs.c\<close>): \<^verbatim>\<open>get_date_string\<close> prints a time in four formats
and \<^verbatim>\<open>js_Date_parse\<close> reads one, first in the format of \<^verbatim>\<open>toISOString\<close> and then in any other.

The parser moves a position over a buffer of bytes. Since it never moves back, a position is the rest
of the buffer, and reading at the end of it, outside the buffer, is \<open>None\<close>. A function that returns
\<^verbatim>\<open>BOOL\<close> gives \<open>Some None\<close> for \<^verbatim>\<open>FALSE\<close> and \<open>Some (Some x)\<close>, with the values that it writes, for
\<^verbatim>\<open>TRUE\<close>. The loop over the words of the other formats is a partial function, so that the theorem that
the parser never gives \<open>None\<close> says that it stays in the buffer and that it ends.\<close>

section \<open>Definitions\<close>

subsection \<open>Printing\<close>

type_synonym cursor = "u8 list"

fun dec_digits :: "nat \<Rightarrow> u8 list" where
  "dec_digits n = (if n < 10 then [] else dec_digits (n div 10)) @ [48 + word_of_nat (n mod 10)]"

text \<open>\<^verbatim>\<open>%0wd\<close>, and \<^verbatim>\<open>%+0wd\<close> with \<open>with_plus\<close>.\<close>

definition fmt_int :: "bool \<Rightarrow> nat \<Rightarrow> int \<Rightarrow> u8 list" where
  "fmt_int with_plus w x =
    (let sign = (if x < 0 then [45] else if with_plus then [43] else []);
         ds = dec_digits (nat \<bar>x\<bar>)
     in sign @ replicate (w - length sign - length ds) 48 @ ds)"

definition month_names :: "u8 list" where
  "month_names = ascii ''JanFebMarAprMayJunJulAugSepOctNovDec''"

definition day_names :: "u8 list" where
  "day_names = ascii ''SunMonTueWedThuFriSat''"

definition name3 :: "u8 list \<Rightarrow> int \<Rightarrow> u8 list" where
  "name3 names i = take 3 (drop (nat i * 3) names)"

definition date_part :: "nat \<Rightarrow> nat \<Rightarrow> int list \<Rightarrow> u8 list" where
  "date_part fmt part f =
    (let y = f ! 0; mon = f ! 1; d = f ! 2; wd = f ! 7; yw = (if y < 0 then 5 else 4) in
     if fmt = 0 then
       name3 day_names wd @ ascii '', '' @ fmt_int False 2 d @ ascii '' '' @ name3 month_names mon @ ascii '' ''
         @ fmt_int False yw y @ ascii '' ''
     else if fmt = 1 then
       name3 day_names wd @ ascii '' '' @ name3 month_names mon @ ascii '' '' @ fmt_int False 2 d @ ascii '' ''
         @ fmt_int False yw y @ (if part = 3 then ascii '' '' else [])
     else if fmt = 2 then
       (if 0 \<le> y \<and> y \<le> 9999 then fmt_int False 4 y else fmt_int True 7 y)
         @ ascii ''-'' @ fmt_int False 2 (mon + 1) @ ascii ''-'' @ fmt_int False 2 d @ ascii ''T''
     else if fmt = 3 then
       fmt_int False 2 (mon + 1) @ ascii ''/'' @ fmt_int False 2 d @ ascii ''/'' @ fmt_int False yw y
         @ (if part = 3 then ascii '', '' else [])
     else [])"

definition time_part :: "nat \<Rightarrow> int list \<Rightarrow> u8 list" where
  "time_part fmt f =
    (let h = f ! 3; m = f ! 4; s = f ! 5; ms = f ! 6; tz = f ! 8 in
     if fmt = 0 then
       fmt_int False 2 h @ ascii '':'' @ fmt_int False 2 m @ ascii '':'' @ fmt_int False 2 s @ ascii '' GMT''
     else if fmt = 1 then
       fmt_int False 2 h @ ascii '':'' @ fmt_int False 2 m @ ascii '':'' @ fmt_int False 2 s @ ascii '' GMT''
         @ (if tz < 0 then ascii ''-'' else ascii ''+'')
         @ fmt_int False 2 (\<bar>tz\<bar> sdiv 60) @ fmt_int False 2 (\<bar>tz\<bar> smod 60)
     else if fmt = 2 then
       fmt_int False 2 h @ ascii '':'' @ fmt_int False 2 m @ ascii '':'' @ fmt_int False 2 s @ ascii ''.''
         @ fmt_int False 3 ms @ ascii ''Z''
     else if fmt = 3 then
       fmt_int False 2 ((h + 11) smod 12 + 1) @ ascii '':'' @ fmt_int False 2 m @ ascii '':'' @ fmt_int False 2 s
         @ ascii '' '' @ (if h < 12 then ascii ''A'' else ascii ''P'') @ ascii ''M''
     else [])"

text \<open>The error is the \<^verbatim>\<open>RangeError\<close> of \<^verbatim>\<open>toISOString\<close>.\<close>

definition get_date_string :: "(int \<Rightarrow> int) \<Rightarrow> int option \<Rightarrow> nat \<Rightarrow> unit + u8 list" where
  "get_date_string tzoff dval magic =
    (let fmt = drop_bit 4 magic AND 0x0F; part = magic AND 0x0F in
     case get_date_fields tzoff dval (fmt AND 1 \<noteq> 0) False of
       None \<Rightarrow> if fmt = 2 then Inl () else Inr (ascii ''Invalid Date'')
     | Some f \<Rightarrow>
         Inr ((if part AND 1 \<noteq> 0 then date_part fmt part f else [])
           @ (if part AND 2 \<noteq> 0 then time_part fmt f else [])))"

subsection \<open>The words of the parser\<close>

definition peek :: "cursor \<Rightarrow> u8 option" where
  "peek cur = load cur 0"

definition string_skip_char :: "cursor \<Rightarrow> u8 \<Rightarrow> (bool \<times> cursor) option" where
  "string_skip_char cur c = do { x \<leftarrow> peek cur; Some (if x = c then (True, tl cur) else (False, cur)) }"

fun string_skip_while :: "(u8 \<Rightarrow> bool) \<Rightarrow> cursor \<Rightarrow> (u8 \<times> cursor) option" where
  "string_skip_while P [] = None"
| "string_skip_while P (c # cur) = (if P c then string_skip_while P cur else Some (c, c # cur))"

definition string_skip_spaces :: "cursor \<Rightarrow> (u8 \<times> cursor) option" where
  "string_skip_spaces = string_skip_while (\<lambda>c. c = 32)"

definition string_skip_separators :: "cursor \<Rightarrow> (u8 \<times> cursor) option" where
  "string_skip_separators = string_skip_while (\<lambda>c. c = 45 \<or> c = 47 \<or> c = 46 \<or> c = 44)"

text \<open>\<^verbatim>\<open>strchr\<close> also finds the terminator of the list.\<close>

definition string_skip_until :: "cursor \<Rightarrow> u8 list \<Rightarrow> (u8 \<times> cursor) option" where
  "string_skip_until cur stoplist = string_skip_while (\<lambda>c. c \<notin> set (stoplist @ [0])) cur"

fun digits_loop :: "nat \<Rightarrow> nat \<Rightarrow> int \<Rightarrow> cursor \<Rightarrow> (int \<times> nat \<times> cursor) option option" where
  "digits_loop max_digits n v [] = None"
| "digits_loop max_digits n v (c # cur) =
    (if 48 \<le> c \<and> c \<le> 57 then
       if v \<ge> 100000000 then Some None
       else if Suc n = max_digits then Some (Some (v * 10 + uint c - 48, Suc n, cur))
       else digits_loop max_digits (Suc n) (v * 10 + uint c - 48) cur
     else Some (Some (v, n, c # cur)))"

definition string_get_digits :: "cursor \<Rightarrow> nat \<Rightarrow> nat \<Rightarrow> (int \<times> cursor) option option" where
  "string_get_digits cur min_digits max_digits =
    do {
      r \<leftarrow> digits_loop max_digits 0 0 cur;
      Some (case r of None \<Rightarrow> None | Some (v, n, cur') \<Rightarrow> if n < min_digits then None else Some (v, cur'))
    }"

fun ms_loop :: "nat \<Rightarrow> int \<Rightarrow> int \<Rightarrow> cursor \<Rightarrow> (int \<times> nat \<times> cursor) option" where
  "ms_loop n mul ms [] = None"
| "ms_loop n mul ms (c # cur) =
    (if 48 \<le> c \<and> c \<le> 57 then
       if Suc n = 9 then Some (ms + (uint c - 48) * mul, Suc n, cur)
       else ms_loop (Suc n) (mul sdiv 10) (ms + (uint c - 48) * mul) cur
     else Some (ms, n, c # cur))"

text \<open>The second argument is the value of the field before the call.\<close>

definition string_get_milliseconds :: "cursor \<Rightarrow> int \<Rightarrow> (int \<times> cursor) option" where
  "string_get_milliseconds cur val0 =
    do {
      c \<leftarrow> peek cur;
      if c = 46 \<or> c = 44 then do {
        (ms, n, cur') \<leftarrow> ms_loop 0 100 0 (tl cur);
        Some (if n > 0 then (ms, cur') else (val0, cur))
      } else Some (val0, cur)
    }"

definition upper_ascii :: "u8 \<Rightarrow> u8" where
  "upper_ascii c = (if 97 \<le> c \<and> c \<le> 122 then c - 97 + 65 else c)"

fun tz_shrink :: "nat \<Rightarrow> int \<Rightarrow> nat \<times> int" where
  "tz_shrink n hh = (if n > 4 then tz_shrink (n - 2) (hh sdiv 100) else (n, hh))"

definition tz_value :: "u8 \<Rightarrow> int \<Rightarrow> int \<Rightarrow> cursor \<Rightarrow> (int \<times> cursor) option" where
  "tz_value sg hh mm cur =
    (if hh > 23 \<or> mm > 59 then None
     else Some (if sg \<noteq> 43 then - (hh * 60 + mm) else hh * 60 + mm, cur))"

definition string_get_tzoffset :: "cursor \<Rightarrow> bool \<Rightarrow> (int \<times> cursor) option option" where
  "string_get_tzoffset cur strict =
    do {
      sg \<leftarrow> peek cur;
      if sg = 43 \<or> sg = 45 then do {
        r \<leftarrow> string_get_digits (tl cur) 1 0;
        case r of
          None \<Rightarrow> Some None
        | Some (hh, cur1) \<Rightarrow>
          let n = length (tl cur) - length cur1 in
          if strict \<and> n \<noteq> 2 \<and> n \<noteq> 4 then Some None
          else
            let (n, hh) = tz_shrink n hh in
            if n > 2 then Some (tz_value sg (hh sdiv 100) (hh smod 100) cur1)
            else do {
              (colon, cur2) \<leftarrow> string_skip_char cur1 58;
              if colon then do {
                r \<leftarrow> string_get_digits cur2 2 2;
                Some (case r of None \<Rightarrow> None | Some (mm, cur3) \<Rightarrow> tz_value sg hh mm cur3)
              } else Some (tz_value sg hh 0 cur2)
            }
      } else Some (if sg \<noteq> 90 then None else Some (0, tl cur))
    }"

fun string_match :: "cursor \<Rightarrow> u8 list \<Rightarrow> (bool \<times> cursor) option" where
  "string_match cur [] = Some (True, cur)"
| "string_match cur (x # xs) =
    do {
      c \<leftarrow> peek cur;
      if upper_ascii c \<noteq> upper_ascii x then Some (False, cur)
      else do { (ok, cur') \<leftarrow> string_match (tl cur) xs; Some (if ok then (True, cur') else (False, cur)) }
    }"

text \<open>\<^verbatim>\<open>find_abbrev\<close> compares three bytes with every name in turn.\<close>

fun find_abbrev :: "cursor \<Rightarrow> u8 list \<Rightarrow> nat list \<Rightarrow> nat option option" where
  "find_abbrev cur names [] = Some None"
| "find_abbrev cur names (n # ns) =
    do {
      (ok, _) \<leftarrow> string_match cur (name3 names (int n));
      if ok then Some (Some n) else find_abbrev cur names ns
    }"

definition string_get_month :: "cursor \<Rightarrow> (int \<times> cursor) option option" where
  "string_get_month cur =
    do {
      r \<leftarrow> find_abbrev cur month_names [0..<12];
      Some (case r of None \<Rightarrow> None | Some n \<Rightarrow> Some (int n + 1, drop 3 cur))
    }"

definition js_tzabbr :: "(u8 list \<times> int) list" where
  "js_tzabbr =
    [(ascii ''GMT'', 0), (ascii ''UTC'', 0), (ascii ''UT'', 0), (ascii ''Z'', 0), (ascii ''EDT'', -4 * 60),
     (ascii ''EST'', -5 * 60), (ascii ''CDT'', -5 * 60), (ascii ''CST'', -6 * 60), (ascii ''MDT'', -6 * 60),
     (ascii ''MST'', -7 * 60), (ascii ''PDT'', -7 * 60), (ascii ''PST'', -8 * 60), (ascii ''WET'', 0 * 60),
     (ascii ''WEST'', 1 * 60), (ascii ''CET'', 1 * 60), (ascii ''CEST'', 2 * 60), (ascii ''EET'', 2 * 60),
     (ascii ''EEST'', 3 * 60)]"

fun tzabbr_loop :: "cursor \<Rightarrow> (u8 list \<times> int) list \<Rightarrow> (int \<times> cursor) option option" where
  "tzabbr_loop cur [] = Some None"
| "tzabbr_loop cur ((name, off) # rest) =
    do {
      (ok, cur') \<leftarrow> string_match cur name;
      if ok then Some (Some (off, cur')) else tzabbr_loop cur rest
    }"

definition string_get_tzabbr :: "cursor \<Rightarrow> (int \<times> cursor) option option" where
  "string_get_tzabbr cur = tzabbr_loop cur js_tzabbr"

subsection \<open>The format of \<^verbatim>\<open>toISOString\<close>\<close>

definition iso_year :: "cursor \<Rightarrow> (int \<times> cursor) option option" where
  "iso_year cur =
    do {
      sg \<leftarrow> peek cur;
      if sg = 45 \<or> sg = 43 then do {
        r \<leftarrow> string_get_digits (tl cur) 6 6;
        Some (case r of
          None \<Rightarrow> None
        | Some (y, cur1) \<Rightarrow> if sg = 45 then (if y = 0 then None else Some (- y, cur1)) else Some (y, cur1))
      } else string_get_digits cur 4 4
    }"

definition iso_day :: "int list \<Rightarrow> cursor \<Rightarrow> (int list \<times> cursor) option option" where
  "iso_day f cur =
    do {
      (dash, cur) \<leftarrow> string_skip_char cur 45;
      if dash then do {
        r \<leftarrow> string_get_digits cur 2 2;
        Some (case r of None \<Rightarrow> None | Some (d, cur) \<Rightarrow> if d < 1 then None else Some (f[2 := d], cur))
      } else Some (Some (f, cur))
    }"

definition iso_month :: "int list \<Rightarrow> cursor \<Rightarrow> (int list \<times> cursor) option option" where
  "iso_month f cur =
    do {
      (dash, cur) \<leftarrow> string_skip_char cur 45;
      if dash then do {
        r \<leftarrow> string_get_digits cur 2 2;
        case r of
          None \<Rightarrow> Some None
        | Some (m, cur) \<Rightarrow> if m < 1 then Some None else iso_day (f[1 := m - 1]) cur
      } else Some (Some (f, cur))
    }"

text \<open>After the \<^verbatim>\<open>T\<close>: hours and minutes, or \<open>Some None\<close>, which rejects the string unconditionally.\<close>

definition iso_hour_minute :: "int list \<Rightarrow> cursor \<Rightarrow> (int list \<times> cursor) option option" where
  "iso_hour_minute f cur =
    do {
      r \<leftarrow> string_get_digits cur 2 2;
      case r of
        None \<Rightarrow> Some None
      | Some (h, cur) \<Rightarrow> do {
          (colon, cur) \<leftarrow> string_skip_char cur 58;
          if colon then do {
            r \<leftarrow> string_get_digits cur 2 2;
            Some (map_option (\<lambda>(m, cur). (f[3 := h, 4 := m], cur)) r)
          } else Some None
        }
    }"

definition iso_seconds :: "int list \<Rightarrow> cursor \<Rightarrow> (int list \<times> cursor) option option" where
  "iso_seconds f cur =
    do {
      (colon, cur) \<leftarrow> string_skip_char cur 58;
      if colon then do {
        r \<leftarrow> string_get_digits cur 2 2;
        case r of
          None \<Rightarrow> Some None
        | Some (s, cur) \<Rightarrow> do {
            (ms, cur) \<leftarrow> string_get_milliseconds cur (f ! 6);
            Some (Some (f[5 := s, 6 := ms], cur))
          }
      } else Some (Some (f, cur))
    }"

definition iso_zone :: "int list \<Rightarrow> bool \<Rightarrow> cursor \<Rightarrow> (int list \<times> bool) option option" where
  "iso_zone f is_local cur =
    do {
      c \<leftarrow> peek cur;
      if c \<noteq> 0 then do {
        r \<leftarrow> string_get_tzoffset cur True;
        case r of
          None \<Rightarrow> Some None
        | Some (tz, cur) \<Rightarrow> do { c \<leftarrow> peek cur; Some (if c = 0 then Some (f[8 := tz], False) else None) }
      } else Some (Some (f, is_local))
    }"

definition js_date_parse_isostring :: "cursor \<Rightarrow> (int list \<times> bool) option option" where
  "js_date_parse_isostring sp =
    do {
      r \<leftarrow> iso_year sp;
      case r of None \<Rightarrow> Some None | Some (y, cur) \<Rightarrow> do {
        r \<leftarrow> iso_month [y, 0, 1, 0, 0, 0, 0, 0, 0] cur;
        case r of None \<Rightarrow> Some None | Some (f, cur) \<Rightarrow> do {
          (is_t, cur) \<leftarrow> string_skip_char cur 84;
          if is_t then do {
            r \<leftarrow> iso_hour_minute f cur;
            case r of None \<Rightarrow> Some (Some (f[3 := 100], True)) | Some (f, cur) \<Rightarrow> do {
              r \<leftarrow> iso_seconds f cur;
              case r of None \<Rightarrow> Some None | Some (f, cur) \<Rightarrow> iso_zone f True cur
            }
          } else iso_zone f False cur
        }
      }
    }"

subsection \<open>The other formats\<close>

record other_state =
  os_fields :: "int list"
  os_local :: bool
  os_num :: "int list"
  has_year :: bool
  has_mon :: bool
  has_time :: bool

definition century :: "int \<Rightarrow> int" where
  "century v = v + of_bool (v < 100) * 1900 + of_bool (v < 50) * 100"

type_synonym other_result = "(other_state \<times> cursor) option option"

definition set_field :: "nat \<Rightarrow> int \<Rightarrow> other_state \<Rightarrow> other_state" where
  "set_field i v st = st\<lparr>os_fields := (os_fields st)[i := v]\<rparr>"

definition other_sign :: "other_state \<Rightarrow> u8 \<Rightarrow> cursor \<Rightarrow> other_result" where
  "other_sign st c cur =
    do {
      r \<leftarrow> (if has_time st then string_get_tzoffset cur False else Some None);
      case r of
        Some (tz, cur) \<Rightarrow> Some (Some ((set_field 8 tz st)\<lparr>os_local := False\<rparr>, cur))
      | None \<Rightarrow> do {
          r \<leftarrow> string_get_digits (tl cur) 1 0;
          Some (case r of
            None \<Rightarrow> Some (st, tl cur)
          | Some (v, cur) \<Rightarrow>
              if c = 45 \<and> v = 0 then None
              else Some ((set_field 0 (if c = 45 then - v else v) st)\<lparr>has_year := True\<rparr>, cur))
        }
    }"

definition other_time :: "other_state \<Rightarrow> int \<Rightarrow> cursor \<Rightarrow> other_result" where
  "other_time st v cur =
    do {
      r \<leftarrow> string_get_digits cur 1 2;
      case r of
        None \<Rightarrow> Some None
      | Some (m, cur) \<Rightarrow> do {
          let st = (set_field 4 m (set_field 3 v st));
          (colon, cur) \<leftarrow> string_skip_char cur 58;
          if colon then do {
            r \<leftarrow> string_get_digits cur 1 2;
            case r of
              None \<Rightarrow> Some None
            | Some (s, cur) \<Rightarrow> do {
                (ms, cur) \<leftarrow> string_get_milliseconds cur (os_fields st ! 6);
                Some (Some ((set_field 6 ms (set_field 5 s st))\<lparr>has_time := True\<rparr>, cur))
              }
          } else Some (Some (st\<lparr>has_time := True\<rparr>, cur))
        }
    }"

definition other_number :: "other_state \<Rightarrow> int \<Rightarrow> nat \<Rightarrow> other_state option" where
  "other_number st v n =
    (if n > 2 then Some ((set_field 0 v st)\<lparr>has_year := True\<rparr>)
     else if v < 1 \<or> v > 31 then Some ((set_field 0 (century v) st)\<lparr>has_year := True\<rparr>)
     else if length (os_num st) = 3 then None
     else Some (st\<lparr>os_num := os_num st @ [v]\<rparr>))"

fun skip_paren :: "int \<Rightarrow> cursor \<Rightarrow> (int \<times> cursor) option" where
  "skip_paren level [] = None"
| "skip_paren level (c # cur) =
    (if c = 0 then Some (level, c # cur)
     else let level = level + of_bool (c = 40) - of_bool (c = 41) in
       if level = 0 then Some (level, cur) else skip_paren level cur)"

text \<open>The separators that every branch but those with \<^verbatim>\<open>continue\<close> skips.\<close>

definition then_separators :: "other_result \<Rightarrow> other_result" where
  "then_separators res =
    do {
      r \<leftarrow> res;
      case r of
        None \<Rightarrow> Some None
      | Some (st, cur) \<Rightarrow> do { (_, cur) \<leftarrow> string_skip_separators cur; Some (Some (st, cur)) }
    }"

definition other_word :: "other_state \<Rightarrow> u8 \<Rightarrow> cursor \<Rightarrow> other_result" where
  "other_word st c cur =
    (if c = 40 then do {
       (level, cur) \<leftarrow> skip_paren 0 cur;
       Some (if level > 0 then None else Some (st, cur))
     }
     else if c = 41 then Some None
     else if has_year st \<or> has_mon st \<or> has_time st \<or> os_num st \<noteq> [] then Some None
     else do { (_, cur) \<leftarrow> string_skip_until cur (ascii '' -/(''); Some (Some (st, cur)) })"

definition other_name :: "other_state \<Rightarrow> u8 \<Rightarrow> cursor \<Rightarrow> other_result" where
  "other_name st c cur =
    do {
      (pm, cur1) \<leftarrow> (if has_time st then string_match cur (ascii ''PM'') else Some (False, cur));
      if pm then Some (Some (if os_fields st ! 3 < 12 then set_field 3 (os_fields st ! 3 + 12) st else st, cur1))
      else do {
        (am, cur1) \<leftarrow> (if has_time st then string_match cur (ascii ''AM'') else Some (False, cur));
        if am then Some (Some (if os_fields st ! 3 = 12 then set_field 3 (os_fields st ! 3 - 12) st else st, cur1))
        else do {
          r \<leftarrow> string_get_tzabbr cur;
          case r of
            Some (tz, cur1) \<Rightarrow> Some (Some ((set_field 8 tz st)\<lparr>os_local := False\<rparr>, cur1))
          | None \<Rightarrow> then_separators (other_word st c cur)
        }
      }
    }"

definition other_step :: "other_state \<Rightarrow> u8 \<Rightarrow> cursor \<Rightarrow> other_result" where
  "other_step st c cur =
    (if c = 43 \<or> c = 45 then then_separators (other_sign st c cur)
     else do {
       r \<leftarrow> string_get_digits cur 1 0;
       case r of
         Some (v, cur1) \<Rightarrow> do {
           (colon, cur2) \<leftarrow> string_skip_char cur1 58;
           then_separators
             (if colon then other_time st v cur2
              else Some (map_option (\<lambda>st. (st, cur2)) (other_number st v (length cur - length cur1))))
         }
       | None \<Rightarrow> do {
           r \<leftarrow> string_get_month cur;
           case r of
             Some (m, cur1) \<Rightarrow> do {
               (_, cur2) \<leftarrow> string_skip_until cur1 (ascii ''0123456789 -/('');
               then_separators (Some (Some ((set_field 1 m st)\<lparr>has_mon := True\<rparr>, cur2)))
             }
           | None \<Rightarrow> other_name st c cur
         }
     })"

partial_function (option) other_loop :: "other_state \<Rightarrow> cursor \<Rightarrow> other_state option option" where
  "other_loop st cur =
    do {
      (c, cur) \<leftarrow> string_skip_spaces cur;
      if c = 0 then Some (Some st)
      else do {
        r \<leftarrow> other_step st c cur;
        case r of None \<Rightarrow> Some None | Some (st, cur) \<Rightarrow> other_loop st cur
      }
    }"

declare other_loop.simps [code]

definition other_fields :: "other_state \<Rightarrow> int list option" where
  "other_fields st =
    (let f = os_fields st; num = os_num st in
     if length num + of_bool (has_year st) + of_bool (has_mon st) > 3 then None
     else if length num = 0 then (if has_year st then Some f else None)
     else if length num = 1 then Some (if has_mon st then f[2 := num ! 0] else f[1 := num ! 0])
     else if length num = 2 then
       Some (if has_year st then f[1 := num ! 0, 2 := num ! 1]
             else if has_mon st then f[0 := century (num ! 1), 2 := num ! 0]
             else f[1 := num ! 0, 2 := num ! 1])
     else if length num = 3 then Some (f[0 := century (num ! 2), 1 := num ! 0, 2 := num ! 1])
     else None)"

definition js_date_parse_otherstring :: "cursor \<Rightarrow> (int list \<times> bool) option option" where
  "js_date_parse_otherstring sp =
    do {
      r \<leftarrow> other_loop \<lparr>os_fields = [2001, 1, 1, 0, 0, 0, 0, 0, 0], os_local = True, os_num = [],
             has_year = False, has_mon = False, has_time = False\<rparr> sp;
      Some (case r of
        None \<Rightarrow> None
      | Some st \<Rightarrow>
          (case other_fields st of
             None \<Rightarrow> None
           | Some f \<Rightarrow> if f ! 1 < 1 \<or> f ! 2 < 1 then None else Some (f[1 := f ! 1 - 1], os_local st)))
    }"

definition date_buffer :: "u16 list \<Rightarrow> cursor" where
  "date_buffer s =
    map (\<lambda>c. ucast (if c > 255 then (if c = 0x2212 then 45 else 120) else c)) (take 127 s) @ [0]"

definition field_max :: "int list" where
  "field_max = [0, 11, 31, 24, 59, 59]"

definition fields_ok :: "int list \<Rightarrow> bool" where
  "fields_ok f \<longleftrightarrow> (\<forall>i\<in>set [1..<6]. f ! i \<le> field_max ! i) \<and> \<not> (f ! 3 = 24 \<and> f ! 4 OR f ! 5 OR f ! 6 \<noteq> 0)"

text \<open>The outer \<open>None\<close> is a read outside the buffer, a loop that does not end or a \<^verbatim>\<open>double\<close> that is
rounded; inside, \<open>None\<close> is \<^verbatim>\<open>NAN\<close>.\<close>

definition js_Date_parse :: "(int \<Rightarrow> int) \<Rightarrow> u16 list \<Rightarrow> int option option" where
  "js_Date_parse tzoff s =
    do {
      r \<leftarrow> js_date_parse_isostring (date_buffer s);
      r \<leftarrow> (case r of Some x \<Rightarrow> Some (Some x) | None \<Rightarrow> js_date_parse_otherstring (date_buffer s));
      case r of
        None \<Rightarrow> Some None
      | Some (f, is_local) \<Rightarrow>
          if fields_ok f then do {
            d \<leftarrow> set_date_fields tzoff f is_local;
            case d of None \<Rightarrow> Some None | Some d \<Rightarrow> do { d \<leftarrow> dbl (d - f ! 8 * 60000); Some (Some d) }
          } else Some None
    }"

section \<open>Lemmas\<close>

subsection \<open>Staying in the buffer\<close>

text \<open>\<open>good P n res\<close>: the call stays in the buffer; when it gives a value, \<open>P\<close> holds for it, and the position
is before a byte 0, with at most \<open>n\<close> bytes left.\<close>

definition at_text :: "nat \<Rightarrow> cursor \<Rightarrow> bool" where
  "at_text n cur \<longleftrightarrow> 0 \<in> set cur \<and> length cur \<le> n"

definition good :: "('v \<Rightarrow> bool) \<Rightarrow> nat \<Rightarrow> ('v \<times> cursor) option option \<Rightarrow> bool" where
  "good P n res \<longleftrightarrow> res \<noteq> None \<and> (\<forall>v cur. res = Some (Some (v, cur)) \<longrightarrow> P v \<and> at_text n cur)"

lemma good_simps [simp]:
  "good P n (Some None)" "\<not> good P n None" "good P n (Some (Some (v, cur))) \<longleftrightarrow> P v \<and> at_text n cur"
  by (auto simp: good_def)

lemma good_cases [consumes 1, case_names fail val]:
  assumes "good P n res" "res = Some None \<Longrightarrow> thesis" "\<And>v cur. res = Some (Some (v, cur)) \<Longrightarrow> P v \<Longrightarrow> at_text n cur \<Longrightarrow> thesis"
  shows thesis
  using assms by (cases res) (auto simp: good_def, fastforce)

lemma good_weaken: "good P n res \<Longrightarrow> (\<And>v. P v \<Longrightarrow> Q v) \<Longrightarrow> n \<le> k \<Longrightarrow> good Q k res"
  by (auto simp: good_def at_text_def)

lemma at_text_weaken: "at_text n cur \<Longrightarrow> n \<le> k \<Longrightarrow> at_text k cur"
  by (simp add: at_text_def)

lemma at_text_self: "at_text n cur \<Longrightarrow> at_text (length cur) cur"
  by (simp add: at_text_def)

lemma at_text_Cons: "at_text n cur \<Longrightarrow> \<exists>c cur'. cur = c # cur' \<and> peek cur = Some c \<and> (c \<noteq> 0 \<longrightarrow> at_text (n - 1) cur' \<and> 0 < n)"
  by (cases cur) (auto simp: at_text_def peek_def load_def)

lemma skip_char_text [consumes 2, case_names yes no]:
  assumes "at_text n cur" "c \<noteq> 0"
  obtains cur' where "string_skip_char cur c = Some (True, cur')" "at_text (n - 1) cur'" "0 < n"
  | "string_skip_char cur c = Some (False, cur)"
  using at_text_Cons [OF assms(1)] assms(2) by (cases "hd cur = c") (auto simp: string_skip_char_def)

lemma skip_while_text:
  assumes "at_text n cur" "\<not> P 0"
  shows "\<exists>c cur'. string_skip_while P cur = Some (c, cur') \<and> at_text n cur' \<and> hd cur' = c \<and> \<not> P c \<and> (P (hd cur) \<longrightarrow> at_text (n - 1) cur')"
  using assms
proof (induction cur arbitrary: n)
  case (Cons c cur)
  show ?case
  proof (cases "P c")
    case True
    then have "at_text (n - 1) cur" using Cons.prems by (auto simp: at_text_def)
    from Cons.IH [OF this Cons.prems(2)] True show ?thesis by (auto simp: at_text_def)
  qed (use Cons.prems in auto)
qed (simp add: at_text_def)

lemma digits_loop_text:
  assumes "at_text k cur" "0 \<le> v" "v \<le> 999999999"
  shows "digits_loop mx n v cur \<noteq> None \<and>
    (\<forall>v' n' cur'. digits_loop mx n v cur = Some (Some (v', n', cur')) \<longrightarrow>
      0 \<le> v' \<and> v' \<le> 999999999 \<and> at_text k cur' \<and> n \<le> n' \<and> length cur' + n' = length cur + n)"
  using assms
proof (induction cur arbitrary: n v k)
  case (Cons c cur)
  show ?case
  proof (cases "48 \<le> c \<and> c \<le> 57 \<and> v < 100000000")
    case True
    then have "48 \<le> uint c" "uint c \<le> 57" by (simp_all add: word_le_def)
    then have v: "0 \<le> v * 10 + uint c - 48" "v * 10 + uint c - 48 \<le> 999999999" using True Cons.prems(2) by simp_all
    have "at_text (k - 1) cur" "0 < k" using Cons.prems(1) True by (auto simp: at_text_def)
    then show ?thesis using True v Cons.IH [of "k - 1" "v * 10 + uint c - 48" "Suc n"]
      by (auto simp: at_text_def) linarith
  qed (use Cons.prems in auto)
qed (simp add: at_text_def)

lemma get_digits_text:
  assumes "at_text n cur"
  shows "good (\<lambda>v. 0 \<le> v \<and> v \<le> 999999999) (n - mn) (string_get_digits cur mn mx)"
  using digits_loop_text [OF assms, of 0 mx 0] assms
  by (auto simp: string_get_digits_def good_def at_text_def split: option.splits if_splits)

lemma sdiv_nonneg: "0 \<le> a \<Longrightarrow> 0 < b \<Longrightarrow> (a :: int) sdiv b = a div b"
  by (cases "a = 0") (auto simp: signed_divide_int_def)

lemma ms_loop_text:
  assumes "at_text k cur" "0 \<le> ms" "0 \<le> mul" "ms + mul * 10 \<le> 1000"
  shows "\<exists>ms' n' cur'. ms_loop n mul ms cur = Some (ms', n', cur') \<and> 0 \<le> ms' \<and> ms' \<le> 1000 \<and> at_text k cur'"
  using assms
proof (induction cur arbitrary: n ms mul k)
  case (Cons c cur)
  show ?case
  proof (cases "48 \<le> c \<and> c \<le> 57")
    case True
    then have c: "0 \<le> uint c - 48" "uint c - 48 \<le> 9" by (simp_all add: word_le_def)
    let ?ms = "ms + (uint c - 48) * mul"
    have "(uint c - 48) * mul \<le> 9 * mul" "0 \<le> (uint c - 48) * mul"
      using c Cons.prems(3) by (auto intro: mult_right_mono)
    moreover have "mul sdiv 10 = mul div 10" using Cons.prems(3) by (simp add: sdiv_nonneg)
    ultimately have ms: "0 \<le> ?ms" "0 \<le> mul sdiv 10" "?ms + (mul sdiv 10) * 10 \<le> 1000" "?ms \<le> 1000"
      using Cons.prems(2-4) by auto
    have "at_text (k - 1) cur" using Cons.prems(1) True by (auto simp: at_text_def)
    then show ?thesis using True Cons.IH [of "k - 1" ?ms "mul sdiv 10" "Suc n"] ms
      by (fastforce intro: at_text_weaken)
  qed (use Cons.prems in auto)
qed (simp add: at_text_def)

lemma get_milliseconds_text:
  assumes "at_text n cur" "0 \<le> v" "v \<le> 1000"
  shows "\<exists>ms cur'. string_get_milliseconds cur v = Some (ms, cur') \<and> 0 \<le> ms \<and> ms \<le> 1000 \<and> at_text n cur'"
proof -
  obtain c cur' where c: "cur = c # cur'" "peek cur = Some c" "c \<noteq> 0 \<longrightarrow> at_text (n - 1) cur'" using at_text_Cons [OF assms(1)] by blast
  show ?thesis
  proof (cases "c = 46 \<or> c = 44")
    case True
    then have "at_text (n - 1) cur'" using c(3) by auto
    then show ?thesis using ms_loop_text [of "n - 1" cur' 0 100 0] True c assms
      by (fastforce simp: string_get_milliseconds_def intro: at_text_weaken)
  qed (use c assms in \<open>simp add: string_get_milliseconds_def\<close>)
qed

lemma tz_shrink_nonneg: "0 \<le> hh \<Longrightarrow> 0 \<le> snd (tz_shrink n hh)"
proof (induction n hh rule: tz_shrink.induct)
  case (1 n hh)
  have "0 \<le> hh sdiv 100" using 1(2) by (simp add: sdiv_nonneg pos_imp_zdiv_nonneg_iff)
  then show ?case using 1 by (subst tz_shrink.simps) (simp del: tz_shrink.simps)
qed

declare tz_shrink.simps [simp del]

lemma tz_value_good:
  assumes "0 \<le> hh" "0 \<le> mm" "at_text n cur"
  shows "good (\<lambda>tz. \<bar>tz\<bar> \<le> 1440) n (Some (tz_value sg hh mm cur))"
  using assms by (auto simp: tz_value_def)

lemma tzoffset_text:
  assumes "at_text n cur"
  shows "good (\<lambda>tz. \<bar>tz\<bar> \<le> 1440) (n - 1) (string_get_tzoffset cur strict)"
proof -
  obtain c rest where c: "cur = c # rest" "peek cur = Some c" "c \<noteq> 0 \<longrightarrow> at_text (n - 1) rest" using at_text_Cons [OF assms] by blast
  show ?thesis
  proof (cases "c = 43 \<or> c = 45")
    case True
    then have rest: "at_text (n - 1) rest" using c(3) by auto
    from get_digits_text [OF rest, of 1 0] show ?thesis
    proof (cases rule: good_cases)
      case fail
      then show ?thesis using c True by (simp add: string_get_tzoffset_def)
    next
      case (val hh cur1)
      obtain k hh' where k: "tz_shrink (length rest - length cur1) hh = (k, hh')" by fastforce
      have hh': "0 \<le> hh'" using tz_shrink_nonneg [of hh "length rest - length cur1"] val(2) k by simp
      have cur1: "at_text (n - 1) cur1" using val(3) by (auto intro: at_text_weaken)
      have early: "0 \<le> hh' sdiv 100" "0 \<le> hh' smod 100" using hh' by (simp_all add: sdiv_nonneg smod_nonneg pos_imp_zdiv_nonneg_iff)
      have ne: "58 \<noteq> (0 :: u8)" by simp
      from cur1 ne have "good (\<lambda>tz. \<bar>tz\<bar> \<le> 1440) (n - 1) (do {
              (colon, cur2) \<leftarrow> string_skip_char cur1 58;
              if colon then do {
                r \<leftarrow> string_get_digits cur2 2 2;
                Some (case r of None \<Rightarrow> None | Some (mm, cur3) \<Rightarrow> tz_value c hh' mm cur3)
              } else Some (tz_value c hh' 0 cur2) })"
      proof (cases rule: skip_char_text)
        case (yes cur2)
        from get_digits_text [OF yes(2), of 2 2] show ?thesis
          by (cases rule: good_cases) (use yes hh' in \<open>auto intro!: tz_value_good elim: at_text_weaken\<close>)
      next
        case no
        then show ?thesis using tz_value_good [OF hh' _ cur1, of 0] by simp
      qed
      then show ?thesis
        using c True val(1) k tz_value_good [OF early cur1, of c] by (simp add: string_get_tzoffset_def Let_def)
    qed
  next
    case False
    then show ?thesis using c by (auto simp: string_get_tzoffset_def)
  qed
qed

lemma upper_ascii_0: "upper_ascii c = 0 \<longleftrightarrow> c = 0"
proof -
  have "\<forall>n\<in>set [0..<256]. upper_ascii (word_of_nat n) = 0 \<longleftrightarrow> n = 0" by code_simp
  moreover have "unat c \<in> set [0..<256]" using unsigned_less [of c] by simp
  ultimately have "upper_ascii (word_of_nat (unat c)) = 0 \<longleftrightarrow> unat c = 0" by blast
  then show ?thesis by (simp add: unat_eq_0)
qed

lemma string_match_text [consumes 2, case_names no yes]:
  assumes "at_text n cur" "0 \<notin> set xs"
  obtains "string_match cur xs = Some (False, cur)"
  | "string_match cur xs = Some (True, drop (length xs) cur)" "at_text (n - length xs) (drop (length xs) cur)"
  using assms
proof (induction xs arbitrary: n cur thesis)
  case (Cons x xs)
  obtain c rest where c: "cur = c # rest" "peek cur = Some c" "c \<noteq> 0 \<longrightarrow> at_text (n - 1) rest" using at_text_Cons [OF Cons.prems(3)] by blast
  show ?case
  proof (cases "upper_ascii c = upper_ascii x")
    case True
    then have "c \<noteq> 0" using Cons.prems(4) upper_ascii_0 [of x] upper_ascii_0 [of c] by auto
    then have rest: "at_text (n - 1) rest" using c(3) by simp
    then show ?thesis
      by (rule Cons.IH [rotated 2]) (use Cons.prems c True in auto)
  qed (use Cons.prems c in auto)
qed auto

lemma month_names_ok: "i < 12 \<Longrightarrow> length (name3 month_names (int i)) = 3 \<and> 0 \<notin> set (name3 month_names (int i))"
proof -
  assume "i < 12"
  have "\<forall>i\<in>set [0..<12]. length (name3 month_names (int i)) = 3 \<and> 0 \<notin> set (name3 month_names (int i))" by code_simp
  then show ?thesis using \<open>i < 12\<close> by simp
qed

lemma find_abbrev_text:
  assumes "at_text n cur" "\<forall>i\<in>set is. i < 12"
  shows "\<exists>r. find_abbrev cur month_names is = Some r \<and> (\<forall>i. r = Some i \<longrightarrow> i < 12 \<and> at_text (n - 3) (drop 3 cur))"
  using assms(2)
proof (induction "is")
  case (Cons i rest)
  then have i: "length (name3 month_names (int i)) = 3" "0 \<notin> set (name3 month_names (int i))" using month_names_ok by auto
  show ?case using Cons i(1)
    by (rule_tac string_match_text [OF assms(1) i(2)]) auto
qed simp

lemma get_month_text:
  assumes "at_text n cur"
  shows "good (\<lambda>m. 1 \<le> m \<and> m \<le> 12) (n - 3) (string_get_month cur)"
  using find_abbrev_text [OF assms, of "[0..<12]"] by (fastforce simp: string_get_month_def good_def split: option.splits)

lemma tzabbr_loop_text:
  assumes "at_text n cur" "\<forall>(name, off)\<in>set tab. name \<noteq> [] \<and> 0 \<notin> set name \<and> \<bar>off\<bar> \<le> 1440"
  shows "good (\<lambda>tz. \<bar>tz\<bar> \<le> 1440) (n - 1) (tzabbr_loop cur tab)"
  using assms(2)
proof (induction tab)
  case (Cons e tab)
  obtain name off where e: "e = (name, off)" by fastforce
  have name: "0 \<notin> set name" "name \<noteq> []" "\<bar>off\<bar> \<le> 1440" using Cons.prems e by auto
  have le: "n - length name \<le> n - Suc 0" using name(2) by (cases name) auto
  from assms(1) name(1) show ?case
    by (cases rule: string_match_text) (use Cons name e in \<open>auto intro: at_text_weaken [OF _ le]\<close>)
qed simp

lemma tzabbr_text: "at_text n cur \<Longrightarrow> good (\<lambda>tz. \<bar>tz\<bar> \<le> 1440) (n - 1) (string_get_tzabbr cur)"
proof -
  have "\<forall>(name, off)\<in>set js_tzabbr. name \<noteq> [] \<and> 0 \<notin> set name \<and> \<bar>off\<bar> \<le> 1440" by code_simp
  then show "at_text n cur \<Longrightarrow> ?thesis" unfolding string_get_tzabbr_def by (rule tzabbr_loop_text [rotated])
qed

text \<open>The fields that the parser computes.\<close>

definition small_fields :: "int list \<Rightarrow> bool" where
  "small_fields f \<longleftrightarrow> length f = 9 \<and> \<bar>f ! 0\<bar> \<le> 1000002000 \<and> (\<forall>i\<in>{1..<7}. 0 \<le> f ! i) \<and> f ! 6 \<le> 1000 \<and> \<bar>f ! 8\<bar> \<le> 1440"

lemma small_fields_update:
  "small_fields f \<Longrightarrow> \<bar>v\<bar> \<le> 1000002000 \<Longrightarrow> small_fields (f[0 := v])"
  "small_fields f \<Longrightarrow> 0 \<le> v \<Longrightarrow> i \<in> {1, 2, 3, 4, 5} \<Longrightarrow> small_fields (f[i := v])"
  "small_fields f \<Longrightarrow> 0 \<le> v \<Longrightarrow> v \<le> 1000 \<Longrightarrow> small_fields (f[6 := v])"
  "small_fields f \<Longrightarrow> \<bar>v\<bar> \<le> 1440 \<Longrightarrow> small_fields (f[8 := v])"
  by (auto simp: small_fields_def nth_list_update)

lemma iso_year_text: "at_text n cur \<Longrightarrow> good (\<lambda>y. \<bar>y\<bar> \<le> 999999999) n (iso_year cur)"
proof -
  assume cur: "at_text n cur"
  obtain c rest where c: "cur = c # rest" "peek cur = Some c" "c \<noteq> 0 \<longrightarrow> at_text (n - 1) rest" using at_text_Cons [OF cur] by blast
  show ?thesis
  proof (cases "c = 45 \<or> c = 43")
    case True
    then have "at_text (n - 1) rest" using c(3) by auto
    from get_digits_text [OF this, of 6 6] show ?thesis
      by (cases rule: good_cases) (use True c in \<open>auto simp: iso_year_def intro: at_text_weaken\<close>)
  next
    case False
    then show ?thesis using c get_digits_text [OF cur, of 4 4] by (auto simp: iso_year_def elim!: good_weaken)
  qed
qed

lemma iso_day_text: "at_text n cur \<Longrightarrow> small_fields f \<Longrightarrow> good small_fields n (iso_day f cur)"
proof -
  assume cur: "at_text n cur" and f: "small_fields f"
  have ne: "45 \<noteq> (0 :: u8)" by simp
  from cur ne show ?thesis
  proof (cases rule: skip_char_text)
    case (yes cur1)
    from get_digits_text [OF yes(2), of 2 2] show ?thesis
      by (cases rule: good_cases) (use yes f in \<open>auto simp: iso_day_def intro: at_text_weaken small_fields_update\<close>)
  qed (use cur f in \<open>simp add: iso_day_def\<close>)
qed

lemma iso_month_text: "at_text n cur \<Longrightarrow> small_fields f \<Longrightarrow> good small_fields n (iso_month f cur)"
proof -
  assume cur: "at_text n cur" and f: "small_fields f"
  have ne: "45 \<noteq> (0 :: u8)" by simp
  from cur ne show ?thesis
  proof (cases rule: skip_char_text)
    case (yes cur1)
    from get_digits_text [OF yes(2), of 2 2] show ?thesis
    proof (cases rule: good_cases)
      case (val m cur2)
      have "at_text n cur2" using val(3) by (rule at_text_weaken) simp
      moreover have "small_fields (f[1 := m - 1])" if "\<not> m < 1" using that f by (intro small_fields_update(2)) auto
      ultimately show ?thesis using yes val iso_day_text [of n cur2 "f[1 := m - 1]"]
        by (simp add: iso_month_def)
    qed (use yes in \<open>simp add: iso_month_def\<close>)
  qed (use cur f in \<open>simp add: iso_month_def\<close>)
qed

lemma iso_hour_minute_text: "at_text n cur \<Longrightarrow> small_fields f \<Longrightarrow> good small_fields n (iso_hour_minute f cur)"
proof -
  assume cur: "at_text n cur" and f: "small_fields f"
  have ne: "58 \<noteq> (0 :: u8)" by simp
  from get_digits_text [OF cur, of 2 2] show ?thesis
  proof (cases rule: good_cases)
    case (val h cur1)
    from val(3) ne show ?thesis
    proof (cases rule: skip_char_text)
      case (yes cur2)
      from get_digits_text [OF yes(2), of 2 2] show ?thesis
        by (cases rule: good_cases) (use yes val f in \<open>auto simp: iso_hour_minute_def intro: at_text_weaken small_fields_update\<close>)
    qed (use val f in \<open>simp add: iso_hour_minute_def\<close>)
  qed (simp add: iso_hour_minute_def)
qed

lemma iso_seconds_text: "at_text n cur \<Longrightarrow> small_fields f \<Longrightarrow> good small_fields n (iso_seconds f cur)"
proof -
  assume cur: "at_text n cur" and f: "small_fields f"
  have ne: "58 \<noteq> (0 :: u8)" and 6: "0 \<le> f ! 6" "f ! 6 \<le> 1000" using f by (auto simp: small_fields_def)
  from cur ne show ?thesis
  proof (cases rule: skip_char_text)
    case (yes cur1)
    from get_digits_text [OF yes(2), of 2 2] show ?thesis
    proof (cases rule: good_cases)
      case (val sec cur2)
      obtain ms cur3 where ms: "string_get_milliseconds cur2 (f ! 6) = Some (ms, cur3)" "0 \<le> ms" "ms \<le> 1000" "at_text (n - 1 - 2) cur3"
        using get_milliseconds_text [OF val(3) 6] by blast
      have "small_fields (f[5 := sec, 6 := ms])" using f val ms by (intro small_fields_update) auto
      moreover have "at_text n cur3" using ms(4) by (rule at_text_weaken) simp
      ultimately show ?thesis using yes val ms(1) by (simp add: iso_seconds_def)
    qed (use yes in \<open>simp add: iso_seconds_def\<close>)
  qed (use cur f in \<open>simp add: iso_seconds_def\<close>)
qed

definition safe_fields :: "(int list \<times> bool) option option \<Rightarrow> bool" where
  "safe_fields res \<longleftrightarrow> res \<noteq> None \<and> (\<forall>f l. res = Some (Some (f, l)) \<longrightarrow> small_fields f)"

lemma iso_zone_text: "at_text n cur \<Longrightarrow> small_fields f \<Longrightarrow> safe_fields (iso_zone f l cur)"
proof -
  assume cur: "at_text n cur" and f: "small_fields f"
  obtain c where c: "peek cur = Some c" using at_text_Cons [OF cur] by blast
  from tzoffset_text [OF cur, of True] show ?thesis
  proof (cases rule: good_cases)
    case (val tz cur1)
    obtain c1 where "peek cur1 = Some c1" using at_text_Cons [OF val(3)] by blast
    then show ?thesis using c val f by (auto simp: iso_zone_def safe_fields_def intro: small_fields_update)
  qed (use c f in \<open>auto simp: iso_zone_def safe_fields_def\<close>)
qed

lemma isostring_text:
  assumes "at_text n sp"
  shows "safe_fields (js_date_parse_isostring sp)"
proof -
  have trivial: "safe_fields (Some None)" by (simp add: safe_fields_def)
  have ne: "84 \<noteq> (0 :: u8)" by simp
  from iso_year_text [OF assms] show ?thesis
  proof (cases rule: good_cases)
    case (val y cur)
    have f0: "small_fields [y, 0, 1, 0, 0, 0, 0, 0, 0]" using val(2) by (auto simp: small_fields_def nth_Cons split: nat.splits)
    note year = val
    from iso_month_text [OF year(3) f0] show ?thesis
    proof (cases rule: good_cases)
      case (val f cur1)
      note month = val
      from month(3) ne show ?thesis
      proof (cases rule: skip_char_text)
        case (yes cur2)
        from iso_hour_minute_text [OF yes(2) month(2)] show ?thesis
        proof (cases rule: good_cases)
          case fail
          then show ?thesis using year month yes
            by (auto simp: js_date_parse_isostring_def safe_fields_def intro: small_fields_update)
        next
          case (val g cur3)
          from iso_seconds_text [OF val(3,2)] show ?thesis
            by (cases rule: good_cases) (use year month yes val trivial in \<open>auto simp: js_date_parse_isostring_def intro: iso_zone_text\<close>)
        qed
      next
        case no
        then show ?thesis using year month by (auto simp: js_date_parse_isostring_def intro: iso_zone_text)
      qed
    qed (use year trivial in \<open>simp add: js_date_parse_isostring_def\<close>)
  qed (use trivial in \<open>simp add: js_date_parse_isostring_def\<close>)
qed

definition ok_state :: "other_state \<Rightarrow> bool" where
  "ok_state st \<longleftrightarrow> small_fields (os_fields st) \<and> length (os_num st) \<le> 3 \<and> (\<forall>v\<in>set (os_num st). 0 \<le> v \<and> v \<le> 31)"

lemma ok_state_updates [simp]:
  "ok_state (st\<lparr>os_local := l\<rparr>) = ok_state st" "ok_state (st\<lparr>has_year := l\<rparr>) = ok_state st"
  "ok_state (st\<lparr>has_mon := l\<rparr>) = ok_state st" "ok_state (st\<lparr>has_time := l\<rparr>) = ok_state st"
  by (simp_all add: ok_state_def)

lemma ok_state_set_field:
  "ok_state st \<Longrightarrow> \<bar>v\<bar> \<le> 1000002000 \<Longrightarrow> ok_state (set_field 0 v st)"
  "ok_state st \<Longrightarrow> 0 \<le> v \<Longrightarrow> i \<in> {1, 2, 3, 4, 5} \<Longrightarrow> ok_state (set_field i v st)"
  "ok_state st \<Longrightarrow> 0 \<le> v \<Longrightarrow> v \<le> 1000 \<Longrightarrow> ok_state (set_field 6 v st)"
  "ok_state st \<Longrightarrow> \<bar>v\<bar> \<le> 1440 \<Longrightarrow> ok_state (set_field 8 v st)"
  by (auto simp: ok_state_def set_field_def intro: small_fields_update)

lemma then_separators_text:
  assumes "good P n res"
  shows "good P n (then_separators res)"
  using assms
proof (cases rule: good_cases)
  case (val st cur)
  show ?thesis using skip_while_text [OF val(3), of "\<lambda>c. c = 45 \<or> c = 47 \<or> c = 46 \<or> c = 44"] val
    by (auto simp: then_separators_def string_skip_separators_def)
qed (simp add: then_separators_def)

lemma other_sign_text:
  assumes "at_text n cur" "hd cur = c" "c \<noteq> 0" "ok_state st"
  shows "good ok_state (n - 1) (other_sign st c cur)"
proof -
  have rest: "at_text (n - 1) (tl cur)" using at_text_Cons [OF assms(1)] assms(2,3) by auto
  define r where "r = (if has_time st then string_get_tzoffset cur False else Some None)"
  have "good (\<lambda>tz. \<bar>tz\<bar> \<le> 1440) (n - 1) r" using tzoffset_text [OF assms(1), of False] by (simp add: r_def)
  then show ?thesis
  proof (cases rule: good_cases)
    case fail
    from get_digits_text [OF rest, of 1 0] show ?thesis
    proof (cases rule: good_cases)
      case (val v cur')
      have "ok_state (set_field 0 (if c = 45 then - v else v) st)" using assms(4) val(2) by (intro ok_state_set_field) auto
      moreover have "at_text (n - 1) cur'" using val(3) by (rule at_text_weaken) simp
      ultimately show ?thesis using fail val by (simp add: other_sign_def flip: r_def)
    qed (use fail rest assms(4) in \<open>simp add: other_sign_def flip: r_def\<close>)
  next
    case (val tz cur')
    then show ?thesis using assms(4) ok_state_set_field(4) [of st tz] by (simp add: other_sign_def flip: r_def)
  qed
qed

lemma other_time_text:
  assumes "at_text n cur" "0 \<le> v" "ok_state st"
  shows "good ok_state n (other_time st v cur)"
proof -
  have ne: "58 \<noteq> (0 :: u8)" by simp
  from get_digits_text [OF assms(1), of 1 2] show ?thesis
  proof (cases rule: good_cases)
    case (val m cur1)
    note minute = val
    let ?st = "set_field 4 m (set_field 3 v st)"
    have st: "ok_state ?st" using assms val by (intro ok_state_set_field) auto
    then have 6: "0 \<le> os_fields ?st ! 6" "os_fields ?st ! 6 \<le> 1000" by (auto simp: ok_state_def small_fields_def)
    from minute(3) ne show ?thesis
    proof (cases rule: skip_char_text)
      case (yes cur2)
      from get_digits_text [OF yes(2), of 1 2] show ?thesis
      proof (cases rule: good_cases)
        case (val sec cur3)
        obtain ms cur4 where ms: "string_get_milliseconds cur3 (os_fields ?st ! 6) = Some (ms, cur4)" "0 \<le> ms" "ms \<le> 1000" "at_text (n - 1 - 1 - 1) cur4"
          using get_milliseconds_text [OF val(3) 6] by blast
        have "ok_state (set_field 6 ms (set_field 5 sec ?st))"
          using val ms by (intro ok_state_set_field(3) ok_state_set_field(2) [OF st]) auto
        moreover have "at_text n cur4" using ms(4) by (rule at_text_weaken) simp
        ultimately show ?thesis using minute yes val ms(1) by (simp add: other_time_def Let_def)
      qed (use minute yes in \<open>simp add: other_time_def Let_def\<close>)
    next
      case no
      have "at_text n cur1" using minute(3) by (rule at_text_weaken) simp
      then show ?thesis using minute no st by (simp add: other_time_def Let_def)
    qed
  qed (simp add: other_time_def)
qed

lemma other_number_ok: "other_number st v k = Some st' \<Longrightarrow> 0 \<le> v \<Longrightarrow> v \<le> 999999999 \<Longrightarrow> ok_state st \<Longrightarrow> ok_state st'"
  by (auto simp: other_number_def century_def ok_state_def set_field_def intro!: small_fields_update split: if_splits)

lemma skip_paren_text:
  "at_text n cur \<Longrightarrow> \<exists>l' cur'. skip_paren l cur = Some (l', cur') \<and> at_text n cur' \<and> (hd cur \<noteq> 0 \<longrightarrow> at_text (n - 1) cur')"
proof (induction cur arbitrary: n l)
  case (Cons c cur)
  show ?case
  proof (cases "c = 0")
    case False
    then have "at_text (n - 1) cur" using Cons.prems by (auto simp: at_text_def)
    then show ?thesis using Cons.IH [of "n - 1" "l + of_bool (c = 40) - of_bool (c = 41)"] False
      by (auto simp: Let_def at_text_def)
  qed (use Cons.prems in simp)
qed (simp add: at_text_def)

lemma other_word_text:
  assumes "at_text n cur" "hd cur = c" "c \<noteq> 0" "c \<noteq> 32" "c \<noteq> 45" "ok_state st"
  shows "good ok_state (n - 1) (then_separators (other_word st c cur))"
proof (cases "c = 40")
  case True
  then have "good ok_state (n - 1) (other_word st c cur)"
    using skip_paren_text [OF assms(1), of 0] assms by (auto simp: other_word_def)
  then show ?thesis by (rule then_separators_text)
next
  case False
  let ?stop = "\<lambda>c. c \<notin> set (ascii '' -/('' @ [0])"
  have stop: "set (ascii '' -/('' @ [0]) = {32, 45, 47, 40, 0}" by (simp add: ascii_def)
  obtain c1 cur1 where w: "string_skip_until cur (ascii '' -/('') = Some (c1, cur1)" "at_text n cur1" "hd cur1 = c1"
      "c1 \<in> {32, 45, 47, 40, 0}" "?stop (hd cur) \<longrightarrow> at_text (n - 1) cur1"
    using skip_while_text [OF assms(1), of ?stop] unfolding string_skip_until_def stop by auto
  have sep: "good ok_state (n - 1) (then_separators (Some (Some (st, cur1))))"
  proof (cases "c = 47")
    case True
    then have "cur1 = cur" using w(1) assms(2) at_text_Cons [OF assms(1)] unfolding string_skip_until_def stop by auto
    then show ?thesis using skip_while_text [OF assms(1), of "\<lambda>c. c = 45 \<or> c = 47 \<or> c = 46 \<or> c = 44"] True assms(2,6)
      by (auto simp: then_separators_def string_skip_separators_def)
  next
    case False
    then have "at_text (n - 1) cur1" using w(5) assms(2-5) \<open>c \<noteq> 40\<close> unfolding stop by auto
    then show ?thesis using assms(6) by (intro then_separators_text) simp
  qed
  then show ?thesis using False w(1) by (auto simp: other_word_def then_separators_def)
qed

lemma other_name_text:
  assumes "at_text n cur" "hd cur = c" "c \<noteq> 0" "c \<noteq> 32" "c \<noteq> 45" "ok_state st"
  shows "good ok_state (n - 1) (other_name st c cur)"
proof -
  have hour: "ok_state (set_field 3 (os_fields st ! 3 + 12) st)" "os_fields st ! 3 = 12 \<Longrightarrow> ok_state (set_field 3 (os_fields st ! 3 - 12) st)"
  proof -
    have "0 \<le> os_fields st ! 3" using assms(6) by (simp add: ok_state_def small_fields_def)
    then show "ok_state (set_field 3 (os_fields st ! 3 + 12) st)" "os_fields st ! 3 = 12 \<Longrightarrow> ok_state (set_field 3 (os_fields st ! 3 - 12) st)"
      using assms(6) by (auto intro: ok_state_set_field)
  qed
  have m: "\<exists>b cur1. (if has_time st then string_match cur xs else Some (False, cur)) = Some (b, cur1) \<and> (b \<longrightarrow> at_text (n - 1) cur1)"
    if "0 \<notin> set xs" "length xs = 2" for xs
    using assms(1) that(1)
  proof (cases rule: string_match_text)
    case yes
    have "at_text (n - 1) (drop (length xs) cur)" using yes(2) by (rule at_text_weaken) (simp add: that(2))
    then show ?thesis using yes(1) by auto
  qed auto
  have names: "0 \<notin> set (ascii ''PM'')" "length (ascii ''PM'') = 2" "0 \<notin> set (ascii ''AM'')" "length (ascii ''AM'') = 2"
    by (simp_all add: ascii_def)
  obtain pm cur1 where pm: "(if has_time st then string_match cur (ascii ''PM'') else Some (False, cur)) = Some (pm, cur1)" "pm \<longrightarrow> at_text (n - 1) cur1"
    using m [OF names(1,2)] by blast
  obtain am cur2 where am: "(if has_time st then string_match cur (ascii ''AM'') else Some (False, cur)) = Some (am, cur2)" "am \<longrightarrow> at_text (n - 1) cur2"
    using m [OF names(3,4)] by blast
  have zone: "good ok_state (n - 1) (string_get_tzabbr cur \<bind> (\<lambda>r. case r of
       None \<Rightarrow> then_separators (other_word st c cur)
     | Some (tz, cur1) \<Rightarrow> Some (Some ((set_field 8 tz st)\<lparr>os_local := False\<rparr>, cur1))))"
    using tzabbr_text [OF assms(1)]
    by (cases rule: good_cases) (use other_word_text [OF assms] ok_state_set_field(4) [OF assms(6)] in auto)
  show ?thesis
    unfolding other_name_def pm(1) am(1) using pm(2) am(2) hour assms(6) zone
    by (cases pm; cases am; cases "os_fields st ! 3 = 12") simp_all
qed

lemma other_step_text:
  assumes "at_text n cur" "hd cur = c" "c \<noteq> 0" "c \<noteq> 32" "ok_state st"
  shows "good ok_state (n - 1) (other_step st c cur)"
proof (cases "c = 43 \<or> c = 45")
  case True
  then show ?thesis using then_separators_text [OF other_sign_text [OF assms(1-3,5)]] by (simp add: other_step_def)
next
  case False
  have ne: "58 \<noteq> (0 :: u8)" by simp
  from get_digits_text [OF assms(1), of 1 0] show ?thesis
  proof (cases rule: good_cases)
    case fail
    note nodigits = fail
    from get_month_text [OF assms(1)] show ?thesis
    proof (cases rule: good_cases)
      case fail
      then show ?thesis using False nodigits other_name_text [OF assms(1-4) _ assms(5)] by (simp add: other_step_def)
    next
      case (val m cur1)
      have "0 \<in> set (ascii ''0123456789 -/('' @ [0])" by simp
      then obtain c2 cur2 where w: "string_skip_until cur1 (ascii ''0123456789 -/('') = Some (c2, cur2)" "at_text (n - 3) cur2"
        using skip_while_text [OF val(3), of "\<lambda>c. c \<notin> set (ascii ''0123456789 -/('' @ [0])"] unfolding string_skip_until_def by auto
      have "at_text (n - 1) cur2" using w(2) by (rule at_text_weaken) simp
      moreover have "ok_state (set_field 1 m st)" using assms(5) val(2) by (intro ok_state_set_field) auto
      ultimately have "good ok_state (n - 1) (then_separators (Some (Some ((set_field 1 m st)\<lparr>has_mon := True\<rparr>, cur2))))"
        by (intro then_separators_text) simp
      then show ?thesis using False nodigits val w(1) by (simp add: other_step_def)
    qed
  next
    case (val v cur1)
    note digits = val
    from val(3) ne show ?thesis
    proof (cases rule: skip_char_text)
      case (yes cur2)
      have "at_text (n - 1) cur2" using yes(2) by (rule at_text_weaken) simp
      then have "good ok_state (n - 1) (then_separators (other_time st v cur2))"
        using digits(2) assms(5) by (intro then_separators_text other_time_text) auto
      then show ?thesis using False digits yes by (simp add: other_step_def)
    next
      case no
      let ?r = "Some (map_option (\<lambda>st. (st, cur1)) (other_number st v (length cur - length cur1)))"
      have "good ok_state (n - 1) ?r"
        using digits(2,3) assms(5) by (auto simp: good_def intro: other_number_ok)
      then have "good ok_state (n - 1) (then_separators ?r)" by (rule then_separators_text)
      then show ?thesis using False digits no by (simp add: other_step_def)
    qed
  qed
qed

lemma other_loop_text:
  "at_text n cur \<Longrightarrow> ok_state st \<Longrightarrow> \<exists>r. other_loop st cur = Some r \<and> (\<forall>st'. r = Some st' \<longrightarrow> ok_state st')"
proof (induction n arbitrary: st cur rule: less_induct)
  case (less n)
  obtain c cur1 where c: "string_skip_spaces cur = Some (c, cur1)" "at_text n cur1" "hd cur1 = c" "c \<noteq> 32"
    using skip_while_text [OF less.prems(1), of "\<lambda>c. c = 32"] unfolding string_skip_spaces_def by auto
  show ?case
  proof (cases "c = 0")
    case True
    then show ?thesis using c less.prems(2) by (subst other_loop.simps) simp
  next
    case False
    have n: "0 < n" using at_text_Cons [OF c(2)] c(3) False by auto
    from other_step_text [OF c(2,3) False c(4) less.prems(2)] show ?thesis
    proof (cases rule: good_cases)
      case (val st' cur2)
      then show ?thesis using c False less.IH [of "n - 1" cur2 st'] n by (subst other_loop.simps) simp
    qed (use c False in \<open>subst other_loop.simps, simp\<close>)
  qed
qed

lemma century_small: "0 \<le> v \<Longrightarrow> v \<le> 999999999 \<Longrightarrow> \<bar>century v\<bar> \<le> 1000002000"
  by (simp add: century_def)

lemma other_fields_small: "ok_state st \<Longrightarrow> other_fields st = Some f \<Longrightarrow> small_fields f"
proof -
  assume st: "ok_state st" and f: "other_fields st = Some f"
  have num: "0 \<le> os_num st ! i" "\<bar>century (os_num st ! i)\<bar> \<le> 1000002000" if "i < length (os_num st)" for i
  proof -
    have "os_num st ! i \<in> set (os_num st)" using that by simp
    then have "0 \<le> os_num st ! i \<and> os_num st ! i \<le> 31" using st by (simp add: ok_state_def)
    then show "0 \<le> os_num st ! i" "\<bar>century (os_num st ! i)\<bar> \<le> 1000002000" by (auto intro: century_small)
  qed
  have "small_fields (os_fields st)" using st by (simp add: ok_state_def)
  then show ?thesis
    using f by (auto simp: other_fields_def Let_def num intro!: small_fields_update split: if_splits)
qed

lemma otherstring_text:
  assumes "at_text n sp"
  shows "safe_fields (js_date_parse_otherstring sp)"
proof -
  let ?st = "\<lparr>os_fields = [2001, 1, 1, 0, 0, 0, 0, 0, 0], os_local = True, os_num = [], has_year = False, has_mon = False, has_time = False\<rparr>"
  have "ok_state ?st" by (auto simp: ok_state_def small_fields_def nth_Cons split: nat.splits)
  then obtain r where r: "other_loop ?st sp = Some r" "\<forall>st'. r = Some st' \<longrightarrow> ok_state st'"
    using other_loop_text [OF assms] by blast
  have "small_fields (f[1 := f ! 1 - 1])" if "r = Some st" "other_fields st = Some f" "\<not> (f ! 1 < 1 \<or> f ! 2 < 1)" for st f
  proof -
    have "small_fields f" using r(2) that by (auto intro: other_fields_small)
    then show ?thesis using that by (intro small_fields_update(2)) auto
  qed
  then show ?thesis using r(1)
    by (auto simp: js_date_parse_otherstring_def safe_fields_def split: option.splits if_splits)
qed

text \<open>The time of such fields is computed without rounding.\<close>

lemma parsed_date_exact:
  assumes "small_fields f" "fields_ok f" "\<forall>t. \<bar>tzoff t\<bar> \<le> 1440"
  shows "set_date_fields tzoff f is_local \<noteq> None"
proof -
  have r: "0 \<le> f ! 1" "f ! 1 < 12" "0 \<le> f ! 2" "f ! 2 \<le> 31" "0 \<le> f ! 3" "f ! 3 \<le> 24" "0 \<le> f ! 4" "f ! 4 \<le> 59"
      "0 \<le> f ! 5" "f ! 5 \<le> 59" "0 \<le> f ! 6" "f ! 6 \<le> 1000" "\<bar>f ! 0\<bar> \<le> 1000002000"
  proof -
    have "set [1..<6] = {1, 2, 3, 4, 5 :: nat}" by code_simp
    then show "f ! 1 < 12" "f ! 2 \<le> 31" "f ! 3 \<le> 24" "f ! 4 \<le> 59" "f ! 5 \<le> 59"
      using assms(2) unfolding fields_ok_def by (simp_all add: field_max_def)
    show "0 \<le> f ! 1" "0 \<le> f ! 2" "0 \<le> f ! 3" "0 \<le> f ! 4" "0 \<le> f ! 5" "0 \<le> f ! 6" "f ! 6 \<le> 1000" "\<bar>f ! 0\<bar> \<le> 1000002000"
      using assms(1) by (simp_all add: small_fields_def)
  qed
  show ?thesis
  proof (cases "f ! 0 < -271821 \<or> f ! 0 > 275760")
    case True
    then show ?thesis using r by (auto simp: set_date_fields_def floor12_def dbl_small Let_def)
  next
    case False
    let ?g = "[f ! 0, f ! 1, 1, 0, 0, 0, 0]"
    have "valid_fields ?g" using r month_start_table(2) [of "nat (f ! 1)" "f ! 0"] by (simp add: valid_fields_def nat_less_iff)
    then have day: "\<bar>days_from_year (f ! 0) + month_start (f ! 0) (nat (f ! 1)) + 1\<bar> \<le> 100010000"
      using day_of_bound [of ?g] False by simp
    let ?d = "days_from_year (f ! 0) + month_start (f ! 0) (nat (f ! 1)) + f ! 2"
    have d: "\<bar>?d\<bar> \<le> 100010040" using day r by linarith
    have tm: "make_time f = Some (ms_of f)" "0 \<le> ms_of f" "ms_of f \<le> 100000000"
      using r by (simp_all add: make_time_def ms_of_def dbl_small)
    have e: "dbl ?d = Some ?d" "dbl (?d - 1) = Some (?d - 1)" "dbl ((?d - 1) * 86400000) = Some ((?d - 1) * 86400000)"
      "dbl ((?d - 1) * 86400000 + ms_of f) = Some ((?d - 1) * 86400000 + ms_of f)"
      using d tm by (auto intro!: dbl_small simp: abs_le_iff)
    have "\<bar>tzoff ((?d - 1) * 86400000 + ms_of f)\<bar> \<le> 1440" using assms(3) by blast
    then have "dbl ((?d - 1) * 86400000 + ms_of f + tzoff ((?d - 1) * 86400000 + ms_of f) * 60000) \<noteq> None"
      using d tm by (subst dbl_small) (auto simp: abs_le_iff)
    then show ?thesis
      using r False e tm(1) by (auto simp: set_date_fields_def floor12_def dbl_small smod_nonneg month_loop_eq Let_def)
  qed
qed

subsection \<open>Reading what was printed\<close>

declare dec_digits.simps [simp del]

definition digit_byte :: "u8 \<Rightarrow> bool" where
  "digit_byte c \<longleftrightarrow> 48 \<le> c \<and> c \<le> 57"

definition dec_value :: "int \<Rightarrow> u8 list \<Rightarrow> int" where
  "dec_value v ds = foldl (\<lambda>v c. v * 10 + uint c - 48) v ds"

lemma digit_of: "n < 10 \<Longrightarrow> digit_byte (48 + word_of_nat n) \<and> uint (48 + word_of_nat n :: u8) = 48 + int n"
proof -
  assume "n < 10"
  have "\<forall>n\<in>set [0..<10]. digit_byte (48 + word_of_nat n) \<and> uint (48 + word_of_nat n :: u8) = 48 + int n" by code_simp
  then show ?thesis using \<open>n < 10\<close> by simp
qed

lemma dec_digits_spec: "list_all digit_byte (dec_digits n) \<and> dec_value 0 (dec_digits n) = int n"
proof (induction n rule: dec_digits.induct)
  case (1 n)
  have "n mod 10 < 10" by simp
  note d = digit_of [OF this]
  have "int n = int (n div 10) * 10 + int (n mod 10)" by presburger
  then show ?case using 1 d by (cases "n < 10") (simp_all add: dec_digits.simps [of n] dec_value_def)
qed

lemma length_dec_digits: "n < 10 ^ w \<Longrightarrow> 0 < w \<Longrightarrow> length (dec_digits n) \<le> w"
proof (induction n arbitrary: w rule: dec_digits.induct)
  case (1 n)
  show ?case
  proof (cases "n < 10")
    case False
    have "w \<noteq> 1" using False 1(2) by auto
    then obtain w' where w: "w = Suc w'" "0 < w'" using 1(3) by (cases w) auto
    then have "n div 10 < 10 ^ w'" using 1(2) by (simp add: less_mult_imp_div_less mult.commute)
    from 1(1) [OF False this w(2)] show ?thesis by (subst dec_digits.simps) (simp add: False w(1))
  qed (use 1(3) in \<open>subst dec_digits.simps, simp\<close>)
qed

text \<open>A number in \<open>w\<close> digits.\<close>

lemma fmt_int_digits:
  assumes "0 \<le> x" "x < 10 ^ w" "0 < w"
  shows "list_all digit_byte (fmt_int False w x)" "length (fmt_int False w x) = w" "dec_value 0 (fmt_int False w x) = x"
proof -
  have "nat x < 10 ^ w" using assms(1,2) by (simp add: nat_less_iff)
  note len = length_dec_digits [OF this assms(3)]
  have eq: "fmt_int False w x = replicate (w - length (dec_digits (nat x))) 48 @ dec_digits (nat x)"
    using assms(1) by (simp add: fmt_int_def Let_def)
  have z: "digit_byte 48" by (simp add: digit_byte_def)
  have "dec_value 0 (replicate k 48 @ ds) = dec_value 0 ds" for k ds
    by (induction k) (simp_all add: dec_value_def)
  then show "list_all digit_byte (fmt_int False w x)" "length (fmt_int False w x) = w" "dec_value 0 (fmt_int False w x) = x"
    using len assms(1) dec_digits_spec [of "nat x"] z by (auto simp: eq list_all_iff)
qed

lemma digits_loop_full:
  assumes "list_all digit_byte ds" "ds \<noteq> []" "n + length ds = w" "w \<le> 9" "0 \<le> v" "v < 10 ^ n"
  shows "digits_loop w n v (ds @ rest) = Some (Some (dec_value v ds, w, rest))"
  using assms
proof (induction ds arbitrary: n v)
  case (Cons c ds)
  have c: "48 \<le> c" "c \<le> 57" using Cons.prems(1) by (simp_all add: digit_byte_def)
  then have u: "48 \<le> uint c" "uint c \<le> 57" by (simp_all add: word_le_def)
  have "v < 10 ^ 8"
  proof -
    have "(10 :: int) ^ n \<le> 10 ^ 8" using Cons.prems(3,4) by (intro power_increasing) auto
    then show ?thesis using Cons.prems(6) by linarith
  qed
  then have v: "\<not> 100000000 \<le> v" by simp
  show ?case
  proof (cases "ds = []")
    case True
    then show ?thesis using Cons.prems(3) c v by (simp add: dec_value_def)
  next
    case False
    have "v * 10 + uint c - 48 < 10 ^ Suc n" using Cons.prems(6) u by simp
    then have "digits_loop w (Suc n) (v * 10 + uint c - 48) (ds @ rest) = Some (Some (dec_value (v * 10 + uint c - 48) ds, w, rest))"
      using Cons.prems u False by (intro Cons.IH) auto
    moreover have "Suc n \<noteq> w" using Cons.prems(3) False by (cases ds) auto
    ultimately show ?thesis using c v by (simp add: dec_value_def)
  qed
qed simp

lemma get_digits_fmt:
  assumes "0 \<le> x" "x < 10 ^ w" "0 < w" "w \<le> 9" "mn \<le> w"
  shows "string_get_digits (fmt_int False w x @ rest) mn w = Some (Some (x, rest))"
proof -
  note f = fmt_int_digits [OF assms(1-3)]
  have "fmt_int False w x \<noteq> []" using f(2) assms(3) by auto
  then show ?thesis using digits_loop_full [OF f(1), of 0 w 0 rest] f(2,3) assms(4,5) by (simp add: string_get_digits_def)
qed

lemma get_milliseconds_fmt:
  assumes "0 \<le> x" "x < 1000" "\<not> digit_byte c"
  shows "string_get_milliseconds (46 # fmt_int False 3 x @ c # rest) v = Some (x, c # rest)"
proof -
  note f = fmt_int_digits [of x 3]
  obtain a b d where abd: "fmt_int False 3 x = [a, b, d]"
    using f(2) assms(1,2) by (auto simp: numeral_3_eq_3 length_Suc_conv)
  have "digit_byte a" "digit_byte b" "digit_byte d" using f(1) assms(1,2) by (auto simp: abd)
  moreover have "x = (uint a - 48) * 100 + (uint b - 48) * 10 + (uint d - 48)"
    using f(3) assms(1,2) by (simp add: abd dec_value_def)
  ultimately show ?thesis
    unfolding abd
    using assms(3) by (auto simp: string_get_milliseconds_def peek_def load_def digit_byte_def sdiv_nonneg)
qed

text \<open>The string of \<^verbatim>\<open>toISOString\<close>, in parts.\<close>

definition iso_year_string :: "int \<Rightarrow> u8 list" where
  "iso_year_string y = (if 0 \<le> y \<and> y \<le> 9999 then fmt_int False 4 y else fmt_int True 7 y)"

lemma fmt_int_signed:
  assumes "\<bar>y\<bar> < 1000000"
  shows "fmt_int True 7 y = (if y < 0 then 45 else 43) # fmt_int False 6 \<bar>y\<bar>"
  by (simp add: fmt_int_def Let_def)

lemma iso_year_fmt:
  assumes "\<bar>y\<bar> < 1000000"
  shows "iso_year (iso_year_string y @ rest) = Some (Some (y, rest))"
proof (cases "0 \<le> y \<and> y \<le> 9999")
  case True
  note f = fmt_int_digits [of y 4]
  obtain c cs where c: "fmt_int False 4 y = c # cs" using f(2) True by (cases "fmt_int False 4 y") auto
  have "digit_byte c" using f(1) True by (simp add: c)
  then have "c \<noteq> 45" "c \<noteq> 43" by (auto simp: digit_byte_def)
  then have "iso_year (iso_year_string y @ rest) = string_get_digits (fmt_int False 4 y @ rest) 4 4"
    using True by (simp add: iso_year_string_def iso_year_def c peek_def load_def)
  then show ?thesis using get_digits_fmt [of y 4 4 rest] True by simp
next
  case False
  have "string_get_digits (fmt_int False 6 \<bar>y\<bar> @ rest) 6 6 = Some (Some (\<bar>y\<bar>, rest))"
    using assms by (intro get_digits_fmt) auto
  then show ?thesis using False assms
    by (auto simp: iso_year_string_def fmt_int_signed iso_year_def peek_def load_def)
qed

lemma iso_parse_fmt:
  assumes "\<bar>y\<bar> < 1000000" "0 \<le> mon" "mon < 12" "1 \<le> d" "d \<le> 31" "0 \<le> h" "h < 24" "0 \<le> m" "m < 60" "0 \<le> sec" "sec < 60" "0 \<le> ms" "ms < 1000"
  shows "js_date_parse_isostring (iso_year_string y @ [45] @ fmt_int False 2 (mon + 1) @ [45] @ fmt_int False 2 d @ [84]
      @ fmt_int False 2 h @ [58] @ fmt_int False 2 m @ [58] @ fmt_int False 2 sec @ [46] @ fmt_int False 3 ms @ [90, 0]) =
    Some (Some ([y, mon, d, h, m, sec, ms, 0, 0], False))"
proof -
  have digits: "string_get_digits (fmt_int False 2 x @ rest) 2 2 = Some (Some (x, rest))" if "0 \<le> x" "x < 100" for x rest
    using that by (intro get_digits_fmt) auto
  have skip: "string_skip_char (c # rest) c = Some (True, rest)" for c rest
    by (simp add: string_skip_char_def peek_def load_def)
  let ?zone = "[90, 0]" and ?f = "[y, 0, 1, 0, 0, 0, 0, 0, 0]"
  let ?sec = "58 # fmt_int False 2 sec @ 46 # fmt_int False 3 ms @ ?zone"
  let ?time = "fmt_int False 2 h @ 58 # fmt_int False 2 m @ ?sec"
  have year: "iso_year (iso_year_string y @ 45 # fmt_int False 2 (mon + 1) @ 45 # fmt_int False 2 d @ 84 # ?time) =
      Some (Some (y, 45 # fmt_int False 2 (mon + 1) @ 45 # fmt_int False 2 d @ 84 # ?time))"
    by (rule iso_year_fmt [OF assms(1)])
  have month: "iso_month ?f (45 # fmt_int False 2 (mon + 1) @ 45 # fmt_int False 2 d @ 84 # ?time) =
      Some (Some ([y, mon, d, 0, 0, 0, 0, 0, 0], 84 # ?time))"
    using assms by (simp add: iso_month_def iso_day_def skip digits)
  have hm: "iso_hour_minute f ?time = Some (Some (f[3 := h, 4 := m], ?sec))" for f
    using assms by (simp add: iso_hour_minute_def skip digits)
  have ss: "iso_seconds f ?sec = Some (Some (f[5 := sec, 6 := ms], ?zone))" for f
    using assms get_milliseconds_fmt [of ms 90] by (simp add: iso_seconds_def skip digits digit_byte_def)
  have zone: "iso_zone f l ?zone = Some (Some (f[8 := 0], False))" for f l
    by (simp add: iso_zone_def string_get_tzoffset_def peek_def load_def)
  show ?thesis
    by (simp add: js_date_parse_isostring_def year month skip hm ss zone)
qed

lemma set_date_fields_utc: "set_date_fields tzoff f False = set_date_fields tzoff' f False"
  by (simp add: set_date_fields_def cong: if_cong)

lemma date_buffer_bytes: "length s \<le> 127 \<Longrightarrow> date_buffer (map ucast s) = s @ [0]"
proof -
  assume "length s \<le> 127"
  moreover have "(ucast (if (ucast c :: u16) > 255 then (if (ucast c :: u16) = 0x2212 then 45 else 120) else ucast c :: u16) :: u8) = c" for c :: u8
  proof -
    have "uint c < 256" using uint_lt2p [of c] by simp
    then have "\<not> (ucast c :: u16) > 255" by (simp add: word_less_def uint_ucast)
    moreover have "(ucast (ucast c :: u16) :: u8) = c"
      using \<open>uint c < 256\<close> by (intro word_uint_eqI) (simp only: uint_ucast, simp)
    ultimately show ?thesis by simp
  qed
  ultimately show ?thesis by (simp add: date_buffer_def take_map comp_def map_idI)
qed

section \<open>The theorems\<close>

text \<open>C35 \<^verbatim>\<open>Date.parse\<close> is total: for every string, whatever its characters and length, the parser stays in
its buffer of 128 bytes, ends, and computes the time without rounding; the result is a number or
\<^verbatim>\<open>NaN\<close>.\<close>

theorem js_Date_parse_total:
  assumes "\<forall>t. \<bar>tzoff t\<bar> \<le> 1440"
  shows "\<exists>r. js_Date_parse tzoff s = Some r"
proof -
  have buf: "at_text (length (date_buffer s)) (date_buffer s)" by (simp add: at_text_def date_buffer_def)
  obtain r1 where r1: "js_date_parse_isostring (date_buffer s) = Some r1" "\<forall>f l. r1 = Some (f, l) \<longrightarrow> small_fields f"
    using isostring_text [OF buf] by (auto simp: safe_fields_def)
  obtain r2 where r2: "js_date_parse_otherstring (date_buffer s) = Some r2" "\<forall>f l. r2 = Some (f, l) \<longrightarrow> small_fields f"
    using otherstring_text [OF buf] by (auto simp: safe_fields_def)
  have fin: "\<exists>r. (if fields_ok f then do {
            d \<leftarrow> set_date_fields tzoff f l;
            case d of None \<Rightarrow> Some None | Some d \<Rightarrow> do { d \<leftarrow> dbl (d - f ! 8 * 60000); Some (Some d) }
          } else Some None) = Some r" if small: "small_fields f" for f l
  proof (cases "fields_ok f")
    case True
    then obtain d where d: "set_date_fields tzoff f l = Some d" using parsed_date_exact [OF small True assms] by fastforce
    have "\<bar>t\<bar> \<le> 8640000000000000" if "d = Some t" for t
      using d that by (auto simp: set_date_fields_def Let_def time_clip_def bind_eq_Some_conv abs_le_iff split: if_splits)
    then have "dbl (t - f ! 8 * 60000) \<noteq> None" if "d = Some t" for t
      using that small by (subst dbl_small) (auto simp: small_fields_def abs_le_iff)
    then show ?thesis using True d by (cases d) auto
  qed simp
  show ?thesis
  proof (cases r1)
    case None
    then show ?thesis using r1 r2 fin by (cases r2) (auto simp: js_Date_parse_def)
  next
    case (Some fl)
    then show ?thesis using r1 fin by (cases fl) (auto simp: js_Date_parse_def)
  qed
qed

theorem js_Date_parse_total_witness: "\<exists>r. js_Date_parse (\<lambda>_. -60) [74, 97, 110, 32, 40] = Some r"
  by (rule js_Date_parse_total) simp

text \<open>C36 Reading the string of \<^verbatim>\<open>toISOString\<close> gives the time, for every time value of ECMAScript and whatever
the time zone. The string fits in the buffers of both functions.\<close>

theorem parse_to_iso_string:
  assumes "\<bar>t\<bar> \<le> 8640000000000000"
  shows "\<exists>s. get_date_string tzoff (Some t) 0x23 = Inr s \<and> length s \<le> 27 \<and> js_Date_parse tzoff' (map ucast s) = Some (Some t)"
proof -
  obtain f where f: "get_date_fields tzoff (Some t) False False = Some f" using get_date_fields_some by blast
  note g = get_date_fields_spec [OF f]
  obtain y mon d h m sec ms wd tz where eq: "f = [y, mon, d, h, m, sec, ms, wd, tz]"
    using g by (auto simp: length_Suc_conv numeral_eq_Suc)
  have v: "valid_fields [y, mon, d, h, m, sec, ms]" "time_of [y, mon, d, h, m, sec, ms] = t" using g by (simp_all add: eq)
  have "-271821 \<le> y \<and> y \<le> 275760" using year_range [OF v(1)] v(2) assms by simp
  then have y: "\<bar>y\<bar> < 1000000" by linarith
  have r: "0 \<le> mon" "mon < 12" "1 \<le> d" "d \<le> 31" "0 \<le> h" "h < 24" "0 \<le> m" "m < 60" "0 \<le> sec" "sec < 60" "0 \<le> ms" "ms < 1000"
    using v(1) valid_month(4) [OF v(1)] by (auto simp: valid_fields_def)
  let ?s = "iso_year_string y @ [45] @ fmt_int False 2 (mon + 1) @ [45] @ fmt_int False 2 d @ [84]
      @ fmt_int False 2 h @ [58] @ fmt_int False 2 m @ [58] @ fmt_int False 2 sec @ [46] @ fmt_int False 3 ms @ [90]"
  have bits: "drop_bit 4 (0x23 :: nat) AND 0x0F = 2" "(0x23 :: nat) AND 0x0F = 3" "(2 :: nat) AND 1 = 0" "(3 :: nat) AND 1 \<noteq> 0" "(3 :: nat) AND 2 \<noteq> 0"
    by code_simp+
  have print: "get_date_string tzoff (Some t) 0x23 = Inr ?s"
    unfolding get_date_string_def Let_def bits using f bits
    by (simp add: date_part_def time_part_def Let_def eq iso_year_string_def ascii_def)
  have len: "length ?s \<le> 27"
    using r y fmt_int_digits(2) [of _ 2] fmt_int_digits(2) [of ms 3] fmt_int_digits(2) [of y 4] fmt_int_digits(2) [of "\<bar>y\<bar>" 6]
    by (simp add: iso_year_string_def fmt_int_signed)
  have "set_date_fields tzoff' [y, mon, d, h, m, sec, ms, 0, 0] False = Some (Some t)"
  proof -
    let ?z = "\<lambda>_ :: int. 0 :: int"
    have "time_clip t = Some t" using assms by (simp add: time_clip_def abs_le_iff)
    then have "set_date_fields ?z [y, mon, d, h, m, sec, ms] False = Some (Some t)"
      using set_date_fields_spec [OF v(1) year_range [OF v(1)], of ?z False] v(2) assms by simp
    then show ?thesis
      using set_date_fields_take [of "[y, mon, d, h, m, sec, ms, 0, 0]" ?z] set_date_fields_utc [of tzoff' _ ?z] by simp
  qed
  moreover have "fields_ok [y, mon, d, h, m, sec, ms, 0, 0]"
  proof -
    have "set [1..<6] = {1, 2, 3, 4, 5 :: nat}" by code_simp
    then show ?thesis using r unfolding fields_ok_def by (simp add: field_max_def)
  qed
  moreover have "js_date_parse_isostring (?s @ [0]) = Some (Some ([y, mon, d, h, m, sec, ms, 0, 0], False))"
    using iso_parse_fmt [OF y r] by simp
  moreover have "dbl t = Some t" using assms by (intro dbl_small) simp
  ultimately have "js_Date_parse tzoff' (map ucast ?s) = Some (Some t)"
    using date_buffer_bytes [of ?s] len by (simp add: js_Date_parse_def)
  then show ?thesis using print len by blast
qed

theorem parse_to_iso_string_witness:
  "\<exists>s. get_date_string (\<lambda>_. 0) (Some (-62198755200000)) 0x23 = Inr s \<and> length s \<le> 27 \<and>
    js_Date_parse (\<lambda>_. 0) (map ucast s) = Some (Some (-62198755200000))"
  by (rule parse_to_iso_string) simp

text \<open>The time zone of a string is subtracted after the time was clipped: this string, one hour after the
last time value, reads as a number that is not a time value.\<close>

theorem js_Date_parse_not_clipped:
  "js_Date_parse (\<lambda>_. 0) (map ucast (ascii ''+275760-09-13T00:00:00.000-01:00'')) = Some (Some 8640000003600000)"
  by code_simp

end
