(* ===== verification/Url_Query.thy ===== *)
theory Url_Query
  imports Prelude "HOL-Library.List_Lexorder"
begin

text \<open>The query strings of the solver boundary (\<^verbatim>\<open>src/url_query_utils.cpp\<close>): percent decoding,
parsing into a map, and replacing one parameter of a URL. A \<^verbatim>\<open>std::string\<close> is the list of
its bytes; a \<^verbatim>\<open>std::map\<close> is the list of its pairs in the order of the keys, which is the
order in which a loop visits them.

The theory shows what a parameter reads as after another one was set. Setting encodes a value once
while reading decodes it twice; the theorem says for which values this does no harm, and one
evaluation shows that it changes others.\<close>

section \<open>Definitions\<close>

type_synonym bytes = "u8 list"

definition hexval :: "u8 \<Rightarrow> int" where
  "hexval c =
    (if 48 \<le> c \<and> c \<le> 57 then uint c - 48
     else if 97 \<le> c \<and> c \<le> 102 then uint c - 97 + 10
     else if 65 \<le> c \<and> c \<le> 70 then uint c - 65 + 10
     else -1)"

definition hex_pair :: "bytes \<Rightarrow> u8 option" where
  "hex_pair s =
    (case s of
       h # l # _ \<Rightarrow> if hexval h \<ge> 0 \<and> hexval l \<ge> 0 then Some (word_of_int (push_bit 4 (hexval h) OR hexval l)) else None
     | _ \<Rightarrow> None)"

definition plus_to_space :: "u8 \<Rightarrow> u8" where
  "plus_to_space c = (if c = 43 then 32 else c)"

function decode_once :: "bytes \<Rightarrow> bytes" where
  "decode_once [] = []"
| "decode_once (c # s) =
    (case (if c = 37 then hex_pair s else None) of
       Some b \<Rightarrow> b # decode_once (drop 2 s)
     | None \<Rightarrow> plus_to_space c # decode_once s)"
  by pat_completeness auto
termination
  by (relation "measure length") auto

definition safe_double_decode :: "bytes \<Rightarrow> bytes" where
  "safe_double_decode input = decode_once (decode_once input)"

text \<open>The strings that \<^verbatim>\<open>std::getline\<close> reads up to the delimiter or the end, until the stream is
at its end.\<close>

function getline_all :: "u8 \<Rightarrow> bytes \<Rightarrow> bytes list" where
  "getline_all d [] = []"
| "getline_all d (c # s) =
    takeWhile (\<lambda>b. b \<noteq> d) (c # s) # getline_all d (drop (Suc (length (takeWhile (\<lambda>b. b \<noteq> d) (c # s)))) (c # s))"
  by pat_completeness auto
termination
  by (relation "measure (length \<circ> snd)") auto

definition find_char :: "u8 \<Rightarrow> bytes \<Rightarrow> nat option" where
  "find_char c s = (if c \<in> set s then Some (length (takeWhile (\<lambda>b. b \<noteq> c) s)) else None)"

fun map_set :: "'k::linorder \<Rightarrow> 'v \<Rightarrow> ('k \<times> 'v) list \<Rightarrow> ('k \<times> 'v) list" where
  "map_set k v [] = [(k, v)]"
| "map_set k v ((k', v') # m) =
    (if k < k' then (k, v) # (k', v') # m else if k = k' then (k, v) # m else (k', v') # map_set k v m)"

definition parse_part :: "bytes \<Rightarrow> bytes \<times> bytes" where
  "parse_part part =
    (case find_char 61 part of
       None \<Rightarrow> (safe_double_decode part, [])
     | Some eq \<Rightarrow> (safe_double_decode (take eq part), safe_double_decode (drop (eq + 1) part)))"

definition parse_query_string :: "bytes \<Rightarrow> (bytes \<times> bytes) list" where
  "parse_query_string qs =
    fold (\<lambda>part out. case parse_part part of (k, v) \<Rightarrow> map_set k v out) (getline_all 38 qs) []"

definition query_param_from_url :: "bytes \<Rightarrow> bytes \<Rightarrow> bytes option" where
  "query_param_from_url url key =
    (case find_char 63 url of
       None \<Rightarrow> None
     | Some qpos \<Rightarrow> map_of (parse_query_string (drop (qpos + 1) url)) key)"

definition url_plain :: "u8 \<Rightarrow> bool" where
  "url_plain c \<longleftrightarrow> (65 \<le> c \<and> c \<le> 90) \<or> (97 \<le> c \<and> c \<le> 122) \<or> (48 \<le> c \<and> c \<le> 57)
    \<or> c = 45 \<or> c = 95 \<or> c = 46 \<or> c = 126"

definition upper_hex :: "u8 \<Rightarrow> u8" where
  "upper_hex d = (if d < 10 then 48 + d else 65 + (d - 10))"

fun urlencode :: "bytes \<Rightarrow> bytes" where
  "urlencode [] = []"
| "urlencode (c # s) =
    (if url_plain c then c # urlencode s
     else 37 # upper_hex (c div 16) # upper_hex (c mod 16) # urlencode s)"

fun join_params :: "(bytes \<times> bytes) list \<Rightarrow> bytes" where
  "join_params [] = []"
| "join_params [(k, v)] = urlencode k @ 61 # urlencode v"
| "join_params ((k, v) # m) = urlencode k @ 61 # urlencode v @ 38 # join_params m"

definition set_or_replace_query_param :: "bytes \<Rightarrow> bytes \<Rightarrow> bytes \<Rightarrow> bytes" where
  "set_or_replace_query_param url key value =
    (let base = (case find_char 63 url of None \<Rightarrow> url | Some qpos \<Rightarrow> take qpos url);
         qs = (case find_char 63 url of None \<Rightarrow> [] | Some qpos \<Rightarrow> drop (qpos + 1) url);
         params = map_set key value (parse_query_string qs)
     in base @ 63 # join_params params)"

section \<open>Lemmas\<close>

subsection \<open>Encoding and decoding\<close>

lemma hex_digits:
  assumes "(d :: u8) < 16"
  shows "hexval (upper_hex d) = uint d" "upper_hex d \<notin> {37, 38, 43, 61, 63}"
proof -
  have all: "\<forall>n\<in>set [0..<16]. hexval (upper_hex (word_of_nat n)) = int n \<and> upper_hex (word_of_nat n) \<notin> {37, 38, 43, 61, 63}"
    by code_simp
  have "unat d \<in> set [0..<16]" using assms by (simp add: word_less_nat_alt)
  with all have "hexval (upper_hex (word_of_nat (unat d))) = int (unat d)" "upper_hex (word_of_nat (unat d)) \<notin> {37, 38, 43, 61, 63}"
    by blast+
  then show "hexval (upper_hex d) = uint d" "upper_hex d \<notin> {37, 38, 43, 61, 63}" by simp_all
qed

lemma nibbles: "(c :: u8) div 16 < 16" "(c :: u8) mod 16 < 16"
  "word_of_int (push_bit 4 (uint (c div 16)) OR uint (c mod 16)) = (c :: u8)"
proof -
  have u: "uint (c div 16) = uint c div 16" "uint (c mod 16) = uint c mod 16"
    by (simp_all add: uint_div uint_mod)
  show lt: "c div 16 < 16" "c mod 16 < 16" using uint_lt2p [of c] by (simp_all add: word_less_def u)
  have "uint (push_bit 4 (c div 16) OR c mod 16) = uint c div 16 * 16 mod 256 + uint c mod 16"
    using uint_push_bit_or [of "c mod 16" 4 "c div 16"] u by simp
  also have "uint c div 16 * 16 mod 256 = uint c div 16 * 16"
    using uint_lt2p [of c] div_mult_mod_eq [of "uint c" 16] pos_mod_sign [of 16 "uint c"] by (intro mod_pos_pos_trivial) (auto simp: pos_imp_zdiv_nonneg_iff)
  also have "uint c div 16 * 16 + uint c mod 16 = uint c" by (rule div_mult_mod_eq)
  finally have "push_bit 4 (c div 16) OR c mod 16 = c" by (rule word_uint_eqI)
  moreover have "word_of_int (push_bit 4 (uint a) OR uint b) = push_bit 4 a OR b" for a b :: u8
    by (rule bit_word_eqI) (auto simp: bit_simps)
  ultimately show "word_of_int (push_bit 4 (uint (c div 16)) OR uint (c mod 16)) = c" by metis
qed

lemma encoded_byte:
  "hex_pair (upper_hex (c div 16) # upper_hex (c mod 16) # s) = Some c"
  "\<not> url_plain 37" "\<not> url_plain 43" "\<not> url_plain 38" "\<not> url_plain 61" "\<not> url_plain 63"
  "upper_hex (c div 16) \<notin> {37, 38, 43, 61, 63}" "upper_hex (c mod 16) \<notin> {37, 38, 43, 61, 63}"
  using nibbles(3) [of c] by (simp_all add: hex_pair_def hex_digits [OF nibbles(1)] hex_digits [OF nibbles(2)] url_plain_def del: insert_iff)

lemma decode_urlencode: "decode_once (urlencode s) = s"
proof (induction s)
  case (Cons c s)
  show ?case
  proof (cases "url_plain c")
    case True
    then have "c \<noteq> 37" "plus_to_space c = c" using encoded_byte(2,3) by (auto simp: plus_to_space_def)
    with True Cons show ?thesis by simp
  next
    case False
    then show ?thesis using Cons by (simp add: encoded_byte(1))
  qed
qed simp

lemma urlencode_chars: "set (urlencode s) \<inter> {38, 61, 63} = {}"
  using encoded_byte(4-8) by (induction s) auto

subsection \<open>Parsing what was written\<close>

lemma takeWhile_other: "d \<notin> set xs \<Longrightarrow> takeWhile (\<lambda>b. b \<noteq> d) xs = xs"
  by (induction xs) auto

lemma takeWhile_until: "d \<notin> set xs \<Longrightarrow> takeWhile (\<lambda>b. b \<noteq> d) (xs @ d # ys) = xs"
  by (induction xs) auto

lemma find_char_append: "c \<notin> set xs \<Longrightarrow> find_char c (xs @ c # ys) = Some (length xs)"
  by (simp add: find_char_def takeWhile_until)

lemma getline_nonempty:
  "s \<noteq> [] \<Longrightarrow> getline_all d s = takeWhile (\<lambda>b. b \<noteq> d) s # getline_all d (drop (Suc (length (takeWhile (\<lambda>b. b \<noteq> d) s))) s)"
  by (cases s) auto

lemma getline_first: "d \<notin> set xs \<Longrightarrow> getline_all d (xs @ d # ys) = xs # getline_all d ys"
  by (subst getline_nonempty) (simp_all add: takeWhile_until)

lemma getline_last: "d \<notin> set xs \<Longrightarrow> xs \<noteq> [] \<Longrightarrow> getline_all d xs = [xs]"
  by (subst getline_nonempty) (simp_all add: takeWhile_other)

definition written :: "bytes \<times> bytes \<Rightarrow> bytes" where
  "written kv = urlencode (fst kv) @ 61 # urlencode (snd kv)"

lemma getline_join: "m \<noteq> [] \<Longrightarrow> getline_all 38 (join_params m) = map written m"
proof (induction m rule: join_params.induct)
  case (2 k v)
  have "38 \<notin> set (written (k, v))" using urlencode_chars [of k] urlencode_chars [of v] by (auto simp: written_def)
  then show ?case by (simp add: getline_last written_def)
next
  case (3 k v kv m)
  have "38 \<notin> set (written (k, v))" using urlencode_chars [of k] urlencode_chars [of v] by (auto simp: written_def)
  then show ?case using 3 getline_first [of 38 "written (k, v)" "join_params (kv # m)"] by (simp add: written_def)
qed simp

lemma parse_written: "parse_part (written (k, v)) = (decode_once k, decode_once v)"
proof -
  have "find_char 61 (written (k, v)) = Some (length (urlencode k))"
    using urlencode_chars [of k] by (auto simp: written_def intro!: find_char_append)
  then show ?thesis by (simp add: parse_part_def written_def safe_double_decode_def decode_urlencode)
qed

lemma map_of_map_set: "map_of (map_set k v m) = (map_of m)(k \<mapsto> v)"
  by (induction m) auto

lemma parse_join:
  assumes "m \<noteq> []"
  shows "map_of (parse_query_string (join_params m)) = map_of (rev (map (\<lambda>(k, v). (decode_once k, decode_once v)) m))"
proof -
  have "map_of (fold (\<lambda>part out. case parse_part part of (k, v) \<Rightarrow> map_set k v out) (map written m) out) =
      map_of out ++ map_of (rev (map (\<lambda>(k, v). (decode_once k, decode_once v)) m))" for out
  proof (induction m arbitrary: out)
    case (Cons kv m)
    obtain k v where kv: "kv = (k, v)" by fastforce
    show ?case using Cons [of "map_set (decode_once k) (decode_once v) out"]
      by (auto simp: kv parse_written map_of_map_set map_add_def fun_eq_iff split: option.splits)
  qed simp
  from this [of "[]"] show ?thesis by (simp add: parse_query_string_def getline_join [OF assms])
qed

text \<open>The keys of a parsed query are in order, without repetition.\<close>

lemma map_set_keys: "set (map fst (map_set k v m)) = insert k (set (map fst m))"
  by (induction k v m rule: map_set.induct) auto

lemma map_set_sorted: "sorted_wrt (<) (map fst m) \<Longrightarrow> sorted_wrt (<) (map fst (map_set k v m))"
proof (induction m)
  case (Cons kv m)
  then show ?case using map_set_keys [of k v m] by (cases kv) auto
qed simp

lemma parse_query_string_sorted: "sorted_wrt (<) (map fst (parse_query_string qs))"
proof -
  have "sorted_wrt (<) (map fst out) \<Longrightarrow>
    sorted_wrt (<) (map fst (fold (\<lambda>part out. case parse_part part of (k, v) \<Rightarrow> map_set k v out) ps out))" for ps out
    by (induction ps arbitrary: out) (auto simp: map_set_sorted split: prod.splits)
  then show ?thesis by (simp add: parse_query_string_def)
qed

lemma map_of_rev_distinct: "distinct (map fst m) \<Longrightarrow> map_of (rev m) = map_of m"
  by (intro map_of_inject_set [THEN iffD2]) (simp_all flip: rev_map)

text \<open>With keys that decoding does not change, reading the written map decodes the values once
more.\<close>

lemma parse_join_plain:
  assumes "m \<noteq> []" "sorted_wrt (<) (map fst m)" "\<forall>k\<in>set (map fst m). decode_once k = k"
  shows "map_of (parse_query_string (join_params m)) k = map_option decode_once (map_of m k)"
proof -
  have eq: "map (\<lambda>(k, v). (decode_once k, decode_once v)) m = map (\<lambda>(k, v). (k, decode_once v)) m"
    using assms(3) by auto
  have d: "distinct (map fst (map (\<lambda>(k, v). (k, decode_once v)) m))"
    using assms(2) by (simp add: strict_sorted_iff comp_def case_prod_beta)
  have "map_of (rev (map (\<lambda>(k, v). (k, decode_once v)) m)) = map_of (map (\<lambda>(k, v). (k, decode_once v)) m)"
    by (rule map_of_rev_distinct [OF d])
  then show ?thesis unfolding parse_join [OF assms(1)] eq by (simp add: map_of_map)
qed

lemma query_of_written:
  assumes "63 \<notin> set base"
  shows "query_param_from_url (base @ 63 # qs) key = map_of (parse_query_string qs) key"
  using find_char_append [OF assms] by (simp add: query_param_from_url_def)

section \<open>The theorems\<close>

text \<open>A string without \<^verbatim>\<open>%\<close> and \<^verbatim>\<open>+\<close> is not changed by decoding.\<close>

lemma decode_plain: "37 \<notin> set s \<Longrightarrow> 43 \<notin> set s \<Longrightarrow> decode_once s = s"
  by (induction s) (auto simp: plus_to_space_def)

definition url_params :: "bytes \<Rightarrow> (bytes \<times> bytes) list" where
  "url_params url = (case find_char 63 url of None \<Rightarrow> [] | Some qpos \<Rightarrow> parse_query_string (drop (qpos + 1) url))"

lemma query_of_params: "query_param_from_url url k = map_of (url_params url) k"
  by (simp add: query_param_from_url_def url_params_def split: option.splits)

lemma query_after_set:
  assumes "decode_once key = key" "decode_once val = val" "\<forall>k\<in>set (map fst (url_params url)). decode_once k = k"
  shows "query_param_from_url (set_or_replace_query_param url key val) k =
    (if k = key then Some val else map_option decode_once (query_param_from_url url k))"
proof -
  define base where "base = (case find_char 63 url of None \<Rightarrow> url | Some qpos \<Rightarrow> take qpos url)"
  have base: "63 \<notin> set base"
    by (auto simp: base_def find_char_def dest: set_takeWhileD split: if_splits simp flip: takeWhile_eq_take)
  have empty: "parse_query_string [] = []" by (simp add: parse_query_string_def)
  let ?m = "map_set key val (url_params url)"
  have url: "set_or_replace_query_param url key val = base @ 63 # join_params ?m"
    by (simp add: set_or_replace_query_param_def base_def url_params_def empty split: option.splits)
  have ne: "?m \<noteq> []" using map_set_keys [of key val "url_params url"] by auto
  have sorted: "sorted_wrt (<) (map fst ?m)"
    by (intro map_set_sorted) (simp add: url_params_def parse_query_string_sorted split: option.splits)
  have plain: "\<forall>k\<in>set (map fst ?m). decode_once k = k"
    unfolding map_set_keys using assms(1,3) by auto
  show ?thesis
    using assms(2) by (simp add: query_of_params [of url] url query_of_written [OF base] parse_join_plain [OF ne sorted plain] map_of_map_set)
qed

lemma keys_after_set:
  assumes "decode_once key = key" "decode_once val = val" "\<forall>k\<in>set (map fst (url_params url)). decode_once k = k"
  shows "set (map fst (url_params (set_or_replace_query_param url key val))) = insert key (set (map fst (url_params url)))"
proof -
  have "k \<in> set (map fst (url_params u)) \<longleftrightarrow> query_param_from_url u k \<noteq> None" for u k
    by (simp add: query_of_params map_of_eq_None_iff)
  then show ?thesis using query_after_set [OF assms] by (auto simp: set_eq_iff split: if_splits)
qed

text \<open>C37 After a parameter of a URL was set, reading it gives the value, and reading another one gives
what it read as before, decoded once more, provided that percent decoding changes neither the key and
the value nor the other keys of the query. A string without \<^verbatim>\<open>%\<close> and \<^verbatim>\<open>+\<close> is
such a string.\<close>

theorem set_then_get:
  assumes "decode_once key = key" "decode_once val = val" "\<forall>k\<in>set (map fst (url_params url)). decode_once k = k"
  shows "query_param_from_url (set_or_replace_query_param url key val) k =
    (if k = key then Some val else map_option decode_once (query_param_from_url url k))"
  by (rule query_after_set [OF assms])

text \<open>In \<^verbatim>\<open>u?b=1&n=x\<close>, \<^verbatim>\<open>n\<close> is replaced by \<^verbatim>\<open>y z\<close>.\<close>

theorem set_then_get_witness:
  "query_param_from_url (set_or_replace_query_param [117, 63, 98, 61, 49, 38, 110, 61, 120] [110] [121, 32, 122]) [110]
    = Some [121, 32, 122] \<and> [117, 63, 98, 61, 49, 38, 110, 61, 120] \<noteq> ([] :: bytes)"
proof -
  have keys: "map fst (url_params [117, 63, 98, 61, 49, 38, 110, 61, 120]) = [[98], [110]]" by code_simp
  show ?thesis
    using set_then_get [of "[110]" "[121, 32, 122]" "[117, 63, 98, 61, 49, 38, 110, 61, 120]" "[110]", unfolded keys]
    by (simp add: plus_to_space_def)
qed

text \<open>Setting encodes a value once and reading decodes it twice: \<^verbatim>\<open>%41\<close> reads back as
\<^verbatim>\<open>A\<close>.\<close>

theorem set_then_get_decodes_twice:
  "query_param_from_url (set_or_replace_query_param [117] [110] [37, 52, 49]) [110] = Some [65]"
  by code_simp

end
