(* ===== verification/Http_Chunked.thy ===== *)
theory Http_Chunked
  imports Url_Query
begin

text \<open>Decoding of HTTP bodies in chunks (\<^verbatim>\<open>decode_chunked\<close> of \<^verbatim>\<open>src/http_utils.cpp\<close>).
\<^verbatim>\<open>trim\<close> is declared in \<^verbatim>\<open>shared_cli_json.h\<close> and defined outside the repository, so it is an
argument; \<open>trims\<close> states what is expected of it. \<^verbatim>\<open>std::stoul\<close> is the C library's
\<^verbatim>\<open>strtoul\<close>, which skips white space and accepts a sign and a prefix \<^verbatim>\<open>0x\<close>. Positions are
64-bit and wrap.

A body that was encoded in chunks, with or without extensions, decodes to the concatenation of the
chunks. The loop may run forever on other bodies, so it is a partial function; one of them, of four
bytes, is shown.\<close>

section \<open>Definitions\<close>

definition c_isspace :: "u8 \<Rightarrow> bool" where
  "c_isspace c \<longleftrightarrow> c = 32 \<or> (9 \<le> c \<and> c \<le> 13)"

definition hex_value :: "bytes \<Rightarrow> nat" where
  "hex_value s = foldl (\<lambda>n c. n * 16 + nat (hexval c)) 0 s"

definition is_hex :: "u8 \<Rightarrow> bool" where
  "is_hex c \<longleftrightarrow> hexval c \<ge> 0"

definition skip_0x :: "bytes \<Rightarrow> bytes" where
  "skip_0x s =
    (case s of a # b # c # _ \<Rightarrow> if a = 48 \<and> (b = 120 \<or> b = 88) \<and> is_hex c then drop 2 s else s | _ \<Rightarrow> s)"

text \<open>\<open>None\<close> stands for the exceptions \<^verbatim>\<open>std::invalid_argument\<close> and \<^verbatim>\<open>std::out_of_range\<close>.\<close>

definition stoul16 :: "bytes \<Rightarrow> u64 option" where
  "stoul16 s =
    (let s = dropWhile c_isspace s;
         neg = (s \<noteq> [] \<and> hd s = 45);
         s = (if s \<noteq> [] \<and> (hd s = 45 \<or> hd s = 43) then tl s else s);
         digits = takeWhile is_hex (skip_0x s)
     in if digits = [] \<or> hex_value digits \<ge> 2 ^ 64 then None
        else Some (if neg then - word_of_nat (hex_value digits) else word_of_nat (hex_value digits)))"

fun find_crlf :: "bytes \<Rightarrow> nat option" where
  "find_crlf (a # b # s) = (if a = 13 \<and> b = 10 then Some 0 else map_option Suc (find_crlf (b # s)))"
| "find_crlf _ = None"

definition chunk_len :: "(bytes \<Rightarrow> bytes) \<Rightarrow> bytes \<Rightarrow> u64 option" where
  "chunk_len trim line =
    (let hex = trim line in
     stoul16 (case find_char 59 hex of None \<Rightarrow> hex | Some semi \<Rightarrow> take semi hex))"

definition skip_crlf :: "bytes \<Rightarrow> u64 \<Rightarrow> u64" where
  "skip_crlf body i =
    (if i + 2 \<le> word_of_nat (length body) \<and> take 2 (drop (unat i) body) = [13, 10] then i + 2 else i)"

text \<open>One iteration: \<open>None\<close> is a \<^verbatim>\<open>break\<close>, otherwise what is appended and the next position.
\<^verbatim>\<open>append\<close> stops at the end of the body.\<close>

definition chunk_step :: "(bytes \<Rightarrow> bytes) \<Rightarrow> bytes \<Rightarrow> u64 \<Rightarrow> (bytes \<times> u64) option" where
  "chunk_step trim body i =
    (case find_crlf (drop (unat i) body) of
       None \<Rightarrow> None
     | Some off \<Rightarrow>
       (case chunk_len trim (take off (drop (unat i) body)) of
          None \<Rightarrow> None
        | Some len \<Rightarrow>
          let i = i + word_of_nat off + 2 in
          if len = 0 \<or> i + len > word_of_nat (length body) then None
          else Some (take (unat len) (drop (unat i) body), skip_crlf body (i + len))))"

partial_function (option) decode_chunked_loop :: "(bytes \<Rightarrow> bytes) \<Rightarrow> bytes \<Rightarrow> u64 \<Rightarrow> bytes \<Rightarrow> bytes option" where
  "decode_chunked_loop trim body i out =
    (if i < word_of_nat (length body) then
       (case chunk_step trim body i of
          None \<Rightarrow> Some out
        | Some (data, i') \<Rightarrow> decode_chunked_loop trim body i' (out @ data))
     else Some out)"

definition decode_chunked :: "(bytes \<Rightarrow> bytes) \<Rightarrow> bytes \<Rightarrow> bytes option" where
  "decode_chunked trim body = decode_chunked_loop trim body 0 []"

text \<open>The encoding: the length in hexadecimal, an optional extension, the bytes. What follows the
chunk of length 0 is not read.\<close>

function hex_of_nat :: "nat \<Rightarrow> bytes" where
  "hex_of_nat n = (if n < 16 then [] else hex_of_nat (n div 16)) @ [upper_hex (word_of_nat (n mod 16))]"
  by pat_completeness auto
termination
  by (relation "measure id") auto

definition encode_chunk :: "bytes \<times> bytes \<Rightarrow> bytes" where
  "encode_chunk ec = hex_of_nat (length (snd ec)) @ fst ec @ [13, 10] @ snd ec @ [13, 10]"

definition encode_chunked :: "(bytes \<times> bytes) list \<Rightarrow> bytes \<Rightarrow> bytes" where
  "encode_chunked chunks trailer = concat (map encode_chunk chunks) @ [48, 13, 10] @ trailer"

definition extension :: "bytes \<Rightarrow> bool" where
  "extension e \<longleftrightarrow> (e = [] \<or> hd e = 59) \<and> 13 \<notin> set e"

definition trims :: "(bytes \<Rightarrow> bytes) \<Rightarrow> bool" where
  "trims trim \<longleftrightarrow> (\<forall>s. \<exists>l r. s = l @ trim s @ r \<and> list_all c_isspace l \<and> list_all c_isspace r)"

section \<open>Lemmas\<close>

declare hex_of_nat.simps [simp del]

definition plain_digit :: "u8 \<Rightarrow> bool" where
  "plain_digit c \<longleftrightarrow> is_hex c \<and> c \<noteq> 120 \<and> c \<noteq> 88 \<and> c \<noteq> 45 \<and> c \<noteq> 43 \<and> \<not> c_isspace c \<and> c \<noteq> 59"

lemma upper_hex_plain:
  assumes "d < 16"
  shows "plain_digit (upper_hex d)"
proof -
  have all: "\<forall>n\<in>set [0..<16]. plain_digit (upper_hex (word_of_nat n))" by code_simp
  have "unat d \<in> set [0..<16]" using assms by (simp add: word_less_nat_alt)
  from bspec [OF all this] show ?thesis by simp
qed

lemma digit_mod: "word_of_nat (n mod 16) < (16 :: u8)" "uint (word_of_nat (n mod 16) :: u8) = int (n mod 16)"
proof -
  have "n mod 16 < 16" by simp
  then have "n mod 16 < 256" by linarith
  then show "uint (word_of_nat (n mod 16) :: u8) = int (n mod 16)" by (simp add: unsigned_of_nat take_bit_nat_eq_self)
  then show "word_of_nat (n mod 16) < (16 :: u8)" by (simp add: word_less_def)
qed

lemma hex_of_nat_digits: "list_all plain_digit (hex_of_nat n) \<and> hex_of_nat n \<noteq> []"
proof (induction n rule: hex_of_nat.induct)
  case (1 n)
  have "plain_digit (upper_hex (word_of_nat (n mod 16)))"
    by (rule upper_hex_plain [OF digit_mod(1)])
  then show ?case using 1 by (subst (1 2) hex_of_nat.simps) auto
qed

lemma hex_value_of_nat: "hex_value (hex_of_nat n) = n"
proof (induction n rule: hex_of_nat.induct)
  case (1 n)
  have last: "nat (hexval (upper_hex (word_of_nat (n mod 16)))) = n mod 16"
    using hex_digits(1) [OF digit_mod(1)] digit_mod(2) by simp
  show ?case using 1 last by (subst hex_of_nat.simps) (auto simp: hex_value_def)
qed

lemma stoul16_digits:
  assumes "list_all plain_digit s" "s \<noteq> []" "hex_value s < 2 ^ 64"
  shows "stoul16 s = Some (word_of_nat (hex_value s))"
proof -
  have [simp]: "dropWhile c_isspace s = s" "hd s \<noteq> 45" "hd s \<noteq> 43"
    using assms(1,2) by (cases s; simp add: plain_digit_def)+
  have [simp]: "skip_0x s = s" using assms(1) by (auto simp: skip_0x_def plain_digit_def split: list.splits)
  have [simp]: "takeWhile is_hex s = s" using assms(1) by (auto simp: list_all_iff plain_digit_def)
  show ?thesis using assms(2,3) by (simp add: stoul16_def Let_def)
qed

lemma chunk_len_digits:
  assumes "trims trim" "list_all plain_digit s" "s \<noteq> []" "hex_value s < 2 ^ 64" "extension e"
  shows "chunk_len trim (s @ e) = Some (word_of_nat (hex_value s))"
proof -
  obtain l r where lr: "s @ e = l @ trim (s @ e) @ r" "list_all c_isspace l" "list_all c_isspace r"
    using assms(1) unfolding trims_def by blast
  have "l = []" using lr(1,2) assms(2,3) by (cases l; cases s) (auto simp: plain_digit_def)
  then have t: "s @ e = trim (s @ e) @ r" using lr(1) by simp
  have 59: "59 \<notin> set s" using assms(2) by (auto simp: list_all_iff plain_digit_def)
  have "\<exists>e'. trim (s @ e) = s @ e' \<and> (e' = [] \<or> hd e' = 59)"
  proof -
    obtain us where us: "s = trim (s @ e) @ us \<and> us @ e = r \<or> s @ us = trim (s @ e) \<and> e = us @ r"
      using t [unfolded append_eq_append_conv2] by blast
    show ?thesis
    proof (cases "us = []")
      case False
      have "\<not> list_all c_isspace us" if "s = trim (s @ e) @ us"
      proof -
        have "list_all plain_digit us" using that assms(2) by (metis list_all_append)
        then show ?thesis using False by (cases us) (auto simp: plain_digit_def)
      qed
      then have "s @ us = trim (s @ e)" "e = us @ r" using us lr(3) by auto
      then show ?thesis using assms(5) False by (auto simp: extension_def intro!: exI [of _ us])
    qed (use us in auto)
  qed
  then obtain e' where e': "trim (s @ e) = s @ e'" "e' = [] \<or> hd e' = 59" by blast
  have "(case find_char 59 (s @ e') of None \<Rightarrow> s @ e' | Some semi \<Rightarrow> take semi (s @ e')) = s"
    using e'(2) 59 find_char_append [OF 59] by (cases e') (auto simp: find_char_def)
  then show ?thesis unfolding chunk_len_def Let_def e'(1) using stoul16_digits [OF assms(2-4)] by simp
qed

lemma find_crlf_append: "13 \<notin> set s \<Longrightarrow> find_crlf (s @ 13 # 10 # t) = Some (length s)"
proof (induction s)
  case (Cons a s)
  then show ?case by (cases s) auto
qed simp

lemma line_no_cr: "13 \<notin> set (hex_of_nat n)"
proof -
  have "\<not> plain_digit 13" by (simp add: plain_digit_def c_isspace_def)
  then show ?thesis using hex_of_nat_digits [of n] by (auto simp: list_all_iff)
qed

lemma chunk_step_chunk:
  assumes "trims trim" "extension e" "d \<noteq> []" "body = pre @ encode_chunk (e, d) @ rest" "length body < 2 ^ 64"
  shows "chunk_step trim body (word_of_nat (length pre)) = Some (d, word_of_nat (length (pre @ encode_chunk (e, d))))"
proof -
  define line and p :: "nat \<Rightarrow> u64" where "line = hex_of_nat (length d) @ e" and "p = word_of_nat"
  define j where "j = length (pre @ line @ [13, 10])"
  have body: "body = pre @ line @ 13 # 10 # d @ 13 # 10 # rest" by (simp add: assms(4) encode_chunk_def line_def)
  have unat: "unat (p n) = n" if "n \<le> length body" for n
    using that assms(5) by (simp add: p_def unsigned_of_nat take_bit_nat_eq_self)
  have ulen: "unat (p (length body)) = length body" by (simp add: unat)
  have find: "find_crlf (line @ 13 # 10 # t) = Some (length line)" for t
    using assms(2) line_no_cr by (intro find_crlf_append) (simp add: extension_def line_def)
  have len: "chunk_len trim line = Some (p (length d))"
    unfolding line_def p_def
    using chunk_len_digits [OF assms(1) _ _ _ assms(2), of "hex_of_nat (length d)"] hex_of_nat_digits [of "length d"] assms(5)
    by (simp add: hex_value_of_nat body)
  have pos: "p (length pre) + p (length line) + 2 = p j" "p j + p (length d) = p (j + length d)"
      "p (j + length d) + 2 = p (j + length d + 2)"
    by (simp_all add: p_def j_def)
  have j: "j + length d + 2 \<le> length body" "j + length d + 2 = length (pre @ encode_chunk (e, d))"
      "drop j body = d @ 13 # 10 # rest" "drop (j + length d) body = 13 # 10 # rest"
    by (simp_all add: j_def body encode_chunk_def line_def)
  have u: "unat (p j) = j" "unat (p (j + length d)) = j + length d" "unat (p (j + length d + 2)) = j + length d + 2"
      "unat (p (length d)) = length d" "unat (p (length pre)) = length pre"
    using j(1) by (simp_all add: unat body)
  have dr: "drop (length pre) body = line @ 13 # 10 # d @ 13 # 10 # rest" by (simp add: body)
  have go: "\<not> (p (length d) = 0 \<or> p (length body) < p (j + length d))"
    using u(2,4) ulen j(1) assms(3) by (auto simp: word_less_nat_alt)
  have "p (j + length d + 2) \<le> p (length body)" using u(3) ulen j(1) by (simp add: word_le_nat_alt)
  then have skip: "skip_crlf body (p (j + length d)) = p (j + length d + 2)"
    by (simp add: skip_crlf_def pos(3) u j(4) flip: p_def)
  show ?thesis
    unfolding p_def [symmetric] j(2) [symmetric]
    using go by (simp add: chunk_step_def Let_def u dr find len pos j(3) skip flip: p_def)
qed

lemma chunk_step_last:
  assumes "trims trim" "body = pre @ [48, 13, 10] @ rest" "length body < 2 ^ 64"
  shows "chunk_step trim body (word_of_nat (length pre)) = None"
proof -
  have "unat (word_of_nat (length pre) :: u64) = length pre"
    using assms(2,3) by (simp add: unsigned_of_nat take_bit_nat_eq_self)
  moreover have "chunk_len trim [48] = Some 0"
    using chunk_len_digits [OF assms(1), of "[48]" "[]"]
    by (simp add: plain_digit_def is_hex_def hexval_def c_isspace_def hex_value_def extension_def)
  ultimately show ?thesis by (simp add: chunk_step_def assms(2))
qed

lemma decode_chunked_loop_chunks:
  assumes "trims trim" "\<forall>(e, d)\<in>set chunks. extension e \<and> d \<noteq> []" "body = pre @ encode_chunked chunks trailer"
    "length body < 2 ^ 64"
  shows "decode_chunked_loop trim body (word_of_nat (length pre)) out = Some (out @ concat (map snd chunks))"
  using assms(2,3)
proof (induction chunks arbitrary: pre out)
  case Nil
  then have "chunk_step trim body (word_of_nat (length pre)) = None"
    using assms(1,4) by (intro chunk_step_last [of _ _ _ trailer]) (simp_all add: encode_chunked_def)
  then show ?case by (subst decode_chunked_loop.simps) simp
next
  case (Cons ed chunks)
  obtain e d where ed: "ed = (e, d)" by fastforce
  have body: "body = (pre @ encode_chunk (e, d)) @ encode_chunked chunks trailer"
    using Cons.prems(2) by (simp add: encode_chunked_def ed)
  have step: "chunk_step trim body (word_of_nat (length pre)) = Some (d, word_of_nat (length (pre @ encode_chunk (e, d))))"
    using Cons.prems(1) assms(1,4) body by (intro chunk_step_chunk [of _ _ _ _ _ "encode_chunked chunks trailer"]) (simp_all add: ed)
  have lt: "(word_of_nat (length pre) :: u64) < word_of_nat (length body)"
  proof -
    have "length pre < length body" by (simp add: body encode_chunk_def)
    then show ?thesis using assms(4) by (simp add: word_less_nat_alt unsigned_of_nat take_bit_nat_eq_self)
  qed
  have ih: "decode_chunked_loop trim body (word_of_nat (length (pre @ encode_chunk (e, d)))) (out @ d) =
      Some ((out @ d) @ concat (map snd chunks))"
    using Cons.prems(1) by (intro Cons.IH body) simp
  show ?case unfolding decode_chunked_loop.simps [of _ _ "word_of_nat (length pre)"] step
    using lt ih by (simp add: ed del: length_append)
qed

section \<open>The theorems\<close>

text \<open>C38 Decoding a body that was encoded in chunks terminates and gives the concatenation of the chunks,
whatever the extensions of the chunks and what follows the last one.\<close>

theorem decode_encode_chunked:
  assumes "trims trim" "\<forall>(e, d)\<in>set chunks. extension e \<and> d \<noteq> []" "length (encode_chunked chunks trailer) < 2 ^ 64"
  shows "decode_chunked trim (encode_chunked chunks trailer) = Some (concat (map snd chunks))"
  using decode_chunked_loop_chunks [OF assms(1,2), of "encode_chunked chunks trailer" "[]" trailer "[]"] assms(3)
  by (simp add: decode_chunked_def)

definition strip :: "bytes \<Rightarrow> bytes" where
  "strip s = rev (dropWhile c_isspace (rev (dropWhile c_isspace s)))"

lemma trims_strip: "trims strip"
  unfolding trims_def
proof (intro allI exI conjI)
  fix s :: bytes
  let ?t = "dropWhile c_isspace s"
  have "rev (dropWhile c_isspace (rev ?t)) @ rev (takeWhile c_isspace (rev ?t)) = ?t"
    by (metis rev_append rev_rev_ident takeWhile_dropWhile_id)
  then show "s = takeWhile c_isspace s @ strip s @ rev (takeWhile c_isspace (rev ?t))" by (simp add: strip_def)
  show "list_all c_isspace (takeWhile c_isspace s)" "list_all c_isspace (rev (takeWhile c_isspace (rev ?t)))"
    by (auto simp: list_all_iff dest: set_takeWhileD)
qed

text \<open>Two chunks, the first one with an extension, and the \<^verbatim>\<open>trim\<close> that removes white space at both
ends.\<close>

theorem decode_encode_chunked_witness:
  "trims strip \<and> decode_chunked strip (encode_chunked [([59, 120], [1, 2, 3]), ([], [4])] [13, 10]) = Some [1, 2, 3, 4]"
  using decode_encode_chunked [OF trims_strip, of "[([59, 120], [1, 2, 3]), ([], [4])]" "[13, 10]"] trims_strip
  by (simp add: extension_def encode_chunked_def encode_chunk_def hex_of_nat.simps)

text \<open>The body \<^verbatim>\<open>-4\<close> CR LF: \<^verbatim>\<open>std::stoul\<close> reads the length as $2^{64} - 4$, the sum that guards
the end of the body wraps to 0, nothing is appended and the position is 0 again, so that the loop
never ends.\<close>

lemma minus_four_step:
  assumes "trims trim"
  shows "chunk_step trim [45, 52, 13, 10] 0 = Some ([], 0)"
proof -
  obtain l r where lr: "[45, 52] = l @ trim [45, 52] @ r" "list_all c_isspace l" "list_all c_isspace r"
    using assms unfolding trims_def by blast
  have no: "\<not> c_isspace 45" "\<not> c_isspace 52" by code_simp+
  have "l = []" using lr(1,2) no(1) by (cases l) simp_all
  moreover have "r = []" using lr(1,3)
  proof (cases r rule: rev_cases)
    case (snoc r' c)
    then have "c = 52" using lr(1) by (metis append.assoc last.simps last_snoc list.distinct(1))
    then show ?thesis using lr(3) snoc no(2) by simp
  qed simp
  ultimately have "trim [45, 52] = [45, 52]" using lr(1) by simp
  moreover have "stoul16 [45, 52] = Some (- 4)"
    by (simp add: stoul16_def skip_0x_def is_hex_def hexval_def hex_value_def c_isspace_def Let_def)
  ultimately show ?thesis
    by (simp add: chunk_step_def chunk_len_def find_char_def skip_crlf_def Let_def)
qed

theorem decode_chunked_diverges:
  assumes "trims trim"
  shows "decode_chunked trim [45, 52, 13, 10] = None"
proof -
  let ?P = "\<lambda>trim' body i (out :: bytes) (r :: bytes). \<not> (trim' = trim \<and> body = [45, 52, 13, 10] \<and> i = 0)"
  have "?P t b i out r" if "decode_chunked_loop t b i out = Some r" for t b i out r
  proof (rule decode_chunked_loop.raw_induct [where P = ?P, OF _ that])
    fix loop t b i out r
    assume ih: "\<And>t b i out r. loop t b i out = Some r \<Longrightarrow> ?P t b i out r"
      and body: "(if i < word_of_nat (length b)
         then case chunk_step t b i of None \<Rightarrow> Some out | Some (data, i') \<Rightarrow> loop t b i' (out @ data)
         else Some out) = Some r"
    show "?P t b i out r"
    proof
      assume z: "t = trim \<and> b = [45, 52, 13, 10] \<and> i = 0"
      then have "loop t b 0 out = Some r" using body minus_four_step [OF assms] by simp
      from ih [OF this] show False using z by simp
    qed
  qed
  then show ?thesis unfolding decode_chunked_def by (metis not_None_eq)
qed

end
