(* ===== verification/Solver_Cache.thy ===== *)
theory Solver_Cache
  imports Url_Query "HOL-Library.Multiset"
begin

text \<open>Solving the challenges of a format URL with the shared cache (\<^verbatim>\<open>solve_format_url\<close> of
\<^verbatim>\<open>src/solver_engine.cpp\<close> over the structures of \<^verbatim>\<open>src/yoube_model.h\<close>). The caches are objects
at addresses, shared by the assets that point to them; the engine of a thread is part of the state
of the thread. The engine itself runs JavaScript and is an argument: \<open>new_engine\<close> is its
constructor, \<open>solve\<close> its method, both of which may throw. Between the two critical sections
other threads may change the cache, which is the argument \<open>others\<close>.

With an engine that answers every request on its own, a solved URL reads as the answers, whether
they come from the cache or from the engine, and the caches keep only answers; a call whose requests
are all cached does not use the engine.\<close>

section \<open>Definitions\<close>

record solver_request =
  req_type :: bytes
  challenge :: bytes

record solver_response =
  resp_ok :: bool
  resp_data :: bytes
  resp_error :: bytes

record solver_cache =
  n_values :: "bytes \<rightharpoonup> bytes"
  sig_values :: "bytes \<rightharpoonup> bytes"
  n_errors :: "bytes \<rightharpoonup> bytes"
  sig_errors :: "bytes \<rightharpoonup> bytes"

record solver_assets =
  meriyah_code :: bytes
  astring_code :: bytes
  lib_code :: bytes
  core_code :: bytes
  player_code :: bytes
  assets_cache :: "nat option"

record solved_url_result =
  decoded_url :: bytes
  solver_error :: bytes

record format_info =
  fmt_url :: bytes
  fmt_sp :: bytes
  fmt_requests :: "solver_request list"

record 'e thread_state =
  caches :: "nat \<Rightarrow> solver_cache"
  engine :: "'e option"

abbreviation type_n :: bytes where "type_n \<equiv> [110]"
abbreviation type_sig :: bytes where "type_sig \<equiv> [115, 105, 103]"

definition add_error :: "bytes \<Rightarrow> bytes \<Rightarrow> bytes" where
  "add_error err e = (if err \<noteq> [] then err @ [32, 124, 32] else err) @ e"

text \<open>What the two maps of a type hold for a challenge: a value, an error or nothing.\<close>

definition find_in :: "(bytes \<rightharpoonup> bytes) \<Rightarrow> (bytes \<rightharpoonup> bytes) \<Rightarrow> bytes \<Rightarrow> (bytes + bytes) option" where
  "find_in vals errs ch =
    (case vals ch of Some v \<Rightarrow> Some (Inr v) | None \<Rightarrow> map_option Inl (errs ch))"

definition find_cached :: "solver_cache \<Rightarrow> solver_request \<Rightarrow> (bytes + bytes) option" where
  "find_cached c r =
    (if req_type r = type_n then find_in (n_values c) (n_errors c) (challenge r)
     else if req_type r = type_sig then find_in (sig_values c) (sig_errors c) (challenge r)
     else None)"

type_synonym ready = "(bytes \<times> bytes) list"

fun lookup_requests :: "solver_cache \<Rightarrow> solver_request list \<Rightarrow> ready \<Rightarrow> solver_request list \<Rightarrow> bytes
    \<Rightarrow> ready \<times> solver_request list \<times> bytes" where
  "lookup_requests c [] ready missing err = (ready, missing, err)"
| "lookup_requests c (r # rs) ready missing err =
    (case find_cached c r of
       Some (Inr v) \<Rightarrow> lookup_requests c rs (ready @ [(req_type r, v)]) missing err
     | Some (Inl e) \<Rightarrow> lookup_requests c rs ready missing (add_error err e)
     | None \<Rightarrow> lookup_requests c rs ready (missing @ [r]) err)"

definition cache_response :: "solver_request \<Rightarrow> solver_response \<Rightarrow> solver_cache \<Rightarrow> solver_cache" where
  "cache_response r a c =
    (if resp_ok a then
       (if req_type r = type_n then c\<lparr>n_values := (n_values c)(challenge r \<mapsto> resp_data a)\<rparr>
        else if req_type r = type_sig then c\<lparr>sig_values := (sig_values c)(challenge r \<mapsto> resp_data a)\<rparr>
        else c)
     else
       (if req_type r = type_n then c\<lparr>n_errors := (n_errors c)(challenge r \<mapsto> resp_error a)\<rparr>
        else if req_type r = type_sig then c\<lparr>sig_errors := (sig_errors c)(challenge r \<mapsto> resp_error a)\<rparr>
        else c))"

fun store_responses :: "solver_request list \<Rightarrow> solver_response list \<Rightarrow> solver_cache \<Rightarrow> ready \<Rightarrow> bytes
    \<Rightarrow> solver_cache \<times> ready \<times> bytes" where
  "store_responses (r # rs) (a # as) c ready err =
    (if resp_ok a then store_responses rs as (cache_response r a c) (ready @ [(req_type r, resp_data a)]) err
     else store_responses rs as (cache_response r a c) ready (add_error err (resp_error a)))"
| "store_responses _ _ c ready err = (c, ready, err)"

definition thread_local_solver_engine ::
    "(solver_assets \<Rightarrow> bytes + 'e) \<Rightarrow> solver_assets \<Rightarrow> 'e thread_state \<Rightarrow> bytes + 'e" where
  "thread_local_solver_engine new_engine assets st =
    (case engine st of None \<Rightarrow> new_engine assets | Some e \<Rightarrow> Inr e)"

definition apply_ready :: "bytes \<Rightarrow> bytes \<times> bytes \<Rightarrow> bytes \<Rightarrow> bytes" where
  "apply_ready sp kv current =
    (if fst kv = type_n then set_or_replace_query_param current type_n (snd kv)
     else if fst kv = type_sig then
       set_or_replace_query_param current (if sp = [] then [115, 105, 103, 110, 97, 116, 117, 114, 101] else sp) (snd kv)
     else current)"

definition solve_format_url ::
    "(solver_assets \<Rightarrow> bytes + 'e) \<Rightarrow> ('e \<Rightarrow> solver_request list \<Rightarrow> (bytes + solver_response list) \<times> 'e) \<Rightarrow>
     (solver_cache \<Rightarrow> solver_cache) \<Rightarrow> format_info \<Rightarrow> solver_assets \<Rightarrow> 'e thread_state \<Rightarrow>
     solved_url_result \<times> 'e thread_state" where
  "solve_format_url new_engine solve others fmt assets st =
    (let out = \<lparr>decoded_url = fmt_url fmt, solver_error = []\<rparr> in
     if fmt_url fmt = [] then
       (out\<lparr>solver_error := ascii ''Keine URL vorhanden''\<rparr>, st)
     else if fmt_requests fmt = [] then (out, st)
     else (case assets_cache assets of
       None \<Rightarrow> (out\<lparr>solver_error := ascii ''Solver-Cache fehlt''\<rparr>, st)
     | Some p \<Rightarrow>
       (case lookup_requests (caches st p) (fmt_requests fmt) [] [] [] of
          (ready, missing, err) \<Rightarrow>
            if missing = [] then
              (\<lparr>decoded_url = fold (apply_ready (fmt_sp fmt)) ready (fmt_url fmt), solver_error = err\<rparr>, st)
            else (case thread_local_solver_engine new_engine assets st of
              Inl what \<Rightarrow> (out\<lparr>solver_error := what\<rparr>, st)
            | Inr e \<Rightarrow>
              (case solve e missing of
                 (Inl what, e') \<Rightarrow> (out\<lparr>solver_error := what\<rparr>, st\<lparr>engine := Some e'\<rparr>)
               | (Inr responses, e') \<Rightarrow>
                 (case store_responses missing responses (others (caches st p)) ready err of
                    (c, ready', err') \<Rightarrow>
                      (\<lparr>decoded_url = fold (apply_ready (fmt_sp fmt)) ready' (fmt_url fmt), solver_error = err'\<rparr>,
                       \<lparr>caches = (caches st)(p := c), engine = Some e'\<rparr>)))))))"

section \<open>Lemmas\<close>

subsection \<open>Caches that keep answers\<close>

text \<open>What a response says, in the form in which a cache holds it.\<close>

definition outcome :: "solver_response \<Rightarrow> bytes + bytes" where
  "outcome a = (if resp_ok a then Inr (resp_data a) else Inl (resp_error a))"

definition known :: "solver_request \<Rightarrow> bool" where
  "known r \<longleftrightarrow> req_type r = type_n \<or> req_type r = type_sig"

text \<open>\<open>cache_ok answer\<close>: whatever the maps hold is the answer to that challenge; a challenge
that is answered by an error has no value and conversely.\<close>

definition cache_ok :: "(solver_request \<Rightarrow> solver_response) \<Rightarrow> solver_cache \<Rightarrow> bool" where
  "cache_ok answer c \<longleftrightarrow>
    (\<forall>ch v. n_values c ch = Some v \<longrightarrow> outcome (answer \<lparr>req_type = type_n, challenge = ch\<rparr>) = Inr v) \<and>
    (\<forall>ch e. n_errors c ch = Some e \<longrightarrow> outcome (answer \<lparr>req_type = type_n, challenge = ch\<rparr>) = Inl e) \<and>
    (\<forall>ch v. sig_values c ch = Some v \<longrightarrow> outcome (answer \<lparr>req_type = type_sig, challenge = ch\<rparr>) = Inr v) \<and>
    (\<forall>ch e. sig_errors c ch = Some e \<longrightarrow> outcome (answer \<lparr>req_type = type_sig, challenge = ch\<rparr>) = Inl e)"

lemma cache_ok_find: "cache_ok answer c \<Longrightarrow> find_cached c r = Some x \<Longrightarrow> x = outcome (answer r)"
  by (cases r) (auto simp: cache_ok_def find_cached_def find_in_def split: if_splits option.splits)

lemma cache_ok_response: "cache_ok answer c \<Longrightarrow> cache_ok answer (cache_response r (answer r) c)"
proof -
  have "outcome (answer r) = (if resp_ok (answer r) then Inr (resp_data (answer r)) else Inl (resp_error (answer r)))"
    by (rule outcome_def)
  then show "cache_ok answer c \<Longrightarrow> ?thesis"
    by (cases r) (auto simp: cache_ok_def cache_response_def)
qed

lemma find_cache_response:
  assumes "cache_ok answer c" "known r"
  shows "find_cached (cache_response r (answer r) c) r = Some (outcome (answer r))"
proof -
  have "find_cached (cache_response r (answer r) c) r \<noteq> None"
    using assms(2) by (auto simp: find_cached_def find_in_def cache_response_def known_def split: option.splits)
  then show ?thesis using cache_ok_find [OF cache_ok_response [OF assms(1)]] by fastforce
qed

lemma find_cache_response_keep:
  "find_cached c r \<noteq> None \<Longrightarrow> find_cached (cache_response r' a c) r \<noteq> None"
  by (auto simp: find_cached_def find_in_def cache_response_def split: if_splits option.splits)

definition hits :: "solver_cache \<Rightarrow> solver_request set" where
  "hits c = {r. find_cached c r \<noteq> None}"

lemma hits_response: "cache_ok answer c \<Longrightarrow> hits c \<union> {q. q = r \<and> known q} \<subseteq> hits (cache_response r (answer r) c)"
  using find_cache_response [of answer c r] find_cache_response_keep [of c _ r "answer r"] by (auto simp: hits_def)

subsection \<open>The two loops\<close>

definition answered :: "(solver_request \<Rightarrow> solver_response) \<Rightarrow> solver_request list \<Rightarrow> ready" where
  "answered answer rs = map (\<lambda>r. (req_type r, resp_data (answer r))) (filter (\<lambda>r. resp_ok (answer r)) rs)"

lemma lookup_requests_ok:
  assumes "cache_ok answer c"
  shows "\<exists>err'. lookup_requests c rs ready missing err =
      (ready @ answered answer (filter (\<lambda>r. find_cached c r \<noteq> None) rs),
       missing @ filter (\<lambda>r. find_cached c r = None) rs, err') \<and>
    ((\<forall>r\<in>set rs. resp_ok (answer r)) \<longrightarrow> err' = err)"
proof (induction rs arbitrary: ready missing err)
  case (Cons r rs)
  show ?case
  proof (cases "find_cached c r")
    case None
    then show ?thesis using Cons [of ready "missing @ [r]" err] by (auto simp: answered_def)
  next
    case (Some x)
    then have x: "x = outcome (answer r)" by (rule cache_ok_find [OF assms])
    then show ?thesis
      using Some Cons [of "ready @ [(req_type r, resp_data (answer r))]" missing err]
        Cons [of ready missing "add_error err (resp_error (answer r))"]
      by (cases "resp_ok (answer r)") (auto simp: answered_def outcome_def)
  qed
qed (simp add: answered_def)

lemma store_responses_ok:
  assumes "cache_ok answer c"
  shows "\<exists>c' err'. store_responses rs (map answer rs) c ready err = (c', ready @ answered answer rs, err') \<and>
    cache_ok answer c' \<and> hits c \<union> {r \<in> set rs. known r} \<subseteq> hits c' \<and>
    ((\<forall>r\<in>set rs. resp_ok (answer r)) \<longrightarrow> err' = err)"
  using assms
proof (induction rs arbitrary: c ready err)
  case (Cons r rs)
  let ?c = "cache_response r (answer r) c"
  have c: "cache_ok answer ?c" by (rule cache_ok_response [OF Cons.prems])
  have eq: "store_responses (r # rs) (map answer (r # rs)) c ready err = store_responses rs (map answer rs) ?c
      (ready @ answered answer [r]) (if resp_ok (answer r) then err else add_error err (resp_error (answer r)))"
    by (simp add: answered_def)
  have split: "answered answer (r # rs) = answered answer [r] @ answered answer rs" by (simp add: answered_def)
  show ?case unfolding eq split append_assoc [symmetric]
    using Cons.IH [OF c, of "ready @ answered answer [r]" "if resp_ok (answer r) then err else add_error err (resp_error (answer r))"]
      hits_response [OF Cons.prems, of r] by (elim exE conjE) (intro exI conjI, assumption+, auto)
qed (simp add: answered_def)

subsection \<open>The parameters of the solved URL\<close>

definition sp_key :: "bytes \<Rightarrow> bytes" where
  "sp_key sp = (if sp = [] then [115, 105, 103, 110, 97, 116, 117, 114, 101] else sp)"

definition param_of :: "bytes \<Rightarrow> bytes \<Rightarrow> bytes" where
  "param_of sp ty = (if ty = type_n then type_n else sp_key sp)"

definition stable_url :: "bytes \<Rightarrow> bool" where
  "stable_url url \<longleftrightarrow> (\<forall>k\<in>set (map fst (url_params url)). decode_once k = k)"

lemma apply_ready_alt:
  "apply_ready sp (ty, v) url =
    (if ty = type_n \<or> ty = type_sig then set_or_replace_query_param url (param_of sp ty) v else url)"
  by (simp add: apply_ready_def param_of_def sp_key_def)

lemma param_stable: "decode_once (sp_key sp) = sp_key sp \<Longrightarrow> decode_once (param_of sp ty) = param_of sp ty"
  by (simp add: param_of_def plus_to_space_def)

lemma apply_ready_step:
  assumes "decode_once (sp_key sp) = sp_key sp" "decode_once v = v" "stable_url url"
  shows "stable_url (apply_ready sp (ty, v) url)"
    "query_param_from_url (apply_ready sp (ty, v) url) k =
      (if ty = type_n \<or> ty = type_sig then
         if k = param_of sp ty then Some v else map_option decode_once (query_param_from_url url k)
       else query_param_from_url url k)"
proof -
  note p = param_stable [OF assms(1), of ty]
  show "stable_url (apply_ready sp (ty, v) url)"
    using keys_after_set [OF p assms(2) assms(3) [unfolded stable_url_def]] assms(3) p
    by (simp add: apply_ready_alt stable_url_def del: set_map)
  show "query_param_from_url (apply_ready sp (ty, v) url) k =
      (if ty = type_n \<or> ty = type_sig then
         if k = param_of sp ty then Some v else map_option decode_once (query_param_from_url url k)
       else query_param_from_url url k)"
    using query_after_set [OF p assms(2) assms(3) [unfolded stable_url_def]] by (simp add: apply_ready_alt)
qed

lemma fold_apply_keep:
  assumes "decode_once (sp_key sp) = sp_key sp" "\<forall>(ty, v)\<in>set kvs. decode_once v = v" "stable_url url"
    "\<forall>(ty, v)\<in>set kvs. ty = type_n \<or> ty = type_sig \<longrightarrow> param_of sp ty \<noteq> k"
    "query_param_from_url url k = Some w" "decode_once w = w"
  shows "query_param_from_url (fold (apply_ready sp) kvs url) k = Some w"
  using assms(2-5)
proof (induction kvs arbitrary: url)
  case (Cons kv kvs)
  obtain ty v where kv: "kv = (ty, v)" by fastforce
  have "decode_once v = v" using Cons.prems(1) by (simp add: kv)
  note step = apply_ready_step [OF assms(1) this Cons.prems(2)]
  have "query_param_from_url (apply_ready sp (ty, v) url) k = Some w"
    using Cons.prems(3,4) assms(6) step(2) [of ty k] by (auto simp: kv)
  then show ?case using Cons.prems(1,3) Cons.IH [OF _ step(1)] by (simp add: kv)
qed simp

lemma fold_apply_ready:
  assumes "decode_once (sp_key sp) = sp_key sp" "sp_key sp \<noteq> type_n" "\<forall>(ty, v)\<in>set kvs. decode_once v = v" "stable_url url"
    "distinct (map fst kvs)" "(ty, w) \<in> set kvs" "ty = type_n \<or> ty = type_sig"
  shows "query_param_from_url (fold (apply_ready sp) kvs url) (param_of sp ty) = Some w"
  using assms(3-6)
proof (induction kvs arbitrary: url)
  case (Cons kv kvs)
  obtain ty' v where kv: "kv = (ty', v)" by fastforce
  have v: "decode_once v = v" using Cons.prems(1) by (simp add: kv)
  note step = apply_ready_step [OF assms(1) v Cons.prems(2)]
  show ?case
  proof (cases "(ty, w) = kv")
    case True
    have other: "\<forall>(ty', v)\<in>set kvs. ty' = type_n \<or> ty' = type_sig \<longrightarrow> param_of sp ty' \<noteq> param_of sp ty"
      using Cons.prems(3) True assms(2,7) by (force simp: kv param_of_def)
    have "query_param_from_url (apply_ready sp (ty, w) url) (param_of sp ty) = Some w"
      using step(2) [of ty "param_of sp ty"] assms(7) True by (auto simp: kv)
    then have "query_param_from_url (fold (apply_ready sp) kvs (apply_ready sp (ty, w) url)) (param_of sp ty) = Some w"
      using Cons.prems(1) True v other step(1) by (intro fold_apply_keep [OF assms(1)]) (auto simp: kv)
    then show ?thesis using True by (simp add: kv)
  next
    case False
    then show ?thesis using Cons.prems Cons.IH [OF _ step(1) [of ty']] by (auto simp: kv)
  qed
qed simp

section \<open>The theorems\<close>

text \<open>What is expected of the engine that the call uses (the one of the thread, or else a new one) and of the
other threads: the engine answers every request on its own, and the others add answers to the cache.\<close>

definition engine_answers :: "(solver_assets \<Rightarrow> bytes + 'e) \<Rightarrow> ('e \<Rightarrow> solver_request list \<Rightarrow> (bytes + solver_response list) \<times> 'e) \<Rightarrow>
    (solver_request \<Rightarrow> solver_response) \<Rightarrow> solver_assets \<Rightarrow> 'e thread_state \<Rightarrow> bool" where
  "engine_answers new_engine solve answer assets st \<longleftrightarrow>
    (\<exists>e. thread_local_solver_engine new_engine assets st = Inr e \<and> (\<forall>rs. fst (solve e rs) = Inr (map answer rs)))"

definition adds_answers :: "(solver_request \<Rightarrow> solver_response) \<Rightarrow> (solver_cache \<Rightarrow> solver_cache) \<Rightarrow> bool" where
  "adds_answers answer others \<longleftrightarrow> (\<forall>c. cache_ok answer c \<longrightarrow> cache_ok answer (others c) \<and> hits c \<subseteq> hits (others c))"

text \<open>The shape of the result of a call: the answers in some order, and a cache that has them.\<close>

lemma solve_format_url_shape:
  assumes "engine_answers new_engine solve answer assets st" "adds_answers answer others"
    "assets_cache assets = Some p" "cache_ok answer (caches st p)" "fmt_url fmt \<noteq> []" "fmt_requests fmt \<noteq> []"
    "solve_format_url new_engine solve others fmt assets st = (res, st')"
  obtains err rs where
    "res = \<lparr>decoded_url = fold (apply_ready (fmt_sp fmt)) (answered answer rs) (fmt_url fmt), solver_error = err\<rparr>"
    "mset rs = mset (fmt_requests fmt)" "cache_ok answer (caches st' p)"
    "hits (caches st p) \<union> {r \<in> set (fmt_requests fmt). known r} \<subseteq> hits (caches st' p)"
    "(\<forall>r\<in>set (fmt_requests fmt). resp_ok (answer r)) \<longrightarrow> err = []"
proof -
  let ?c = "caches st p" and ?rs = "fmt_requests fmt"
  let ?hit = "filter (\<lambda>r. find_cached ?c r \<noteq> None) ?rs" and ?miss = "filter (\<lambda>r. find_cached ?c r = None) ?rs"
  obtain err where look: "lookup_requests ?c ?rs [] [] [] = (answered answer ?hit, ?miss, err)"
    "(\<forall>r\<in>set ?rs. resp_ok (answer r)) \<longrightarrow> err = []"
    using lookup_requests_ok [OF assms(4), of ?rs "[]" "[]" "[]"] by auto
  have mset: "mset (?hit @ ?miss) = mset ?rs"
    using multiset_partition [of "mset ?rs" "\<lambda>r. find_cached ?c r \<noteq> None"] by simp
  have split: "answered answer (?hit @ ?miss) = answered answer ?hit @ answered answer ?miss" by (simp add: answered_def)
  show thesis
  proof (cases "?miss = []")
    case True
    then have "res = \<lparr>decoded_url = fold (apply_ready (fmt_sp fmt)) (answered answer (?hit @ ?miss)) (fmt_url fmt), solver_error = err\<rparr>"
      "st' = st"
      using look(1) assms(3,5-7) by (auto simp: solve_format_url_def)
    moreover have "{r \<in> set ?rs. known r} \<subseteq> hits ?c" using True by (auto simp: hits_def filter_empty_conv)
    ultimately show thesis using that [of "?hit @ ?miss" err] mset assms(4) look(2) by simp
  next
    case False
    obtain e where e: "thread_local_solver_engine new_engine assets st = Inr e" "\<And>rs. fst (solve e rs) = Inr (map answer rs)"
      using assms(1) by (auto simp: engine_answers_def)
    obtain e' where e': "solve e ?miss = (Inr (map answer ?miss), e')" using e(2) by (metis prod.collapse)
    have others: "cache_ok answer (others ?c)" "hits ?c \<subseteq> hits (others ?c)"
      using assms(2,4) by (auto simp: adds_answers_def)
    obtain c' err' where st: "store_responses ?miss (map answer ?miss) (others ?c) (answered answer ?hit) err =
        (c', answered answer (?hit @ ?miss), err')" "cache_ok answer c'" "hits (others ?c) \<union> {r \<in> set ?miss. known r} \<subseteq> hits c'"
        "(\<forall>r\<in>set ?miss. resp_ok (answer r)) \<longrightarrow> err' = err"
      using store_responses_ok [OF others(1), of ?miss "answered answer ?hit" err] unfolding split by blast
    have "res = \<lparr>decoded_url = fold (apply_ready (fmt_sp fmt)) (answered answer (?hit @ ?miss)) (fmt_url fmt), solver_error = err'\<rparr>"
      "st' = \<lparr>caches = (caches st)(p := c'), engine = Some e'\<rparr>"
      using False look(1) st(1) assms(3,5-7) e(1) e' by (simp_all add: solve_format_url_def)
    moreover have "hits ?c \<union> {r \<in> set ?rs. known r} \<subseteq> hits c'"
    proof -
      have "{r \<in> set ?rs. known r} \<subseteq> hits ?c \<union> {r \<in> set ?miss. known r}" by (auto simp: hits_def)
      then show ?thesis using others(2) st(3) by blast
    qed
    moreover have "(\<forall>r\<in>set ?rs. resp_ok (answer r)) \<longrightarrow> err' = []" using st(4) look(2) by simp
    ultimately show thesis using that [of "?hit @ ?miss" err'] mset st(2) by simp
  qed
qed

text \<open>C39 The cache is transparent. Let the engine that the call uses (the one of the thread, or else a new one)
answer every request on its own, and let the cache hold none but such answers, to whichever challenges;
other threads may add more. Then after solving a format the parameters of the URL read as the answers
to the challenges that have one (under \<^verbatim>\<open>n\<close> and under the parameter named by \<^verbatim>\<open>sp\<close>), no error is reported
when every challenge has one, and the cache still holds nothing but answers. The URL is not empty, the
format has requests and at most one of each type, \<^verbatim>\<open>sp\<close> does not name \<^verbatim>\<open>n\<close>, and percent decoding changes
neither the answers nor the keys.\<close>

theorem solve_format_url_answers:
  assumes "engine_answers new_engine solve answer assets st" "adds_answers answer others"
    "assets_cache assets = Some p" "cache_ok answer (caches st p)" "fmt_url fmt \<noteq> []" "fmt_requests fmt \<noteq> []"
    "distinct (map req_type (fmt_requests fmt))" "stable_url (fmt_url fmt)"
    "decode_once (sp_key (fmt_sp fmt)) = sp_key (fmt_sp fmt)" "sp_key (fmt_sp fmt) \<noteq> type_n"
    "\<forall>r\<in>set (fmt_requests fmt). decode_once (resp_data (answer r)) = resp_data (answer r)"
    "solve_format_url new_engine solve others fmt assets st = (res, st')"
  shows "cache_ok answer (caches st' p) \<and>
    (\<forall>r\<in>set (fmt_requests fmt). known r \<and> resp_ok (answer r) \<longrightarrow>
      query_param_from_url (decoded_url res) (param_of (fmt_sp fmt) (req_type r)) = Some (resp_data (answer r))) \<and>
    ((\<forall>r\<in>set (fmt_requests fmt). resp_ok (answer r)) \<longrightarrow> solver_error res = [])"
proof -
  obtain err rs where res: "res = \<lparr>decoded_url = fold (apply_ready (fmt_sp fmt)) (answered answer rs) (fmt_url fmt), solver_error = err\<rparr>"
    and rs: "mset rs = mset (fmt_requests fmt)" and ok: "cache_ok answer (caches st' p)"
    and err: "(\<forall>r\<in>set (fmt_requests fmt). resp_ok (answer r)) \<longrightarrow> err = []"
    by (rule solve_format_url_shape [OF assms(1-6,12)])
  have set: "set rs = set (fmt_requests fmt)" by (rule mset_eq_setD [OF rs])
  have "mset (map req_type rs) = mset (map req_type (fmt_requests fmt))" using rs by simp
  then have "distinct (map req_type rs)" using assms(7) by (rule mset_eq_imp_distinct_iff [THEN iffD2])
  then have distinct: "distinct (map fst (answered answer rs))"
    by (simp add: answered_def comp_def distinct_map_filter)
  have "\<forall>(ty, v)\<in>set (answered answer rs). decode_once v = v" using assms(11) by (auto simp: answered_def set)
  note read = fold_apply_ready [OF assms(9,10) this assms(8) distinct]
  have "query_param_from_url (decoded_url res) (param_of (fmt_sp fmt) (req_type r)) = Some (resp_data (answer r))"
    if "r \<in> set (fmt_requests fmt)" "known r" "resp_ok (answer r)" for r
    using that read [of "req_type r" "resp_data (answer r)"] by (auto simp: res known_def answered_def set)
  then show ?thesis using ok err by (auto simp: res)
qed

text \<open>An engine that reverses the challenge, an empty cache, and the URL \<^verbatim>\<open>u?n=a\<close> with the challenge
\<^verbatim>\<open>ab\<close>.\<close>

definition reverse_answer :: "solver_request \<Rightarrow> solver_response" where
  "reverse_answer r = \<lparr>resp_ok = True, resp_data = rev (challenge r), resp_error = []\<rparr>"

definition reverse_solve :: "unit \<Rightarrow> solver_request list \<Rightarrow> (bytes + solver_response list) \<times> unit" where
  "reverse_solve e rs = (Inr (map reverse_answer rs), e)"

definition example_assets :: solver_assets where
  "example_assets = \<lparr>meriyah_code = [], astring_code = [], lib_code = [], core_code = [], player_code = [], assets_cache = Some 0\<rparr>"

definition example_state :: "unit thread_state" where
  "example_state = \<lparr>caches = (\<lambda>p. \<lparr>n_values = Map.empty, sig_values = Map.empty, n_errors = Map.empty, sig_errors = Map.empty\<rparr>),
    engine = None\<rparr>"

definition example_format :: format_info where
  "example_format = \<lparr>fmt_url = [117, 63, 110, 61, 97], fmt_sp = [], fmt_requests = [\<lparr>req_type = type_n, challenge = [97, 98]\<rparr>]\<rparr>"

lemma example_hypotheses:
  "engine_answers Inr' reverse_solve reverse_answer example_assets example_state" "adds_answers reverse_answer id"
  "assets_cache example_assets = Some 0" "cache_ok reverse_answer (caches example_state 0)"
  "fmt_url example_format \<noteq> []" "fmt_requests example_format \<noteq> []"
  "distinct (map req_type (fmt_requests example_format))"
  "\<forall>r\<in>set (fmt_requests example_format). known r"
  if "Inr' = (\<lambda>a. Inr ())"
  by (simp_all add: that engine_answers_def thread_local_solver_engine_def reverse_solve_def adds_answers_def example_assets_def example_state_def
      cache_ok_def example_format_def known_def)

theorem solve_format_url_answers_witness:
  "query_param_from_url (decoded_url (fst (solve_format_url (\<lambda>a. Inr ()) reverse_solve id example_format example_assets example_state)))
    type_n = Some [98, 97]"
proof -
  have url: "stable_url (fmt_url example_format)" by code_simp
  have sp: "decode_once (sp_key (fmt_sp example_format)) = sp_key (fmt_sp example_format)" "sp_key (fmt_sp example_format) \<noteq> type_n"
    by code_simp+
  have data: "\<forall>r\<in>set (fmt_requests example_format). decode_once (resp_data (reverse_answer r)) = resp_data (reverse_answer r)"
    by code_simp
  have r: "\<lparr>req_type = type_n, challenge = [97, 98]\<rparr> \<in> set (fmt_requests example_format)" by (simp add: example_format_def)
  note hyps = example_hypotheses(1-7) [OF refl]
  show ?thesis
    using conjunct1 [OF conjunct2 [OF solve_format_url_answers [OF hyps url sp data surjective_pairing]]] r
    by (force simp: param_of_def known_def reverse_answer_def)
qed

text \<open>C40 Once a format with requests of the two known types was solved, solving it again touches neither the
engine nor the cache, whatever engine there is: the second call finds every answer in the cache.\<close>

theorem solve_format_url_again:
  assumes "engine_answers new_engine solve answer assets st" "adds_answers answer others"
    "assets_cache assets = Some p" "cache_ok answer (caches st p)" "fmt_url fmt \<noteq> []" "fmt_requests fmt \<noteq> []"
    "\<forall>r\<in>set (fmt_requests fmt). known r"
    "solve_format_url new_engine solve others fmt assets st = (res, st')"
  shows "\<exists>err. solve_format_url new_engine' solve' others' fmt assets st' =
      (\<lparr>decoded_url = fold (apply_ready (fmt_sp fmt)) (answered answer (fmt_requests fmt)) (fmt_url fmt), solver_error = err\<rparr>, st')"
proof -
  have ok: "cache_ok answer (caches st' p)" and "{r \<in> set (fmt_requests fmt). known r} \<subseteq> hits (caches st' p)"
    by (rule solve_format_url_shape [OF assms(1-6,8)]; simp)+
  then have all: "\<forall>r\<in>set (fmt_requests fmt). find_cached (caches st' p) r \<noteq> None" using assms(7) by (auto simp: hits_def)
  then have "filter (\<lambda>r. find_cached (caches st' p) r \<noteq> None) (fmt_requests fmt) = fmt_requests fmt"
    "filter (\<lambda>r. find_cached (caches st' p) r = None) (fmt_requests fmt) = []"
    by (simp_all add: filter_empty_conv filter_id_conv)
  then obtain err where "lookup_requests (caches st' p) (fmt_requests fmt) [] [] [] = (answered answer (fmt_requests fmt), [], err)"
    using lookup_requests_ok [OF ok, of "fmt_requests fmt" "[]" "[]" "[]"] by auto
  then show ?thesis using assms(3,5,6) by (simp add: solve_format_url_def)
qed

theorem solve_format_url_again_witness:
  "\<exists>st'. snd (solve_format_url (\<lambda>a. Inr ()) reverse_solve id example_format example_assets example_state) = st' \<and>
    snd (solve_format_url (\<lambda>a. Inl []) (\<lambda>e rs. (Inl [], e)) id example_format example_assets st') = st'"
  using solve_format_url_again [OF example_hypotheses(1-6,8) [OF refl] surjective_pairing,
      of "\<lambda>a. Inl []" "\<lambda>e rs. (Inl [], e)" id]
  by auto

text \<open>The engine of a thread is built from the assets of the first call that needs one. With an engine
there, the assets of a later call, its player code included, are not looked at, apart from the
cache.\<close>

theorem later_assets_are_ignored:
  assumes "engine st = Some e" "assets_cache assets = assets_cache assets'"
  shows "solve_format_url new_engine solve others fmt assets st = solve_format_url new_engine solve others fmt assets' st"
proof -
  have "thread_local_solver_engine new_engine assets st = thread_local_solver_engine new_engine assets' st"
    using assms(1) by (simp add: thread_local_solver_engine_def)
  then show ?thesis unfolding solve_format_url_def assms(2) by (simp only:)
qed

end
