(* ===== verification/Spec2Isabelle.thy ===== *)
theory Spec2Isabelle
  imports Prelude Cutils_String Cutils_Bytes Dyn_Buf Utf8 Bigint_String Sort_Exchange Unicode_Canonicalize
    Job_Queue Rope_Faults Date_String Http_Chunked Solver_Cache
begin

text \<open>
  A verification library for the QuickJS engine sources and the solver boundary around them.

  The repository embeds the QuickJS JavaScript engine (\<^verbatim>\<open>src/quickjs\<close>) behind a small C++
  boundary. The engine's own foundations are the C files \<^verbatim>\<open>cutils.c\<close>, \<^verbatim>\<open>cutils.h\<close>, \<^verbatim>\<open>list.h\<close>,
  \<^verbatim>\<open>libunicode.c\<close>, \<^verbatim>\<open>dtoa.c\<close>, \<^verbatim>\<open>libregexp.c\<close> and \<^verbatim>\<open>quickjs.c\<close>; they are the subject here.

  \<^bold>\<open>Conventions.\<close> A C array is a list, a machine integer is a word of its width, and an access
  outside of an array is the value \<open>None\<close> of the checked accesses in \<open>Prelude\<close>; a theorem that
  an operation returns \<open>Some\<close> is therefore also a memory-safety theorem.

  \<^bold>\<open>Theories.\<close>

  \<^item> \<open>Prelude\<close>: machine types, checked memory accesses, C strings, words as integers, limb
    vectors.
  \<^item> \<open>Cutils_String\<close>: \<^verbatim>\<open>pstrcpy\<close>, \<^verbatim>\<open>pstrcat\<close>, \<^verbatim>\<open>strstart\<close>, \<^verbatim>\<open>has_suffix\<close> of \<^verbatim>\<open>cutils.c\<close>; truncation,
    termination and bounds.
  \<^item> \<open>Cutils_Bytes\<close>: the inline helpers of \<^verbatim>\<open>cutils.h\<close>; byte order, bit counts and surrogate round
    trips.
  \<^item> \<open>Dyn_Buf\<close>: the growable buffer \<^verbatim>\<open>DynBuf\<close>; the contract of its allocator is a locale, the C
    library's \<^verbatim>\<open>realloc\<close> its interpretation.
  \<^item> \<open>Utf8\<close>: \<^verbatim>\<open>unicode_to_utf8\<close> and \<^verbatim>\<open>unicode_from_utf8\<close>; the decoder accepts exactly what the
    encoder writes.
  \<^item> \<open>Mp_Limbs\<close>, \<open>Mp_Div\<close>: the limb vectors of \<^verbatim>\<open>quickjs.c\<close> (\<^verbatim>\<open>mp_add\<close> to \<^verbatim>\<open>mp_divnorm\<close>) at any limb width; a
    locale of carry chains gives the value of every single-pass routine, and division is total.
  \<^item> \<open>Bigint\<close>, \<open>Bigint_Arith\<close>, \<open>Bigint_Ops\<close>: the \<^verbatim>\<open>JSBigInt\<close> routines from \<^verbatim>\<open>js_bigint_new\<close> to \<^verbatim>\<open>js_bigint_cmp\<close>;
    each refines the operation on the integers, with its failures spelled out. Powers are proved over
    the contract of a multiplication.
  \<^item> \<open>Bigint_Float\<close>, \<open>Bigint_String\<close>: conversions to and from doubles, machine integers and numerals, in the
    build with 64-bit limbs; correct rounding, exact reading and printing, buffer bounds, and the round
    trip. Two theorems record inputs on which the code is wrong: comparing two negative operands, and
    printing in octal.
  \<^item> \<open>Sort\<close>, \<open>Sort_Correct\<close>, \<open>Sort_Exchange\<close>: \<^verbatim>\<open>rqsort\<close> and \<^verbatim>\<open>heapsortx\<close> on elements and the exchange
    functions on bytes; the sort ends, permutes and keeps its stack within 50 entries for every comparison
    function, and sorts over the contract of a comparator, which \<^verbatim>\<open>point_cmp\<close> interprets.
  \<^item> \<open>Char_Range\<close>: the code point sets of \<^verbatim>\<open>libunicode.c\<close>; the Boolean operations, the complement and the
    normalisation of overlapping intervals refine the operations on sets, with failing allocations.
  \<^item> \<open>Unicode_Tables\<close>, \<open>Unicode_Props\<close>: the property tables of \<^verbatim>\<open>libunicode-table.h\<close> and their indexed
    lookup; the lookup agrees with a scan of the whole table for every code point.
  \<^item> \<open>Unicode_Case\<close>, \<open>Unicode_Canonicalize\<close>: the case conversions and the canonicalisation of character sets;
    no conversion leaves its tables, and canonicalising a set gives the image of its members.
  \<^item> \<open>List_Head\<close>, \<open>Job_Queue\<close>: the linked lists of \<^verbatim>\<open>list.h\<close> over a store, and the queue of pending jobs on
    them; a locale states the contract of a runner of a queue, which \<^verbatim>\<open>JS_ExecutePendingJob\<close> interprets, and
    every enqueued job is run in its turn.
  \<^item> \<open>String_Buffer\<close>: the builder of strings of \<^verbatim>\<open>quickjs.c\<close>, down to the bytes of the block that is widened in
    place; every sequence of operations builds the concatenation or reports an error.
  \<^item> \<open>Js_String\<close>, \<open>String_Rope\<close>, \<open>Rope_Balance\<close>, \<open>Rope_Faults\<close>: flat strings and ropes of \<^verbatim>\<open>quickjs.c\<close>; comparison is
    that of the code units, a rope that is made flat keeps them, and concatenation, with the rebalancing of deep
    ropes over the contract of a maker of ropes, gives the concatenated code units in a tree that fits the
    iterator. Two theorems record faults: ropes that are rebalanced without end, and text that is lost when memory
    runs out while a rope is rebalanced.
  \<^item> \<open>Date_Time\<close>, \<open>Date_String\<close>: the calendar, the printer and the parsers of \<^verbatim>\<open>Date\<close>; the fields of a time and
    back, getters after setters, reading what \<^verbatim>\<open>toISOString\<close> prints, and that the parser stays in its buffer and
    ends on every string. A theorem records a string whose time is out of range.
  \<^item> \<open>Url_Query\<close>, \<open>Http_Chunked\<close>, \<open>Solver_Cache\<close>: of the C++ boundary, the query strings, the decoding of chunked
    bodies, and solving the challenges of a URL with the shared cache, over the query strings; round trips, and
    that the cache does not change what a solved URL says. Three theorems record faults: a value that is decoded
    twice, a body on which the decoder does not end, and an engine that outlives its assets.

  \<^bold>\<open>Loops and bounds.\<close> Every loop is a recursion with a termination proof, apart from loops whose end depends on
  the values: \<open>divnorm_addback\<close>, \<open>to_string_loop\<close>, \<open>other_loop\<close> and \<open>rope_compare_loop\<close> are partial functions that are
  proved to return, and \<open>decode_chunked_loop\<close> is one that returns on every encoded body and not on every other. Only
  \<open>js_new_string_rope\<close> has fuel, for the nesting of rebalancing; 2 is enough below 3524578 code units, where the trees
  in the buckets stay less deep than 60, and for some ropes of 9227492 code units no fuel is enough. The
  lengths of arrays are natural numbers, and each theory says where the C integer of a length could overflow; the
  values that the code computes with are words.

  \<^bold>\<open>Not modelled.\<close> The regular expression compiler and executor (\<^verbatim>\<open>libregexp.c\<close>), the byte code interpreter,
  the parser, the objects and the garbage collector of \<^verbatim>\<open>quickjs.c\<close>, the floating point printer \<^verbatim>\<open>dtoa.c\<close>, and
  Unicode normalisation: they are larger than the foundations they stand on, which come first. The job queue and
  the solver take the engine as their argument. The operating system modules (\<^verbatim>\<open>quickjs-libc.c\<close>), the command
  line tools and the generator of the Unicode tables are input and output around the engine; so are the sockets
  and the Python bindings of the C++ boundary, and its conversion of JSON values works on types of libraries that
  are not in the repository.
\<close>

end
